(* ===== verification/Prelude.thy ===== *)
theory Prelude
  imports Main "HOL-Library.Word"
begin

text \<open>
  Shared vocabulary of the development: machine integers, the outcome type of a
  Rust call (a value, an \<open>Err\<close>, a panic, or a loop that never ends), bounded loops
  with early return, overflow-checked \<open>u8\<close> arithmetic, big-endian byte
  encodings and byte-wise XOR.
\<close>

unbundle bit_operations_syntax

section \<open>Types\<close>

type_synonym u8 = "8 word"
type_synonym u16 = "16 word"
type_synonym u32 = "32 word"
type_synonym u64 = "64 word"
type_synonym bytes = "8 word list"

named_theorems outcome_simps \<open>how each outcome of a call propagates\<close>
named_theorems width_simps \<open>lengths of byte strings and vectors of fixed size\<close>

section \<open>Outcomes of a call\<close>

text \<open>
  \<open>Ok\<close> and \<open>Err\<close> are Rust's \<open>Result\<close>; \<open>Panic\<close> is an \<open>unwrap\<close>, \<open>expect\<close>, an index
  out of range or a checked overflow; \<open>Diverge\<close> is a loop that does not end (only the
  rejection sampling of a nonzero scalar can do this).
\<close>

datatype ('e, 'a) outcome = Ok 'a | Err 'e | Panic | Diverge

fun and_then :: "('e, 'a) outcome \<Rightarrow> ('a \<Rightarrow> ('e, 'b) outcome) \<Rightarrow> ('e, 'b) outcome" where
  "and_then (Ok a) f = f a"
| "and_then (Err e) f = Err e"
| "and_then Panic f = Panic"
| "and_then Diverge f = Diverge"

text \<open>Rust's \<open>map_err\<close>, \<open>Option::ok_or\<close> and \<open>expect\<close>.\<close>

fun map_err :: "('e \<Rightarrow> 'd) \<Rightarrow> ('e, 'a) outcome \<Rightarrow> ('d, 'a) outcome" where
  "map_err h (Ok a) = Ok a"
| "map_err h (Err e) = Err (h e)"
| "map_err h Panic = Panic"
| "map_err h Diverge = Diverge"

fun ok_or :: "'e \<Rightarrow> 'a option \<Rightarrow> ('e, 'a) outcome" where
  "ok_or e None = Err e"
| "ok_or e (Some a) = Ok a"

fun unwrap :: "'a option \<Rightarrow> ('e, 'a) outcome" where
  "unwrap None = Panic"
| "unwrap (Some a) = Ok a"

fun expect :: "('d, 'a) outcome \<Rightarrow> ('e, 'a) outcome" where
  "expect (Ok a) = Ok a"
| "expect (Err e) = Panic"
| "expect Panic = Panic"
| "expect Diverge = Diverge"

text \<open>Indexing \<open>xs[i]\<close> panics out of range.\<close>

definition index :: "'a list \<Rightarrow> nat \<Rightarrow> ('e, 'a) outcome" where
  "index xs i = (if i < length xs then Ok (xs ! i) else Panic)"

lemma and_then_eq_Ok_iff [outcome_simps]:
  "and_then m f = Ok b \<longleftrightarrow> (\<exists>a. m = Ok a \<and> f a = Ok b)"
  by (cases m) auto

lemma and_then_eq_Err_iff [outcome_simps]:
  "and_then m f = Err e \<longleftrightarrow> m = Err e \<or> (\<exists>a. m = Ok a \<and> f a = Err e)"
  by (cases m) auto

lemma map_err_eq_Ok_iff [outcome_simps, simp]: "map_err h m = Ok a \<longleftrightarrow> m = Ok a"
  by (cases m) auto

lemma map_err_eq_Err_iff [outcome_simps]:
  "map_err h m = Err d \<longleftrightarrow> (\<exists>e. m = Err e \<and> d = h e)"
  by (cases m) auto

lemma ok_or_eq_Ok_iff [outcome_simps, simp]: "ok_or e x = Ok a \<longleftrightarrow> x = Some a"
  by (cases x) auto

lemma ok_or_eq_Err_iff [outcome_simps]: "ok_or e x = Err d \<longleftrightarrow> x = None \<and> d = e"
  by (cases x) auto

lemma unwrap_eq_Ok_iff [outcome_simps, simp]: "unwrap x = Ok a \<longleftrightarrow> x = Some a"
  by (cases x) auto

lemma unwrap_neq_Err [simp]: "unwrap x \<noteq> Err e"
  by (cases x) auto

lemma expect_eq_Ok_iff [outcome_simps, simp]: "expect m = Ok a \<longleftrightarrow> m = Ok a"
  by (cases m) auto

lemma expect_neq_Err [simp]: "expect m \<noteq> Err e"
  by (cases m) auto

lemma index_eq_Ok_iff [outcome_simps]: "index xs i = Ok a \<longleftrightarrow> i < length xs \<and> a = xs ! i"
  by (auto simp: index_def)

lemma index_in_range [simp]: "i < length xs \<Longrightarrow> index xs i = Ok (xs ! i)"
  by (simp add: index_def)

lemma index_neq_Err [simp]: "index xs i \<noteq> Err e"
  by (simp add: index_def)

lemma and_then_assoc: "and_then (and_then m f) g = and_then m (\<lambda>a. and_then (f a) g)"
  by (cases m) auto

section \<open>Loops with early return\<close>

text \<open>
  \<open>each f s xs\<close> is \<open>for x in xs { s = f(s, x)?; }\<close> and \<open>collect_try f xs\<close> is
  \<open>for x in xs { out.push(f(x)?); }\<close>.
\<close>

fun each :: "('s \<Rightarrow> 'a \<Rightarrow> ('e, 's) outcome) \<Rightarrow> 's \<Rightarrow> 'a list \<Rightarrow> ('e, 's) outcome" where
  "each f s [] = Ok s"
| "each f s (x # xs) = and_then (f s x) (\<lambda>s'. each f s' xs)"

fun collect_try :: "('a \<Rightarrow> ('e, 'b) outcome) \<Rightarrow> 'a list \<Rightarrow> ('e, 'b list) outcome" where
  "collect_try f [] = Ok []"
| "collect_try f (x # xs) = and_then (f x) (\<lambda>y. and_then (collect_try f xs) (\<lambda>ys. Ok (y # ys)))"

text \<open>A loop that also threads a state (the random source).\<close>

fun collect_st :: "('a \<Rightarrow> 's \<Rightarrow> ('e, 'b \<times> 's) outcome) \<Rightarrow> 'a list \<Rightarrow> 's \<Rightarrow> ('e, 'b list \<times> 's) outcome" where
  "collect_st f [] s = Ok ([], s)"
| "collect_st f (x # xs) s =
     and_then (f x s) (\<lambda>(y, s1). and_then (collect_st f xs s1) (\<lambda>(ys, s2). Ok (y # ys, s2)))"

text \<open>The same loop when the body cannot fail.\<close>

fun draw_list :: "('a \<Rightarrow> 's \<Rightarrow> 'b \<times> 's) \<Rightarrow> 'a list \<Rightarrow> 's \<Rightarrow> 'b list \<times> 's" where
  "draw_list f [] s = ([], s)"
| "draw_list f (x # xs) s =
     (let (y, s1) = f x s; (ys, s2) = draw_list f xs s1 in (y # ys, s2))"

lemma each_append: "each f s (xs @ ys) = and_then (each f s xs) (\<lambda>s'. each f s' ys)"
  by (induction xs arbitrary: s) (auto simp: and_then_assoc)

lemma each_invariant:
  assumes "each f s xs = Ok t" and "I s"
    and "\<And>s x t. x \<in> set xs \<Longrightarrow> I s \<Longrightarrow> f s x = Ok t \<Longrightarrow> I t"
  shows "I t"
  using assms by (induction xs arbitrary: s) (auto simp: outcome_simps)

lemma collect_try_eq_Ok_iff:
  "collect_try f xs = Ok ys \<longleftrightarrow> list_all2 (\<lambda>x y. f x = Ok y) xs ys"
proof (induction xs arbitrary: ys)
  case Nil
  then show ?case by auto
next
  case (Cons x xs)
  then show ?case by (cases ys) (auto simp: outcome_simps)
qed

lemma collect_try_total:
  assumes "\<And>x. x \<in> set xs \<Longrightarrow> f x = Ok (g x)"
  shows "collect_try f xs = Ok (map g xs)"
  using assms by (induction xs) auto

lemma collect_try_cong [fundef_cong]:
  "xs = ys \<Longrightarrow> (\<And>x. x \<in> set ys \<Longrightarrow> f x = g x) \<Longrightarrow> collect_try f xs = collect_try g ys"
  by (induction ys arbitrary: xs) auto

lemma collect_st_length:
  "collect_st f xs s = Ok (ys, t) \<Longrightarrow> length ys = length xs"
  by (induction xs arbitrary: s ys) (auto simp: outcome_simps)

lemma collect_st_total:
  assumes "\<And>x s. x \<in> set xs \<Longrightarrow> \<exists>y t. f x s = Ok (y, t)"
  shows "\<exists>ys t. collect_st f xs s = Ok (ys, t)"
  using assms
proof (induction xs arbitrary: s)
  case Nil
  then show ?case by simp
next
  case (Cons x xs)
  obtain y t where "f x s = Ok (y, t)" using Cons.prems by force
  moreover obtain ys u where "collect_st f xs t = Ok (ys, u)"
    using Cons by (metis list.set_intros(2))
  ultimately show ?case by simp
qed

lemma collect_st_nth:
  assumes "collect_st f xs s = Ok (ys, t)" and "i < length xs"
  shows "\<exists>a b. f (xs ! i) a = Ok (ys ! i, b)"
  using assms
proof (induction xs arbitrary: s ys i)
  case Nil
  then show ?case by simp
next
  case (Cons x xs)
  then show ?case by (cases i) (fastforce simp: outcome_simps)+
qed

lemma draw_list_length [width_simps]: "length (fst (draw_list f xs s)) = length xs"
  by (induction xs arbitrary: s) (auto simp: split_def Let_def)

lemma draw_list_nth:
  "i < length xs \<Longrightarrow> \<exists>a. fst (draw_list f xs s) ! i = fst (f (xs ! i) a)"
proof (induction xs arbitrary: s i)
  case Nil
  then show ?case by simp
next
  case (Cons x xs)
  then show ?case by (cases i) (auto simp: split_def Let_def)
qed

section \<open>Overflow on \<open>u8\<close>\<close>

text \<open>
  Rust's \<open>+\<close> and \<open>-\<close> on \<open>u8\<close> panic on overflow when overflow checks are compiled in
  (debug builds) and wrap otherwise (release builds). The flag \<open>oc\<close> says which.
\<close>

definition u8_add :: "bool \<Rightarrow> u8 \<Rightarrow> u8 \<Rightarrow> ('e, u8) outcome" where
  "u8_add oc a b = (if oc \<and> 256 \<le> unat a + unat b then Panic else Ok (a + b))"

definition u8_sub :: "bool \<Rightarrow> u8 \<Rightarrow> u8 \<Rightarrow> ('e, u8) outcome" where
  "u8_sub oc a b = (if oc \<and> unat a < unat b then Panic else Ok (a - b))"

text \<open>The ranges \<open>a..b\<close> and \<open>a..=b\<close> over \<open>u8\<close>.\<close>

definition u8_range :: "u8 \<Rightarrow> u8 \<Rightarrow> u8 list" where
  "u8_range a b = map of_nat [unat a ..< unat b]"

definition u8_range_incl :: "u8 \<Rightarrow> u8 \<Rightarrow> u8 list" where
  "u8_range_incl a b = map of_nat [unat a ..< Suc (unat b)]"

lemma unat_u8_bound [simp]: "unat (a :: u8) < 256"
  using unsigned_less [where w = a and ?'a = nat] by simp

lemma u8_add_exact: "unat a + unat b < 256 \<Longrightarrow> u8_add oc a b = Ok (a + b)"
  by (simp add: u8_add_def)

lemma u8_sub_exact: "unat b \<le> unat a \<Longrightarrow> u8_sub oc a b = Ok (a - b)"
  by (simp add: u8_sub_def)

lemma unat_of_nat_u8: "n < 256 \<Longrightarrow> unat (of_nat n :: u8) = n"
  by (simp add: unat_of_nat take_bit_nat_eq_self)

lemma of_nat_unat_u8 [simp]: "of_nat (unat (a :: u8)) = a"
  by simp

lemma unat_u8_plus: "unat (a + b :: u8) = (unat a + unat b) mod 256"
  by (simp add: unat_word_ariths)

lemma unat_u8_succ: "a \<noteq> 255 \<Longrightarrow> unat (a + 1 :: u8) = unat a + 1"
proof -
  assume "a \<noteq> 255"
  then have "unat a \<noteq> 255" using word_unat_eq_iff [of a 255] by simp
  then have "unat a + 1 < 256" using unat_u8_bound [of a] by linarith
  then show ?thesis by (simp add: unat_u8_plus)
qed

lemma set_u8_range: "set (u8_range a b) = {i. unat a \<le> unat i \<and> unat i < unat b}"
proof -
  have "(of_nat n :: u8) \<in> {i. unat a \<le> unat i \<and> unat i < unat b}"
    if "unat a \<le> n" "n < unat b" for n
  proof -
    from that have "n < 256" using unat_u8_bound [of b] by linarith
    with that show ?thesis by (simp add: unat_of_nat_u8)
  qed
  moreover have "i \<in> of_nat ` {unat a..<unat b}" if "unat a \<le> unat i" "unat i < unat b" for i
    using that by (intro image_eqI [where x = "unat i"]) simp_all
  ultimately show ?thesis by (auto simp: u8_range_def)
qed

lemma u8_range_incl_eq: "set (u8_range_incl a b) = {i. unat a \<le> unat i \<and> unat i \<le> unat b}"
proof -
  have "(of_nat n :: u8) \<in> {i. unat a \<le> unat i \<and> unat i \<le> unat b}"
    if "unat a \<le> n" "n \<le> unat b" for n
  proof -
    from that have "n < 256" using unat_u8_bound [of b] by linarith
    with that show ?thesis by (simp add: unat_of_nat_u8)
  qed
  moreover have "i \<in> of_nat ` {unat a..<Suc (unat b)}" if "unat a \<le> unat i" "unat i \<le> unat b" for i
  proof (rule image_eqI)
    show "i = of_nat (unat i)" by simp
    show "unat i \<in> {unat a..<Suc (unat b)}" using that by (simp only: atLeastLessThan_iff less_Suc_eq_le)
  qed
  ultimately show ?thesis
    unfolding u8_range_incl_def set_map set_upt
    by (intro equalityI subsetI) (auto simp only: atLeastLessThan_iff less_Suc_eq_le mem_Collect_eq)
qed

lemma inj_on_of_nat_u8: "inj_on (of_nat :: nat \<Rightarrow> u8) {..<256}"
  by (rule inj_on_inverseI [where g = unat]) (simp add: unat_of_nat_u8)

lemma distinct_u8_map:
  "(\<And>n. n \<in> set ns \<Longrightarrow> n < 256) \<Longrightarrow> distinct ns \<Longrightarrow> distinct (map of_nat ns :: u8 list)"
  by (auto simp: distinct_map intro: inj_on_subset [OF inj_on_of_nat_u8])

lemma distinct_u8_range_incl: "distinct (u8_range_incl a b)"
  unfolding u8_range_incl_def
proof (rule distinct_u8_map)
  fix n assume "n \<in> set [unat a..<Suc (unat b)]"
  then have "n \<le> unat b" by auto
  then show "n < 256" using unat_u8_bound [of b] by (rule le_less_trans)
qed simp

section \<open>Bytes\<close>

definition bytes_of :: "string \<Rightarrow> bytes" where
  "bytes_of s = map of_char s"

definition u16_be :: "u16 \<Rightarrow> bytes" where
  "u16_be w = [ucast (drop_bit 8 w), ucast w]"

definition u32_be :: "u32 \<Rightarrow> bytes" where
  "u32_be w = [ucast (drop_bit 24 w), ucast (drop_bit 16 w), ucast (drop_bit 8 w), ucast w]"

definition u64_be :: "u64 \<Rightarrow> bytes" where
  "u64_be w = map (\<lambda>i. ucast (drop_bit (56 - 8 * i) w)) [0..<8]"

lemma length_u16_be [simp, width_simps]: "length (u16_be w) = 2"
  by (simp add: u16_be_def)

lemma length_u32_be [simp, width_simps]: "length (u32_be w) = 4"
  by (simp add: u32_be_def)

lemma length_u64_be [simp, width_simps]: "length (u64_be w) = 8"
  by (simp add: u64_be_def)

lemma length_bytes_of [simp, width_simps]: "length (bytes_of s) = length s"
  by (simp add: bytes_of_def)

lemma inj_of_char_u8: "inj (of_char :: char \<Rightarrow> u8)"
proof (rule injI)
  fix x y :: char
  assume "(of_char x :: u8) = of_char y"
  then have "unat (of_char x :: u8) = unat (of_char y :: u8)" by simp
  moreover have "unat (of_char c :: u8) = of_char c" for c
  proof -
    have "(of_char c :: nat) < 256" using range_nat_of_char by auto
    moreover have "(of_char c :: u8) = of_nat (of_char c)" by (rule of_nat_of_char [symmetric])
    ultimately show ?thesis by (metis unat_of_nat_u8)
  qed
  ultimately have "(of_char x :: nat) = of_char y" by simp
  then show "x = y" by simp
qed

lemma bytes_of_inject: "bytes_of s = bytes_of t \<longleftrightarrow> s = t"
  unfolding bytes_of_def using inj_map_eq_map [OF inj_of_char_u8] by blast

text \<open>\<open>for i in 0..n { out[i] = a[i] ^ b[i]; }\<close>\<close>

definition xor_n :: "nat \<Rightarrow> bytes \<Rightarrow> bytes \<Rightarrow> bytes" where
  "xor_n n a b = map (\<lambda>i. a ! i XOR b ! i) [0..<n]"

lemma length_xor_n [simp, width_simps]: "length (xor_n n a b) = n"
  by (simp add: xor_n_def)

lemma nth_xor_n [simp]: "i < n \<Longrightarrow> xor_n n a b ! i = a ! i XOR b ! i"
  by (simp add: xor_n_def)

lemma xor_n_commute: "xor_n n a b = xor_n n b a"
  by (simp add: xor_n_def xor.commute)

lemma xor_n_self_cancel: "length a = n \<Longrightarrow> xor_n n (xor_n n a b) b = a"
  by (auto intro!: nth_equalityI simp: xor.assoc)

end
