(* ===== verification/BTreeMap.thy ===== *)
theory BTreeMap
  imports Prelude
begin

text \<open>
  Rust's \<open>BTreeMap\<close>, the container the protocols keep per-party data in: a list of
  key/value pairs in strictly increasing key order, so that iteration visits the keys
  in order as the source relies on. The interface the protocol code uses is the locale
  \<open>ordered_map\<close>; the loop that files received messages under their sender is
  verified once inside it.
\<close>

section \<open>The map\<close>

type_synonym ('k, 'v) btree_map = "('k \<times> 'v) list"

fun btree_insert :: "'k::linorder \<Rightarrow> 'v \<Rightarrow> ('k, 'v) btree_map \<Rightarrow> ('k, 'v) btree_map" where
  "btree_insert k v [] = [(k, v)]"
| "btree_insert k v ((k', v') # m) =
     (if k < k' then (k, v) # (k', v') # m
      else if k = k' then (k, v) # m
      else (k', v') # btree_insert k v m)"

definition btree_get :: "('k, 'v) btree_map \<Rightarrow> 'k \<Rightarrow> 'v option" where
  "btree_get m k = map_of m k"

definition btree_contains :: "('k, 'v) btree_map \<Rightarrow> 'k \<Rightarrow> bool" where
  "btree_contains m k = (k \<in> set (map fst m))"

definition btree_len :: "('k, 'v) btree_map \<Rightarrow> nat" where
  "btree_len m = length m"

definition btree_keys :: "('k, 'v) btree_map \<Rightarrow> 'k list" where
  "btree_keys m = map fst m"

definition btree_wf :: "('k::linorder, 'v) btree_map \<Rightarrow> bool" where
  "btree_wf m = sorted_wrt (<) (map fst m)"

lemma btree_wf_Nil [simp]: "btree_wf []"
  by (simp add: btree_wf_def)

lemma btree_get_Nil [simp]: "btree_get [] k = None"
  by (simp add: btree_get_def)

lemma keys_btree_insert: "fst ` set (btree_insert k v m) = insert k (fst ` set m)"
  by (induction k v m rule: btree_insert.induct) auto

lemma strict_sorted_distinct: "sorted_wrt (<) xs \<Longrightarrow> distinct (xs :: 'k::linorder list)"
  by (simp add: strict_sorted_iff)

lemma btree_wf_Cons:
  "btree_wf ((k, v) # m) \<longleftrightarrow> (\<forall>x \<in> fst ` set m. k < x) \<and> btree_wf m"
  by (auto simp: btree_wf_def)

lemma btree_wf_insert [intro]: "btree_wf m \<Longrightarrow> btree_wf (btree_insert k v m)"
  by (induction k v m rule: btree_insert.induct)
    (auto simp: btree_wf_Cons keys_btree_insert intro: less_trans)

lemma btree_get_insert:
  "btree_wf m \<Longrightarrow> btree_get (btree_insert k v m) j = (if j = k then Some v else btree_get m j)"
  by (induction k v m rule: btree_insert.induct) (auto simp: btree_get_def btree_wf_def)

lemma btree_contains_iff: "btree_contains m k \<longleftrightarrow> btree_get m k \<noteq> None"
  by (simp add: btree_contains_def btree_get_def map_of_eq_None_iff)

lemma btree_wf_distinct: "btree_wf m \<Longrightarrow> distinct (map fst m)"
  by (auto simp: btree_wf_def intro: strict_sorted_distinct)

lemma btree_get_Some_iff: "btree_wf m \<Longrightarrow> btree_get m k = Some v \<longleftrightarrow> (k, v) \<in> set m"
  by (simp add: btree_get_def btree_wf_distinct)

lemma btree_keys_contains: "k \<in> set (btree_keys m) \<longleftrightarrow> btree_contains m k"
  by (simp add: btree_keys_def btree_contains_def)

lemma btree_insert_keys_cong:
  "btree_keys m = btree_keys n \<Longrightarrow> btree_keys (btree_insert k v m) = btree_keys (btree_insert k w n)"
proof (induction k v m arbitrary: n rule: btree_insert.induct)
  case (1 k v)
  then show ?case by (cases n) (simp_all add: btree_keys_def)
next
  case (2 k v k' v' m)
  then show ?case by (cases n) (auto simp: btree_keys_def)
qed

lemma btree_insert_last:
  "\<forall>k'\<in>fst ` set m. k' < k \<Longrightarrow> btree_insert k v m = m @ [(k, v)]"
  by (induction k v m rule: btree_insert.induct) (auto dest: less_asym)

lemma btree_insert_len:
  "btree_wf m \<Longrightarrow> btree_len (btree_insert k v m) =
     (if btree_contains m k then btree_len m else Suc (btree_len m))"
  by (induction k v m rule: btree_insert.induct)
    (auto simp: btree_len_def btree_contains_def btree_wf_def)

section \<open>The interface the protocols use\<close>

locale ordered_map =
  fixes empty :: "'m"
    and ins :: "'k::linorder \<Rightarrow> 'v \<Rightarrow> 'm \<Rightarrow> 'm"
    and get :: "'m \<Rightarrow> 'k \<Rightarrow> 'v option"
    and len :: "'m \<Rightarrow> nat"
    and keys :: "'m \<Rightarrow> 'k list"
    and wf :: "'m \<Rightarrow> bool"
  assumes wf_empty: "wf empty"
    and wf_ins: "wf m \<Longrightarrow> wf (ins k v m)"
    and get_empty: "get empty k = None"
    and get_ins: "wf m \<Longrightarrow> get (ins k v m) j = (if j = k then Some v else get m j)"
    and keys_sorted: "wf m \<Longrightarrow> sorted_wrt (<) (keys m)"
    and keys_get: "wf m \<Longrightarrow> k \<in> set (keys m) \<longleftrightarrow> get m k \<noteq> None"
    and len_keys: "len m = length (keys m)"
begin

text \<open>Filing values under a key, refusing a key seen before and any other bad value.\<close>

lemma gather_step:
  assumes "each (\<lambda>m x. if bad x then Err (e x) else if get m (key x) \<noteq> None then Err (dup x)
                        else Ok (ins (key x) x m)) m0 xs = Ok m"
    and "wf m0"
  shows "wf m \<and> distinct (map key xs) \<and> (\<forall>x\<in>set xs. \<not> bad x \<and> get m0 (key x) = None) \<and>
    (\<forall>k. get m k = (case get m0 k of None \<Rightarrow> map_of (map (\<lambda>x. (key x, x)) xs) k | Some v \<Rightarrow> Some v))"
  using assms
proof (induction xs arbitrary: m0)
  case Nil
  then show ?case by (auto split: option.splits)
next
  case (Cons x xs)
  from Cons.prems(1) have ok: "\<not> bad x" "get m0 (key x) = None"
    by (auto split: if_splits)
  with Cons.prems have rest: "each (\<lambda>m x. if bad x then Err (e x) else if get m (key x) \<noteq> None
      then Err (dup x) else Ok (ins (key x) x m)) (ins (key x) x m0) xs = Ok m"
    by simp
  note IH = Cons.IH [OF rest wf_ins [OF Cons.prems(2)]]
  have fresh: "key y \<noteq> key x \<and> get m0 (key y) = None" if "y \<in> set xs" for y
  proof -
    have "get (ins (key x) x m0) (key y) = None" using IH that by blast
    then show ?thesis using get_ins [OF Cons.prems(2), of "key x" x "key y"]
      by (auto split: if_splits)
  qed
  have "get m k = (case get m0 k of None \<Rightarrow> map_of (map (\<lambda>x. (key x, x)) (x # xs)) k | Some v \<Rightarrow> Some v)" for k
    using IH get_ins [OF Cons.prems(2), of "key x" x k] ok(2) by (auto split: option.splits)
  with IH ok fresh show ?case by force
qed

lemma gather:
  assumes "each (\<lambda>m x. if bad x then Err (e x) else if get m (key x) \<noteq> None then Err (dup x)
                        else Ok (ins (key x) x m)) empty xs = Ok m"
  shows "wf m" and "distinct (map key xs)" and "\<forall>x\<in>set xs. \<not> bad x"
    and "get m k = Some v \<longleftrightarrow> v \<in> set xs \<and> key v = k"
    and "len m = length xs"
proof -
  note step = gather_step [OF assms wf_empty]
  show wf: "wf m" and d: "distinct (map key xs)" and "\<forall>x\<in>set xs. \<not> bad x"
    using step by blast+
  have get: "get m j = map_of (map (\<lambda>x. (key x, x)) xs) j" for j
    using step get_empty by simp
  have "distinct (map fst (map (\<lambda>x. (key x, x)) xs))"
    using d by (simp add: comp_def)
  then show "get m k = Some v \<longleftrightarrow> v \<in> set xs \<and> key v = k"
    using get by auto
  have "set (keys m) = set (map key xs)"
    by (auto simp: keys_get [OF wf] get map_of_eq_None_iff image_iff)
  moreover have "distinct (keys m)"
    using keys_sorted [OF wf] by (rule strict_sorted_distinct)
  ultimately have "length (keys m) = length (map key xs)"
    using d by (metis distinct_card)
  then show "len m = length xs" by (simp add: len_keys)
qed

text \<open>When the counts agree and every key filed is an expected one, none is missing.\<close>

lemma gather_complete:
  assumes "wf m" and "distinct ks" and "len m = length ks"
    and "\<And>k. get m k \<noteq> None \<Longrightarrow> k \<in> set ks" and "k \<in> set ks"
  shows "get m k \<noteq> None"
proof -
  have d: "distinct (keys m)"
    using assms(1) keys_sorted strict_sorted_distinct by blast
  have "set (keys m) \<subseteq> set ks"
    using assms(1,4) keys_get by blast
  moreover have "card (set (keys m)) = card (set ks)"
    using assms(2,3) len_keys d by (simp add: distinct_card)
  ultimately have "set (keys m) = set ks"
    by (metis List.finite_set card_subset_eq)
  then show ?thesis using assms(1,5) keys_get by blast
qed

end

interpretation btree: ordered_map
  where empty = "[]" and ins = btree_insert and get = btree_get and len = btree_len
    and keys = btree_keys and wf = btree_wf
proof unfold_locales
  show "btree_wf m \<Longrightarrow> sorted_wrt (<) (btree_keys m)" for m :: "('a, 'b) btree_map"
    by (simp add: btree_wf_def btree_keys_def)
  show "btree_wf m \<Longrightarrow> k \<in> set (btree_keys m) \<longleftrightarrow> btree_get m k \<noteq> None"
    for m :: "('a, 'b) btree_map" and k
    by (simp add: btree_keys_contains btree_contains_iff)
  show "btree_len m = length (btree_keys m)" for m :: "('a, 'b) btree_map"
    by (simp add: btree_len_def btree_keys_def)
qed (auto simp: btree_get_insert)

section \<open>Maps with converted values\<close>

definition map_values :: "('v \<Rightarrow> 'w) \<Rightarrow> ('k, 'v) btree_map \<Rightarrow> ('k, 'w) btree_map" where
  "map_values h m = map (\<lambda>(k, v). (k, h v)) m"

lemma map_values_Nil [simp]: "map_values h [] = []"
  by (simp add: map_values_def)

lemma btree_insert_map_values: "btree_insert k (h v) (map_values h m) = map_values h (btree_insert k v m)"
  by (induction k v m rule: btree_insert.induct) (simp_all add: map_values_def)

lemma btree_get_map_values [simp]: "btree_get (map_values h m) k = map_option h (btree_get m k)"
  by (simp add: btree_get_def map_values_def map_of_map)

lemma btree_keys_map_values [simp]: "btree_keys (map_values h m) = btree_keys m"
  by (simp add: btree_keys_def map_values_def comp_def split_def)

lemma btree_contains_map_values [simp]: "btree_contains (map_values h m) k = btree_contains m k"
  using btree_keys_map_values [of h m] by (simp add: btree_contains_def btree_keys_def)

lemma btree_len_map_values [simp]: "btree_len (map_values h m) = btree_len m"
  by (simp add: btree_len_def map_values_def)

lemma map_values_map: "map_values h (map (\<lambda>j. (j, K j)) js) = map (\<lambda>j. (j, h (K j))) js"
  by (simp add: map_values_def)

end
