(* ===== verification/Suite.thy ===== *)
theory Suite
  imports Prelude
begin

text \<open>
  The third-party arithmetic and hashing the crate is generic over (\<open>DklsCurve\<close> in
  \<open>curve.rs\<close>, \<open>sha2\<close>, \<open>hmac\<close>, \<open>ripemd\<close>, \<open>rand\<close>) as parameters of the model. Scalars are
  a type of class \<open>field\<close>, points a commutative group (affine and projective forms
  are one type, so \<open>to_affine\<close> disappears and \<open>identity\<close> is 0); the remaining
  operations are the fields of the record \<open>suite\<close>. What the code relies on is the
  predicate \<open>suite_ok\<close>. The random source is a record of endless tapes, read from
  the front; a draw returns the source advanced.
\<close>

section \<open>Curve, encodings and hashes\<close>

record ('f, 'g) suite =
  generator :: 'g
  smul :: "'g \<Rightarrow> 'f \<Rightarrow> 'g"
  to_repr :: "'f \<Rightarrow> bytes"
  reduce :: "bytes \<Rightarrow> 'f"
  from_repr :: "bytes \<Rightarrow> 'f option"
  is_high :: "'f \<Rightarrow> bool"
  enc_point :: "'g \<Rightarrow> bytes"
  affine_x :: "'g \<Rightarrow> bytes"
  sha256 :: "bytes \<Rightarrow> bytes"
  hmac_sha512 :: "bytes \<Rightarrow> bytes \<Rightarrow> bytes"
  ripemd160 :: "bytes \<Rightarrow> bytes"
  hex_encode :: "bytes \<Rightarrow> string"
  hex_decode :: "nat \<Rightarrow> string \<Rightarrow> bytes option"

text \<open>The group laws: scalar multiplication is a module action with a nonzero generator.\<close>

definition curve_ok :: "('f::field, 'g::ab_group_add) suite \<Rightarrow> bool" where
  "curve_ok S \<longleftrightarrow>
     (\<forall>P Q a. smul S (P + Q) a = smul S P a + smul S Q a) \<and>
     (\<forall>P a b. smul S P (a + b) = smul S P a + smul S P b) \<and>
     (\<forall>P a b. smul S (smul S P a) b = smul S P (a * b)) \<and>
     (\<forall>P. smul S P 1 = P) \<and> generator S \<noteq> 0"

text \<open>
  Documented behaviour of the encodings: scalars and x-coordinates take 32 bytes, scalar
  encodings are canonical, compressed points take 33 bytes and are injective, a point and its negative share
  their x-coordinate, hash outputs have their fixed lengths, of a scalar and its negative at
  most one is high, hexadecimal strings decode to what they encode, and the embeddings of the
  integers below 256 (the party indices) are distinct because the order exceeds 255.
  \<open>hex_decode S n\<close> is \<open>decode_to_slice\<close> into a buffer of \<open>n\<close> bytes.
\<close>

definition encodings_ok :: "('f::field, 'g::ab_group_add) suite \<Rightarrow> bool" where
  "encodings_ok S \<longleftrightarrow>
     (\<forall>s. length (to_repr S s) = 32) \<and>
     (\<forall>s. from_repr S (to_repr S s) = Some s) \<and>
     (\<forall>b s. from_repr S b = Some s \<longrightarrow> to_repr S s = b) \<and>
     (\<forall>s. reduce S (to_repr S s) = s) \<and>
     (\<forall>P. length (affine_x S P) = 32) \<and>
     (\<forall>P. affine_x S (- P) = affine_x S P) \<and>
     inj (enc_point S) \<and> (\<forall>P. length (enc_point S P) = 33) \<and>
     (\<forall>s. is_high S s \<longrightarrow> \<not> is_high S (- s)) \<and>
     (\<forall>b. hex_decode S (length b) (hex_encode S b) = Some b) \<and>
     (\<forall>m. length (sha256 S m) = 32)"

definition scalars_ok :: "('f::field, 'g) suite \<Rightarrow> bool" where
  "scalars_ok S \<longleftrightarrow> inj_on (of_nat :: nat \<Rightarrow> 'f) {..<256}"

definition suite_ok :: "('f::field, 'g::ab_group_add) suite \<Rightarrow> bool" where
  "suite_ok S \<longleftrightarrow> curve_ok S \<and> encodings_ok S \<and> scalars_ok S"

lemma suite_okD:
  assumes "suite_ok S"
  shows "curve_ok S" and "encodings_ok S" and "scalars_ok S"
  using assms by (simp_all add: suite_ok_def)

lemma smul_add_point: "curve_ok S \<Longrightarrow> smul S (P + Q) a = smul S P a + smul S Q a"
  by (simp add: curve_ok_def)

lemma smul_add_scalar: "curve_ok S \<Longrightarrow> smul S P (a + b) = smul S P a + smul S P b"
  by (simp add: curve_ok_def)

lemma smul_smul: "curve_ok S \<Longrightarrow> smul S (smul S P a) b = smul S P (a * b)"
  by (simp add: curve_ok_def)

lemma smul_one: "curve_ok S \<Longrightarrow> smul S P 1 = P"
  by (simp add: curve_ok_def)

lemma smul_zero_scalar: "curve_ok S \<Longrightarrow> smul S P 0 = 0"
  using smul_add_scalar [of S P 0 0] by simp

lemma smul_zero_point: "curve_ok S \<Longrightarrow> smul S 0 a = 0"
  using smul_add_point [of S 0 0 a] by simp

lemma smul_minus_scalar: "curve_ok S \<Longrightarrow> smul S P (- a) = - smul S P a"
  using smul_add_scalar [of S P a "- a"] smul_zero_scalar [of S P]
  by (simp add: eq_neg_iff_add_eq_0 add.commute)

lemma smul_minus_point: "curve_ok S \<Longrightarrow> smul S (- P) a = - smul S P a"
  using smul_add_point [of S P "- P" a] smul_zero_point [of S a]
  by (simp add: eq_neg_iff_add_eq_0 add.commute)

lemma smul_diff_scalar: "curve_ok S \<Longrightarrow> smul S P (a - b) = smul S P a - smul S P b"
  using smul_add_scalar [of S P a "- b"] by (simp add: smul_minus_scalar)

lemma smul_diff_point: "curve_ok S \<Longrightarrow> smul S (P - Q) a = smul S P a - smul S Q a"
  using smul_add_point [of S P "- Q" a] by (simp add: smul_minus_point)

lemmas smul_distrib = smul_add_point smul_add_scalar smul_diff_point smul_diff_scalar
  smul_minus_point smul_minus_scalar smul_zero_point smul_zero_scalar

lemma smul_sum_scalar: "curve_ok S \<Longrightarrow> smul S P (\<Sum>x\<in>A. f x) = (\<Sum>x\<in>A. smul S P (f x))"
  by (induction A rule: infinite_finite_induct) (auto simp: smul_distrib)

lemma smul_sum_list: "curve_ok S \<Longrightarrow> smul S P (sum_list xs) = (\<Sum>x\<leftarrow>xs. smul S P x)"
  by (induction xs) (auto simp: smul_distrib)

lemma smul_eq_zero_iff:
  assumes "curve_ok S"
  shows "smul S P a = 0 \<longleftrightarrow> a = 0 \<or> P = 0"
proof
  assume z: "smul S P a = 0"
  show "a = 0 \<or> P = 0"
  proof (cases "a = 0")
    case False
    have "P = smul S P (a * inverse a)" using False assms by (simp add: smul_one)
    also have "\<dots> = smul S (smul S P a) (inverse a)" using assms by (simp add: smul_smul)
    also have "\<dots> = 0" using z assms by (simp add: smul_zero_point)
    finally show ?thesis by simp
  qed simp
qed (auto simp: assms smul_zero_scalar smul_zero_point)

lemma smul_generator_inject:
  assumes "curve_ok S"
  shows "smul S (generator S) a = smul S (generator S) b \<longleftrightarrow> a = b"
proof -
  have "smul S (generator S) (a - b) = 0 \<longleftrightarrow> a - b = 0"
    using assms by (auto simp: smul_eq_zero_iff curve_ok_def)
  then show ?thesis using assms by (simp add: smul_diff_scalar)
qed

lemma length_to_repr [width_simps]: "encodings_ok S \<Longrightarrow> length (to_repr S s) = 32"
  by (simp add: encodings_ok_def)

lemma length_sha256 [width_simps]: "encodings_ok S \<Longrightarrow> length (sha256 S m) = 32"
  by (simp add: encodings_ok_def)

lemma length_affine_x [width_simps]: "encodings_ok S \<Longrightarrow> length (affine_x S P) = 32"
  by (simp add: encodings_ok_def)

lemma from_to_repr: "encodings_ok S \<Longrightarrow> from_repr S (to_repr S s) = Some s"
  by (simp add: encodings_ok_def)

lemma to_from_repr: "encodings_ok S \<Longrightarrow> from_repr S b = Some s \<Longrightarrow> to_repr S s = b"
  by (simp add: encodings_ok_def)

lemma reduce_to_repr: "encodings_ok S \<Longrightarrow> reduce S (to_repr S s) = s"
  by (simp add: encodings_ok_def)

lemma hex_decode_encode: "encodings_ok S \<Longrightarrow> length b = n \<Longrightarrow> hex_decode S n (hex_encode S b) = Some b"
  by (auto simp: encodings_ok_def)

lemma length_enc_point [width_simps]: "encodings_ok S \<Longrightarrow> length (enc_point S P) = 33"
  by (simp add: encodings_ok_def)

lemma is_high_minus: "encodings_ok S \<Longrightarrow> is_high S s \<Longrightarrow> \<not> is_high S (- s)"
  by (simp add: encodings_ok_def)

lemma affine_x_minus: "encodings_ok S \<Longrightarrow> affine_x S (- P) = affine_x S P"
  by (simp add: encodings_ok_def)

text \<open>\<open>C::Scalar::from(u64::from(j))\<close> for a \<open>u8\<close>, and \<open>invert\<close>.\<close>

definition scalar_of_u8 :: "u8 \<Rightarrow> 'f::field" where
  "scalar_of_u8 j = of_nat (unat j)"

definition invert :: "'f::field \<Rightarrow> 'f option" where
  "invert s = (if s = 0 then None else Some (inverse s))"

lemma scalar_of_u8_inject:
  assumes "scalars_ok (S :: ('f::field, 'g) suite)"
  shows "(scalar_of_u8 i :: 'f) = scalar_of_u8 j \<longleftrightarrow> i = j"
proof
  assume "(scalar_of_u8 i :: 'f) = scalar_of_u8 j"
  then have "unat i = unat j"
    using assms inj_onD [of "of_nat :: nat \<Rightarrow> 'f" "{..<256}" "unat i" "unat j"]
    unfolding scalars_ok_def scalar_of_u8_def by simp
  then show "i = j" by (metis of_nat_unat_u8)
qed simp

section \<open>The random source\<close>

record 'f rng =
  rng_scalars :: "nat \<Rightarrow> 'f"
  rng_bytes :: "nat \<Rightarrow> u8"
  rng_bits :: "nat \<Rightarrow> bool"

definition random_scalar :: "'f rng \<Rightarrow> 'f \<times> 'f rng" where
  "random_scalar r = (rng_scalars r 0, r\<lparr>rng_scalars := (\<lambda>i. rng_scalars r (Suc i))\<rparr>)"

definition random_bytes :: "nat \<Rightarrow> 'f rng \<Rightarrow> bytes \<times> 'f rng" where
  "random_bytes n r = (map (rng_bytes r) [0..<n], r\<lparr>rng_bytes := (\<lambda>i. rng_bytes r (i + n))\<rparr>)"

definition random_bool :: "'f rng \<Rightarrow> bool \<times> 'f rng" where
  "random_bool r = (rng_bits r 0, r\<lparr>rng_bits := (\<lambda>i. rng_bits r (Suc i))\<rparr>)"

text \<open>\<open>while s == ZERO { s = random(); }\<close>, which ends when the tape shows a nonzero scalar.\<close>

partial_function (option) random_nonzero :: "'f::field rng \<Rightarrow> ('f \<times> 'f rng) option" where
  "random_nonzero r =
     (let (s, r1) = random_scalar r in if s = 0 then random_nonzero r1 else Some (s, r1))"

definition nonzero_scalar :: "'f::field rng \<Rightarrow> ('e, 'f \<times> 'f rng) outcome" where
  "nonzero_scalar r = (case random_nonzero r of None \<Rightarrow> Diverge | Some x \<Rightarrow> Ok x)"

text \<open>A source that shows nonzero scalars again and again.\<close>

definition rng_live :: "'f::field rng \<Rightarrow> bool" where
  "rng_live r \<longleftrightarrow> (\<forall>n. \<exists>i\<ge>n. rng_scalars r i \<noteq> 0)"

lemma length_random_bytes [width_simps, simp]: "length (fst (random_bytes n r)) = n"
  by (simp add: random_bytes_def)

lemma rng_live_shift: "rng_live r \<Longrightarrow> rng_live (r\<lparr>rng_scalars := (\<lambda>i. rng_scalars r (Suc i))\<rparr>)"
  unfolding rng_live_def
proof
  fix n
  assume "\<forall>n. \<exists>i\<ge>n. rng_scalars r i \<noteq> 0"
  then obtain i where "Suc n \<le> i" "rng_scalars r i \<noteq> 0" by blast
  then show "\<exists>i\<ge>n. rng_scalars (r\<lparr>rng_scalars := (\<lambda>i. rng_scalars r (Suc i))\<rparr>) i \<noteq> 0"
    by (intro exI [where x = "i - 1"]) auto
qed

lemma rng_live_random_scalar [intro]: "rng_live r \<Longrightarrow> rng_live (snd (random_scalar r))"
  by (simp add: random_scalar_def rng_live_shift)

lemma rng_live_random_bytes [simp]: "rng_live (snd (random_bytes n r)) \<longleftrightarrow> rng_live r"
  by (simp add: random_bytes_def rng_live_def)

lemma rng_live_random_bool [simp]: "rng_live (snd (random_bool r)) \<longleftrightarrow> rng_live r"
  by (simp add: random_bool_def rng_live_def)

lemma random_nonzero_total:
  assumes "rng_scalars r n \<noteq> 0"
  shows "\<exists>s r'. random_nonzero r = Some (s, r')"
  using assms
proof (induction n arbitrary: r)
  case 0
  then show ?case by (subst random_nonzero.simps) (simp add: random_scalar_def)
next
  case (Suc n)
  show ?case
  proof (cases "rng_scalars r 0 = 0")
    case True
    have "\<exists>s r'. random_nonzero (r\<lparr>rng_scalars := (\<lambda>i. rng_scalars r (Suc i))\<rparr>) = Some (s, r')"
      using Suc.prems by (intro Suc.IH) simp
    with True show ?thesis by (subst random_nonzero.simps) (simp add: random_scalar_def)
  next
    case False
    then show ?thesis by (subst random_nonzero.simps) (simp add: random_scalar_def)
  qed
qed

lemma random_nonzero_spec:
  assumes "random_nonzero r = Some (s, r')"
  shows "s \<noteq> 0 \<and> (rng_live r \<longrightarrow> rng_live r')"
proof -
  have "\<And>p. random_nonzero r = Some p \<Longrightarrow> fst p \<noteq> 0 \<and> (rng_live r \<longrightarrow> rng_live (snd p))"
  proof (rule random_nonzero.raw_induct
      [where P = "\<lambda>r p. fst p \<noteq> 0 \<and> (rng_live r \<longrightarrow> rng_live (snd p))"])
    fix f :: "'a rng \<Rightarrow> ('a \<times> 'a rng) option" and r :: "'a rng" and p
    assume IH: "\<And>r p. f r = Some p \<Longrightarrow> fst p \<noteq> 0 \<and> (rng_live r \<longrightarrow> rng_live (snd p))"
      and eq: "(let (s, r1) = random_scalar r in if s = 0 then f r1 else Some (s, r1)) = Some p"
    show "fst p \<noteq> 0 \<and> (rng_live r \<longrightarrow> rng_live (snd p))"
      using eq IH rng_live_random_scalar [of r] by (auto simp: split_def Let_def split: if_splits)
  qed
  with assms show ?thesis by force
qed

lemma nonzero_scalar_eq_Ok:
  "nonzero_scalar r = Ok (s, r') \<Longrightarrow> s \<noteq> 0 \<and> (rng_live r \<longrightarrow> rng_live r')"
  by (auto simp: nonzero_scalar_def dest: random_nonzero_spec split: option.splits)

lemma nonzero_scalar_total:
  assumes "rng_live r"
  shows "\<exists>s r'. nonzero_scalar r = Ok (s, r') \<and> s \<noteq> 0 \<and> rng_live r'"
proof -
  obtain i where "rng_scalars r i \<noteq> 0" using assms unfolding rng_live_def by blast
  then obtain s r' where eq: "random_nonzero r = Some (s, r')"
    using random_nonzero_total by blast
  then show ?thesis using random_nonzero_spec [OF eq] assms
    by (simp add: nonzero_scalar_def)
qed

lemma nonzero_scalar_neq [simp]: "nonzero_scalar r \<noteq> Err e" "nonzero_scalar r \<noteq> Panic"
  by (simp_all add: nonzero_scalar_def split: option.splits)

end
