(* ===== verification/Protocols.thy ===== *)
theory Protocols
  imports Suite BTreeMap
begin

text \<open>
  The types shared by the protocols (\<open>protocols.rs\<close>): party indices, parameters,
  abort classification, message headers, and the loop in the fourth phases that files
  received messages under their sender.
\<close>

section \<open>Party indices and parameters\<close>

text \<open>\<open>PartyIndex\<close> is a newtype of \<open>u8\<close>; \<open>new\<close> refuses 0.\<close>

datatype party_index = PartyIndex (as_u8: u8)

datatype invalid_party_index = InvalidPartyIndex

definition party_index_new :: "u8 \<Rightarrow> (invalid_party_index, party_index) outcome" where
  "party_index_new value = (if value = 0 then Err InvalidPartyIndex else Ok (PartyIndex value))"

instantiation party_index :: linorder
begin

definition less_eq_party_index :: "party_index \<Rightarrow> party_index \<Rightarrow> bool" where
  "less_eq_party_index i j = (as_u8 i \<le> as_u8 j)"

definition less_party_index :: "party_index \<Rightarrow> party_index \<Rightarrow> bool" where
  "less_party_index i j = (as_u8 i < as_u8 j)"

instance
  by standard (auto simp: less_eq_party_index_def less_party_index_def party_index.expand)

end

record parameters =
  threshold :: u8
  share_count :: u8

datatype invalid_parameters = InvalidParameters

definition parameters_new :: "u8 \<Rightarrow> u8 \<Rightarrow> (invalid_parameters, parameters) outcome" where
  "parameters_new t n =
     (if t < 2 \<or> n < t then Err InvalidParameters
      else Ok \<lparr>threshold = t, share_count = n\<rparr>)"

text \<open>\<open>PartyIndex::new(i).unwrap()\<close>\<close>

definition party_index_unwrap :: "u8 \<Rightarrow> ('e, party_index) outcome" where
  "party_index_unwrap i = expect (party_index_new i)"

lemma party_index_unwrap_nonzero [simp]: "i \<noteq> 0 \<Longrightarrow> party_index_unwrap i = Ok (PartyIndex i)"
  by (simp add: party_index_unwrap_def party_index_new_def)

lemma party_index_new_as_u8: "party_index_new v = Ok i \<Longrightarrow> as_u8 i = v \<and> v \<noteq> 0"
  by (auto simp: party_index_new_def split: if_splits)

lemma party_index_neq_iff: "i \<noteq> j \<longleftrightarrow> as_u8 i \<noteq> as_u8 j"
  by (metis party_index.expand)

section \<open>Aborts\<close>

datatype abort_kind = Recoverable | BanCounterparty party_index

datatype abort_reason =
    InvalidPartyIndexAbort party_index
  | WrongCounterpartyCount nat nat
  | DuplicateCounterparty party_index
  | SelfInCounterparties
  | MissingMulState party_index
  | MisroutedMessage party_index party_index
  | UnexpectedSender party_index
  | DuplicateSender party_index
  | WrongMessageCount nat nat
  | MissingMessageFromParty party_index
  | ProofVerificationFailed party_index
  | CommitmentMismatch party_index
  | PolynomialInconsistency
  | TrivialInstancePoint party_index
  | TrivialPublicKey
  | TrivialKeyShare
  | MissingCommittedPoint party_index
  | OtConsistencyCheckFailed party_index
  | MultiplicationVerificationFailed party_index string
  | GammaUInconsistency party_index
  | SignatureVerificationFailed
  | ZeroDenominator
  | LagrangeCoefficientFailed
  | InvalidXCoordinateHex
  | ZeroShareDecommitFailed party_index
  | ChainCodeCommitmentFailed party_index
  | PhaseCalledOutOfOrder string
  | InvalidHex string

record abort =
  index_of :: party_index
  kind :: abort_kind
  reason :: abort_reason

definition recoverable :: "party_index \<Rightarrow> abort_reason \<Rightarrow> abort" where
  "recoverable i r = \<lparr>index_of = i, kind = Recoverable, reason = r\<rparr>"

definition ban :: "party_index \<Rightarrow> party_index \<Rightarrow> abort_reason \<Rightarrow> abort" where
  "ban i counterparty r = \<lparr>index_of = i, kind = BanCounterparty counterparty, reason = r\<rparr>"

lemma recoverable_simps [simp]:
  "index_of (recoverable i r) = i" "kind (recoverable i r) = Recoverable" "reason (recoverable i r) = r"
  by (simp_all add: recoverable_def)

lemma ban_simps [simp]:
  "index_of (ban i c r) = i" "kind (ban i c r) = BanCounterparty c" "reason (ban i c r) = r"
  by (simp_all add: ban_def)

section \<open>Message headers\<close>

record parties_message =
  sender :: party_index
  receiver :: party_index

definition reverse_parties :: "parties_message \<Rightarrow> parties_message" where
  "reverse_parties m = \<lparr>sender = receiver m, receiver = sender m\<rparr>"

lemma reverse_parties_involution: "reverse_parties (reverse_parties m) = m"
  by (simp add: reverse_parties_def)

section \<open>Filing received messages under their sender\<close>

text \<open>
  The loop the fourth phases of key generation and refresh run over every vector of
  received messages: refuse a message for someone else, from a party nothing was kept
  for, or a second one from the same sender.
\<close>

definition file_by_sender ::
  "party_index \<Rightarrow> (party_index, 'k) btree_map \<Rightarrow> ('m \<Rightarrow> parties_message) \<Rightarrow> 'm list
   \<Rightarrow> (abort, (party_index, 'm) btree_map) outcome" where
  "file_by_sender me kept parties msgs =
     each (\<lambda>filed m.
        if receiver (parties m) \<noteq> me
        then Err (recoverable me (MisroutedMessage me (receiver (parties m))))
        else if \<not> btree_contains kept (sender (parties m))
        then Err (recoverable me (UnexpectedSender (sender (parties m))))
        else if btree_get filed (sender (parties m)) \<noteq> None
        then Err (recoverable me (DuplicateSender (sender (parties m))))
        else Ok (btree_insert (sender (parties m)) m filed)) [] msgs"

definition check_count ::
  "party_index \<Rightarrow> (party_index, 'k) btree_map \<Rightarrow> (party_index, 'm) btree_map \<Rightarrow> (abort, unit) outcome" where
  "check_count me kept filed =
     (if btree_len filed \<noteq> btree_len kept
      then Err (recoverable me (WrongMessageCount (btree_len kept) (btree_len filed)))
      else Ok ())"

definition message_from ::
  "party_index \<Rightarrow> (party_index, 'm) btree_map \<Rightarrow> party_index \<Rightarrow> (abort, 'm) outcome" where
  "message_from me filed p = ok_or (recoverable me (MissingMessageFromParty p)) (btree_get filed p)"

text \<open>The loop is an instance of the one verified for ordered maps.\<close>

lemma file_by_sender_gather:
  "file_by_sender me kept parties msgs = Ok filed \<Longrightarrow>
   each (\<lambda>m x. if receiver (parties x) \<noteq> me \<or> \<not> btree_contains kept (sender (parties x))
               then Err (if receiver (parties x) \<noteq> me
                         then recoverable me (MisroutedMessage me (receiver (parties x)))
                         else recoverable me (UnexpectedSender (sender (parties x))))
               else if btree_get m (sender (parties x)) \<noteq> None
               then Err (recoverable me (DuplicateSender (sender (parties x))))
               else Ok (btree_insert (sender (parties x)) x m)) [] msgs = Ok filed"
  unfolding file_by_sender_def
  by (erule back_subst [where P = "\<lambda>x. x = Ok filed"])
    (rule arg_cong [where f = "\<lambda>f. each f [] msgs"], auto simp: fun_eq_iff)

lemma file_by_sender_spec:
  assumes "file_by_sender me kept parties msgs = Ok filed"
  shows "btree_wf filed" and "distinct (map (sender \<circ> parties) msgs)"
    and "\<forall>m\<in>set msgs. receiver (parties m) = me \<and> btree_contains kept (sender (parties m))"
    and "btree_get filed p = Some m \<longleftrightarrow> m \<in> set msgs \<and> sender (parties m) = p"
    and "btree_len filed = length msgs"
  using btree.gather [OF file_by_sender_gather [OF assms]] by (auto simp: comp_def)

lemma file_by_sender_complete:
  assumes filed: "file_by_sender me kept parties msgs = Ok filed"
    and count: "check_count me kept filed = Ok ()"
    and wf: "btree_wf kept" and p: "btree_contains kept p"
  obtains m where "btree_get filed p = Some m" and "m \<in> set msgs" and "sender (parties m) = p"
proof -
  have "btree_get filed p \<noteq> None"
  proof (rule btree.gather_complete [where ks = "btree_keys kept"])
    show "btree_wf filed" by (rule file_by_sender_spec(1) [OF filed])
    show "distinct (btree_keys kept)" using wf by (simp add: btree_wf_distinct btree_keys_def)
    show "btree_len filed = length (btree_keys kept)"
      using count by (auto simp: check_count_def btree_len_def btree_keys_def split: if_splits)
    show "k \<in> set (btree_keys kept)" if "btree_get filed k \<noteq> None" for k
      using that file_by_sender_spec(3,4) [OF filed] by (auto simp: btree_keys_contains)
    show "p \<in> set (btree_keys kept)" using p by (simp add: btree_keys_contains)
  qed
  then show ?thesis using that file_by_sender_spec(4) [OF filed] by blast
qed

lemma file_by_sender_error:
  assumes "file_by_sender me kept parties msgs = Err a"
  shows "index_of a = me \<and> kind a = Recoverable"
proof -
  have "\<And>filed. each (\<lambda>filed m.
        if receiver (parties m) \<noteq> me
        then Err (recoverable me (MisroutedMessage me (receiver (parties m))))
        else if \<not> btree_contains kept (sender (parties m))
        then Err (recoverable me (UnexpectedSender (sender (parties m))))
        else if btree_get filed (sender (parties m)) \<noteq> None
        then Err (recoverable me (DuplicateSender (sender (parties m))))
        else Ok (btree_insert (sender (parties m)) m filed)) filed msgs = Err a \<Longrightarrow>
      index_of a = me \<and> kind a = Recoverable"
    by (induction msgs) (auto simp: outcome_simps split: if_splits)
  with assms show ?thesis unfolding file_by_sender_def by blast
qed

end
