(* ===== verification/Hashes.thy ===== *)
theory Hashes
  imports Suite
begin

text \<open>
  Domain-separated hashing and commitments: \<open>utilities/hashes.rs\<close>,
  \<open>utilities/oracle_tags.rs\<close> and \<open>utilities/commits.rs\<close>. The length-delimited
  encoding is injective; commitments open to what was committed, and two openings of
  one commitment are a SHA-256 collision.
\<close>

section \<open>Oracle tags\<close>

definition TAG_COMMITMENT :: bytes where
  "TAG_COMMITMENT = bytes_of ''dkls23/commitment/v1''"
definition TAG_DLOG_PROOF_FISCHLIN :: bytes where
  "TAG_DLOG_PROOF_FISCHLIN = bytes_of ''dkls23/proofs/dlog/fischlin/v1''"
definition TAG_DLOG_PROOF_COMMITMENT :: bytes where
  "TAG_DLOG_PROOF_COMMITMENT = bytes_of ''dkls23/proofs/dlog/commitment/v1''"
definition TAG_ENCPROOF_FS :: bytes where
  "TAG_ENCPROOF_FS = bytes_of ''dkls23/proofs/enc/fs/v1''"
definition TAG_ZERO_SHARE_FRAGMENT :: bytes where
  "TAG_ZERO_SHARE_FRAGMENT = bytes_of ''dkls23/zero-share/fragment/v1''"
definition TAG_OT_BASE_H :: bytes where
  "TAG_OT_BASE_H = bytes_of ''dkls23/ot/base/h/v1''"
definition TAG_OT_BASE_MSG :: bytes where
  "TAG_OT_BASE_MSG = bytes_of ''dkls23/ot/base/msg/v1''"
definition TAG_OTE_PRG :: bytes where
  "TAG_OTE_PRG = bytes_of ''dkls23/ot/extension/prg/v1''"
definition TAG_OTE_CHI :: bytes where
  "TAG_OTE_CHI = bytes_of ''dkls23/ot/extension/chi/v1''"
definition TAG_OTE_RANDOMIZE :: bytes where
  "TAG_OTE_RANDOMIZE = bytes_of ''dkls23/ot/extension/randomize/v1''"
definition TAG_MUL_GADGET :: bytes where
  "TAG_MUL_GADGET = bytes_of ''dkls23/mul/gadget/v1''"
definition TAG_MUL_CHI_TILDE :: bytes where
  "TAG_MUL_CHI_TILDE = bytes_of ''dkls23/mul/chi-tilde/v1''"
definition TAG_MUL_CHI_HAT :: bytes where
  "TAG_MUL_CHI_HAT = bytes_of ''dkls23/mul/chi-hat/v1''"
definition TAG_MUL_VERIFY :: bytes where
  "TAG_MUL_VERIFY = bytes_of ''dkls23/mul/verify/v1''"
definition TAG_REFRESH_FAST_R0 :: bytes where
  "TAG_REFRESH_FAST_R0 = bytes_of ''dkls23/refresh/fast/r0/v1''"
definition TAG_REFRESH_FAST_R1 :: bytes where
  "TAG_REFRESH_FAST_R1 = bytes_of ''dkls23/refresh/fast/r1/v1''"
definition TAG_REFRESH_FAST_B :: bytes where
  "TAG_REFRESH_FAST_B = bytes_of ''dkls23/refresh/fast/b/v1''"

definition ALL_TAGS :: "bytes list" where
  "ALL_TAGS =
     [TAG_COMMITMENT, TAG_DLOG_PROOF_FISCHLIN, TAG_DLOG_PROOF_COMMITMENT, TAG_ENCPROOF_FS,
      TAG_ZERO_SHARE_FRAGMENT, TAG_OT_BASE_H, TAG_OT_BASE_MSG, TAG_OTE_PRG, TAG_OTE_CHI,
      TAG_OTE_RANDOMIZE, TAG_MUL_GADGET, TAG_MUL_CHI_TILDE, TAG_MUL_CHI_HAT, TAG_MUL_VERIFY,
      TAG_REFRESH_FAST_R0, TAG_REFRESH_FAST_R1, TAG_REFRESH_FAST_B]"

lemmas tag_defs = TAG_COMMITMENT_def TAG_DLOG_PROOF_FISCHLIN_def TAG_DLOG_PROOF_COMMITMENT_def
  TAG_ENCPROOF_FS_def TAG_ZERO_SHARE_FRAGMENT_def TAG_OT_BASE_H_def TAG_OT_BASE_MSG_def
  TAG_OTE_PRG_def TAG_OTE_CHI_def TAG_OTE_RANDOMIZE_def TAG_MUL_GADGET_def TAG_MUL_CHI_TILDE_def
  TAG_MUL_CHI_HAT_def TAG_MUL_VERIFY_def TAG_REFRESH_FAST_R0_def TAG_REFRESH_FAST_R1_def
  TAG_REFRESH_FAST_B_def

lemma distinct_ALL_TAGS: "distinct ALL_TAGS"
  unfolding ALL_TAGS_def tag_defs by (simp add: bytes_of_inject)

lemma ALL_TAGS_short: "t \<in> set ALL_TAGS \<Longrightarrow> length t < 2 ^ 64"
  unfolding ALL_TAGS_def tag_defs by auto

section \<open>Length-delimited tagged hashing\<close>

definition append_len_prefixed :: "bytes \<Rightarrow> bytes \<Rightarrow> bytes" where
  "append_len_prefixed encoded component =
     encoded @ u64_be (of_nat (length component)) @ component"

definition tagged_encoding :: "bytes \<Rightarrow> bytes list \<Rightarrow> bytes" where
  "tagged_encoding tag components =
     foldl append_len_prefixed (append_len_prefixed [] tag) components"

definition tagged_hash :: "('f, 'g) suite \<Rightarrow> bytes \<Rightarrow> bytes list \<Rightarrow> bytes" where
  "tagged_hash S tag components = sha256 S (tagged_encoding tag components)"

definition tagged_hash_as_scalar :: "('f, 'g) suite \<Rightarrow> bytes \<Rightarrow> bytes list \<Rightarrow> 'f" where
  "tagged_hash_as_scalar S tag components = reduce S (tagged_hash S tag components)"

lemma length_tagged_hash [width_simps]: "encodings_ok S \<Longrightarrow> length (tagged_hash S t cs) = 32"
  by (simp add: tagged_hash_def length_sha256)

lemma u64_be_eq_iff: "u64_be v = u64_be w \<longleftrightarrow> v = w"
proof
  assume eq: "u64_be v = u64_be w"
  show "v = w"
  proof (rule bit_word_eqI)
    fix n
    assume "n < LENGTH(64)"
    then have n: "n < 64" by simp
    define i where "i = 7 - n div 8"
    have i: "i < 8" "56 - 8 * i + n mod 8 = n"
    proof -
      have q: "n div 8 \<le> 7" using n by simp
      show "i < 8" by (simp add: i_def)
      have "56 - 8 * i = 8 * (n div 8)" using q by (simp add: i_def diff_mult_distrib2)
      then show "56 - 8 * i + n mod 8 = n" by simp
    qed
    have "(ucast (drop_bit (56 - 8 * i) v) :: u8) = ucast (drop_bit (56 - 8 * i) w)"
      using eq i(1) by (simp add: u64_be_def)
    then have "bit (ucast (drop_bit (56 - 8 * i) v) :: u8) (n mod 8) =
        bit (ucast (drop_bit (56 - 8 * i) w) :: u8) (n mod 8)" by simp
    then show "bit v n = bit w n"
      using i(2) by (simp add: bit_simps)
  qed
qed simp

lemma of_nat_u64_eq_iff: "m < 2 ^ 64 \<Longrightarrow> n < 2 ^ 64 \<Longrightarrow> (of_nat m :: u64) = of_nat n \<longleftrightarrow> m = n"
  by (simp add: word_of_nat_eq_iff take_bit_nat_eq_self)

lemma foldl_append_len_prefixed:
  "foldl append_len_prefixed e cs = e @ concat (map (\<lambda>c. u64_be (of_nat (length c)) @ c) cs)"
  by (induction cs arbitrary: e) (simp_all add: append_len_prefixed_def)

lemma tagged_encoding_concat:
  "tagged_encoding t cs = concat (map (\<lambda>c. u64_be (of_nat (length c)) @ c) (t # cs))"
  by (simp add: tagged_encoding_def foldl_append_len_prefixed append_len_prefixed_def)

lemma delimited_injective:
  assumes "concat (map (\<lambda>c. u64_be (of_nat (length c)) @ c) xs) =
      concat (map (\<lambda>c. u64_be (of_nat (length c)) @ c) ys)"
    and "\<forall>c \<in> set xs \<union> set ys. length c < 2 ^ 64"
  shows "xs = ys"
  using assms
proof (induction xs arbitrary: ys)
  case Nil
  then show ?case by (cases ys) (auto dest: arg_cong [where f = length])
next
  case (Cons x xs)
  show ?case
  proof (cases ys)
    case Nil
    with Cons.prems(1) show ?thesis by (auto dest: arg_cong [where f = length])
  next
    case (Cons y ys')
    note ys = this
    let ?R = "\<lambda>zs. concat (map (\<lambda>c. u64_be (of_nat (length c)) @ c) zs)"
    from Cons.prems(1) have eq: "u64_be (of_nat (length x)) @ (x @ ?R xs) =
        u64_be (of_nat (length y)) @ (y @ ?R ys')" by (simp add: ys)
    then have "u64_be (of_nat (length x)) = u64_be (of_nat (length y))" and tl: "x @ ?R xs = y @ ?R ys'"
      by (simp_all add: append_eq_append_conv)
    moreover have "length x < 2 ^ 64" "length y < 2 ^ 64" using Cons.prems(2) ys by auto
    ultimately have "length x = length y" by (simp add: u64_be_eq_iff of_nat_u64_eq_iff)
    with tl have "x = y" "?R xs = ?R ys'" by (simp_all add: append_eq_append_conv)
    moreover have "xs = ys'"
      using Cons.IH [OF \<open>?R xs = ?R ys'\<close>] Cons.prems(2) ys by auto
    ultimately show ?thesis by (simp add: ys)
  qed
qed

lemma tagged_encoding_injective:
  assumes "tagged_encoding t cs = tagged_encoding t' cs'"
    and "\<forall>c \<in> set (t # cs) \<union> set (t' # cs'). length c < 2 ^ 64"
  shows "t = t' \<and> cs = cs'"
proof -
  have "t # cs = t' # cs'"
    using assms(1) unfolding tagged_encoding_concat by (rule delimited_injective) (fact assms(2))
  then show ?thesis by simp
qed

section \<open>Conversions\<close>

definition scalar_to_bytes :: "('f, 'g) suite \<Rightarrow> 'f \<Rightarrow> bytes" where
  "scalar_to_bytes S s = to_repr S s"

definition point_to_bytes :: "('f, 'g) suite \<Rightarrow> 'g \<Rightarrow> bytes" where
  "point_to_bytes S P = enc_point S P"

lemma scalar_to_bytes_inject:
  "encodings_ok S \<Longrightarrow> scalar_to_bytes S a = scalar_to_bytes S b \<longleftrightarrow> a = b"
  by (metis from_to_repr option.inject scalar_to_bytes_def)

lemma length_scalar_to_bytes [width_simps]: "encodings_ok S \<Longrightarrow> length (scalar_to_bytes S a) = 32"
  by (simp add: scalar_to_bytes_def length_to_repr)

lemma point_to_bytes_inject:
  "encodings_ok S \<Longrightarrow> point_to_bytes S P = point_to_bytes S Q \<longleftrightarrow> P = Q"
  by (auto simp: encodings_ok_def point_to_bytes_def dest: injD)

section \<open>Commitments\<close>

definition commit :: "('f, 'g) suite \<Rightarrow> bytes \<Rightarrow> 'f rng \<Rightarrow> (bytes \<times> bytes) \<times> 'f rng" where
  "commit S msg r =
     (let (salt, r1) = random_bytes (2 * 32) r
      in ((tagged_hash S TAG_COMMITMENT [salt, msg], salt), r1))"

definition verify_commitment :: "('f, 'g) suite \<Rightarrow> bytes \<Rightarrow> bytes \<Rightarrow> bytes \<Rightarrow> bool" where
  "verify_commitment S msg commitment salt =
     (commitment = tagged_hash S TAG_COMMITMENT [salt, msg])"

definition commit_point :: "('f, 'g) suite \<Rightarrow> 'g \<Rightarrow> 'f rng \<Rightarrow> (bytes \<times> bytes) \<times> 'f rng" where
  "commit_point S P r = commit S (point_to_bytes S P) r"

definition verify_commitment_point :: "('f, 'g) suite \<Rightarrow> 'g \<Rightarrow> bytes \<Rightarrow> bytes \<Rightarrow> bool" where
  "verify_commitment_point S P commitment salt =
     verify_commitment S (point_to_bytes S P) commitment salt"

lemma rng_live_commit [simp]:
  "rng_live (snd (commit S m r)) \<longleftrightarrow> rng_live r" "rng_live (snd (commit_point S P r)) \<longleftrightarrow> rng_live r"
  by (simp_all add: commit_def commit_point_def split_def Let_def)

text \<open>
  What the protocols use of a commitment scheme: an opening as produced is accepted, and
  two accepted openings of one commitment are the same or collide.
\<close>

locale commitment_scheme =
  fixes com :: "'s \<Rightarrow> 'm \<Rightarrow> 'r \<Rightarrow> ('c \<times> 'd) \<times> 'r"
    and ver :: "'s \<Rightarrow> 'm \<Rightarrow> 'c \<Rightarrow> 'd \<Rightarrow> bool"
    and small :: "'m \<Rightarrow> 'd \<Rightarrow> bool"
    and collide :: "'s \<Rightarrow> 'm \<times> 'd \<Rightarrow> 'm \<times> 'd \<Rightarrow> bool"
  assumes complete: "com s m r = ((c, d), r') \<Longrightarrow> ver s m c d"
    and binding: "ver s m c d \<Longrightarrow> ver s m' c d' \<Longrightarrow> small m d \<Longrightarrow> small m' d' \<Longrightarrow>
      (m, d) \<noteq> (m', d') \<Longrightarrow> collide s (m, d) (m', d')"
begin

lemma opens: "ver s m (fst (fst (com s m r))) (snd (fst (com s m r)))"
  by (rule complete [where r = r and r' = "snd (com s m r)"]) simp

lemma same_opening:
  assumes "\<not> collide s (m, snd (fst (com s m r))) (m', d')" and "ver s m' (fst (fst (com s m r))) d'"
    and "small m (snd (fst (com s m r)))" and "small m' d'"
  shows "m' = m \<and> d' = snd (fst (com s m r))"
  using binding [OF opens assms(2,3,4)] assms(1) by auto

end

text \<open>Two openings whose hash inputs are a collision of SHA-256.\<close>

definition openings_collide :: "('f, 'g) suite \<Rightarrow> bytes \<times> bytes \<Rightarrow> bytes \<times> bytes \<Rightarrow> bool" where
  "openings_collide S o1 o2 \<longleftrightarrow>
     (let x = tagged_encoding TAG_COMMITMENT [snd o1, fst o1]; y = tagged_encoding TAG_COMMITMENT [snd o2, fst o2]
      in x \<noteq> y \<and> sha256 S x = sha256 S y)"

definition small_bytes :: "bytes \<Rightarrow> bytes \<Rightarrow> bool" where
  "small_bytes m d \<longleftrightarrow> length m < 2 ^ 64 \<and> length d < 2 ^ 64"

lemma verify_commitment_binding:
  assumes "verify_commitment S m c d" and "verify_commitment S m' c d'"
    and "small_bytes m d" and "small_bytes m' d'" and "(m, d) \<noteq> (m', d')"
  shows "openings_collide S (m, d) (m', d')"
proof -
  let ?x = "tagged_encoding TAG_COMMITMENT [d, m]" and ?y = "tagged_encoding TAG_COMMITMENT [d', m']"
  have "?x \<noteq> ?y"
  proof
    assume "?x = ?y"
    moreover have "length TAG_COMMITMENT < 2 ^ 64"
      by (rule ALL_TAGS_short) (simp add: ALL_TAGS_def)
    ultimately have "[d, m] = [d', m']"
      using assms(3,4) tagged_encoding_injective [of TAG_COMMITMENT "[d, m]" TAG_COMMITMENT "[d', m']"]
      by (simp add: small_bytes_def)
    with assms(5) show False by simp
  qed
  moreover have "sha256 S ?x = sha256 S ?y"
    using assms(1,2) by (simp add: verify_commitment_def tagged_hash_def)
  ultimately show ?thesis by (simp add: openings_collide_def)
qed

interpretation bytes_commitment: commitment_scheme
  where com = commit and ver = verify_commitment and small = small_bytes
    and collide = openings_collide
proof unfold_locales
  show "commit s m r = ((c, d), r') \<Longrightarrow> verify_commitment s m c d" for s m r c d r'
    by (auto simp: commit_def verify_commitment_def split: prod.splits)
qed (rule verify_commitment_binding)

text \<open>
  C36: a commitment is binding: whoever opens one commitment in two ways exhibits two different
  hash inputs with the same SHA-256 value.
\<close>

theorem commitment_binding:
  assumes "verify_commitment S m c d" and "verify_commitment S m' c d'"
    and "small_bytes m d" and "small_bytes m' d'" and "(m, d) \<noteq> (m', d')"
  shows "tagged_encoding TAG_COMMITMENT [d, m] \<noteq> tagged_encoding TAG_COMMITMENT [d', m'] \<and>
     sha256 S (tagged_encoding TAG_COMMITMENT [d, m]) = sha256 S (tagged_encoding TAG_COMMITMENT [d', m'])"
  using bytes_commitment.binding [OF assms] by (simp add: openings_collide_def Let_def)

lemma commit_point_opens:
  "verify_commitment_point S P (fst (fst (commit_point S P r))) (snd (fst (commit_point S P r)))"
  unfolding verify_commitment_point_def commit_point_def by (rule bytes_commitment.opens)

end
