(* ===== verification/ZeroShares.thy ===== *)
theory ZeroShares
  imports Hashes Protocols
begin

text \<open>
  Functionality 3.4 (\<open>utilities/zero_shares.rs\<close>): pairs of parties share a seed, and a
  party's share of zero is a signed sum of fragments derived from its seeds. The shares
  of the participants add up to zero; this is the contract \<open>zero_sharing\<close> the signing
  protocol relies on.
\<close>

section \<open>State and operations\<close>

record seed_pair =
  lowest_index :: bool
  index_counterparty :: party_index
  seed :: bytes

record zero_share =
  seeds :: "seed_pair list"

definition generate_seed_with_commitment ::
  "('f, 'g) suite \<Rightarrow> 'f rng \<Rightarrow> (bytes \<times> bytes \<times> bytes) \<times> 'f rng" where
  "generate_seed_with_commitment S r =
     (let (sd, r1) = random_bytes 32 r; ((commitment, salt), r2) = commit S sd r1
      in ((sd, commitment, salt), r2))"

definition verify_seed :: "('f, 'g) suite \<Rightarrow> bytes \<Rightarrow> bytes \<Rightarrow> bytes \<Rightarrow> bool" where
  "verify_seed S sd commitment salt = verify_commitment S sd commitment salt"

definition generate_seed_pair ::
  "party_index \<Rightarrow> party_index \<Rightarrow> bytes \<Rightarrow> bytes \<Rightarrow> seed_pair" where
  "generate_seed_pair index_party counterparty seed_party seed_counterparty =
     \<lparr>lowest_index = (index_party \<le> counterparty), index_counterparty = counterparty,
      seed = xor_n 32 seed_party seed_counterparty\<rparr>"

definition zero_share_initialize :: "seed_pair list \<Rightarrow> zero_share" where
  "zero_share_initialize ss = \<lparr>seeds = ss\<rparr>"

definition zero_share_compute ::
  "('f::field, 'g) suite \<Rightarrow> zero_share \<Rightarrow> party_index list \<Rightarrow> bytes \<Rightarrow> 'f" where
  "zero_share_compute S zs counterparties session_id =
     foldl (\<lambda>share sp.
        if index_counterparty sp \<notin> set counterparties then share
        else let fragment = tagged_hash_as_scalar S TAG_ZERO_SHARE_FRAGMENT [session_id, seed sp]
             in if lowest_index sp then share - fragment else share + fragment) 0 (seeds zs)"

lemma rng_live_generate_seed [simp]:
  "rng_live (snd (generate_seed_with_commitment S r)) \<longleftrightarrow> rng_live r"
  by (simp add: generate_seed_with_commitment_def commit_def split_def Let_def)

lemma generated_seed_verifies:
  assumes "generate_seed_with_commitment S r = ((sd, c, salt), r')"
  shows "verify_seed S sd c salt" and "length sd = 32"
  using assms bytes_commitment.complete
  by (auto simp: generate_seed_with_commitment_def verify_seed_def random_bytes_def Let_def
      split: prod.splits)

section \<open>The contract\<close>

text \<open>
  The pairs of a group agree: every member has one seed pair for each other member, the two
  ends of a pair hold the same seed, and the lower index is flagged.
\<close>

definition seed_for :: "zero_share \<Rightarrow> party_index \<Rightarrow> seed_pair option" where
  "seed_for zs j = List.find (\<lambda>sp. index_counterparty sp = j) (seeds zs)"

definition zero_shares_agree :: "party_index list \<Rightarrow> (party_index \<Rightarrow> zero_share) \<Rightarrow> bool" where
  "zero_shares_agree ps zs \<longleftrightarrow>
     (\<forall>i\<in>set ps. distinct (map index_counterparty (seeds (zs i))) \<and>
       (\<forall>j\<in>set ps. j \<noteq> i \<longrightarrow>
          (case (seed_for (zs i) j, seed_for (zs j) i) of
             (Some a, Some b) \<Rightarrow> seed a = seed b \<and> lowest_index a = (i \<le> j)
           | _ \<Rightarrow> False)))"

locale zero_sharing =
  fixes agree :: "'p list \<Rightarrow> ('p \<Rightarrow> 'z) \<Rightarrow> bool"
    and share :: "'z \<Rightarrow> 'p list \<Rightarrow> 'i \<Rightarrow> 'f::field"
  assumes share_sum: "agree ps z \<Longrightarrow> distinct ps \<Longrightarrow> (\<And>p. p \<in> set ps \<Longrightarrow> set (cs p) = set ps - {p}) \<Longrightarrow>
      (\<Sum>p\<in>set ps. share (z p) (cs p) sid) = 0"
begin

text \<open>Masking additive shares with shares of zero keeps their sum.\<close>

lemma masked_sum:
  assumes "agree ps z" and "distinct ps" and "\<And>p. p \<in> set ps \<Longrightarrow> set (cs p) = set ps - {p}"
  shows "(\<Sum>p\<in>set ps. f p + share (z p) (cs p) sid) = (\<Sum>p\<in>set ps. f p)"
  using share_sum [OF assms(1,2), of cs sid] assms(3) by (simp add: sum.distrib)

end

section \<open>The shares add up to zero\<close>

definition signed_fragment :: "('f::field, 'g) suite \<Rightarrow> bytes \<Rightarrow> seed_pair \<Rightarrow> 'f" where
  "signed_fragment S sid sp =
     (let fragment = tagged_hash_as_scalar S TAG_ZERO_SHARE_FRAGMENT [sid, seed sp]
      in if lowest_index sp then - fragment else fragment)"

lemma zero_share_compute_sum:
  "zero_share_compute S zs cs sid =
     (\<Sum>sp\<leftarrow>filter (\<lambda>sp. index_counterparty sp \<in> set cs) (seeds zs). signed_fragment S sid sp)"
proof -
  have "foldl (\<lambda>share sp.
        if index_counterparty sp \<notin> set cs then share
        else let fragment = tagged_hash_as_scalar S TAG_ZERO_SHARE_FRAGMENT [sid, seed sp]
             in if lowest_index sp then share - fragment else share + fragment) a xs =
      a + (\<Sum>sp\<leftarrow>filter (\<lambda>sp. index_counterparty sp \<in> set cs) xs. signed_fragment S sid sp)" for a xs
    by (induction xs arbitrary: a) (auto simp: signed_fragment_def Let_def)
  then show ?thesis by (simp add: zero_share_compute_def)
qed

lemma find_unique:
  "distinct (map f xs) \<Longrightarrow> x \<in> set xs \<Longrightarrow> List.find (\<lambda>y. f y = f x) xs = Some x"
  by (induction xs) force+

lemma seed_for_unique:
  "distinct (map index_counterparty (seeds zs)) \<Longrightarrow> sp \<in> set (seeds zs) \<Longrightarrow>
     seed_for zs (index_counterparty sp) = Some sp"
  unfolding seed_for_def by (rule find_unique)

lemma seed_for_Some: "seed_for zs j = Some sp \<Longrightarrow> sp \<in> set (seeds zs) \<and> index_counterparty sp = j"
  unfolding seed_for_def by (metis (mono_tags, lifting) find_Some_iff nth_mem)

lemma zero_share_compute_indexed:
  assumes d: "distinct (map index_counterparty (seeds zs))"
    and all: "\<And>j. j \<in> set cs \<Longrightarrow> seed_for zs j \<noteq> None"
  shows "zero_share_compute S zs cs sid = (\<Sum>j\<in>set cs. signed_fragment S sid (the (seed_for zs j)))"
proof -
  let ?A = "{sp \<in> set (seeds zs). index_counterparty sp \<in> set cs}"
  have "distinct (seeds zs)" using d by (simp add: distinct_map)
  then have "zero_share_compute S zs cs sid = (\<Sum>sp\<in>?A. signed_fragment S sid sp)"
    by (simp add: zero_share_compute_sum sum_list_distinct_conv_sum_set)
  also have "\<dots> = (\<Sum>j\<in>set cs. signed_fragment S sid (the (seed_for zs j)))"
  proof (rule sum.reindex_bij_witness [where j = index_counterparty and i = "\<lambda>j. the (seed_for zs j)"])
    fix j
    assume "j \<in> set cs"
    then obtain sp where "seed_for zs j = Some sp" using all by blast
    then show "the (seed_for zs j) \<in> ?A" and "index_counterparty (the (seed_for zs j)) = j"
      using seed_for_Some \<open>j \<in> set cs\<close> by auto
  qed (auto simp: seed_for_unique [OF d])
  finally show ?thesis .
qed

lemma sum_antisymmetric:
  fixes f :: "'p::linorder \<Rightarrow> 'p \<Rightarrow> 'a::ab_group_add"
  assumes "finite P" and "\<And>i j. i \<in> P \<Longrightarrow> j \<in> P \<Longrightarrow> i < j \<Longrightarrow> f i j + f j i = 0"
  shows "(\<Sum>i\<in>P. \<Sum>j\<in>P - {i}. f i j) = 0"
proof -
  have split: "(\<Sum>j\<in>P - {i}. f i j) = (\<Sum>j\<in>{j\<in>P. i < j}. f i j) + (\<Sum>j\<in>{j\<in>P. j < i}. f i j)"
    if "i \<in> P" for i
  proof -
    have "P - {i} = {j\<in>P. i < j} \<union> {j\<in>P. j < i}" by auto
    moreover have "sum (f i) ({j\<in>P. i < j} \<union> {j\<in>P. j < i}) = sum (f i) {j\<in>P. i < j} + sum (f i) {j\<in>P. j < i}"
      using assms(1) by (intro sum.union_disjoint) auto
    ultimately show ?thesis by simp
  qed
  have "(\<Sum>i\<in>P. \<Sum>j\<in>{j\<in>P. j < i}. f i j) = (\<Sum>j\<in>P. \<Sum>i\<in>{i\<in>P. j < i}. f i j)"
    using assms(1) by (rule sum.swap_restrict [OF _ assms(1)])
  then have "(\<Sum>i\<in>P. \<Sum>j\<in>P - {i}. f i j) = (\<Sum>i\<in>P. \<Sum>j\<in>{j\<in>P. i < j}. f i j + f j i)"
    by (simp add: split sum.distrib)
  also have "\<dots> = 0" using assms(2) by (intro sum.neutral ballI) auto
  finally show ?thesis .
qed

lemma zero_shares_sum:
  assumes agree: "zero_shares_agree ps zs" and "distinct ps"
    and cs: "\<And>p. p \<in> set ps \<Longrightarrow> set (cs p) = set ps - {p}"
  shows "(\<Sum>p\<in>set ps. zero_share_compute S (zs p) (cs p) sid) = 0"
proof -
  let ?f = "\<lambda>i j. signed_fragment S sid (the (seed_for (zs i) j))"
  have pair: "\<exists>a b. seed_for (zs i) j = Some a \<and> seed_for (zs j) i = Some b \<and> seed a = seed b \<and>
      lowest_index a = (i \<le> j)" if "i \<in> set ps" "j \<in> set ps" "j \<noteq> i" for i j
    using agree that unfolding zero_shares_agree_def by (fastforce split: option.splits)
  have "zero_share_compute S (zs i) (cs i) sid = (\<Sum>j\<in>set ps - {i}. ?f i j)" if "i \<in> set ps" for i
    using zero_share_compute_indexed [of "zs i" "cs i" S sid] agree pair that cs [OF that]
    unfolding zero_shares_agree_def by force
  then have "(\<Sum>p\<in>set ps. zero_share_compute S (zs p) (cs p) sid) = (\<Sum>i\<in>set ps. \<Sum>j\<in>set ps - {i}. ?f i j)"
    by simp
  also have "\<dots> = 0"
  proof (rule sum_antisymmetric)
    fix i j
    assume ij: "i \<in> set ps" "j \<in> set ps" "i < j"
    then have neq: "j \<noteq> i" "i \<noteq> j" by auto
    from pair [OF ij(1,2) neq(1)] pair [OF ij(2,1) neq(2)] ij(3)
    show "?f i j + ?f j i = 0" by (auto simp: signed_fragment_def Let_def)
  qed simp
  finally show ?thesis .
qed

interpretation zero: zero_sharing
  where agree = zero_shares_agree and share = "zero_share_compute S"
  for S :: "('f::field, 'g) suite"
  by unfold_locales (rule zero_shares_sum)

section \<open>Honest initialisation\<close>

text \<open>
  What phases 2 to 4 of key generation and refresh compute: every party combines its own
  seed for a counterparty with the one received from it.
\<close>

definition honest_zero_share :: "party_index list \<Rightarrow> (party_index \<Rightarrow> party_index \<Rightarrow> bytes) \<Rightarrow> party_index \<Rightarrow> zero_share" where
  "honest_zero_share ps sd i =
     zero_share_initialize (map (\<lambda>j. generate_seed_pair i j (sd i j) (sd j i)) (filter (\<lambda>j. j \<noteq> i) ps))"

lemma find_map_index:
  "j \<in> set js \<Longrightarrow> List.find (\<lambda>sp. index_counterparty sp = j) (map (\<lambda>j. generate_seed_pair i j (a j) (b j)) js) =
     Some (generate_seed_pair i j (a j) (b j))"
  by (induction js) (auto simp: generate_seed_pair_def)

lemma honest_zero_shares_agree:
  assumes "distinct ps"
  shows "zero_shares_agree ps (honest_zero_share ps sd)"
proof -
  have "seed_for (honest_zero_share ps sd i) j = Some (generate_seed_pair i j (sd i j) (sd j i))"
    if "i \<in> set ps" "j \<in> set ps" "j \<noteq> i" for i j
    using that by (simp add: seed_for_def honest_zero_share_def zero_share_initialize_def find_map_index)
  moreover have "map index_counterparty (seeds (honest_zero_share ps sd i)) = filter (\<lambda>j. j \<noteq> i) ps" for i
    by (induction ps) (auto simp: honest_zero_share_def zero_share_initialize_def generate_seed_pair_def)
  ultimately show ?thesis using assms
    by (auto simp: zero_shares_agree_def generate_seed_pair_def xor_n_commute)
qed

text \<open>C19: with seeds combined as the initialisation does, the shares of any group add up to zero.\<close>

theorem honest_shares_sum_zero:
  assumes "distinct ps" and "set qs \<subseteq> set ps" and "distinct qs"
  shows "(\<Sum>p\<in>set qs. zero_share_compute S (honest_zero_share ps sd p) (filter (\<lambda>q. q \<noteq> p) qs) sid) = 0"
proof -
  have sub: "zero_shares_agree qs (honest_zero_share ps sd)"
    using honest_zero_shares_agree [OF assms(1), of sd] assms(2)
    unfolding zero_shares_agree_def by blast
  show ?thesis by (rule zero.share_sum [OF sub assms(3)]) auto
qed

end
