(* ===== verification/Proofs.thy ===== *)
theory Proofs
  imports Hashes
begin

text \<open>
  Zero-knowledge proofs (\<open>utilities/proofs.rs\<close>): Schnorr's protocol, its randomized
  Fischlin transform with the two nested searches, the Chaum-Pedersen protocol and the
  OR-composed encryption proof. Shown: honest proofs verify, two accepting transcripts
  with one commitment give the witness, and the searches either end with a proof or
  report exhaustion.
\<close>

section \<open>Schnorr's protocol\<close>

datatype proof_search_exhausted = ProofSearchExhausted

text \<open>The constants \<open>R\<close>, \<open>L\<close> and \<open>T\<close> of the transform and \<open>u16::MAX\<close>.\<close>

definition fischlin_R :: nat where "fischlin_R = 64"
definition fischlin_L :: nat where "fischlin_L = 4"
definition fischlin_T :: nat where "fischlin_T = 32"
definition u16_MAX :: nat where "u16_MAX = 65535"

record 'f interactive_dlog_proof =
  challenge :: bytes
  challenge_response :: 'f

text \<open>
  Zero-extension of a short challenge to 32 bytes. The subtraction \<open>32 - len\<close> fails for a
  longer slice (checked overflow, or a capacity overflow after wrapping).
\<close>

definition extended_challenge :: "bytes \<Rightarrow> bytes" where
  "extended_challenge ch = replicate (32 - length ch) 0 @ ch"

definition challenge_to_scalar :: "('f, 'g) suite \<Rightarrow> bytes \<Rightarrow> ('e, 'f) outcome" where
  "challenge_to_scalar S ch =
     (if 32 < length ch then Panic else Ok (reduce S (extended_challenge ch)))"

definition dlog_prove_step1 :: "('f::field, 'g) suite \<Rightarrow> 'f rng \<Rightarrow> ('e, ('f \<times> 'g) \<times> 'f rng) outcome" where
  "dlog_prove_step1 S r =
     and_then (nonzero_scalar r) (\<lambda>(k, r1). Ok ((k, smul S (generator S) k), r1))"

definition dlog_prove_step2 ::
  "('f::field, 'g) suite \<Rightarrow> 'f \<Rightarrow> 'f \<Rightarrow> bytes \<Rightarrow> ('e, 'f interactive_dlog_proof) outcome" where
  "dlog_prove_step2 S scalar scalar_rand_commitment ch =
     and_then (challenge_to_scalar S ch) (\<lambda>challenge_scalar.
       Ok \<lparr>challenge = ch,
           challenge_response = scalar_rand_commitment - challenge_scalar * scalar\<rparr>)"

text \<open>The length check comes first, so the conversion of the challenge cannot panic.\<close>

definition interactive_verify ::
  "('f::field, 'g::ab_group_add) suite \<Rightarrow> 'f interactive_dlog_proof \<Rightarrow> 'g \<Rightarrow> 'g \<Rightarrow> bool" where
  "interactive_verify S p pt point_rand_commitment =
     (if challenge p = [] \<or> fischlin_T div 8 < length (challenge p) then False
      else let challenge_scalar = reduce S (extended_challenge (challenge p))
           in smul S (generator S) (challenge_response p) + smul S pt challenge_scalar =
                point_rand_commitment)"

section \<open>The Fischlin transform\<close>

record ('f, 'g) dlog_proof =
  dlog_point :: 'g
  rand_commitments :: "'g list"
  dlog_proofs :: "'f interactive_dlog_proof list"

text \<open>The first byte of the hash of one transcript, bound to its position.\<close>

definition fischlin_hash ::
  "('f, 'g) suite \<Rightarrow> bytes \<Rightarrow> bytes \<Rightarrow> nat \<Rightarrow> 'f interactive_dlog_proof \<Rightarrow> bytes" where
  "fischlin_hash S session_id rc_as_bytes i p =
     take (fischlin_L div 4) (tagged_hash S TAG_DLOG_PROOF_FISCHLIN
       [session_id, concat [point_to_bytes S (generator S), rc_as_bytes, u16_be (of_nat i),
                            challenge p, scalar_to_bytes S (challenge_response p)]])"

text \<open>
  The inner loop at position \<open>i + R/2\<close>, with \<open>n\<close> tries left: \<open>None\<close> when it runs out. The
  outer loop at position \<open>i\<close>: an error when it runs out.
\<close>

primrec second_search ::
  "('f::field, 'g) suite \<Rightarrow> 'f \<Rightarrow> 'f \<Rightarrow> bytes \<Rightarrow> bytes \<Rightarrow> nat \<Rightarrow> bytes \<Rightarrow> nat \<Rightarrow> 'f rng
   \<Rightarrow> ('e, 'f interactive_dlog_proof option \<times> 'f rng) outcome" where
  "second_search S scalar st session_id rc_as_bytes j first_hash 0 r = Ok (None, r)"
| "second_search S scalar st session_id rc_as_bytes j first_hash (Suc n) r =
     (let (second_challenge, r1) = random_bytes (fischlin_T div 8) r in
      and_then (dlog_prove_step2 S scalar st second_challenge) (\<lambda>second_proof.
        if first_hash = fischlin_hash S session_id rc_as_bytes j second_proof
        then Ok (Some second_proof, r1)
        else second_search S scalar st session_id rc_as_bytes j first_hash n r1))"

primrec first_search ::
  "('f::field, 'g) suite \<Rightarrow> 'f \<Rightarrow> 'f \<Rightarrow> 'f \<Rightarrow> bytes \<Rightarrow> bytes \<Rightarrow> nat \<Rightarrow> nat \<Rightarrow> 'f rng
   \<Rightarrow> (proof_search_exhausted, ('f interactive_dlog_proof \<times> 'f interactive_dlog_proof) \<times> 'f rng) outcome" where
  "first_search S scalar st1 st2 session_id rc_as_bytes i 0 r = Err ProofSearchExhausted"
| "first_search S scalar st1 st2 session_id rc_as_bytes i (Suc n) r =
     (let (first_challenge, r1) = random_bytes (fischlin_T div 8) r in
      and_then (dlog_prove_step2 S scalar st1 first_challenge) (\<lambda>first_proof.
      and_then (second_search S scalar st2 session_id rc_as_bytes (i + fischlin_R div 2)
                  (fischlin_hash S session_id rc_as_bytes i first_proof) u16_MAX r1) (\<lambda>(found, r2).
        case found of
          Some second_proof \<Rightarrow> Ok ((first_proof, second_proof), r2)
        | None \<Rightarrow> first_search S scalar st1 st2 session_id rc_as_bytes i n r2)))"

definition dlog_prove ::
  "('f::field, 'g) suite \<Rightarrow> 'f \<Rightarrow> bytes \<Rightarrow> 'f rng
   \<Rightarrow> (proof_search_exhausted, ('f, 'g) dlog_proof \<times> 'f rng) outcome" where
  "dlog_prove S scalar session_id r =
     and_then (collect_st (\<lambda>_. dlog_prove_step1 S) [0..<fischlin_R] r) (\<lambda>(step1, r1).
     let states = map fst step1; rcs = map snd step1;
         rc_as_bytes = concat (map (point_to_bytes S) rcs) in
     and_then (collect_st (\<lambda>i. first_search S scalar (states ! i) (states ! (i + fischlin_R div 2))
                                 session_id rc_as_bytes i u16_MAX)
                 [0..<fischlin_R div 2] r1) (\<lambda>(pairs, r2).
     Ok (\<lparr>dlog_point = smul S (generator S) scalar, rand_commitments = rcs,
          dlog_proofs = map fst pairs @ map snd pairs\<rparr>, r2)))"

definition dlog_verify :: "('f::field, 'g::ab_group_add) suite \<Rightarrow> ('f, 'g) dlog_proof \<Rightarrow> bytes \<Rightarrow> bool" where
  "dlog_verify S pf session_id =
     (if length (rand_commitments pf) \<noteq> fischlin_R \<or> length (dlog_proofs pf) \<noteq> fischlin_R then False
      else let vec_rc_as_bytes = map (point_to_bytes S) (rand_commitments pf) in
        if \<not> distinct vec_rc_as_bytes then False
        else let rc_as_bytes = concat vec_rc_as_bytes in
          list_all (\<lambda>i. let j = i + fischlin_R div 2 in
             fischlin_hash S session_id rc_as_bytes i (dlog_proofs pf ! i) =
               fischlin_hash S session_id rc_as_bytes j (dlog_proofs pf ! j) \<and>
             interactive_verify S (dlog_proofs pf ! i) (dlog_point pf) (rand_commitments pf ! i) \<and>
             interactive_verify S (dlog_proofs pf ! j) (dlog_point pf) (rand_commitments pf ! j))
            [0..<fischlin_R div 2])"

text \<open>The message both sides of the commitment hash.\<close>

definition dlog_commitment :: "('f, 'g) suite \<Rightarrow> ('f, 'g) dlog_proof \<Rightarrow> bytes \<Rightarrow> bytes" where
  "dlog_commitment S pf session_id =
     tagged_hash S TAG_DLOG_PROOF_COMMITMENT
       [session_id,
        concat [point_to_bytes S (dlog_point pf),
                concat (map (point_to_bytes S) (rand_commitments pf)),
                concat (map challenge (dlog_proofs pf)),
                concat (map (\<lambda>p. scalar_to_bytes S (challenge_response p)) (dlog_proofs pf))]]"

definition prove_commit ::
  "('f::field, 'g) suite \<Rightarrow> 'f \<Rightarrow> bytes \<Rightarrow> 'f rng
   \<Rightarrow> (proof_search_exhausted, (('f, 'g) dlog_proof \<times> bytes) \<times> 'f rng) outcome" where
  "prove_commit S scalar session_id r =
     and_then (dlog_prove S scalar session_id r) (\<lambda>(pf, r1).
       Ok ((pf, dlog_commitment S pf session_id), r1))"

definition decommit_verify ::
  "('f::field, 'g::ab_group_add) suite \<Rightarrow> ('f, 'g) dlog_proof \<Rightarrow> bytes \<Rightarrow> bytes \<Rightarrow> bool" where
  "decommit_verify S pf commitment session_id =
     (commitment = dlog_commitment S pf session_id \<and> dlog_verify S pf session_id)"

section \<open>Schnorr: completeness and special soundness\<close>

lemma challenge_to_scalar_short:
  "length ch \<le> 32 \<Longrightarrow> challenge_to_scalar S ch = Ok (reduce S (extended_challenge ch))"
  by (simp add: challenge_to_scalar_def)

lemma dlog_prove_step1_Ok:
  "dlog_prove_step1 S r = Ok ((k, P), r') \<Longrightarrow> k \<noteq> 0 \<and> P = smul S (generator S) k"
  by (auto simp: dlog_prove_step1_def outcome_simps dest: nonzero_scalar_eq_Ok)

lemma dlog_prove_step2_Ok:
  "dlog_prove_step2 S s k ch = Ok p \<longleftrightarrow>
     length ch \<le> 32 \<and> p = \<lparr>challenge = ch, challenge_response = k - reduce S (extended_challenge ch) * s\<rparr>"
  by (auto simp: dlog_prove_step2_def challenge_to_scalar_def)

lemma interactive_complete:
  assumes "curve_ok S" and "dlog_prove_step2 S s k ch = Ok p" and "ch \<noteq> []" "length ch \<le> 4"
  shows "interactive_verify S p (smul S (generator S) s) (smul S (generator S) k)"
  using assms
  by (simp add: dlog_prove_step2_Ok interactive_verify_def fischlin_T_def smul_distrib smul_smul
      mult.commute)

text \<open>
  Special soundness of Schnorr's protocol: two accepting answers to one commitment whose
  challenges differ as scalars determine the discrete logarithm of the point.
\<close>

theorem interactive_special_sound:
  assumes "curve_ok S"
    and "interactive_verify S p pt rc" and "interactive_verify S q pt rc"
    and "reduce S (extended_challenge (challenge p)) \<noteq> reduce S (extended_challenge (challenge q))"
  shows "pt = smul S (generator S)
     ((challenge_response p - challenge_response q) /
      (reduce S (extended_challenge (challenge q)) - reduce S (extended_challenge (challenge p))))"
proof -
  let ?c = "reduce S (extended_challenge (challenge p))"
  let ?d = "reduce S (extended_challenge (challenge q))"
  let ?z = "challenge_response p" and ?w = "challenge_response q"
  have "smul S (generator S) ?z + smul S pt ?c = smul S (generator S) ?w + smul S pt ?d"
    using assms(2,3) by (auto simp: interactive_verify_def Let_def split: if_splits)
  then have "smul S pt (?d - ?c) = smul S (generator S) (?z - ?w)"
    using assms(1) by (simp add: smul_distrib algebra_simps)
  then have "smul S (smul S pt (?d - ?c)) (inverse (?d - ?c)) =
      smul S (smul S (generator S) (?z - ?w)) (inverse (?d - ?c))" by simp
  then show ?thesis using assms(1,4) by (simp add: smul_smul smul_one divide_inverse)
qed

section \<open>The searches\<close>

lemma second_search_Some:
  "second_search S s st sid rc j h n r = Ok (Some p, r') \<Longrightarrow>
     h = fischlin_hash S sid rc j p \<and> (\<exists>ch. length ch = 4 \<and> dlog_prove_step2 S s st ch = Ok p)"
  by (induction n arbitrary: r)
    (auto simp: outcome_simps fischlin_T_def random_bytes_def dlog_prove_step2_Ok Let_def split: if_splits)

lemma first_search_Ok:
  "first_search S s st1 st2 sid rc i n r = Ok ((p, q), r') \<Longrightarrow>
     fischlin_hash S sid rc i p = fischlin_hash S sid rc (i + 32) q \<and>
     (\<exists>ch. length ch = 4 \<and> dlog_prove_step2 S s st1 ch = Ok p) \<and>
     (\<exists>ch. length ch = 4 \<and> dlog_prove_step2 S s st2 ch = Ok q)"
proof (induction n arbitrary: r)
  case 0
  then show ?case by simp
next
  case (Suc n)
  then show ?case
    by (auto simp: outcome_simps fischlin_T_def fischlin_R_def random_bytes_def dlog_prove_step2_Ok Let_def
        split: option.splits dest!: second_search_Some)
qed

lemma second_search_total:
  "\<exists>x r'. second_search S s st sid rc j h n r = Ok (x, r')"
  by (induction n arbitrary: r)
    (auto simp: dlog_prove_step2_def challenge_to_scalar_def random_bytes_def fischlin_T_def Let_def)

lemma first_search_cases:
  "first_search S s st1 st2 sid rc i n r = Err ProofSearchExhausted \<or>
     (\<exists>x. first_search S s st1 st2 sid rc i n r = Ok x)"
proof (induction n arbitrary: r)
  case 0
  show ?case by simp
next
  case (Suc n)
  obtain ch r1 where ch: "random_bytes (fischlin_T div 8) r = (ch, r1)" by fastforce
  then have "length ch \<le> 32" by (auto simp: random_bytes_def fischlin_T_def)
  then obtain p where p: "dlog_prove_step2 S s st1 ch = (Ok p :: (proof_search_exhausted, _) outcome)"
    by (simp add: dlog_prove_step2_def challenge_to_scalar_def)
  obtain x r2 where "second_search S s st2 sid rc (i + fischlin_R div 2)
      (fischlin_hash S sid rc i p) u16_MAX r1 = (Ok (x, r2) :: (proof_search_exhausted, _) outcome)"
    using second_search_total by blast
  then show ?case using Suc.IH by (cases x) (simp_all add: ch p)
qed

lemma collect_st_cases:
  assumes "\<And>x s. f x s = Err e \<or> (\<exists>y. f x s = Ok y)"
  shows "collect_st f xs s = Err e \<or> (\<exists>y. collect_st f xs s = Ok y)"
proof (induction xs arbitrary: s)
  case Nil
  then show ?case by simp
next
  case (Cons x xs)
  show ?case
  proof (cases "\<exists>y. f x s = Ok y")
    case True
    then obtain y t where "f x s = Ok (y, t)" by auto
    with Cons [of t] show ?thesis by auto
  next
    case False
    then show ?thesis using assms [of x s] by auto
  qed
qed

text \<open>
  C21: with a random source that goes on showing nonzero scalars, the prover ends: it returns a
  proof, or reports that the bounded search was exhausted; it neither panics nor runs forever.
\<close>

theorem dlog_prove_ends:
  assumes "rng_live r"
  shows "dlog_prove S s sid r = Err ProofSearchExhausted \<or> (\<exists>pf r'. dlog_prove S s sid r = Ok (pf, r'))"
proof -
  have "rng_live r \<Longrightarrow> \<exists>ys t. collect_st (\<lambda>_. dlog_prove_step1 S) xs r =
      (Ok (ys, t) :: (proof_search_exhausted, _) outcome)" for xs :: "nat list" and r
  proof (induction xs arbitrary: r)
    case (Cons x xs)
    then obtain k r1 where "nonzero_scalar r = (Ok (k, r1) :: (proof_search_exhausted, _) outcome)" "rng_live r1"
      using nonzero_scalar_total by blast
    with Cons.IH [of r1] show ?case by (auto simp: dlog_prove_step1_def)
  qed simp
  with assms obtain ys t where ys: "collect_st (\<lambda>_. dlog_prove_step1 S) [0..<fischlin_R] r =
      (Ok (ys, t) :: (proof_search_exhausted, _) outcome)" by blast
  let ?loop = "collect_st (\<lambda>i. first_search S s (map fst ys ! i) (map fst ys ! (i + fischlin_R div 2))
      sid (concat (map (point_to_bytes S) (map snd ys))) i u16_MAX) [0..<fischlin_R div 2] t"
  have "?loop = Err ProofSearchExhausted \<or> (\<exists>y. ?loop = Ok y)"
    by (rule collect_st_cases) (rule first_search_cases)
  then show ?thesis by (auto simp: dlog_prove_def ys Let_def)
qed

section \<open>Completeness of the transform\<close>

lemma dlog_prove_Ok:
  assumes "dlog_prove S s sid r = Ok (pf, r')"
  obtains ks where "length ks = 64" and "rand_commitments pf = map (smul S (generator S)) ks"
    and "dlog_point pf = smul S (generator S) s" and "length (dlog_proofs pf) = 64"
    and "\<And>i. i < 64 \<Longrightarrow> \<exists>ch. length ch = 4 \<and> dlog_prove_step2 S s (ks ! i) ch = (Ok (dlog_proofs pf ! i) :: (unit, _) outcome)"
    and "\<And>i. i < 32 \<Longrightarrow>
       fischlin_hash S sid (concat (map (point_to_bytes S) (rand_commitments pf))) i (dlog_proofs pf ! i) =
       fischlin_hash S sid (concat (map (point_to_bytes S) (rand_commitments pf))) (i + 32) (dlog_proofs pf ! (i + 32))"
proof -
  from assms obtain step1 r1 pairs where
    step1: "collect_st (\<lambda>_. dlog_prove_step1 S) [0..<64] r = (Ok (step1, r1) :: (proof_search_exhausted, _) outcome)"
    and pairs: "collect_st (\<lambda>i. first_search S s (map fst step1 ! i) (map fst step1 ! (i + 32)) sid
       (concat (map (point_to_bytes S) (map snd step1))) i u16_MAX) [0..<32] r1 = Ok (pairs, r')"
    and pf: "pf = \<lparr>dlog_point = smul S (generator S) s, rand_commitments = map snd step1,
       dlog_proofs = map fst pairs @ map snd pairs\<rparr>"
    by (auto simp: dlog_prove_def fischlin_R_def outcome_simps Let_def split: prod.splits)
  have len1: "length step1 = 64" and len2: "length pairs = 32"
    using collect_st_length [OF step1] collect_st_length [OF pairs] by simp_all
  have rc: "snd (step1 ! i) = smul S (generator S) (fst (step1 ! i))" if "i < 64" for i
    using collect_st_nth [OF step1, of i] that dlog_prove_step1_Ok
    by (metis diff_zero length_upt prod.collapse)
  have search: "\<exists>a b. first_search S s (map fst step1 ! i) (map fst step1 ! (i + 32)) sid
       (concat (map (point_to_bytes S) (map snd step1))) i u16_MAX a = Ok (pairs ! i, b)" if "i < 32" for i
    using collect_st_nth [OF pairs, of i] that by simp
  have proofs: "fischlin_hash S sid (concat (map (point_to_bytes S) (map snd step1))) i (fst (pairs ! i)) =
        fischlin_hash S sid (concat (map (point_to_bytes S) (map snd step1))) (i + 32) (snd (pairs ! i)) \<and>
      (\<exists>ch. length ch = 4 \<and> dlog_prove_step2 S s (fst (step1 ! i)) ch = (Ok (fst (pairs ! i)) :: (unit, _) outcome)) \<and>
      (\<exists>ch. length ch = 4 \<and> dlog_prove_step2 S s (fst (step1 ! (i + 32))) ch = (Ok (snd (pairs ! i)) :: (unit, _) outcome))"
    if i: "i < 32" for i
  proof -
    obtain p q where pq: "pairs ! i = (p, q)" by fastforce
    show ?thesis using search [OF i] first_search_Ok i len1
      unfolding pq dlog_prove_step2_Ok by fastforce
  qed
  show ?thesis
  proof (rule that [of "map fst step1"])
    show "rand_commitments pf = map (smul S (generator S)) (map fst step1)"
      using rc len1 by (simp add: pf list_eq_iff_nth_eq)
    show "\<exists>ch. length ch = 4 \<and> dlog_prove_step2 S s (map fst step1 ! i) ch = (Ok (dlog_proofs pf ! i) :: (unit, _) outcome)"
      if i: "i < 64" for i
    proof (cases "i < 32")
      case True
      then show ?thesis using proofs [of i] len1 len2 by (simp add: pf nth_append)
    next
      case False
      then show ?thesis using proofs [of "i - 32"] i len1 len2 by (simp add: pf nth_append)
    qed
    show "fischlin_hash S sid (concat (map (point_to_bytes S) (rand_commitments pf))) i (dlog_proofs pf ! i) =
       fischlin_hash S sid (concat (map (point_to_bytes S) (rand_commitments pf))) (i + 32) (dlog_proofs pf ! (i + 32))"
      if "i < 32" for i
      using proofs [OF that] that len2 by (simp add: pf nth_append)
  qed (simp_all add: pf len1 len2)
qed

lemma dlog_complete:
  assumes S: "suite_ok S" and pf: "dlog_prove S s sid r = Ok (pf, r')"
    and d: "distinct (rand_commitments pf)"
  shows "dlog_verify S pf sid" and "dlog_point pf = smul S (generator S) s"
proof -
  obtain ks where ks: "length ks = 64" "rand_commitments pf = map (smul S (generator S)) ks"
    and pt: "dlog_point pf = smul S (generator S) s" and len: "length (dlog_proofs pf) = 64"
    and p: "\<And>i. i < 64 \<Longrightarrow> \<exists>ch. length ch = 4 \<and> dlog_prove_step2 S s (ks ! i) ch = (Ok (dlog_proofs pf ! i) :: (unit, _) outcome)"
    and h: "\<And>i. i < 32 \<Longrightarrow>
       fischlin_hash S sid (concat (map (point_to_bytes S) (rand_commitments pf))) i (dlog_proofs pf ! i) =
       fischlin_hash S sid (concat (map (point_to_bytes S) (rand_commitments pf))) (i + 32) (dlog_proofs pf ! (i + 32))"
    by (rule dlog_prove_Ok [OF pf], rule that)
  have iv: "interactive_verify S (dlog_proofs pf ! i) (dlog_point pf) (rand_commitments pf ! i)" if i: "i < 64" for i
  proof -
    from p [OF i] obtain ch where ch: "length ch = 4"
      and step2: "dlog_prove_step2 S s (ks ! i) ch = (Ok (dlog_proofs pf ! i) :: (unit, _) outcome)" by blast
    from ch have "ch \<noteq> []" "length ch \<le> 4" by auto
    with interactive_complete [OF suite_okD(1) [OF S] step2] show ?thesis using ks i pt by simp
  qed
  have "distinct (map (point_to_bytes S) (rand_commitments pf))"
    using d suite_okD(2) [OF S] by (auto simp: distinct_map inj_on_def point_to_bytes_inject)
  then show "dlog_verify S pf sid"
    unfolding dlog_verify_def Let_def list_all_iff
    using ks(1) len iv h by (simp add: ks(2) fischlin_R_def)
  show "dlog_point pf = smul S (generator S) s" by (rule pt)
qed

lemma prove_commit_verifies:
  assumes "suite_ok S" and "prove_commit S s sid r = Ok ((pf, c), r')"
    and "distinct (rand_commitments pf)"
  shows "decommit_verify S pf c sid \<and> dlog_point pf = smul S (generator S) s"
proof -
  from assms(2) have "dlog_prove S s sid r = Ok (pf, r')" and c: "c = dlog_commitment S pf sid"
    by (auto simp: prove_commit_def outcome_simps)
  then show ?thesis using dlog_complete [OF assms(1) _ assms(3)] by (simp add: decommit_verify_def)
qed

text \<open>
  What \<open>prove_commit\<close> returns is accepted by \<open>decommit_verify\<close> under the same session id,
  for the point that belongs to the witness, provided the 64 random commitments are distinct
  (the verifier refuses repetitions).
\<close>

theorem prove_commit_complete:
  assumes "suite_ok S" and "prove_commit S s sid r = Ok ((pf, c), r')"
    and "distinct (rand_commitments pf)"
  shows "decommit_verify S pf c sid \<and> dlog_point pf = smul S (generator S) s"
  by (rule prove_commit_verifies [OF assms])

text \<open>What an accepted proof contains.\<close>

lemma dlog_verifyD:
  assumes "dlog_verify S pf sid"
  shows "length (rand_commitments pf) = 64" "length (dlog_proofs pf) = 64"
    and "distinct (map (point_to_bytes S) (rand_commitments pf))"
    and "i < 64 \<Longrightarrow> interactive_verify S (dlog_proofs pf ! i) (dlog_point pf) (rand_commitments pf ! i)"
proof -
  show "length (rand_commitments pf) = 64" "length (dlog_proofs pf) = 64"
    "distinct (map (point_to_bytes S) (rand_commitments pf))"
    using assms by (auto simp: dlog_verify_def fischlin_R_def Let_def split: if_splits)
  have all: "\<forall>i<32. interactive_verify S (dlog_proofs pf ! i) (dlog_point pf) (rand_commitments pf ! i) \<and>
      interactive_verify S (dlog_proofs pf ! (i + 32)) (dlog_point pf) (rand_commitments pf ! (i + 32))"
    using assms by (auto simp: dlog_verify_def fischlin_R_def Let_def list_all_iff split: if_splits)
  show "interactive_verify S (dlog_proofs pf ! i) (dlog_point pf) (rand_commitments pf ! i)" if "i < 64"
  proof (cases "i < 32")
    case False
    then have "i - 32 < 32" "i - 32 + 32 = i" using that by auto
    with all show ?thesis by metis
  qed (use all in blast)
qed

section \<open>Chaum-Pedersen\<close>

record 'g random_commitments =
  rc_g :: 'g
  rc_h :: 'g

record ('f, 'g) cp_proof =
  base_g :: 'g
  base_h :: 'g
  point_u :: 'g
  point_v :: 'g
  cp_challenge_response :: 'f

definition cp_prove_step1 ::
  "('f::field, 'g) suite \<Rightarrow> 'g \<Rightarrow> 'g \<Rightarrow> 'f rng \<Rightarrow> ('e, ('f \<times> 'g random_commitments) \<times> 'f rng) outcome" where
  "cp_prove_step1 S g h r =
     and_then (nonzero_scalar r) (\<lambda>(k, r1). Ok ((k, \<lparr>rc_g = smul S g k, rc_h = smul S h k\<rparr>), r1))"

definition cp_prove_step2 ::
  "('f::field, 'g) suite \<Rightarrow> 'g \<Rightarrow> 'g \<Rightarrow> 'f \<Rightarrow> 'f \<Rightarrow> 'f \<Rightarrow> ('f, 'g) cp_proof" where
  "cp_prove_step2 S g h scalar scalar_rand_commitment ch =
     \<lparr>base_g = g, base_h = h, point_u = smul S g scalar, point_v = smul S h scalar,
      cp_challenge_response = scalar_rand_commitment - ch * scalar\<rparr>"

definition cp_verify ::
  "('f::field, 'g::ab_group_add) suite \<Rightarrow> ('f, 'g) cp_proof \<Rightarrow> 'g random_commitments \<Rightarrow> 'f \<Rightarrow> bool" where
  "cp_verify S p rc ch =
     (smul S (base_g p) (cp_challenge_response p) + smul S (point_u p) ch = rc_g rc \<and>
      smul S (base_h p) (cp_challenge_response p) + smul S (point_v p) ch = rc_h rc)"

definition cp_simulate ::
  "('f::field, 'g::ab_group_add) suite \<Rightarrow> 'g \<Rightarrow> 'g \<Rightarrow> 'g \<Rightarrow> 'g \<Rightarrow> 'f rng
   \<Rightarrow> ('g random_commitments \<times> 'f \<times> ('f, 'g) cp_proof) \<times> 'f rng" where
  "cp_simulate S g h u v r =
     (let (ch, r1) = random_scalar r; (resp, r2) = random_scalar r1
      in ((\<lparr>rc_g = smul S g resp + smul S u ch, rc_h = smul S h resp + smul S v ch\<rparr>, ch,
           \<lparr>base_g = g, base_h = h, point_u = u, point_v = v, cp_challenge_response = resp\<rparr>), r2))"

lemma cp_complete:
  "curve_ok S \<Longrightarrow>
     cp_verify S (cp_prove_step2 S g h s k ch) \<lparr>rc_g = smul S g k, rc_h = smul S h k\<rparr> ch"
  by (simp add: cp_verify_def cp_prove_step2_def smul_distrib smul_smul mult.commute)

lemma cp_simulate_verifies:
  assumes "cp_simulate S g h u v r = ((rc, ch, p), r')"
  shows "cp_verify S p rc ch" "base_g p = g" "base_h p = h" "point_u p = u" "point_v p = v"
  using assms by (auto simp: cp_simulate_def cp_verify_def Let_def split: prod.splits)

lemma cp_special_sound:
  assumes S: "curve_ok S"
    and p: "cp_verify S p rc c" and q: "cp_verify S q rc d" and neq: "c \<noteq> d"
    and same: "base_g p = base_g q" "base_h p = base_h q" "point_u p = point_u q" "point_v p = point_v q"
  shows "\<exists>w. point_u p = smul S (base_g p) w \<and> point_v p = smul S (base_h p) w"
proof -
  let ?z = "cp_challenge_response p" and ?y = "cp_challenge_response q"
  have solve: "P = smul S B ((?z - ?y) * inverse (d - c))"
    if "smul S B ?z + smul S P c = smul S B ?y + smul S P d" for B P
  proof -
    have "smul S P (d - c) = smul S B (?z - ?y)"
      using that S by (simp add: smul_distrib algebra_simps)
    then have "smul S (smul S P (d - c)) (inverse (d - c)) = smul S (smul S B (?z - ?y)) (inverse (d - c))"
      by simp
    then show ?thesis using S neq by (simp add: smul_smul smul_one)
  qed
  have "point_u p = smul S (base_g p) ((?z - ?y) * inverse (d - c))"
    using p q same by (intro solve) (simp add: cp_verify_def)
  moreover have "point_v p = smul S (base_h p) ((?z - ?y) * inverse (d - c))"
    using p q same by (intro solve) (simp add: cp_verify_def)
  ultimately show ?thesis by blast
qed

section \<open>The encryption proof\<close>

record ('f, 'g) enc_proof =
  proof0 :: "('f, 'g) cp_proof"
  proof1 :: "('f, 'g) cp_proof"
  commitments0 :: "'g random_commitments"
  commitments1 :: "'g random_commitments"
  challenge0 :: 'f
  challenge1 :: 'f

text \<open>The Fiat-Shamir challenge over the statement and both pairs of commitments.\<close>

definition enc_challenge ::
  "('f, 'g) suite \<Rightarrow> bytes \<Rightarrow> 'g \<Rightarrow> 'g \<Rightarrow> 'g \<Rightarrow> 'g \<Rightarrow> 'g random_commitments \<Rightarrow> 'g random_commitments \<Rightarrow> 'f" where
  "enc_challenge S session_id g h u v rc0 rc1 =
     tagged_hash_as_scalar S TAG_ENCPROOF_FS
       [session_id, concat (map (point_to_bytes S) [g, h, u, v, rc_g rc0, rc_h rc0, rc_g rc1, rc_h rc1])]"

definition enc_prove ::
  "('f::field, 'g::ab_group_add) suite \<Rightarrow> bytes \<Rightarrow> 'g \<Rightarrow> 'f \<Rightarrow> bool \<Rightarrow> 'f rng
   \<Rightarrow> ('e, ('f, 'g) enc_proof \<times> 'f rng) outcome" where
  "enc_prove S session_id h scalar b r =
     (let g = generator S;
          u = smul S h scalar;
          g_times_scalar = smul S g scalar;
          (v, fake_v) = (if b then (g_times_scalar + h, g_times_scalar + h)
                         else (g_times_scalar, g_times_scalar - h)) in
      and_then (cp_prove_step1 S g h r) (\<lambda>((real_scalar_commitment, real_commitments), r1).
      let ((fake_commitments, fake_challenge, fake_proof), r2) = cp_simulate S g h fake_v u r1;
          ch = (if b then enc_challenge S session_id g h u v fake_commitments real_commitments
                else enc_challenge S session_id g h u v real_commitments fake_commitments);
          real_challenge = ch - fake_challenge;
          real_proof = cp_prove_step2 S g h scalar real_scalar_commitment real_challenge in
      Ok (if b
          then \<lparr>proof0 = fake_proof, proof1 = real_proof,
                commitments0 = fake_commitments, commitments1 = real_commitments,
                challenge0 = fake_challenge, challenge1 = real_challenge\<rparr>
          else \<lparr>proof0 = real_proof, proof1 = fake_proof,
                commitments0 = real_commitments, commitments1 = fake_commitments,
                challenge0 = real_challenge, challenge1 = fake_challenge\<rparr>, r2)))"

definition enc_verify :: "('f::field, 'g::ab_group_add) suite \<Rightarrow> ('f, 'g) enc_proof \<Rightarrow> bytes \<Rightarrow> bool" where
  "enc_verify S e session_id =
     (if base_g (proof0 e) \<noteq> generator S \<or> base_g (proof0 e) \<noteq> base_g (proof1 e) \<or>
         base_h (proof0 e) \<noteq> base_h (proof1 e) \<or> point_v (proof0 e) \<noteq> point_v (proof1 e) \<or>
         point_u (proof0 e) \<noteq> point_u (proof1 e) + base_h (proof1 e)
      then False
      else if enc_challenge S session_id (base_g (proof0 e)) (base_h (proof0 e))
                (point_v (proof0 e)) (point_u (proof0 e)) (commitments0 e) (commitments1 e)
              \<noteq> challenge0 e + challenge1 e
      then False
      else cp_verify S (proof0 e) (commitments0 e) (challenge0 e) \<and>
           cp_verify S (proof1 e) (commitments1 e) (challenge1 e))"

definition get_u_and_v :: "('f, 'g) enc_proof \<Rightarrow> 'g \<times> 'g" where
  "get_u_and_v e = (point_v (proof0 e), point_u (proof0 e))"

lemma enc_complete:
  assumes S: "curve_ok S" and e: "enc_prove S sid h s b r = Ok (e, r')"
  shows "enc_verify S e sid" and "base_h (proof0 e) = h"
    and "get_u_and_v e = (smul S h s, if b then smul S (generator S) s + h else smul S (generator S) s)"
proof -
  obtain k r1 where k: "nonzero_scalar r = (Ok (k, r1) :: ('c, _) outcome)"
    using e by (auto simp: enc_prove_def cp_prove_step1_def outcome_simps Let_def split: if_splits)
  let ?g = "generator S" and ?rc = "\<lparr>rc_g = smul S (generator S) k, rc_h = smul S h k\<rparr>"
  define fake_v where "fake_v = (if b then smul S ?g s + h else smul S ?g s - h)"
  obtain frc fch fp r2 where sim: "cp_simulate S ?g h fake_v (smul S h s) r1 = ((frc, fch, fp), r2)"
    by (metis prod_cases3 surj_pair)
  note fake = cp_simulate_verifies [OF sim]
  show "enc_verify S e sid" and "base_h (proof0 e) = h"
    and "get_u_and_v e = (smul S h s, if b then smul S ?g s + h else smul S ?g s)"
    using e k sim fake cp_complete [OF S, of ?g h s k] unfolding fake_v_def
    by (cases b; auto simp: enc_prove_def cp_prove_step1_def Let_def enc_verify_def get_u_and_v_def
        cp_prove_step2_def)+
qed

text \<open>
  An encryption proof made for either choice bit verifies, and carries
  \<open>u = h * scalar\<close> and \<open>v = g * scalar + bit * h\<close>.
\<close>

theorem enc_proof_complete:
  assumes "suite_ok S" and "enc_prove S sid h s b r = Ok (e, r')"
  shows "enc_verify S e sid \<and>
     get_u_and_v e = (smul S h s, if b then smul S (generator S) s + h else smul S (generator S) s)"
  using enc_complete [OF suite_okD(1) [OF assms(1)] assms(2)] by simp

text \<open>
  C20: soundness of the OR-composition: two accepting proofs with the same statement and
  commitments whose total challenges differ show that \<open>(g, h, v, u)\<close> or \<open>(g, h, v - h, u)\<close>
  has a common discrete logarithm.
\<close>

theorem enc_proof_special_sound:
  assumes S: "curve_ok S" and e: "enc_verify S e sid" and e': "enc_verify S e' sid'"
    and rc: "commitments0 e = commitments0 e'" "commitments1 e = commitments1 e'"
    and stmt: "get_u_and_v e = get_u_and_v e'" "base_h (proof0 e) = base_h (proof0 e')"
    and neq: "challenge0 e + challenge1 e \<noteq> challenge0 e' + challenge1 e'"
  shows "\<exists>w. fst (get_u_and_v e) = smul S (base_h (proof0 e)) w \<and>
     (snd (get_u_and_v e) = smul S (generator S) w \<or>
      snd (get_u_and_v e) - base_h (proof0 e) = smul S (generator S) w)"
proof -
  have v: "base_g (proof0 e) = generator S" "base_g (proof1 e) = generator S"
    "base_h (proof1 e) = base_h (proof0 e)" "point_v (proof1 e) = point_v (proof0 e)"
    "point_u (proof0 e) = point_u (proof1 e) + base_h (proof0 e)"
    "cp_verify S (proof0 e) (commitments0 e) (challenge0 e)"
    "cp_verify S (proof1 e) (commitments1 e) (challenge1 e)"
    using e by (auto simp: enc_verify_def split: if_splits)
  have v': "base_g (proof0 e') = generator S" "base_g (proof1 e') = generator S"
    "base_h (proof1 e') = base_h (proof0 e')" "point_v (proof1 e') = point_v (proof0 e')"
    "point_u (proof0 e') = point_u (proof1 e') + base_h (proof0 e')"
    "cp_verify S (proof0 e') (commitments0 e') (challenge0 e')"
    "cp_verify S (proof1 e') (commitments1 e') (challenge1 e')"
    using e' by (auto simp: enc_verify_def split: if_splits)
  have uv: "point_v (proof0 e) = point_v (proof0 e')" "point_u (proof0 e) = point_u (proof0 e')"
    using stmt(1) by (simp_all add: get_u_and_v_def)
  have "challenge0 e \<noteq> challenge0 e' \<or> challenge1 e \<noteq> challenge1 e'" using neq by auto
  then show ?thesis
  proof
    assume "challenge0 e \<noteq> challenge0 e'"
    then show ?thesis
      using cp_special_sound [OF S v(6), of "proof0 e'" "challenge0 e'"] v v' uv rc stmt(2)
      by (auto simp: get_u_and_v_def)
  next
    assume "challenge1 e \<noteq> challenge1 e'"
    moreover have "point_u (proof1 e) = point_u (proof1 e')"
      using v(5) v'(5) uv(2) stmt(2) by simp
    ultimately show ?thesis
      using cp_special_sound [OF S v(7), of "proof1 e'" "challenge1 e'"] v v' uv rc stmt(2)
      by (auto simp: get_u_and_v_def)
  qed
qed

end
