(* ===== verification/BaseOT.thy ===== *)
theory BaseOT
  imports Proofs
begin

text \<open>
  The endemic base OT of Zhou et al. (\<open>utilities/ot.rs\<close>, \<open>utilities/ot/base.rs\<close>): single
  and batched phases of sender and receiver. The contract of one transfer is the locale
  \<open>oblivious_transfer\<close>, where the batched run is derived once; the interpretation
  discharges it for the protocol's phases.
\<close>

section \<open>State and phases\<close>

datatype error_ot = ErrorOT string

record ('f, 'g) ot_sender =
  ot_s :: 'f
  ot_proof :: "('f, 'g) dlog_proof"

record ot_receiver =
  ot_seed :: bytes

text \<open>\<open>u16::try_from(len)\<close> and the session id of one iteration.\<close>

definition ot_batch_size :: "'a list \<Rightarrow> (error_ot, nat) outcome" where
  "ot_batch_size xs =
     (if u16_MAX < length xs then Err (ErrorOT ''Batch size exceeds maximum (65535)'')
      else Ok (length xs))"

definition current_sid :: "nat \<Rightarrow> bytes \<Rightarrow> bytes" where
  "current_sid i session_id = u16_be (of_nat i) @ session_id"

definition ot_base_h :: "('f::field, 'g) suite \<Rightarrow> bytes \<Rightarrow> bytes \<Rightarrow> 'g" where
  "ot_base_h S session_id sd =
     smul S (generator S) (tagged_hash_as_scalar S TAG_OT_BASE_H [session_id, sd])"

definition ot_message :: "('f, 'g) suite \<Rightarrow> bytes \<Rightarrow> 'g \<Rightarrow> bytes" where
  "ot_message S session_id P = tagged_hash S TAG_OT_BASE_MSG [session_id, point_to_bytes S P]"

definition ot_sender_init ::
  "('f::field, 'g) suite \<Rightarrow> bytes \<Rightarrow> 'f rng \<Rightarrow> ('e, ('f, 'g) ot_sender \<times> 'f rng) outcome" where
  "ot_sender_init S session_id r =
     and_then (nonzero_scalar r) (\<lambda>(s, r1).
     and_then (expect (dlog_prove S s session_id r1)) (\<lambda>(pf, r2).
       Ok (\<lparr>ot_s = s, ot_proof = pf\<rparr>, r2)))"

definition ot_sender_run_phase1 :: "('f, 'g) ot_sender \<Rightarrow> ('f, 'g) dlog_proof" where
  "ot_sender_run_phase1 sndr = ot_proof sndr"

definition ot_sender_run_phase2 ::
  "('f::field, 'g::ab_group_add) suite \<Rightarrow> ('f, 'g) ot_sender \<Rightarrow> bytes \<Rightarrow> bytes \<Rightarrow> ('f, 'g) enc_proof
   \<Rightarrow> (error_ot, bytes \<times> bytes) outcome" where
  "ot_sender_run_phase2 S sndr session_id sd e =
     (let h = ot_base_h S session_id sd;
          verification = enc_verify S e session_id in
      if \<not> verification \<or> h \<noteq> base_h (proof0 e)
      then Err (ErrorOT ''Receiver cheated in OT: Encryption proof failed!'')
      else let (_, v) = get_u_and_v e;
               value_for_m0 = smul S v (ot_s sndr);
               value_for_m1 = smul S (v - h) (ot_s sndr)
           in Ok (ot_message S session_id value_for_m0, ot_message S session_id value_for_m1))"

definition ot_sender_run_phase2_batch ::
  "('f::field, 'g::ab_group_add) suite \<Rightarrow> ('f, 'g) ot_sender \<Rightarrow> bytes \<Rightarrow> bytes \<Rightarrow> ('f, 'g) enc_proof list
   \<Rightarrow> (error_ot, bytes list \<times> bytes list) outcome" where
  "ot_sender_run_phase2_batch S sndr session_id sd enc_proofs =
     and_then (ot_batch_size enc_proofs) (\<lambda>batch_size.
     and_then (collect_try (\<lambda>i. ot_sender_run_phase2 S sndr (current_sid i session_id) sd (enc_proofs ! i))
                 [0..<batch_size]) (\<lambda>ms.
       Ok (map fst ms, map (\<lambda>m. case m of (_, m1) \<Rightarrow> m1) ms)))"

definition ot_receiver_init :: "'f rng \<Rightarrow> ot_receiver \<times> 'f rng" where
  "ot_receiver_init r = (let (sd, r1) = random_bytes 32 r in (\<lparr>ot_seed = sd\<rparr>, r1))"

definition ot_receiver_run_phase1 ::
  "('f::field, 'g::ab_group_add) suite \<Rightarrow> ot_receiver \<Rightarrow> bytes \<Rightarrow> bool \<Rightarrow> 'f rng
   \<Rightarrow> ('e, ('f \<times> ('f, 'g) enc_proof) \<times> 'f rng) outcome" where
  "ot_receiver_run_phase1 S rcv session_id b r =
     (let (k, r1) = random_scalar r;
          h = ot_base_h S session_id (ot_seed rcv) in
      and_then (enc_prove S session_id h k b r1) (\<lambda>(e, r2). Ok ((k, e), r2)))"

definition ot_receiver_run_phase1_batch ::
  "('f::field, 'g::ab_group_add) suite \<Rightarrow> ot_receiver \<Rightarrow> bytes \<Rightarrow> bool list \<Rightarrow> 'f rng
   \<Rightarrow> (error_ot, ('f list \<times> ('f, 'g) enc_proof list) \<times> 'f rng) outcome" where
  "ot_receiver_run_phase1_batch S rcv session_id bits r =
     and_then (ot_batch_size bits) (\<lambda>batch_size.
     and_then (collect_st (\<lambda>i. ot_receiver_run_phase1 S rcv (current_sid i session_id) (bits ! i))
                 [0..<batch_size] r) (\<lambda>(out, r1).
       Ok ((map fst out, map snd out), r1)))"

definition ot_receiver_run_phase2_step1 ::
  "('f::field, 'g::ab_group_add) suite \<Rightarrow> bytes \<Rightarrow> ('f, 'g) dlog_proof \<Rightarrow> (error_ot, 'g) outcome" where
  "ot_receiver_run_phase2_step1 S session_id pf =
     (if \<not> dlog_verify S pf session_id
      then Err (ErrorOT ''Sender cheated in OT: Proof of discrete logarithm failed!'')
      else Ok (dlog_point pf))"

definition ot_receiver_run_phase2_step2 ::
  "('f, 'g) suite \<Rightarrow> bytes \<Rightarrow> 'f \<Rightarrow> 'g \<Rightarrow> bytes" where
  "ot_receiver_run_phase2_step2 S session_id k z = ot_message S session_id (smul S z k)"

definition ot_receiver_run_phase2_batch ::
  "('f::field, 'g::ab_group_add) suite \<Rightarrow> bytes \<Rightarrow> 'f list \<Rightarrow> ('f, 'g) dlog_proof
   \<Rightarrow> (error_ot, bytes list) outcome" where
  "ot_receiver_run_phase2_batch S session_id vec_r pf =
     and_then (ot_receiver_run_phase2_step1 S session_id pf) (\<lambda>z.
     and_then (ot_batch_size vec_r) (\<lambda>batch_size.
       Ok (map (\<lambda>i. ot_receiver_run_phase2_step2 S (current_sid i session_id) (vec_r ! i) z)
             [0..<batch_size])))"

section \<open>The contract of a transfer\<close>

text \<open>
  The receiver's first message made for a choice bit is accepted by the sender, and what
  the receiver computes afterwards is the sender's message of that bit.
\<close>

locale oblivious_transfer =
  fixes linked :: "'s \<Rightarrow> 'z \<Rightarrow> bool"
    and recv1 :: "'w \<Rightarrow> 'i \<Rightarrow> bool \<Rightarrow> 'r \<Rightarrow> ('e, ('k \<times> 'm) \<times> 'r) outcome"
    and send2 :: "'s \<Rightarrow> 'w \<Rightarrow> 'i \<Rightarrow> 'm \<Rightarrow> ('e, 'o \<times> 'o) outcome"
    and recv2 :: "'i \<Rightarrow> 'k \<Rightarrow> 'z \<Rightarrow> 'o"
  assumes transfer: "linked s z \<Longrightarrow> recv1 w i b r = Ok ((k, m), r') \<Longrightarrow>
      \<exists>m0 m1. send2 s w i m = Ok (m0, m1) \<and> recv2 i k z = (if b then m1 else m0)"
begin

lemma batch:
  assumes "linked s z" and "collect_st (\<lambda>i. recv1 w (sid i) (bits ! i)) is r = Ok (out, r')"
  shows "\<exists>ms. collect_try (\<lambda>(i, m). send2 s w (sid i) m) (zip is (map snd out)) = Ok ms \<and>
     length ms = length is \<and>
     (\<forall>n<length is. recv2 (sid (is ! n)) (fst (out ! n)) z =
        (if bits ! (is ! n) then snd (ms ! n) else fst (ms ! n)))"
  using assms(2)
proof (induction "is" arbitrary: r out)
  case Nil
  then show ?case by auto
next
  case (Cons i "is")
  from Cons.prems obtain k m r1 rest where
    one: "recv1 w (sid i) (bits ! i) r = Ok ((k, m), r1)"
    and tl: "collect_st (\<lambda>i. recv1 w (sid i) (bits ! i)) is r1 = Ok (rest, r')"
    and out: "out = (k, m) # rest"
    by (auto simp: outcome_simps)
  obtain m0 m1 where "send2 s w (sid i) m = Ok (m0, m1)"
    and "recv2 (sid i) k z = (if bits ! i then m1 else m0)"
    using transfer [OF assms(1) one] by blast
  moreover obtain ms where "collect_try (\<lambda>(i, m). send2 s w (sid i) m) (zip is (map snd rest)) = Ok ms"
    "length ms = length is"
    "\<forall>n<length is. recv2 (sid (is ! n)) (fst (rest ! n)) z =
        (if bits ! (is ! n) then snd (ms ! n) else fst (ms ! n))"
    using Cons.IH [OF tl] by blast
  ultimately show ?case
    by (intro exI [where x = "(m0, m1) # ms"]) (auto simp: out nth_Cons split: nat.splits)
qed

end

lemma ot_transfer:
  assumes S: "curve_ok S" and z: "z = smul S (generator S) (ot_s s)"
    and run: "ot_receiver_run_phase1 S w sid b r = Ok ((k, e), r')"
  shows "\<exists>m0 m1. ot_sender_run_phase2 S s sid (ot_seed w) e = Ok (m0, m1) \<and>
     ot_receiver_run_phase2_step2 S sid k z = (if b then m1 else m0)"
proof -
  from run obtain r1 where "enc_prove S sid (ot_base_h S sid (ot_seed w)) k b r1 = (Ok (e, r') :: ('c, _) outcome)"
    by (auto simp: ot_receiver_run_phase1_def outcome_simps split_def Let_def)
  note e = enc_complete [OF S this]
  show ?thesis
    using e S by (cases b) (simp_all add: ot_sender_run_phase2_def ot_receiver_run_phase2_step2_def
        get_u_and_v_def z smul_smul mult.commute)
qed

interpretation base_ot: oblivious_transfer
  where linked = "\<lambda>s z. curve_ok S \<and> z = smul S (generator S) (ot_s s)"
    and recv1 = "ot_receiver_run_phase1 S"
    and send2 = "\<lambda>s w i e. ot_sender_run_phase2 S s i (ot_seed w) e"
    and recv2 = "ot_receiver_run_phase2_step2 S"
  for S :: "('f::field, 'g::ab_group_add) suite"
  by unfold_locales (use ot_transfer in blast)

section \<open>The batched protocol\<close>

lemma collect_try_map: "collect_try f (map g xs) = collect_try (\<lambda>x. f (g x)) xs"
  by (induction xs) auto

lemma ot_batch_correct:
  assumes S: "curve_ok S"
    and phase1: "ot_receiver_run_phase1_batch S w sid bits r = Ok ((ks, es), r')"
    and z: "z = smul S (generator S) (ot_s s)"
  shows "\<exists>m0s m1s. ot_sender_run_phase2_batch S s sid (ot_seed w) es = Ok (m0s, m1s) \<and>
     length ks = length bits \<and> length es = length bits \<and> length m0s = length bits \<and> length m1s = length bits \<and>
     (\<forall>i<length bits. ot_receiver_run_phase2_step2 S (current_sid i sid) (ks ! i) z =
        (if bits ! i then m1s ! i else m0s ! i))"
proof -
  let ?n = "length bits"
  from phase1 obtain out where n: "?n \<le> u16_MAX"
    and out: "collect_st (\<lambda>i. ot_receiver_run_phase1 S w (current_sid i sid) (bits ! i)) [0..<?n] r =
      (Ok (out, r') :: (error_ot, _) outcome)"
    and ks: "ks = map fst out" and es: "es = map snd out"
    by (auto simp: ot_receiver_run_phase1_batch_def ot_batch_size_def outcome_simps split: if_splits)
  have len: "length out = ?n" using collect_st_length [OF out] by simp
  obtain ms where ms: "collect_try (\<lambda>(i, e). ot_sender_run_phase2 S s (current_sid i sid) (ot_seed w) e)
      (zip [0..<?n] (map snd out)) = Ok ms" "length ms = ?n"
    and eq: "\<forall>i<?n. ot_receiver_run_phase2_step2 S (current_sid i sid) (fst (out ! i)) z =
        (if bits ! i then snd (ms ! i) else fst (ms ! i))"
    using base_ot.batch [OF conjI [OF S z] out] by auto
  have "zip [0..<?n] (map snd out) = map (\<lambda>i. (i, es ! i)) [0..<?n]"
    using len by (intro nth_equalityI) (auto simp: es)
  then have "ot_sender_run_phase2_batch S s sid (ot_seed w) es = Ok (map fst ms, map snd ms)"
    using ms n len by (simp add: ot_sender_run_phase2_batch_def ot_batch_size_def es collect_try_map split_def)
  then show ?thesis using eq len ms(2) by (auto simp: ks es)
qed

text \<open>
  C14: base OT. When the sender was initialised for the session with pairwise distinct proof
  commitments and the receiver ran its first phase for a vector of choice bits, both finish
  without error and the receiver gets, bit by bit, the sender's message of its choice.
\<close>

theorem base_ot_correct:
  assumes "suite_ok S"
    and "ot_sender_init S sid r0 = (Ok (s, r0') :: (error_ot, _) outcome)"
    and "distinct (rand_commitments (ot_proof s))"
    and "ot_receiver_run_phase1_batch S w sid bits r = Ok ((ks, es), r')"
  shows "\<exists>m0s m1s ms.
     ot_sender_run_phase2_batch S s sid (ot_seed w) es = Ok (m0s, m1s) \<and>
     ot_receiver_run_phase2_batch S sid ks (ot_sender_run_phase1 s) = Ok ms \<and>
     length ms = length bits \<and> (\<forall>i<length bits. ms ! i = (if bits ! i then m1s ! i else m0s ! i))"
proof -
  obtain r1 where "dlog_prove S (ot_s s) sid r1 = Ok (ot_proof s, r0')"
    using assms(2) by (auto simp: ot_sender_init_def outcome_simps)
  note pf = dlog_complete [OF assms(1) this assms(3)]
  obtain m0s m1s where m: "ot_sender_run_phase2_batch S s sid (ot_seed w) es = Ok (m0s, m1s)"
    "length ks = length bits"
    "\<forall>i<length bits. ot_receiver_run_phase2_step2 S (current_sid i sid) (ks ! i) (dlog_point (ot_proof s)) =
       (if bits ! i then m1s ! i else m0s ! i)"
    using ot_batch_correct [OF suite_okD(1) [OF assms(1)] assms(4) pf(2)] by blast
  have "length bits \<le> u16_MAX"
    using assms(4) by (auto simp: ot_receiver_run_phase1_batch_def ot_batch_size_def outcome_simps split: if_splits)
  then have "ot_receiver_run_phase2_batch S sid ks (ot_sender_run_phase1 s) =
      Ok (map (\<lambda>i. ot_receiver_run_phase2_step2 S (current_sid i sid) (ks ! i) (dlog_point (ot_proof s))) [0..<length bits])"
    using pf(1) m(2) by (simp add: ot_receiver_run_phase2_batch_def ot_receiver_run_phase2_step1_def
        ot_sender_run_phase1_def ot_batch_size_def)
  with m show ?thesis by auto
qed

section \<open>Refusals\<close>

lemma ot_sender_refuses:
  "ot_sender_run_phase2 S s sid sd e = Err (ErrorOT ''Receiver cheated in OT: Encryption proof failed!'') \<longleftrightarrow>
     \<not> (enc_verify S e sid \<and> base_h (proof0 e) = ot_base_h S sid sd)"
  by (auto simp: ot_sender_run_phase2_def Let_def split_def)

lemma ot_batch_too_long:
  "u16_MAX < length es \<Longrightarrow>
     ot_sender_run_phase2_batch S s sid sd es = Err (ErrorOT ''Batch size exceeds maximum (65535)'')"
  by (simp add: ot_sender_run_phase2_batch_def ot_batch_size_def)

lemma cp_simulate_live: "rng_live r \<Longrightarrow> rng_live (snd (cp_simulate S g h u v r))"
  by (auto simp: cp_simulate_def Let_def split_def)

lemma enc_prove_total:
  assumes "rng_live r"
  shows "\<exists>e r'. enc_prove S sid h k b r = (Ok (e, r') :: ('e, _) outcome) \<and> rng_live r'"
proof -
  obtain c r2 where c: "nonzero_scalar r = (Ok (c, r2) :: ('e, _) outcome)" and live: "rng_live r2"
    using nonzero_scalar_total [OF assms] by blast
  have "\<exists>x. enc_prove S sid h k b r =
      (Ok (x, snd (cp_simulate S (generator S) h
        (if b then smul S (generator S) k + h else smul S (generator S) k - h) (smul S h k) r2)) :: ('e, _) outcome)"
    by (cases b) (simp_all add: enc_prove_def cp_prove_step1_def c Let_def split_def)
  then show ?thesis using cp_simulate_live [OF live] by blast
qed

lemma ot_receiver_phase1_total:
  assumes "rng_live r"
  shows "\<exists>k e r'. ot_receiver_run_phase1 S w sid b r = (Ok ((k, e), r') :: ('e, _) outcome) \<and> rng_live r'"
proof -
  obtain k r1 where k: "random_scalar r = (k, r1)" by fastforce
  then have "rng_live r1" using rng_live_random_scalar [OF assms] by simp
  then show ?thesis
    using enc_prove_total [of r1 S sid "ot_base_h S sid (ot_seed w)" k b, where ?'e = 'e]
    by (auto simp: ot_receiver_run_phase1_def k)
qed

end
