(* ===== verification/FieldMul.thy ===== *)
theory FieldMul
  imports BaseOT
begin

text \<open>
  The multiplication in the field with \<open>2 ^ 208\<close> elements that the consistency check of
  the OT extension uses (\<open>field_mul\<close> in \<open>utilities/ot/extension.rs\<close>): the comb product on
  64-bit limbs and the word-wise reduction, as the code runs them. Shown: the result is
  the product of the two polynomials over GF(2) modulo \<open>X^208 + X^9 + X^3 + X + 1\<close>.
\<close>

section \<open>The code\<close>

definition load_limbs :: "nat \<Rightarrow> bytes \<Rightarrow> u64 list" where
  "load_limbs m src =
     fold (\<lambda>i a. a[i div 8 := a ! (i div 8) OR push_bit (8 * (i mod 8)) (ucast (src ! i))])
       [0..<26] (replicate m 0)"

text \<open>\<open>for i in 0..=T { c[j + i] ^= b[i]; }\<close>\<close>

definition add_limbs :: "nat \<Rightarrow> u64 list \<Rightarrow> u64 list \<Rightarrow> u64 list" where
  "add_limbs j b c = fold (\<lambda>i c. c[j + i := c ! (j + i) XOR b ! i]) [0..<5] c"

definition shift_limbs :: "nat \<Rightarrow> u64 list \<Rightarrow> u64 list" where
  "shift_limbs k b =
     (let b' = (if k \<noteq> 63
                then fold (\<lambda>i b. b[i := push_bit 1 (b ! i) OR drop_bit 63 (b ! (i - 1))]) (rev [1..<5]) b
                else b)
      in b'[0 := push_bit 1 (b' ! 0)])"

definition comb_step :: "u64 list \<Rightarrow> nat \<Rightarrow> u64 list \<times> u64 list \<Rightarrow> u64 list \<times> u64 list" where
  "comb_step a k bc =
     (let (b, c) = bc;
          c' = fold (\<lambda>j c. if drop_bit k (a ! j) mod 2 = 1 then add_limbs j b c else c) [0..<4] c
      in (shift_limbs k b, c'))"

definition reduce_step :: "nat \<Rightarrow> u64 list \<Rightarrow> u64 list" where
  "reduce_step i c =
     (let t = c ! i;
          c1 = c[i - 4 := c ! (i - 4) XOR (push_bit 57 t XOR push_bit 51 t XOR push_bit 49 t XOR push_bit 48 t)];
          c2 = c1[i - 3 := c1 ! (i - 3) XOR (drop_bit 7 t XOR drop_bit 13 t XOR drop_bit 15 t XOR drop_bit 16 t)]
      in c2[i := 0])"

definition reduce_last :: "u64 list \<Rightarrow> u64 list" where
  "reduce_last c =
     (let t = drop_bit 16 (c ! 3);
          c1 = c[0 := c ! 0 XOR (push_bit 9 t XOR push_bit 3 t XOR push_bit 1 t XOR t)]
      in c1[3 := c1 ! 3 AND 0xFFFF])"

definition store_limbs :: "u64 list \<Rightarrow> bytes" where
  "store_limbs c = map (\<lambda>i. ucast (drop_bit (8 * (i mod 8)) (c ! (i div 8)) AND 0xFF)) [0..<26]"

definition field_mul :: "bytes \<Rightarrow> bytes \<Rightarrow> (error_ot, bytes) outcome" where
  "field_mul left right =
     (if length left \<noteq> 26 \<or> length right \<noteq> 26
      then Err (ErrorOT ''Binary field multiplication: entries don't have the correct length'')
      else let a = load_limbs 4 left; b = load_limbs 5 right;
               (_, c) = fold (comb_step a) [0..<64] (b, replicate 8 0);
               c = fold reduce_step (rev [4..<8]) c
           in Ok (store_limbs (reduce_last c)))"

section \<open>Little-endian values\<close>

definition le_value :: "'a::len word list \<Rightarrow> nat" where
  "le_value ws = foldr (\<lambda>w n. unat w + 2 ^ LENGTH('a) * n) ws 0"

lemma le_value_Nil [simp]: "le_value [] = 0"
  by (simp add: le_value_def)

lemma le_value_Cons: "le_value ((w :: 'a::len word) # ws) = unat w + 2 ^ LENGTH('a) * le_value ws"
  by (simp add: le_value_def)

lemma le_value_replicate_0: "le_value (replicate n 0) = 0"
  by (induction n) (simp_all add: le_value_Cons)

lemma bit_low_high:
  fixes u m :: nat
  assumes "u < 2 ^ L"
  shows "bit (u + 2 ^ L * m) n \<longleftrightarrow> (if n < L then bit u n else bit m (n - L))"
proof (cases "n < L")
  case True
  have "take_bit L (u + 2 ^ L * m) = u" using assms by (simp add: take_bit_eq_mod)
  then have "bit (take_bit L (u + 2 ^ L * m)) n = bit u n" by simp
  then show ?thesis using True by (simp add: bit_take_bit_iff)
next
  case False
  have "drop_bit L (u + 2 ^ L * m) = m" using assms by (simp add: drop_bit_eq_div)
  then have "bit (drop_bit L (u + 2 ^ L * m)) (n - L) = bit m (n - L)" by simp
  then show ?thesis using False by (simp add: bit_drop_bit_eq)
qed

lemma bit_le_value:
  "bit (le_value (ws :: 'a::len word list)) n \<longleftrightarrow>
     n div LENGTH('a) < length ws \<and> bit (ws ! (n div LENGTH('a))) (n mod LENGTH('a))"
proof (induction ws arbitrary: n)
  case Nil
  then show ?case by simp
next
  case (Cons w ws)
  have lt: "unat w < 2 ^ LENGTH('a)" by (rule unsigned_less)
  show ?case
  proof (cases "n < LENGTH('a)")
    case True
    then show ?thesis by (simp add: le_value_Cons bit_low_high [OF lt] bit_unsigned_iff)
  next
    case False
    then have "n div LENGTH('a) = Suc ((n - LENGTH('a)) div LENGTH('a))"
      "n mod LENGTH('a) = (n - LENGTH('a)) mod LENGTH('a)"
      by (simp_all add: le_div_geq le_mod_geq)
    then show ?thesis using False by (simp add: le_value_Cons bit_low_high [OF lt] Cons.IH)
  qed
qed

lemma bit_le_value_u64:
  "bit (le_value (ws :: u64 list)) n \<longleftrightarrow> n div 64 < length ws \<and> bit (ws ! (n div 64)) (n mod 64)"
  using bit_le_value [of ws n] by simp

lemma bit_le_value_u8:
  "bit (le_value (ws :: bytes)) n \<longleftrightarrow> n div 8 < length ws \<and> bit (ws ! (n div 8)) (n mod 8)"
  using bit_le_value [of ws n] by simp

lemma le_value_bound: "le_value (ws :: 'a::len word list) < 2 ^ (LENGTH('a) * length ws)"
proof (induction ws)
  case Nil
  then show ?case by simp
next
  case (Cons w ws)
  have "unat w < 2 ^ LENGTH('a)" by (rule unsigned_less)
  moreover have "2 ^ LENGTH('a) * Suc (le_value ws) \<le> 2 ^ LENGTH('a) * 2 ^ (LENGTH('a) * length ws)"
    using Cons by (intro mult_le_mono2) simp
  ultimately have "unat w + 2 ^ LENGTH('a) * le_value ws < 2 ^ LENGTH('a) * 2 ^ (LENGTH('a) * length ws)"
    by (simp only: mult_Suc_right)
  then show ?case by (simp add: le_value_Cons power_add)
qed

text \<open>XOR into one limb.\<close>

lemma bit_push_limb:
  "bit (push_bit (64 * i) (unat (w :: u64))) n \<longleftrightarrow> n div 64 = i \<and> bit w (n mod 64)"
proof -
  have "bit w (n - 64 * i) \<Longrightarrow> n - 64 * i < 64" using bit_imp_le_length [of w] by simp
  moreover have "64 * i \<le> n \<and> n - 64 * i < 64 \<longleftrightarrow> n div 64 = i" by linarith
  moreover have "n div 64 = i \<Longrightarrow> n mod 64 = n - 64 * i" by (simp add: minus_mult_div_eq_mod [symmetric])
  ultimately show ?thesis by (auto simp: bit_push_bit_iff_nat bit_unsigned_iff)
qed

lemma le_value_xor:
  assumes "i < length ws"
  shows "le_value (ws[i := ws ! i XOR w]) = le_value ws XOR push_bit (64 * i) (unat (w :: u64))"
  by (rule bit_eqI) (use assms in \<open>auto simp: bit_le_value_u64 bit_xor_iff bit_push_limb nth_list_update\<close>)

section \<open>Polynomials over GF(2)\<close>

text \<open>The coefficients are the bits of a number; addition is XOR.\<close>

fun clmul :: "nat \<Rightarrow> nat \<Rightarrow> nat" where
  "clmul a b = (if a = 0 then 0 else (if odd a then b else 0) XOR 2 * clmul (a div 2) b)"

declare clmul.simps [simp del]

definition field_poly :: nat where
  "field_poly = 2 ^ 208 + 2 ^ 9 + 2 ^ 3 + 2 + 1"

lemma xor_cancel_left: "x XOR (x XOR y) = y" for x y :: nat
  by (simp add: xor.assoc [symmetric])

lemma xor_swap: "x XOR z = z XOR y \<Longrightarrow> x = y" for x y z :: nat
  by (metis xor.commute xor_cancel_left)

lemma xor_four:
  fixes a b c d p q r s :: nat
  assumes "a XOR p = w" "b XOR q = x" "c XOR r = y" "d XOR s = z"
  shows "(a XOR b XOR c XOR d) XOR (p XOR q XOR r XOR s) = w XOR x XOR y XOR z"
  unfolding assms [symmetric] by (simp add: xor.assoc xor.commute xor.left_commute)

lemma xor_double: "(2 * x) XOR (2 * y) = 2 * (x XOR y)" for x y :: nat
  by (rule bit_eqI) (auto simp: bit_xor_iff bit_double_iff)

lemma clmul_zero [simp]: "clmul 0 b = 0" "clmul a 0 = 0"
proof -
  show "clmul 0 b = 0" by (simp add: clmul.simps)
  show "clmul a 0 = 0" by (induction a "0::nat" rule: clmul.induct) (subst clmul.simps, simp)
qed

lemma clmul_xor_right: "clmul a (b XOR c) = clmul a b XOR clmul a c"
proof (induction a "b" rule: clmul.induct)
  case (1 a b)
  show ?case
  proof (cases "a = 0")
    case False
    have "clmul a (b XOR c) = (if odd a then b XOR c else 0) XOR 2 * (clmul (a div 2) b XOR clmul (a div 2) c)"
      using False 1 by (subst clmul.simps) simp
    also have "\<dots> = ((if odd a then b else 0) XOR 2 * clmul (a div 2) b) XOR
        ((if odd a then c else 0) XOR 2 * clmul (a div 2) c)"
      by (simp add: xor_double [symmetric] xor.assoc xor.left_commute)
    also have "\<dots> = clmul a b XOR clmul a c"
      using False by (simp add: clmul.simps [of a b] clmul.simps [of a c])
    finally show ?thesis .
  qed simp
qed

lemma clmul_rec: "clmul a b = (if odd a then b else 0) XOR 2 * clmul (a div 2) b"
  by (cases "a = 0") (simp, subst clmul.simps, simp)

lemma odd_xor_nat: "odd (a XOR b) \<longleftrightarrow> odd a \<noteq> odd b" for a b :: nat
  by (simp add: even_xor_iff)

lemma half_xor: "(a XOR b) div 2 = (a div 2) XOR (b div 2)" for a b :: nat
  by (rule bit_eqI) (simp add: bit_xor_iff flip: bit_Suc)

lemma clmul_xor_left: "clmul (a XOR a') b = clmul a b XOR clmul a' b"
proof (induction "a + a'" arbitrary: a a' rule: less_induct)
  case less
  show ?case
  proof (cases "a = 0 \<and> a' = 0")
    case False
    then have IH: "clmul ((a div 2) XOR (a' div 2)) b = clmul (a div 2) b XOR clmul (a' div 2) b"
      by (intro less) linarith
    show ?thesis
      by (subst (1 2 3) clmul_rec)
        (auto simp: odd_xor_nat half_xor IH xor_double [symmetric] xor.assoc xor.left_commute xor_cancel_left)
  qed simp
qed

lemma clmul_double: "clmul a (2 * b) = 2 * clmul a b"
proof (induction a b rule: clmul.induct)
  case (1 a b)
  show ?case
  proof (cases "a = 0")
    case False
    have "clmul a (2 * b) = (if odd a then 2 * b else 0) XOR 2 * (2 * clmul (a div 2) b)"
      using False 1 by (subst clmul_rec) simp
    also have "\<dots> = 2 * ((if odd a then b else 0) XOR 2 * clmul (a div 2) b)"
      by (simp add: xor_double [symmetric])
    also have "\<dots> = 2 * clmul a b" by (simp only: clmul_rec [of a b])
    finally show ?thesis .
  qed simp
qed

lemma clmul_one: "clmul a 1 = a"
proof (induction a "1::nat" rule: clmul.induct)
  case (1 a)
  show ?case
  proof (cases "a = 0")
    case False
    with 1 have "clmul a 1 = of_bool (odd a) XOR 2 * (a div 2)"
      by (subst clmul_rec) simp
    also have "\<dots> = a"
    proof (rule bit_eqI)
      show "bit (of_bool (odd a) XOR 2 * (a div 2)) n = bit a n" for n
        by (cases n) (simp_all only: bit_xor_iff bit_double_iff bit_of_bool_iff, simp_all add: bit_0 bit_Suc)
    qed
    finally show ?thesis .
  qed simp
qed

lemma clmul_power: "clmul a (2 ^ n) = push_bit n a"
  by (induction n) (simp_all add: clmul_one clmul_double push_bit_eq_mult mult.assoc mult.left_commute
      del: One_nat_def)

lemma field_poly_xor: "field_poly = 2 ^ 208 XOR 2 ^ 9 XOR 2 ^ 3 XOR 2 ^ 1 XOR 2 ^ 0"
  unfolding field_poly_def by simp

text \<open>Multiples of the reduction polynomial.\<close>

lemma clmul_field_poly:
  "clmul q field_poly = push_bit 208 q XOR push_bit 9 q XOR push_bit 3 q XOR push_bit 1 q XOR q"
  unfolding field_poly_xor clmul_xor_right clmul_power by simp

lemma clmul_push_bit: "clmul (push_bit n q) field_poly = push_bit n (clmul q field_poly)"
  unfolding clmul_field_poly push_bit_xor push_bit_push_bit by (simp only: add.commute)

lemma clmul_top:
  assumes "q \<noteq> 0"
  shows "2 ^ 208 \<le> clmul q field_poly"
proof -
  obtain n where n: "bit q n" "\<And>m. n < m \<Longrightarrow> \<not> bit q m"
  proof -
    have "{m. bit q m} \<subseteq> {..<q}"
    proof
      fix m
      assume "m \<in> {m. bit q m}"
      then have "2 ^ m \<le> q" by (auto simp: bit_iff_odd dest: div_less intro: leI)
      then show "m \<in> {..<q}" using less_le_trans [OF less_exp [of m]] by simp
    qed
    then have fin: "finite {m. bit q m}" by (rule finite_subset) simp
    have "{m. bit q m} \<noteq> {}" using assms by (auto simp: bit_eq_iff)
    then have "bit q (Max {m. bit q m})" using Max_in [OF fin] by blast
    moreover have "\<not> bit q m" if "Max {m. bit q m} < m" for m
      using Max_ge [OF fin, of m] that by auto
    ultimately show ?thesis using that by blast
  qed
  have "bit (clmul q field_poly) (208 + n)"
    unfolding clmul_field_poly bit_xor_iff bit_push_bit_iff_nat using n by simp
  then show ?thesis
  proof (rule contrapos_pp)
    assume "\<not> 2 ^ 208 \<le> clmul q field_poly"
    then have "take_bit 208 (clmul q field_poly) = clmul q field_poly"
      by (simp only: take_bit_nat_eq_self not_le)
    then show "\<not> bit (clmul q field_poly) (208 + n)"
      by (metis bit_take_bit_iff not_add_less1)
  qed
qed


text \<open>The remainder modulo the reduction polynomial is unique.\<close>

lemma xor_eq_zero_iff_nat: "x XOR y = 0 \<longleftrightarrow> x = y" for x y :: nat
  by (metis xor.assoc xor_self_eq xor.right_neutral xor.left_neutral)

lemma xor_below: "x < 2 ^ n \<Longrightarrow> y < 2 ^ n \<Longrightarrow> x XOR y < (2 ^ n :: nat)"
  by (metis take_bit_nat_eq_self take_bit_nat_less_exp take_bit_xor)

lemma remainder_unique:
  assumes "clmul q field_poly XOR x = clmul q' field_poly XOR y" and "x < 2 ^ 208" "y < 2 ^ 208"
  shows "x = y"
proof -
  have eq: "clmul (q XOR q') field_poly = x XOR y"
    unfolding clmul_xor_left using assms(1) by (metis xor.assoc xor.commute xor_cancel_left)
  have "x XOR y < 2 ^ 208" using assms(2,3) by (rule xor_below)
  then have "q XOR q' = 0" using clmul_top [of "q XOR q'"] eq by (metis not_le)
  then show ?thesis using eq by (simp add: xor_eq_zero_iff_nat)
qed

section \<open>The comb product\<close>

lemma length_add_limbs [simp]: "length (add_limbs j b c) = length c"
proof -
  have "length (fold (\<lambda>i c. c[j + i := c ! (j + i) XOR b ! i]) is c) = length c" for "is"
    by (induction "is" arbitrary: c) simp_all
  then show ?thesis by (simp add: add_limbs_def)
qed

lemma le_value_take_Suc:
  "m < length b \<Longrightarrow> le_value (take (Suc m) b) = le_value (take m b) XOR push_bit (64 * m) (unat (b ! m :: u64))"
  by (rule bit_eqI)
    (auto simp: bit_le_value_u64 bit_xor_iff bit_push_limb less_Suc_eq)

lemma push_bit_xor_nat: "push_bit n (x XOR y) = push_bit n x XOR push_bit n (y :: nat)"
  by (rule push_bit_xor)

lemma le_value_add_limbs:
  assumes "length b = 5" and "j + 5 \<le> length c"
  shows "le_value (add_limbs j b c) = le_value c XOR push_bit (64 * j) (le_value b)"
proof -
  have "m \<le> 5 \<Longrightarrow> length (fold (\<lambda>i c. c[j + i := c ! (j + i) XOR b ! i]) [0..<m] c) = length c \<and>
      le_value (fold (\<lambda>i c. c[j + i := c ! (j + i) XOR b ! i]) [0..<m] c) =
        le_value c XOR push_bit (64 * j) (le_value (take m b))" for m
  proof (induction m)
    case 0
    then show ?case by simp
  next
    case (Suc m)
    then show ?case using assms
      by (simp add: le_value_xor le_value_take_Suc push_bit_xor_nat xor.assoc distrib_left)
  qed
  from this [of 5] show ?thesis using assms(1) by (simp add: add_limbs_def)
qed

lemma length_shift_limbs [simp]: "length (shift_limbs k b) = length b"
proof -
  have "length (fold (\<lambda>i b. b[i := push_bit 1 (b ! i) OR drop_bit 63 (b ! (i - 1))]) is b) = length b" for "is"
    by (induction "is" arbitrary: b) simp_all
  then show ?thesis by (simp add: shift_limbs_def Let_def)
qed

lemma shift_limbs_list:
  assumes "length b = 5" and "k \<noteq> 63" and that: "i < 5"
  shows "shift_limbs k b ! i = (if i = 0 then push_bit 1 (b ! 0) else push_bit 1 (b ! i) OR drop_bit 63 (b ! (i - 1)))"
proof -
  obtain b0 b1 b2 b3 b4 where b: "b = [b0, b1, b2, b3, b4]"
    using assms(1) by (auto simp: numeral_eq_Suc length_Suc_conv)
  have r: "rev [1..<5] = [4, 3, 2, 1::nat]" by (simp add: upt_rec)
  have "shift_limbs k b = [push_bit 1 b0, push_bit 1 b1 OR drop_bit 63 b0, push_bit 1 b2 OR drop_bit 63 b1,
      push_bit 1 b3 OR drop_bit 63 b2, push_bit 1 b4 OR drop_bit 63 b3]"
    using assms(2) unfolding shift_limbs_def r b by (simp add: numeral_eq_Suc)
  moreover have "i = 0 \<or> i = 1 \<or> i = 2 \<or> i = 3 \<or> i = 4" using that by linarith
  ultimately show ?thesis by (auto simp: b)
qed


lemma not_bit_ge: "x < 2 ^ n \<Longrightarrow> n \<le> m \<Longrightarrow> \<not> bit (x :: nat) m"
  by (metis bit_take_bit_iff linorder_not_less take_bit_nat_eq_self)

lemma bit_double_u64: "bit (x * 2) (Suc p) \<longleftrightarrow> p < 63 \<and> bit x p" for x :: u64
  using bit_push_bit_iff [of 1 x "Suc p"] by auto

lemma le_value_shift_limbs:
  assumes b: "length b = 5" and k: "k \<noteq> 63" and small: "le_value b < 2 ^ 319"
  shows "le_value (shift_limbs k b) = push_bit 1 (le_value b)"
proof (rule bit_eqI)
  fix n :: nat
  define i m where "i = n div 64" and "m = n mod 64"
  have n: "n = 64 * i + m" "m < 64" by (simp_all add: i_def m_def)
  have top: "\<not> bit (le_value b) 319" by (rule not_bit_ge [OF small]) simp
  show "bit (le_value (shift_limbs k b)) n = bit (push_bit 1 (le_value b)) n"
  proof (cases m)
    case 0
    then have n0: "n = 64 * i" using n by simp
    show ?thesis
    proof (cases i)
      case 0
      have "\<not> bit (shift_limbs k b ! 0) 0"
        by (subst shift_limbs_list [OF b k]) (simp_all add: bit_0)
      then have "\<not> bit (le_value (shift_limbs k b)) 0" by (simp only: bit_le_value_u64) simp
      moreover have "n = 0" using n0 0 by simp
      moreover have "\<not> bit (push_bit 1 (le_value b)) 0" by (simp only: bit_push_bit_iff_nat) simp
      ultimately show ?thesis by (simp only:)
    next
      case (Suc j)
      have s: "n - 1 = 64 * j + 63" using n0 Suc by simp
      then have d: "(n - 1) div 64 = j" "(n - 1) mod 64 = 63" by simp_all
      have R: "bit (push_bit 1 (le_value b)) n \<longleftrightarrow> j < 5 \<and> bit (b ! j) 63"
        using n0 Suc b by (simp only: bit_push_bit_iff_nat bit_le_value_u64 d) simp
      have "j = 4 \<Longrightarrow> \<not> bit (b ! j) 63" using top b by (simp add: bit_le_value_u64)
      moreover have "bit (shift_limbs k b ! i) 0 = bit (b ! j) 63" if "i < 5"
        using shift_limbs_list [OF b k that] Suc
          by (simp only: if_False nat.distinct diff_Suc_1 bit_or_iff bit_push_bit_iff bit_drop_bit_eq) simp
      moreover have "bit (le_value (shift_limbs k b)) n \<longleftrightarrow> i < 5 \<and> bit (shift_limbs k b ! i) 0"
        using b n0 by (simp add: bit_le_value_u64)
      ultimately show ?thesis unfolding R using Suc by (cases "j = 4") auto
    qed
  next
    case (Suc p)
    have s: "n - 1 = 64 * i + p" "p < 64" using n Suc by simp_all
    then have d: "(n - 1) div 64 = i" "(n - 1) mod 64 = p" by simp_all
    have R: "bit (push_bit 1 (le_value b)) n \<longleftrightarrow> i < 5 \<and> bit (b ! i) p"
      using n Suc b by (simp only: bit_push_bit_iff_nat bit_le_value_u64 d) simp
    have "bit (shift_limbs k b ! i) m = bit (b ! i) p" if "i < 5"
      using shift_limbs_list [OF b k that] Suc n(2) bit_imp_le_length [of "b ! (i - 1)" "63 + m"]
      by (auto simp: bit_or_iff bit_double_u64 bit_drop_bit_eq)
    then show ?thesis unfolding R using b by (auto simp: bit_le_value_u64 i_def [symmetric] m_def [symmetric])
  qed
qed

lemma clmul_power_left: "clmul (2 ^ n) b = push_bit n b"
proof (induction n)
  case 0
  then show ?case by (subst clmul_rec) simp
next
  case (Suc n)
  have "clmul (2 ^ Suc n) b = 2 * clmul (2 ^ n) b" by (subst clmul_rec) simp
  then show ?case using Suc by (simp add: push_bit_eq_mult)
qed

text \<open>After \<open>n\<close> rounds the accumulator holds the product by the low \<open>n\<close> bits of every limb.\<close>

definition low_bits :: "nat \<Rightarrow> u64 list \<Rightarrow> nat" where
  "low_bits n a = le_value (map (take_bit n) a)"

lemma low_bits_Suc:
  assumes "length a = 4" and "n < 64"
  shows "low_bits (Suc n) a = low_bits n a XOR
     ((if bit (a ! 0) n then 2 ^ n else 0) XOR (if bit (a ! 1) n then 2 ^ (64 + n) else 0) XOR
      (if bit (a ! 2) n then 2 ^ (128 + n) else 0) XOR (if bit (a ! 3) n then 2 ^ (192 + n) else 0))"
proof (rule bit_eqI)
  fix N :: nat
  define i m where "i = N div 64" and "m = N mod 64"
  have N: "N = 64 * i + m" "m < 64" by (simp_all add: i_def m_def)
  have P: "bit (if c then (2::nat) ^ e else 0) N \<longleftrightarrow> c \<and> j = i \<and> n = m" if "e = 64 * j + n" for c j e
  proof -
    have "N = e \<longleftrightarrow> j = i \<and> n = m"
      using assms(2) N that by (auto simp: i_def m_def)
    then show ?thesis by (auto simp: bit_exp_iff)
  qed
  have Q: "bit (low_bits k a) N \<longleftrightarrow> i < 4 \<and> m < k \<and> bit (a ! i) m" for k
    using assms(1) by (auto simp: low_bits_def bit_le_value_u64 bit_take_bit_iff i_def m_def)
  have P0: "bit (if c then (2::nat) ^ n else 0) N \<longleftrightarrow> c \<and> 0 = i \<and> n = m" for c
    by (rule P) simp
  have P1: "bit (if c then (2::nat) ^ (64 + n) else 0) N \<longleftrightarrow> c \<and> 1 = i \<and> n = m" for c
    by (rule P) simp
  have P2: "bit (if c then (2::nat) ^ (128 + n) else 0) N \<longleftrightarrow> c \<and> 2 = i \<and> n = m" for c
    by (rule P) simp
  have P3: "bit (if c then (2::nat) ^ (192 + n) else 0) N \<longleftrightarrow> c \<and> 3 = i \<and> n = m" for c
    by (rule P) simp
  have R: "((bit (a ! 0) n \<and> 0 = i \<and> n = m) \<noteq> ((bit (a ! 1) n \<and> 1 = i \<and> n = m) \<noteq>
      ((bit (a ! 2) n \<and> 2 = i \<and> n = m) \<noteq> (bit (a ! 3) n \<and> 3 = i \<and> n = m)))) \<longleftrightarrow>
      i < 4 \<and> n = m \<and> bit (a ! i) n"
  proof -
    consider "i = 0" | "i = 1" | "i = 2" | "i = 3" | "4 \<le> i" by linarith
    then show ?thesis by cases auto
  qed
  show "bit (low_bits (Suc n) a) N = bit (low_bits n a XOR
     ((if bit (a ! 0) n then 2 ^ n else 0) XOR (if bit (a ! 1) n then 2 ^ (64 + n) else 0) XOR
      (if bit (a ! 2) n then 2 ^ (128 + n) else 0) XOR (if bit (a ! 3) n then 2 ^ (192 + n) else 0))) N"
    unfolding bit_xor_iff Q P0 P1 P2 P3 R by (cases "n = m") auto
qed

lemma low_bits_0: "low_bits 0 a = 0"
  by (rule bit_eqI) (auto simp: low_bits_def bit_le_value_u64)

lemma low_bits_64: "low_bits 64 a = le_value a"
proof -
  have "map (take_bit 64) a = a" by (rule map_idI) (simp add: take_bit_length_eq [where 'a = 64, simplified])
  then show ?thesis by (simp only: low_bits_def)
qed

lemma drop_bit_mod_2: "drop_bit k w mod 2 = 1 \<longleftrightarrow> bit w k" for w :: u64
  by (simp add: bit_iff_odd_drop_bit odd_iff_mod_2_eq_one)

lemma comb_inner:
  assumes "length a = 4" "length b = 5" "length c = 8" "k < 64" and V: "le_value b = push_bit k B"
  defines "c' \<equiv> fold (\<lambda>j c. if drop_bit k (a ! j) mod 2 = 1 then add_limbs j b c else c) [0..<4] c"
  shows "length c' = 8 \<and> le_value c' XOR clmul (low_bits k a) B = le_value c XOR clmul (low_bits (Suc k) a) B"
proof -
  have up: "[0..<4] = [0, 1, 2, 3::nat]" by (simp add: upt_rec)
  let ?s = "\<lambda>j c. if bit (a ! j) k then add_limbs j b c else c"
  have step: "length (?s j c) = 8 \<and> le_value (?s j c) =
      le_value c XOR clmul (if bit (a ! j) k then 2 ^ (64 * j + k) else 0) B"
    if "length c = 8" "j \<le> 3" for j c
    using that assms(2) by (simp add: le_value_add_limbs V clmul_power_left add.commute)
  let ?c1 = "?s 0 c" let ?c2 = "?s 1 ?c1" let ?c3 = "?s 2 ?c2" let ?c4 = "?s 3 ?c3"
  have s1: "length ?c1 = 8 \<and> le_value ?c1 = le_value c XOR clmul (if bit (a ! 0) k then 2 ^ k else 0) B"
    using step [of c 0] assms(3) by simp
  then have s2: "length ?c2 = 8 \<and> le_value ?c2 = le_value ?c1 XOR clmul (if bit (a ! 1) k then 2 ^ (64 + k) else 0) B"
    using step [of ?c1 1] by simp
  then have s3: "length ?c3 = 8 \<and> le_value ?c3 = le_value ?c2 XOR clmul (if bit (a ! 2) k then 2 ^ (128 + k) else 0) B"
    using step [of ?c2 2] by simp
  then have s4: "length ?c4 = 8 \<and> le_value ?c4 = le_value ?c3 XOR clmul (if bit (a ! 3) k then 2 ^ (192 + k) else 0) B"
    using step [of ?c3 3] by simp
  have c': "c' = ?c4" unfolding c'_def up drop_bit_mod_2 by simp
  have "le_value ?c4 = le_value c XOR (clmul (if bit (a ! 0) k then 2 ^ k else 0) B XOR
      clmul (if bit (a ! 1) k then 2 ^ (64 + k) else 0) B XOR
      clmul (if bit (a ! 2) k then 2 ^ (128 + k) else 0) B XOR
      clmul (if bit (a ! 3) k then 2 ^ (192 + k) else 0) B)"
    by (simp only: s1 s2 s3 s4 xor.assoc)
  then have V4: "le_value c' XOR clmul (low_bits k a) B = le_value c XOR clmul (low_bits (Suc k) a) B"
    unfolding c' low_bits_Suc [OF assms(1,4)] clmul_xor_left
    by (simp only: xor.assoc xor.commute xor.left_commute)
  with s4 show ?thesis unfolding c' by blast
qed

lemma comb_rounds:
  fixes a b :: "u64 list"
  defines "bc \<equiv> \<lambda>n. fold (comb_step a) [0..<n] (b, replicate 8 0)"
  assumes "length a = 4" "length b = 5" "le_value b < 2 ^ 208" "n \<le> 64"
  shows "length (fst (bc n)) = 5 \<and> length (snd (bc n)) = 8 \<and>
     (n < 64 \<longrightarrow> le_value (fst (bc n)) = push_bit n (le_value b)) \<and>
     le_value (snd (bc n)) = clmul (low_bits n a) (le_value b)"
  using assms(5)
proof (induction n)
  case 0
  have "le_value (replicate 8 0 :: u64 list) = 0" by (rule le_value_replicate_0)
  moreover have "bc 0 = (b, replicate 8 0)" unfolding bc_def by simp
  ultimately show ?case using assms(3) by (simp only: low_bits_0) simp
next
  case (Suc n)
  have n: "n < 64" using Suc.prems by simp
  define b' c' where "b' = fst (bc n)" and "c' = snd (bc n)"
  have IH: "length b' = 5" "length c' = 8" "le_value b' = push_bit n (le_value b)"
    "le_value c' = clmul (low_bits n a) (le_value b)"
    using Suc.IH n unfolding b'_def c'_def by simp_all
  let ?c = "fold (\<lambda>j c. if drop_bit n (a ! j) mod 2 = 1 then add_limbs j b' c else c) [0..<4] c'"
  have inner: "length ?c = 8 \<and> le_value ?c XOR clmul (low_bits n a) (le_value b) =
      le_value c' XOR clmul (low_bits (Suc n) a) (le_value b)"
    by (rule comb_inner [OF assms(2) IH(1,2) n IH(3)])
  have Vc: "le_value ?c = clmul (low_bits (Suc n) a) (le_value b)"
    by (rule xor_swap [OF conjunct2 [OF inner, unfolded IH(4)]])
  have Vb: "le_value (shift_limbs n b') = push_bit (Suc n) (le_value b)" if "Suc n < 64"
  proof -
    have "le_value b' = 2 ^ n * le_value b" by (simp only: IH(3) push_bit_eq_mult mult.commute)
    also have "\<dots> < 2 ^ n * 2 ^ 208" using assms(4) by (rule mult_strict_left_mono) simp
    also have "\<dots> = 2 ^ (n + 208)" by (simp only: power_add)
    also have "\<dots> \<le> 2 ^ 319" using that by (intro power_increasing) simp_all
    finally have "le_value b' < 2 ^ 319" .
    moreover have "n \<noteq> 63" using that by simp
    ultimately have "le_value (shift_limbs n b') = push_bit 1 (push_bit n (le_value b))"
      using le_value_shift_limbs [OF IH(1)] IH(3) by presburger
    then show ?thesis by (simp only: push_bit_push_bit plus_1_eq_Suc)
  qed
  have "bc (Suc n) = comb_step a n (b', c')"
    unfolding bc_def b'_def c'_def by (simp only: upt_Suc_append [OF le0] fold_append comp_apply fold_simps prod.collapse)
  also have "\<dots> = (shift_limbs n b', ?c)" by (simp only: comb_step_def Let_def prod.case)
  finally have "fst (bc (Suc n)) = shift_limbs n b'" "snd (bc (Suc n)) = ?c" by simp_all
  moreover have "length (shift_limbs n b') = 5" using IH(1) by simp
  ultimately show ?case using inner Vc Vb by presburger
qed

section \<open>The reduction\<close>

definition field_cong :: "nat \<Rightarrow> nat \<Rightarrow> bool" where
  "field_cong x y \<longleftrightarrow> (\<exists>q. x = clmul q field_poly XOR y)"

lemma field_cong_trans: "field_cong x y \<Longrightarrow> field_cong y z \<Longrightarrow> field_cong x z"
  unfolding field_cong_def by (metis clmul_xor_left xor.assoc)

lemma field_cong_refl: "field_cong x x"
  unfolding field_cong_def by (rule exI [where x = 0]) simp

lemma field_cong_xor: "field_cong x y \<Longrightarrow> field_cong x' y' \<Longrightarrow> field_cong (x XOR x') (y XOR y')"
  unfolding field_cong_def
proof (elim exE)
  fix q q'
  assume "x = clmul q field_poly XOR y" "x' = clmul q' field_poly XOR y'"
  then have "x XOR x' = clmul (q XOR q') field_poly XOR (y XOR y')"
    by (simp add: clmul_xor_left xor.assoc xor.commute xor.left_commute)
  then show "\<exists>q. x XOR x' = clmul q field_poly XOR (y XOR y')" by blast
qed

lemma field_cong_step: "y = x XOR clmul q field_poly \<Longrightarrow> field_cong x y"
  unfolding field_cong_def by (rule exI [where x = q]) (simp add: xor.commute xor.left_commute xor_cancel_left)

lemma field_cong_unique: "field_cong z x \<Longrightarrow> field_cong z y \<Longrightarrow> x < 2 ^ 208 \<Longrightarrow> y < 2 ^ 208 \<Longrightarrow> x = y"
  unfolding field_cong_def using remainder_unique by blast

text \<open>A shift within a limb and the part shifted out of it.\<close>

lemma split_shift:
  assumes "s \<le> 64"
  shows "unat (push_bit s (t :: u64)) XOR push_bit 64 (unat (drop_bit (64 - s) t)) = push_bit s (unat t)"
proof (rule bit_eqI)
  fix n :: nat
  have t: "bit t m \<Longrightarrow> m < 64" for m using bit_imp_le_length [of t m] by simp
  show "bit (unat (push_bit s t) XOR push_bit 64 (unat (drop_bit (64 - s) t))) n = bit (push_bit s (unat t)) n"
  proof (cases "n < 64")
    case True
    then show ?thesis
      by (simp add: bit_xor_iff bit_push_bit_iff_nat bit_unsigned_iff bit_push_bit_iff)
  next
    case False
    then have "64 - s + (n - 64) = n - s" using assms by simp
    then show ?thesis using False t [of "n - s"] assms
      by (auto simp: bit_xor_iff bit_push_bit_iff_nat bit_unsigned_iff bit_push_bit_iff bit_drop_bit_eq)
  qed
qed

lemma unat_xor: "unat (x XOR y) = unat x XOR unat (y :: u64)"
  by (rule unsigned_xor_eq)

lemma reduce_step_cong:
  assumes len: "length c = 8" and i: "4 \<le> i" "i < 8"
  shows "field_cong (le_value c) (le_value (reduce_step i c))"
    and "length (reduce_step i c) = 8" and "reduce_step i c ! i = 0"
    and "\<And>j. i < j \<Longrightarrow> reduce_step i c ! j = c ! j"
proof -
  let ?t = "c ! i"
  let ?lo = "push_bit 57 ?t XOR push_bit 51 ?t XOR push_bit 49 ?t XOR push_bit 48 ?t"
  let ?hi = "drop_bit 7 ?t XOR drop_bit 13 ?t XOR drop_bit 15 ?t XOR drop_bit 16 ?t"
  let ?c1 = "c[i - 4 := c ! (i - 4) XOR ?lo]"
  let ?c2 = "?c1[i - 3 := ?c1 ! (i - 3) XOR ?hi]"
  have r: "reduce_step i c = ?c2[i := ?c2 ! i XOR ?t]"
    using i by (simp add: reduce_step_def Let_def)
  let ?o = "64 * (i - 4)"
  have "le_value (reduce_step i c) = le_value c XOR push_bit ?o (unat ?lo) XOR push_bit (64 * (i - 3)) (unat ?hi)
      XOR push_bit (64 * i) (unat ?t)"
    unfolding r using len i by (subst le_value_xor, simp)+ (simp only: xor.assoc)
  also have "push_bit (64 * (i - 3)) (unat ?hi) = push_bit ?o (push_bit 64 (unat ?hi))"
    using i by (simp add: push_bit_push_bit algebra_simps)
  also have "push_bit (64 * i) (unat ?t) = push_bit ?o (push_bit 256 (unat ?t))"
    using i by (simp add: push_bit_push_bit algebra_simps)
  finally have V: "le_value (reduce_step i c) =
      le_value c XOR push_bit ?o (unat ?lo XOR (push_bit 64 (unat ?hi) XOR push_bit 256 (unat ?t)))"
    by (simp only: push_bit_xor)
  have "unat ?lo XOR push_bit 64 (unat ?hi) =
      push_bit 57 (unat ?t) XOR push_bit 51 (unat ?t) XOR push_bit 49 (unat ?t) XOR push_bit 48 (unat ?t)"
    unfolding unat_xor push_bit_xor
    using split_shift [of 57 ?t] split_shift [of 51 ?t] split_shift [of 49 ?t] split_shift [of 48 ?t]
    by (intro xor_four) simp_all
  then have "(unat ?lo XOR push_bit 64 (unat ?hi)) XOR push_bit 256 (unat ?t) =
      clmul (push_bit 48 (unat ?t)) field_poly"
    unfolding clmul_field_poly push_bit_push_bit by (simp add: xor.assoc xor.commute xor.left_commute)
  then have "unat ?lo XOR (push_bit 64 (unat ?hi) XOR push_bit 256 (unat ?t)) =
      clmul (push_bit 48 (unat ?t)) field_poly" by (simp only: xor.assoc)
  with V have "le_value (reduce_step i c) = le_value c XOR clmul (push_bit ?o (push_bit 48 (unat ?t))) field_poly"
    by (simp only: clmul_push_bit)
  then show "field_cong (le_value c) (le_value (reduce_step i c))" by (rule field_cong_step)
  show "length (reduce_step i c) = 8" "reduce_step i c ! i = 0"
    "\<And>j. i < j \<Longrightarrow> reduce_step i c ! j = c ! j"
    using len i by (simp_all add: reduce_step_def Let_def)
qed


lemma reduce_blocks:
  assumes "length c = 8"
  defines "d \<equiv> fold reduce_step (rev [4..<8]) c"
  shows "length d = 8" "field_cong (le_value c) (le_value d)" "\<And>j. 4 \<le> j \<Longrightarrow> j < 8 \<Longrightarrow> d ! j = 0"
proof -
  have r: "rev [4..<8] = [7, 6, 5, 4::nat]" by (simp add: upt_rec)
  let ?a = "reduce_step 7 c" let ?b = "reduce_step 6 ?a" let ?e = "reduce_step 5 ?b"
  have d: "d = reduce_step 4 ?e" by (simp add: d_def r)
  note A = reduce_step_cong [OF assms(1), of 7, simplified]
  note B = reduce_step_cong [OF A(2), of 6, simplified]
  note E = reduce_step_cong [OF B(2), of 5, simplified]
  note D = reduce_step_cong [OF E(2), of 4, simplified]
  show "length d = 8" unfolding d by (rule D(2))
  show "field_cong (le_value c) (le_value d)"
    unfolding d using A(1) B(1) E(1) D(1) field_cong_trans by blast
  show "d ! j = 0" if "4 \<le> j" "j < 8" for j
  proof -
    have "j = 4 \<or> j = 5 \<or> j = 6 \<or> j = 7" using that by linarith
    then show ?thesis unfolding d using A(3) B(3,4) E(3,4) D(3,4) by auto
  qed
qed

lemma bit_mask_16: "bit (x AND 0xFFFF) m \<longleftrightarrow> m < 16 \<and> bit x m" for x :: u64
proof -
  have "(0xFFFF :: u64) = mask 16" by (simp add: mask_eq_exp_minus_1)
  then show ?thesis using bit_imp_le_length [of x m] by (simp only: bit_and_iff bit_mask_iff) auto
qed

lemma reduce_last_cong:
  assumes len: "length c = 8" and z: "\<And>j. 4 \<le> j \<Longrightarrow> j < 8 \<Longrightarrow> c ! j = 0"
  shows "field_cong (le_value c) (le_value (reduce_last c))"
    and "le_value (reduce_last c) < 2 ^ 208" and "length (reduce_last c) = 8"
proof -
  let ?t = "drop_bit 16 (c ! 3)"
  let ?lo = "push_bit 9 ?t XOR push_bit 3 ?t XOR push_bit 1 ?t XOR ?t"
  let ?c1 = "c[0 := c ! 0 XOR ?lo]"
  have r: "reduce_last c = ?c1[3 := ?c1 ! 3 AND 0xFFFF]"
    by (simp only: reduce_last_def Let_def)
  have small: "bit ?t m \<Longrightarrow> m < 48" for m
    using bit_imp_le_length [of "c ! 3" "16 + m"] by (simp add: bit_drop_bit_eq)
  have exact: "unat (push_bit s ?t) = push_bit s (unat ?t)" if "s \<le> 16" for s
  proof (rule bit_eqI)
    fix n :: nat
    show "bit (unat (push_bit s ?t)) n = bit (push_bit s (unat ?t)) n"
      using small [of "n - s"] that
      by (auto simp: bit_unsigned_iff bit_push_bit_iff bit_push_bit_iff_nat simp del: bit_drop_bit_eq)
  qed
  have lo: "unat ?lo = push_bit 9 (unat ?t) XOR push_bit 3 (unat ?t) XOR push_bit 1 (unat ?t) XOR unat ?t"
    by (simp only: unat_xor exact [of 9, simplified] exact [of 3, simplified]) (simp add: exact [of 1, simplified])
  have mask: "?c1 ! 3 AND 0xFFFF = ?c1 ! 3 XOR push_bit 16 ?t"
    by (rule bit_word_eqI) (auto simp: bit_mask_16 bit_xor_iff bit_push_bit_iff bit_drop_bit_eq)
  have "le_value (reduce_last c) = le_value c XOR push_bit 0 (unat ?lo) XOR push_bit 192 (unat (push_bit 16 ?t))"
    unfolding r mask using len by (subst le_value_xor, simp)+ (simp add: xor.assoc)
  also have "\<dots> = le_value c XOR clmul (unat ?t) field_poly"
    unfolding exact [OF order_refl] lo clmul_field_poly push_bit_push_bit
    by (simp add: xor.assoc xor.commute xor.left_commute)
  finally show "field_cong (le_value c) (le_value (reduce_last c))" by (rule field_cong_step)
  show "length (reduce_last c) = 8" using len by (simp add: r)
  have "\<not> bit (le_value (reduce_last c)) n" if "208 \<le> n" for n
  proof -
    have "3 \<le> n div 64" using div_le_mono [of 192 n 64] that by simp
    moreover have "n div 64 = 3 \<Longrightarrow> 16 \<le> n mod 64"
      using mult_div_mod_eq [of 64 n] that by linarith
    ultimately consider "n div 64 = 3" "16 \<le> n mod 64" | "4 \<le> n div 64" "n div 64 < 8" | "8 \<le> n div 64"
      by force
    then show ?thesis
    proof cases
      case 1
      then show ?thesis using len by (simp add: bit_le_value_u64 r bit_mask_16)
    next
      case 2
      then have "reduce_last c ! (n div 64) = 0" using z [of "n div 64"] by (simp add: r)
      then show ?thesis by (simp add: bit_le_value_u64)
    next
      case 3
      then show ?thesis using len by (simp add: bit_le_value_u64 r)
    qed
  qed
  then have "take_bit 208 (le_value (reduce_last c)) = le_value (reduce_last c)"
    by (intro bit_eqI) (metis bit_take_bit_iff linorder_not_less)
  then show "le_value (reduce_last c) < 2 ^ 208" by (simp only: take_bit_nat_eq_self_iff)
qed

section \<open>Bytes to limbs and back\<close>

lemma bit_shifted_byte:
  assumes "p < 64" "r < 8"
  shows "bit (push_bit (8 * r) (ucast (x :: u8)) :: u64) p \<longleftrightarrow> p div 8 = r \<and> bit x (p mod 8)"
proof -
  have "bit x (p - 8 * r) \<Longrightarrow> p - 8 * r < 8" using bit_imp_le_length [of x] by simp
  moreover have "8 * r \<le> p \<and> p - 8 * r < 8 \<longleftrightarrow> p div 8 = r" by linarith
  moreover have "p div 8 = r \<Longrightarrow> p mod 8 = p - 8 * r" by (simp add: minus_mult_div_eq_mod [symmetric])
  ultimately show ?thesis using assms by (auto simp: bit_push_bit_iff bit_unsigned_iff)
qed

lemma load_limbs_value:
  assumes "length src = 26" and "26 \<le> 8 * m"
  shows "length (load_limbs m src) = m" and "le_value (load_limbs m src) = le_value src"
proof -
  let ?f = "\<lambda>i (a :: u64 list). a[i div 8 := a ! (i div 8) OR push_bit (8 * (i mod 8)) (ucast (src ! i))]"
  have inv: "n \<le> 26 \<Longrightarrow> length (fold ?f [0..<n] (replicate m 0)) = m \<and>
     (\<forall>l<m. \<forall>p<64. bit (fold ?f [0..<n] (replicate m 0) ! l) p \<longleftrightarrow>
        8 * l + p div 8 < n \<and> bit (src ! (8 * l + p div 8)) (p mod 8))" for n
  proof (induction n)
    case 0
    then show ?case by simp
  next
    case (Suc n)
    define a where "a = fold ?f [0..<n] (replicate m 0)"
    have a: "length a = m" "\<And>l p. l < m \<Longrightarrow> p < 64 \<Longrightarrow> bit (a ! l) p \<longleftrightarrow>
        8 * l + p div 8 < n \<and> bit (src ! (8 * l + p div 8)) (p mod 8)"
      using Suc unfolding a_def by auto
    have n: "n div 8 < m" using Suc.prems assms(2) by linarith
    have step: "fold ?f [0..<Suc n] (replicate m 0) = ?f n a" by (simp add: a_def)
    have "bit (?f n a ! l) p \<longleftrightarrow> 8 * l + p div 8 < Suc n \<and> bit (src ! (8 * l + p div 8)) (p mod 8)"
      if "l < m" "p < 64" for l p
    proof (cases "l = n div 8")
      case True
      have "p div 8 = n mod 8 \<longleftrightarrow> 8 * l + p div 8 = n"
        unfolding True using mult_div_mod_eq [of 8 n] by linarith
      moreover have "bit (?f n a ! l) p \<longleftrightarrow> bit (a ! l) p \<or> p div 8 = n mod 8 \<and> bit (src ! n) (p mod 8)"
        using True n a(1) by (simp add: bit_or_iff bit_shifted_byte that(2))
      ultimately show ?thesis using a(2) [OF that] by (auto simp: less_Suc_eq)
    next
      case False
      then have "8 * l + p div 8 \<noteq> n" using that(2) by linarith
      then show ?thesis using a(2) [OF that] False by (auto simp: less_Suc_eq)
    qed
    then show ?case unfolding step using a(1) by simp
  qed
  show len: "length (load_limbs m src) = m" using inv [of 26] by (simp add: load_limbs_def)
  show "le_value (load_limbs m src) = le_value src"
  proof (rule bit_eqI)
    fix N :: nat
    have e: "8 * (N div 64) + N mod 64 div 8 = N div 8" "N mod 64 mod 8 = N mod 8"
      using mod_mult2_eq [of N 8 8] mult_div_mod_eq [of 8 "N div 8"]
      by (simp_all add: mod_mod_cancel div_mult2_eq [symmetric])
    show "bit (le_value (load_limbs m src)) N = bit (le_value src) N"
    proof (cases "N div 64 < m")
      case True
      then have "bit (load_limbs m src ! (N div 64)) (N mod 64) \<longleftrightarrow> N div 8 < 26 \<and> bit (src ! (N div 8)) (N mod 8)"
        using inv [of 26] e unfolding load_limbs_def by auto
      then show ?thesis using True len assms(1) by (simp add: bit_le_value_u64 bit_le_value_u8)
    next
      case False
      then have "\<not> N div 8 < 26" using assms(2) by linarith
      then show ?thesis using False len assms(1) by (simp add: bit_le_value_u64 bit_le_value_u8)
    qed
  qed
qed

lemma length_store_limbs [simp, width_simps]: "length (store_limbs c) = 26"
  by (simp add: store_limbs_def)

lemma store_limbs_value:
  assumes "length c = 8" and "le_value c < 2 ^ 208"
  shows "le_value (store_limbs c) = le_value c"
proof (rule bit_eqI)
  fix N :: nat
  have m: "(0xFF :: u64) = mask 8" by (simp add: mask_eq_exp_minus_1)
  have e: "N div 8 div 8 = N div 64" "8 * (N div 8 mod 8) + N mod 8 = N mod 64"
    using mod_mult2_eq [of N 8 8] by (simp_all add: div_mult2_eq [symmetric])
  show "bit (le_value (store_limbs c)) N = bit (le_value c) N"
  proof (cases "N < 208")
    case True
    then have "N div 8 < 26" by linarith
    then have "bit (store_limbs c ! (N div 8)) (N mod 8) = bit (c ! (N div 64)) (N mod 64)"
      using e less_trans [OF mod_less_divisor [of 8 N], of 64]
      by (simp add: store_limbs_def bit_unsigned_iff bit_and_iff m bit_mask_iff bit_drop_bit_eq)
    moreover have "N div 64 < 8" using True by (simp add: less_mult_imp_div_less)
    ultimately show ?thesis using \<open>N div 8 < 26\<close> assms(1) by (simp add: bit_le_value_u64 bit_le_value_u8)
  next
    case False
    moreover have "\<not> N div 8 < 26" using False by linarith
    ultimately show ?thesis using not_bit_ge [OF assms(2), of N] by (simp only: bit_le_value_u8) simp
  qed
qed

section \<open>Correctness\<close>

lemma field_mul_value:
  assumes "length left = 26" and "length right = 26"
  shows "\<exists>r. field_mul left right = Ok r \<and> length r = 26 \<and> le_value r < 2 ^ 208 \<and>
     field_cong (clmul (le_value left) (le_value right)) (le_value r)"
proof -
  let ?a = "load_limbs 4 left" and ?b = "load_limbs 5 right"
  have a: "length ?a = 4" "le_value ?a = le_value left" using load_limbs_value [OF assms(1), of 4] by simp_all
  have b: "length ?b = 5" "le_value ?b = le_value right" using load_limbs_value [OF assms(2), of 5] by simp_all
  have "le_value ?b < 2 ^ 208" using le_value_bound [of right] b(2) assms(2) by simp
  from comb_rounds [OF a(1) b(1) this order_refl]
  obtain b' c where bc: "fold (comb_step ?a) [0..<64] (?b, replicate 8 0) = (b', c)"
    and c: "length c = 8" "le_value c = clmul (le_value left) (le_value right)"
    by (metis low_bits_64 a(2) b(2) prod.collapse)
  let ?d = "fold reduce_step (rev [4..<8]) c"
  note d = reduce_blocks [OF c(1)]
  note e = reduce_last_cong [OF d(1,3)]
  let ?r = "store_limbs (reduce_last ?d)"
  have v: "le_value ?r = le_value (reduce_last ?d)" by (rule store_limbs_value [OF e(3,2)])
  have "field_mul left right = Ok ?r"
    unfolding field_mul_def Let_def bc prod.case using assms by simp
  moreover have "le_value ?r < 2 ^ 208" unfolding v by (rule e(2))
  moreover have "field_cong (clmul (le_value left) (le_value right)) (le_value ?r)"
    unfolding v c(2) [symmetric] by (rule field_cong_trans [OF d(2) e(1)])
  ultimately show ?thesis using length_store_limbs by blast
qed

text \<open>
  C13: on inputs of 26 bytes \<open>field_mul\<close> returns 26 bytes: the unique remainder of the
  carry-less product modulo \<open>X^208 + X^9 + X^3 + X + 1\<close>; otherwise it is an error.
\<close>

theorem field_mul_correct:
  "(if length left = 26 \<and> length right = 26
    then \<exists>r. field_mul left right = Ok r \<and> length r = 26 \<and> le_value r < 2 ^ 208 \<and>
       (\<exists>q. clmul (le_value left) (le_value right) = clmul q field_poly XOR le_value r)
    else field_mul left right =
       Err (ErrorOT ''Binary field multiplication: entries don't have the correct length''))"
  using field_mul_value [of left right] unfolding field_cong_def by (auto simp: field_mul_def)

section \<open>Linearity\<close>

text \<open>The code's product on byte vectors of the right length.\<close>

definition fmul :: "bytes \<Rightarrow> bytes \<Rightarrow> bytes" where
  "fmul x y = (case field_mul x y of Ok r \<Rightarrow> r | _ \<Rightarrow> [])"

lemma field_mul_fmul: "length x = 26 \<Longrightarrow> length y = 26 \<Longrightarrow> field_mul x y = Ok (fmul x y)"
  using field_mul_value [of x y] by (auto simp: fmul_def)

lemma length_fmul [width_simps]: "length x = 26 \<Longrightarrow> length y = 26 \<Longrightarrow> length (fmul x y) = 26"
  using field_mul_value [of x y] by (auto simp: fmul_def)

lemma le_value_u8_inject:
  assumes "length x = length (y :: bytes)" and "le_value x = le_value y"
  shows "x = y"
proof (rule nth_equalityI [OF assms(1)])
  fix i
  assume i: "i < length x"
  show "x ! i = y ! i"
  proof (rule bit_word_eqI)
    fix n
    assume "n < LENGTH(8)"
    then have "(8 * i + n) div 8 = i" "(8 * i + n) mod 8 = n" by simp_all
    then show "bit (x ! i) n = bit (y ! i) n"
      using arg_cong [OF assms(2), of "\<lambda>v. bit v (8 * i + n)"] i assms(1)
      unfolding bit_le_value_u8 by simp
  qed
qed

lemma le_value_xor_n:
  assumes "length x = n" and "length y = n"
  shows "le_value (xor_n n x y) = le_value x XOR le_value y"
  by (rule bit_eqI) (auto simp: bit_xor_iff bit_le_value_u8 assms)

lemma fmul_xor_left:
  assumes "length x = 26" "length y = 26" "length c = 26"
  shows "fmul (xor_n 26 x y) c = xor_n 26 (fmul x c) (fmul y c)"
proof (rule le_value_u8_inject)
  have l: "length (xor_n 26 x y) = 26" by simp
  show "length (fmul (xor_n 26 x y) c) = length (xor_n 26 (fmul x c) (fmul y c))"
    using assms by (simp add: length_fmul)
  have *: "field_cong (clmul (le_value u) (le_value c)) (le_value (fmul u c))" "le_value (fmul u c) < 2 ^ 208"
    if "length u = 26" for u
    using field_mul_value [OF that assms(3)] by (auto simp: fmul_def)
  have "field_cong (clmul (le_value (xor_n 26 x y)) (le_value c)) (le_value (fmul x c) XOR le_value (fmul y c))"
    unfolding le_value_xor_n [OF assms(1,2)] clmul_xor_left
    by (rule field_cong_xor [OF *(1) [OF assms(1)] *(1) [OF assms(2)]])
  moreover have "le_value (fmul x c) XOR le_value (fmul y c) < 2 ^ 208"
    using * (2) assms by (intro xor_below) blast+
  ultimately have "le_value (fmul (xor_n 26 x y) c) = le_value (fmul x c) XOR le_value (fmul y c)"
    using field_cong_unique [OF * (1) [OF l]] * (2) [OF l] by blast
  then show "le_value (fmul (xor_n 26 x y) c) = le_value (xor_n 26 (fmul x c) (fmul y c))"
    using assms by (simp add: le_value_xor_n length_fmul)
qed

text \<open>Multiplying by a bit, as \<open>u8::from(bit) * byte\<close> does.\<close>

definition bit_times :: "bool \<Rightarrow> u8 \<Rightarrow> u8" where
  "bit_times b x = of_bool b * x"

lemma bit_times_simps [simp]: "bit_times True x = x" "bit_times False x = 0"
  by (simp_all add: bit_times_def)

end
