(* ===== verification/OTExtension.thy ===== *)
theory OTExtension
  imports FieldMul "HOL-Library.While_Combinator"
begin

text \<open>
  The OT extension (\<open>utilities/ot/extension.rs\<close>): KOS with the Fiat-Shamir consistency
  check, the bit-matrix transposition and the final transfer. Shown: the transposition is
  a transposition; an honest run is accepted and the outputs add up to the chosen
  correlations, which is the contract \<open>correlated_ot\<close> the multiplication protocol uses;
  every wrong dimension and a failed check are refused.
\<close>

section \<open>Constants and state\<close>

definition KAPPA :: nat where "KAPPA = 256"
definition OT_SECURITY :: nat where "OT_SECURITY = 128 + 80"
definition BATCH_SIZE :: nat where "BATCH_SIZE = 256 + 2 * 80"
definition EXTENDED_BATCH_SIZE :: nat where "EXTENDED_BATCH_SIZE = BATCH_SIZE + OT_SECURITY"

lemmas ote_consts = KAPPA_def OT_SECURITY_def BATCH_SIZE_def EXTENDED_BATCH_SIZE_def

record ote_sender =
  ote_correlation :: "bool list"
  ote_seeds :: "bytes list"

record ote_receiver =
  seeds0 :: "bytes list"
  seeds1 :: "bytes list"

record ote_data_to_sender =
  ote_u :: "bytes list"
  verify_x :: bytes
  verify_t :: "bytes list"

section \<open>Initialisation\<close>

definition ote_sender_init_phase1 ::
  "('f::field, 'g::ab_group_add) suite \<Rightarrow> bytes \<Rightarrow> 'f rng
   \<Rightarrow> ('e, (ot_receiver \<times> bool list \<times> 'f list \<times> ('f, 'g) enc_proof list) \<times> 'f rng) outcome" where
  "ote_sender_init_phase1 S session_id r =
     (let (rcv, r1) = ot_receiver_init r;
          (correlation, r2) = draw_list (\<lambda>_. random_bool) [0..<KAPPA] r1 in
      and_then (expect (ot_receiver_run_phase1_batch S rcv session_id correlation r2))
        (\<lambda>((vec_r, enc_proofs), r3). Ok ((rcv, correlation, vec_r, enc_proofs), r3)))"

definition ote_sender_init_phase2 ::
  "('f::field, 'g::ab_group_add) suite \<Rightarrow> bytes \<Rightarrow> bool list \<Rightarrow> 'f list \<Rightarrow> ('f, 'g) dlog_proof
   \<Rightarrow> (error_ot, ote_sender) outcome" where
  "ote_sender_init_phase2 S session_id correlation vec_r pf =
     and_then (ot_receiver_run_phase2_batch S session_id vec_r pf) (\<lambda>ms.
       Ok \<lparr>ote_correlation = correlation, ote_seeds = ms\<rparr>)"

definition ote_receiver_init_phase1 ::
  "('f::field, 'g) suite \<Rightarrow> bytes \<Rightarrow> 'f rng
   \<Rightarrow> ('e, (('f, 'g) ot_sender \<times> ('f, 'g) dlog_proof) \<times> 'f rng) outcome" where
  "ote_receiver_init_phase1 S session_id r =
     and_then (ot_sender_init S session_id r) (\<lambda>(sndr, r1). Ok ((sndr, ot_sender_run_phase1 sndr), r1))"

definition ote_receiver_init_phase2 ::
  "('f::field, 'g::ab_group_add) suite \<Rightarrow> ('f, 'g) ot_sender \<Rightarrow> bytes \<Rightarrow> bytes \<Rightarrow> ('f, 'g) enc_proof list
   \<Rightarrow> (error_ot, ote_receiver) outcome" where
  "ote_receiver_init_phase2 S sndr session_id sd enc_proofs =
     and_then (ot_sender_run_phase2_batch S sndr session_id sd enc_proofs) (\<lambda>(m0s, m1s).
       Ok \<lparr>seeds0 = m0s, seeds1 = m1s\<rparr>)"

section \<open>Building blocks\<close>

text \<open>The bits \<open>8 * i, ..., 8 * i + 7\<close>, little-endian.\<close>

definition compressed_byte :: "bool list \<Rightarrow> nat \<Rightarrow> u8" where
  "compressed_byte bits i =
     of_bool (bits ! (i * 8))
     OR push_bit 1 (of_bool (bits ! (i * 8 + 1)))
     OR push_bit 2 (of_bool (bits ! (i * 8 + 2)))
     OR push_bit 3 (of_bool (bits ! (i * 8 + 3)))
     OR push_bit 4 (of_bool (bits ! (i * 8 + 4)))
     OR push_bit 5 (of_bool (bits ! (i * 8 + 5)))
     OR push_bit 6 (of_bool (bits ! (i * 8 + 6)))
     OR push_bit 7 (of_bool (bits ! (i * 8 + 7)))"

definition prg_chunk :: "('f, 'g) suite \<Rightarrow> bytes \<Rightarrow> nat \<Rightarrow> nat \<Rightarrow> bytes \<Rightarrow> bytes" where
  "prg_chunk S session_id i count sd =
     tagged_hash S TAG_OTE_PRG [session_id, u16_be (of_nat i), u16_be (of_nat count), sd]"

text \<open>The sender's expansion loop, and the receiver's, which expands two seeds at once.\<close>

definition extend_seed :: "('f, 'g) suite \<Rightarrow> bytes \<Rightarrow> nat \<Rightarrow> bytes \<Rightarrow> bytes" where
  "extend_seed S session_id i sd =
     (let (prg, _) = while (\<lambda>(prg, count). length prg < EXTENDED_BATCH_SIZE div 8)
            (\<lambda>(prg, count). (prg @ prg_chunk S session_id i count sd, count + 1)) ([], 0)
      in take (EXTENDED_BATCH_SIZE div 8) prg)"

definition extend_seed_pair ::
  "('f, 'g) suite \<Rightarrow> bytes \<Rightarrow> nat \<Rightarrow> bytes \<Rightarrow> bytes \<Rightarrow> bytes \<times> bytes" where
  "extend_seed_pair S session_id i sd0 sd1 =
     (let (prg0, prg1, _) = while (\<lambda>(prg0, prg1, count). length prg0 < EXTENDED_BATCH_SIZE div 8)
            (\<lambda>(prg0, prg1, count). (prg0 @ prg_chunk S session_id i count sd0,
                                     prg1 @ prg_chunk S session_id i count sd1, count + 1)) ([], [], 0)
      in (take (EXTENDED_BATCH_SIZE div 8) prg0, take (EXTENDED_BATCH_SIZE div 8) prg1))"

definition ote_chi :: "('f, 'g) suite \<Rightarrow> bytes \<Rightarrow> string \<Rightarrow> bytes list \<Rightarrow> bytes" where
  "ote_chi S session_id label u =
     take (OT_SECURITY div 8) (tagged_hash S TAG_OTE_CHI [session_id, bytes_of label, concat u])"

text \<open>The combination of a 78-byte row with \<open>chi1\<close> and \<open>chi2\<close> that both parties compute.\<close>

definition check_value :: "bytes \<Rightarrow> bytes \<Rightarrow> bytes \<Rightarrow> (error_ot, bytes) outcome" where
  "check_value chi1 chi2 row =
     (let n = OT_SECURITY div 8 in
      and_then (field_mul (take n row) chi1) (\<lambda>prod_1.
      and_then (field_mul (take n (drop n row)) chi2) (\<lambda>prod_2.
        Ok (map (\<lambda>k. prod_1 ! k XOR prod_2 ! k XOR row ! (2 * n + k)) [0..<n]))))"

text \<open>The four nested loops, over bytes and bits of rows and columns.\<close>

definition transpose_bit :: "bytes list \<Rightarrow> nat \<Rightarrow> nat \<Rightarrow> nat \<Rightarrow> nat \<Rightarrow> bytes list \<Rightarrow> bytes list" where
  "transpose_bit input row_byte row_bit_within_byte column_byte column_bit_within_byte output =
     (let row_bit = row_byte * 8 + row_bit_within_byte;
          column_bit = column_byte * 8 + column_bit_within_byte;
          entry = drop_bit column_bit_within_byte (input ! row_bit ! column_byte) AND 1;
          shifted_entry = push_bit row_bit_within_byte entry
      in output[column_bit := (output ! column_bit)
           [row_byte := output ! column_bit ! row_byte OR shifted_entry]])"

definition cut_and_transpose :: "bytes list \<Rightarrow> (error_ot, bytes list) outcome" where
  "cut_and_transpose input =
     (if length input \<noteq> KAPPA then Err (ErrorOT ''Transpose input matrix has incorrect dimensions'')
      else Ok (fold (\<lambda>row_byte. fold (\<lambda>row_bit. fold (\<lambda>column_byte. fold (\<lambda>column_bit.
                 transpose_bit input row_byte row_bit column_byte column_bit)
               [0..<8]) [0..<BATCH_SIZE div 8]) [0..<8]) [0..<KAPPA div 8]
             (replicate BATCH_SIZE (replicate (KAPPA div 8) 0))))"

definition ote_randomize :: "('f, 'g) suite \<Rightarrow> bytes \<Rightarrow> nat \<Rightarrow> nat \<Rightarrow> bytes \<Rightarrow> 'f" where
  "ote_randomize S session_id j iteration row =
     tagged_hash_as_scalar S TAG_OTE_RANDOMIZE
       [session_id, u16_be (of_nat j), [of_nat iteration], row]"

section \<open>The sender\<close>

definition ote_sender_q :: "('f, 'g) suite \<Rightarrow> ote_sender \<Rightarrow> bytes \<Rightarrow> bytes list \<Rightarrow> bytes list" where
  "ote_sender_q S s session_id u =
     (let extended_seeds = map (\<lambda>i. extend_seed S session_id i (ote_seeds s ! i)) [0..<KAPPA]
      in map (\<lambda>i. map (\<lambda>j. bit_times (ote_correlation s ! i) (u ! i ! j) XOR extended_seeds ! i ! j)
                     [0..<EXTENDED_BATCH_SIZE div 8]) [0..<KAPPA])"

definition ote_sender_run ::
  "('f::field, 'g) suite \<Rightarrow> ote_sender \<Rightarrow> bytes \<Rightarrow> u8 \<Rightarrow> 'f list list \<Rightarrow> ote_data_to_sender
   \<Rightarrow> (error_ot, 'f list list \<times> 'f list list) outcome" where
  "ote_sender_run S s session_id ot_width input_correlations data =
     (if length input_correlations \<noteq> unat ot_width
      then Err (ErrorOT ''The vector of input correlations does not have the expected size!'')
      else if \<not> list_all (\<lambda>c. length c = BATCH_SIZE) input_correlations
      then Err (ErrorOT ''A correlation vector has incorrect inner length'')
      else if length (ote_correlation s) \<noteq> KAPPA \<or> length (ote_seeds s) \<noteq> KAPPA
      then Err (ErrorOT ''OTE sender state has incorrect dimensions'')
      else if length (ote_u data) \<noteq> KAPPA \<or> length (verify_t data) \<noteq> KAPPA
      then Err (ErrorOT ''OTE data has incorrect dimensions'')
      else let q = ote_sender_q S s session_id (ote_u data);
               chi1 = ote_chi S session_id ''chi1'' (ote_u data);
               chi2 = ote_chi S session_id ''chi2'' (ote_u data) in
        and_then (collect_try (\<lambda>i. check_value chi1 chi2 (q ! i)) [0..<KAPPA]) (\<lambda>verify_q.
        let verify_sender = map (\<lambda>i. map (\<lambda>k. verify_t data ! i ! k XOR
                 bit_times (ote_correlation s ! i) (verify_x data ! k)) [0..<OT_SECURITY div 8]) [0..<KAPPA];
            consistent = list_all (\<lambda>(a, b). a = b) (zip verify_q verify_sender) in
        if \<not> consistent then Err (ErrorOT ''Receiver cheated in OTE: Consistency check failed!'')
        else and_then (cut_and_transpose q) (\<lambda>transposed_q.
        let compressed_correlation = map (compressed_byte (ote_correlation s)) [0..<KAPPA div 8];
            vector_of_v0 = map (\<lambda>iteration. map (\<lambda>j.
                 ote_randomize S session_id j iteration (transposed_q ! j)) [0..<BATCH_SIZE]) [0..<unat ot_width];
            vector_of_v1 = map (\<lambda>iteration. map (\<lambda>j.
                 ote_randomize S session_id j iteration
                   (map (\<lambda>i. transposed_q ! j ! i XOR compressed_correlation ! i) [0..<KAPPA div 8]))
                 [0..<BATCH_SIZE]) [0..<unat ot_width];
            vector_of_tau = map (\<lambda>iteration. map (\<lambda>j.
                 vector_of_v1 ! iteration ! j - vector_of_v0 ! iteration ! j + input_correlations ! iteration ! j)
                 [0..<BATCH_SIZE]) [0..<unat ot_width]
        in Ok (vector_of_v0, vector_of_tau))))"

section \<open>The receiver\<close>

definition ote_receiver_run_phase1 ::
  "('f, 'g) suite \<Rightarrow> ote_receiver \<Rightarrow> bytes \<Rightarrow> bool list \<Rightarrow> 'f rng
   \<Rightarrow> (error_ot, (bytes list \<times> ote_data_to_sender) \<times> 'f rng) outcome" where
  "ote_receiver_run_phase1 S w session_id choice_bits r =
     (if length choice_bits \<noteq> BATCH_SIZE
      then Err (ErrorOT ''Choice bits vector has incorrect length'')
      else if length (seeds0 w) \<noteq> KAPPA \<or> length (seeds1 w) \<noteq> KAPPA
      then Err (ErrorOT ''OTE receiver seed vectors have incorrect dimensions'')
      else let (random_choice_bits, r1) = draw_list (\<lambda>_. random_bool) [0..<OT_SECURITY] r;
               extended_choice_bits = choice_bits @ random_choice_bits;
               compressed_extended_bits =
                 map (compressed_byte extended_choice_bits) [0..<EXTENDED_BATCH_SIZE div 8];
               extended = map (\<lambda>i. extend_seed_pair S session_id i (seeds0 w ! i) (seeds1 w ! i)) [0..<KAPPA];
               extended_seeds0 = map fst extended;
               extended_seeds1 = map snd extended;
               u = map (\<lambda>i. map (\<lambda>j. extended_seeds0 ! i ! j XOR extended_seeds1 ! i ! j
                      XOR compressed_extended_bits ! j) [0..<EXTENDED_BATCH_SIZE div 8]) [0..<KAPPA];
               chi1 = ote_chi S session_id ''chi1'' u;
               chi2 = ote_chi S session_id ''chi2'' u in
        and_then (check_value chi1 chi2 compressed_extended_bits) (\<lambda>x.
        and_then (collect_try (\<lambda>i. check_value chi1 chi2 (extended_seeds0 ! i)) [0..<KAPPA]) (\<lambda>t.
          Ok ((extended_seeds0, \<lparr>ote_u = u, verify_x = x, verify_t = t\<rparr>), r1))))"

definition ote_receiver_run_phase2 ::
  "('f::field, 'g) suite \<Rightarrow> bytes \<Rightarrow> u8 \<Rightarrow> bool list \<Rightarrow> bytes list \<Rightarrow> 'f list list
   \<Rightarrow> (error_ot, 'f list list) outcome" where
  "ote_receiver_run_phase2 S session_id ot_width choice_bits extended_seeds vector_of_tau =
     (if length choice_bits \<noteq> BATCH_SIZE
      then Err (ErrorOT ''Choice bits vector has incorrect length'')
      else if length extended_seeds \<noteq> KAPPA
      then Err (ErrorOT ''Extended seed matrix has incorrect dimensions'')
      else if length vector_of_tau \<noteq> unat ot_width
      then Err (ErrorOT ''The vector sent by the sender does not have the expected size!'')
      else if \<not> list_all (\<lambda>tau. length tau = BATCH_SIZE) vector_of_tau
      then Err (ErrorOT ''Tau vector has incorrect inner length'')
      else and_then (cut_and_transpose extended_seeds) (\<lambda>transposed_t.
        let vector_of_v = map (\<lambda>iteration. map (\<lambda>j.
               ote_randomize S session_id j iteration (transposed_t ! j)) [0..<BATCH_SIZE]) [0..<unat ot_width]
        in Ok (map (\<lambda>iteration. map (\<lambda>j.
               let t_b_j = - (vector_of_v ! iteration ! j)
               in if choice_bits ! j then vector_of_tau ! iteration ! j + t_b_j else t_b_j)
               [0..<BATCH_SIZE]) [0..<unat ot_width])))"

section \<open>Bits of bytes\<close>

lemma bit_u8_of_bool_shift: "bit (push_bit k (of_bool b) :: u8) m \<longleftrightarrow> b \<and> m = k \<and> k < 8"
  using bit_push_bit_iff [of k "of_bool b :: u8" m] by (cases b) (auto simp: bit_1_iff simp del: push_bit_of_1)

lemma bit_compressed_byte:
  assumes "m < 8"
  shows "bit (compressed_byte bits i) m \<longleftrightarrow> bits ! (i * 8 + m)"
proof -
  have z: "bit (of_bool b :: u8) m \<longleftrightarrow> b \<and> m = 0" for b
    by (cases b) (auto simp: bit_1_iff)
  have "m = 0 \<or> m = 1 \<or> m = 2 \<or> m = 3 \<or> m = 4 \<or> m = 5 \<or> m = 6 \<or> m = 7" using assms by linarith
  then show ?thesis
    unfolding compressed_byte_def bit_or_iff bit_u8_of_bool_shift z by auto
qed

lemma u8_eqI: "(\<And>m. m < 8 \<Longrightarrow> bit (x :: u8) m = bit y m) \<Longrightarrow> x = y"
  by (rule bit_word_eqI) simp

section \<open>Transposition\<close>

text \<open>The entries \<open>P\<close> of the transposed matrix are filled in, the others are zero.\<close>

definition transposed_at :: "bytes list \<Rightarrow> (nat \<Rightarrow> nat \<Rightarrow> bool) \<Rightarrow> bytes list \<Rightarrow> bool" where
  "transposed_at input P out \<longleftrightarrow> length out = 416 \<and>
     (\<forall>c<416. length (out ! c) = 32 \<and>
       (\<forall>b<32. \<forall>m<8. bit (out ! c ! b) m \<longleftrightarrow>
          P c (b * 8 + m) \<and> bit (input ! (b * 8 + m) ! (c div 8)) (c mod 8)))"

lemma bit_entry: "bit (push_bit k (drop_bit j x AND 1) :: u8) m \<longleftrightarrow> m = k \<and> k < 8 \<and> bit x j"
proof -
  have "drop_bit j x AND 1 = of_bool (bit x j)"
  proof (rule bit_word_eqI)
    show "bit (drop_bit j x AND 1) n = bit (of_bool (bit x j) :: u8) n" for n
      by (cases "n = 0") (simp_all only: bit_and_iff bit_1_iff bit_drop_bit_eq bit_of_bool_iff, simp_all)
  qed
  then show ?thesis by (simp only: bit_u8_of_bool_shift) auto
qed

lemma transpose_bit_step:
  assumes inv: "transposed_at input P out"
    and range: "rb < 32" "ri < 8" "cb < 52" "ci < 8"
  shows "transposed_at input (\<lambda>c r. P c r \<or> (c = cb * 8 + ci \<and> r = rb * 8 + ri))
     (transpose_bit input rb ri cb ci out)"
proof -
  let ?C = "cb * 8 + ci" and ?out = "transpose_bit input rb ri cb ci out"
  have C: "?C < 416" "?C div 8 = cb" "?C mod 8 = ci" using range by auto
  define e where "e = push_bit ri (drop_bit ci (input ! (rb * 8 + ri) ! cb) AND 1)"
  have e: "bit e m \<longleftrightarrow> m = ri \<and> ri < 8 \<and> bit (input ! (rb * 8 + ri) ! cb) ci" for m
    unfolding e_def by (rule bit_entry)
  have out: "?out = out[?C := (out ! ?C)[rb := out ! ?C ! rb OR e]]"
    by (simp only: transpose_bit_def Let_def e_def)
  have len: "length out = 416" "c < 416 \<Longrightarrow> length (out ! c) = 32" for c
    using inv by (auto simp: transposed_at_def)
  have old: "bit (out ! c ! b) m \<longleftrightarrow> P c (b * 8 + m) \<and> bit (input ! (b * 8 + m) ! (c div 8)) (c mod 8)"
    if "c < 416" "b < 32" "m < 8" for c b m
    using inv that by (auto simp: transposed_at_def)
  have new: "bit (?out ! c ! b) m \<longleftrightarrow> (P c (b * 8 + m) \<or> c = ?C \<and> b * 8 + m = rb * 8 + ri) \<and>
      bit (input ! (b * 8 + m) ! (c div 8)) (c mod 8)" if that: "c < 416" "b < 32" "m < 8" for c b m
  proof (cases "c = ?C \<and> b = rb")
    case True
    have "b * 8 + m = rb * 8 + ri \<longleftrightarrow> m = ri" using True by simp
    moreover have "bit (?out ! c ! b) m \<longleftrightarrow> bit (out ! c ! b) m \<or> m = ri \<and> ri < 8 \<and> bit (input ! (rb * 8 + ri) ! cb) ci"
      using True len C(1) range(1) by (simp add: out bit_or_iff e)
    ultimately show ?thesis using old [OF that] True C range(2) by auto
  next
    case False
    then have "\<not> (c = ?C \<and> b * 8 + m = rb * 8 + ri)" using that(3) range(2) by linarith
    moreover have "?out ! c ! b = out ! c ! b"
      using False len C(1) that(1) by (cases "c = ?C") (auto simp: out)
    ultimately show ?thesis using old [OF that] by auto
  qed
  have "length (?out ! c) = 32" if "c < 416" for c
    using len that C(1) by (cases "c = ?C") (simp_all add: out)
  then show ?thesis using new len(1) unfolding transposed_at_def by (simp add: out)
qed

lemma transposed_at_fold:
  assumes "\<And>x P out. x \<in> set xs \<Longrightarrow> transposed_at input P out \<Longrightarrow>
      transposed_at input (\<lambda>c r. P c r \<or> Q x c r) (f x out)"
    and "transposed_at input P out"
  shows "transposed_at input (\<lambda>c r. P c r \<or> (\<exists>x\<in>set xs. Q x c r)) (fold f xs out)"
  using assms
proof (induction xs arbitrary: P out)
  case Nil
  then show ?case by simp
next
  case (Cons x xs)
  have "transposed_at input (\<lambda>c r. (P c r \<or> Q x c r) \<or> (\<exists>y\<in>set xs. Q y c r)) (fold f xs (f x out))"
    by (rule Cons.IH) (use Cons.prems in auto)
  moreover have "(\<lambda>c r. (P c r \<or> Q x c r) \<or> (\<exists>y\<in>set xs. Q y c r)) = (\<lambda>c r. P c r \<or> (\<exists>y\<in>set (x # xs). Q y c r))"
    by (auto simp: fun_eq_iff)
  ultimately show ?case by simp
qed

lemma transposed_at_cong:
  "transposed_at input P out \<Longrightarrow> (\<And>c r. c < 416 \<Longrightarrow> r < 256 \<Longrightarrow> P c r = P' c r) \<Longrightarrow> transposed_at input P' out"
  unfolding transposed_at_def by auto

lemma cut_and_transpose_at:
  assumes "length input = 256"
  shows "\<exists>out. cut_and_transpose input = Ok out \<and> transposed_at input (\<lambda>c r. True) out"
proof -
  define f where "f = (\<lambda>rb ri cb ci. transpose_bit input rb ri cb ci)"
  let ?z = "replicate 416 (replicate 32 0)"
  have z: "transposed_at input (\<lambda>c r. False) ?z" by (simp add: transposed_at_def)
  have step: "transposed_at input P out \<Longrightarrow> rb < 32 \<Longrightarrow> ri < 8 \<Longrightarrow> cb < 52 \<Longrightarrow> ci < 8 \<Longrightarrow>
      transposed_at input (\<lambda>c r. P c r \<or> (c = cb * 8 + ci \<and> r = rb * 8 + ri)) (f rb ri cb ci out)"
    for P out rb ri cb ci unfolding f_def by (rule transpose_bit_step)
  have s1: "transposed_at input P out \<Longrightarrow> rb < 32 \<Longrightarrow> ri < 8 \<Longrightarrow> cb < 52 \<Longrightarrow>
      transposed_at input (\<lambda>c r. P c r \<or> (\<exists>ci\<in>set [0..<8]. c = cb * 8 + ci \<and> r = rb * 8 + ri))
        (fold (f rb ri cb) [0..<8] out)" for P out rb ri cb
    by (rule transposed_at_fold) (auto intro: step)
  have s2: "transposed_at input P out \<Longrightarrow> rb < 32 \<Longrightarrow> ri < 8 \<Longrightarrow>
      transposed_at input (\<lambda>c r. P c r \<or> (\<exists>cb\<in>set [0..<52]. \<exists>ci\<in>set [0..<8]. c = cb * 8 + ci \<and> r = rb * 8 + ri))
        (fold (\<lambda>cb. fold (f rb ri cb) [0..<8]) [0..<52] out)" for P out rb ri
    by (rule transposed_at_fold) (rule s1, simp_all)
  have s3: "transposed_at input P out \<Longrightarrow> rb < 32 \<Longrightarrow>
      transposed_at input (\<lambda>c r. P c r \<or> (\<exists>ri\<in>set [0..<8]. \<exists>cb\<in>set [0..<52]. \<exists>ci\<in>set [0..<8].
          c = cb * 8 + ci \<and> r = rb * 8 + ri))
        (fold (\<lambda>ri. fold (\<lambda>cb. fold (f rb ri cb) [0..<8]) [0..<52]) [0..<8] out)" for P out rb
    by (rule transposed_at_fold) (rule s2, simp_all)
  let ?out = "fold (\<lambda>rb. fold (\<lambda>ri. fold (\<lambda>cb. fold (f rb ri cb) [0..<8]) [0..<52]) [0..<8]) [0..<32] ?z"
  have s4: "transposed_at input (\<lambda>c r. False \<or> (\<exists>rb\<in>set [0..<32]. \<exists>ri\<in>set [0..<8]. \<exists>cb\<in>set [0..<52].
      \<exists>ci\<in>set [0..<8]. c = cb * 8 + ci \<and> r = rb * 8 + ri)) ?out"
    by (rule transposed_at_fold [OF _ z]) (rule s3, simp_all)
  have cover: "\<exists>a\<in>set [0..<m]. \<exists>b\<in>set [0..<8]. n = a * 8 + b" if "n < m * 8" for n m :: nat
  proof (intro bexI)
    show "n = n div 8 * 8 + n mod 8" by simp
  qed (use that in \<open>auto simp: less_mult_imp_div_less\<close>)
  have "transposed_at input (\<lambda>c r. True) ?out"
  proof (rule transposed_at_cong [OF s4])
    fix c r :: nat
    assume "c < 416" "r < 256"
    then have "\<exists>cb\<in>set [0..<52]. \<exists>ci\<in>set [0..<8]. c = cb * 8 + ci" "\<exists>rb\<in>set [0..<32]. \<exists>ri\<in>set [0..<8]. r = rb * 8 + ri"
      using cover [of c 52] cover [of r 32] by simp_all
    then show "(False \<or> (\<exists>rb\<in>set [0..<32]. \<exists>ri\<in>set [0..<8]. \<exists>cb\<in>set [0..<52].
      \<exists>ci\<in>set [0..<8]. c = cb * 8 + ci \<and> r = rb * 8 + ri)) = True" by blast
  qed
  moreover have "cut_and_transpose input = Ok ?out"
    using assms by (simp only: cut_and_transpose_def ote_consts f_def) simp
  ultimately show ?thesis by blast
qed

text \<open>
  C40: \<open>cut_and_transpose\<close> turns 256 rows of at least 52 bytes into 416 rows of 32 bytes;
  bit \<open>i\<close> of output row \<open>j\<close> is bit \<open>j\<close> of input row \<open>i\<close>. Another number of rows is an error.
\<close>

theorem cut_and_transpose_correct:
  "(if length input = 256
    then \<exists>out. cut_and_transpose input = Ok out \<and> length out = 416 \<and>
       (\<forall>j<416. length (out ! j) = 32 \<and>
          (\<forall>i<256. bit (out ! j ! (i div 8)) (i mod 8) = bit (input ! i ! (j div 8)) (j mod 8)))
    else cut_and_transpose input = Err (ErrorOT ''Transpose input matrix has incorrect dimensions''))"
proof (cases "length input = 256")
  case True
  obtain out where "cut_and_transpose input = Ok out" and at: "transposed_at input (\<lambda>c r. True) out"
    using cut_and_transpose_at [OF True] by blast
  moreover have "bit (out ! j ! (i div 8)) (i mod 8) = bit (input ! i ! (j div 8)) (j mod 8)"
    if "j < 416" "i < 256" for i j
  proof -
    have "i div 8 < 32" "i div 8 * 8 + i mod 8 = i" using that(2) by (simp_all add: less_mult_imp_div_less)
    then show ?thesis using at that(1) unfolding transposed_at_def by (metis mod_less_divisor zero_less_numeral)
  qed
  ultimately show ?thesis using True by (auto simp: transposed_at_def)
qed (simp add: cut_and_transpose_def KAPPA_def)

section \<open>Seed expansion\<close>

lemma while_three:
  assumes "b s" "b (c s)" "b (c (c s))" "\<not> b (c (c (c s)))"
  shows "while b c s = c (c (c s))"
proof -
  have "while b c s = while b c (c s)" using assms(1) by (subst while_unfold) simp
  also have "\<dots> = while b c (c (c s))" using assms(2) by (subst while_unfold) simp
  also have "\<dots> = while b c (c (c (c s)))" using assms(3) by (subst while_unfold) simp
  also have "\<dots> = c (c (c s))" using assms(4) by (subst while_unfold) simp
  finally show ?thesis .
qed

lemma length_prg_chunk: "encodings_ok S \<Longrightarrow> length (prg_chunk S sid i c sd) = 32"
  by (simp add: prg_chunk_def length_tagged_hash)

text \<open>Three chunks of 32 bytes cover the 78 bytes; the two loops expand a seed alike.\<close>

lemma extend_seed_eq:
  assumes "encodings_ok S"
  shows "extend_seed S sid i sd =
     take 78 (prg_chunk S sid i 0 sd @ prg_chunk S sid i 1 sd @ prg_chunk S sid i 2 sd)"
proof -
  let ?c = "\<lambda>(prg, count). (prg @ prg_chunk S sid i count sd, count + 1)"
  have "while (\<lambda>(prg, count). length prg < EXTENDED_BATCH_SIZE div 8) ?c ([], 0) = ?c (?c (?c ([], 0)))"
    by (rule while_three) (simp_all add: ote_consts length_prg_chunk [OF assms])
  then show ?thesis by (simp add: extend_seed_def ote_consts numeral_2_eq_2)
qed

lemma extend_seed_pair_eq:
  assumes "encodings_ok S"
  shows "extend_seed_pair S sid i sd0 sd1 = (extend_seed S sid i sd0, extend_seed S sid i sd1)"
proof -
  let ?c = "\<lambda>(prg0, prg1, count). (prg0 @ prg_chunk S sid i count sd0, prg1 @ prg_chunk S sid i count sd1, count + 1)"
  have "while (\<lambda>(prg0, prg1, count). length prg0 < EXTENDED_BATCH_SIZE div 8) ?c ([], [], 0) = ?c (?c (?c ([], [], 0)))"
    by (rule while_three) (simp_all add: ote_consts length_prg_chunk [OF assms])
  then show ?thesis
    by (simp add: extend_seed_pair_def extend_seed_eq [OF assms] ote_consts numeral_2_eq_2)
qed

lemma length_extend_seed: "encodings_ok S \<Longrightarrow> length (extend_seed S sid i sd) = 78"
  by (simp add: extend_seed_eq length_prg_chunk)

section \<open>The consistency check\<close>

lemma length_ote_chi: "encodings_ok S \<Longrightarrow> length (ote_chi S sid l u) = 26"
  by (simp add: ote_chi_def length_tagged_hash ote_consts)

definition cval :: "bytes \<Rightarrow> bytes \<Rightarrow> bytes \<Rightarrow> bytes" where
  "cval chi1 chi2 row =
     map (\<lambda>k. fmul (take 26 row) chi1 ! k XOR fmul (take 26 (drop 26 row)) chi2 ! k XOR row ! (52 + k)) [0..<26]"

lemma check_value_eq:
  "length chi1 = 26 \<Longrightarrow> length chi2 = 26 \<Longrightarrow> length row = 78 \<Longrightarrow>
     check_value chi1 chi2 row = Ok (cval chi1 chi2 row)"
  by (simp add: check_value_def cval_def ote_consts field_mul_fmul)

lemma length_cval [simp]: "length (cval chi1 chi2 row) = 26"
  by (simp add: cval_def)

lemma cval_xor:
  assumes chi: "length chi1 = 26" "length chi2 = 26" and len: "length x = 78" "length y = 78"
  shows "cval chi1 chi2 (xor_n 78 x y) = xor_n 26 (cval chi1 chi2 x) (cval chi1 chi2 y)"
proof -
  have t: "take 26 (xor_n 78 x y) = xor_n 26 (take 26 x) (take 26 y)"
    "take 26 (drop 26 (xor_n 78 x y)) = xor_n 26 (take 26 (drop 26 x)) (take 26 (drop 26 y))"
    using len by (auto intro!: nth_equalityI)
  have "fmul (xor_n 26 (take 26 x) (take 26 y)) chi1 = xor_n 26 (fmul (take 26 x) chi1) (fmul (take 26 y) chi1)"
    "fmul (xor_n 26 (take 26 (drop 26 x)) (take 26 (drop 26 y))) chi2 =
      xor_n 26 (fmul (take 26 (drop 26 x)) chi2) (fmul (take 26 (drop 26 y)) chi2)"
    using chi len by (intro fmul_xor_left; simp)+
  then show ?thesis
    by (intro nth_equalityI) (simp_all add: cval_def t xor.assoc xor.left_commute)
qed

section \<open>An honest run\<close>

text \<open>The state the base OT leaves: the sender holds, of every pair of seeds, the one its bit chooses.\<close>

definition ote_paired :: "ote_sender \<Rightarrow> ote_receiver \<Rightarrow> bool" where
  "ote_paired s w \<longleftrightarrow>
     length (ote_correlation s) = KAPPA \<and> length (ote_seeds s) = KAPPA \<and>
     length (seeds0 w) = KAPPA \<and> length (seeds1 w) = KAPPA \<and>
     (\<forall>i<KAPPA. ote_seeds s ! i = (if ote_correlation s ! i then seeds1 w ! i else seeds0 w ! i))"

definition row_t :: "('f, 'g) suite \<Rightarrow> ote_receiver \<Rightarrow> bytes \<Rightarrow> nat \<Rightarrow> bytes" where
  "row_t S w sid i = extend_seed S sid i (seeds0 w ! i)"

definition matrix_u :: "('f, 'g) suite \<Rightarrow> ote_receiver \<Rightarrow> bytes \<Rightarrow> bytes \<Rightarrow> bytes list" where
  "matrix_u S w sid x = map (\<lambda>i. map (\<lambda>j. row_t S w sid i ! j XOR extend_seed S sid i (seeds1 w ! i) ! j XOR x ! j)
     [0..<78]) [0..<256]"

text \<open>The message an honest receiver sends for the packed choice bits \<open>x\<close>.\<close>

definition honest_ote_data :: "('f, 'g) suite \<Rightarrow> ote_receiver \<Rightarrow> bytes \<Rightarrow> bytes \<Rightarrow> ote_data_to_sender" where
  "honest_ote_data S w sid x =
     (let u = matrix_u S w sid x; c1 = ote_chi S sid ''chi1'' u; c2 = ote_chi S sid ''chi2'' u
      in \<lparr>ote_u = u, verify_x = cval c1 c2 x, verify_t = map (\<lambda>i. cval c1 c2 (row_t S w sid i)) [0..<256]\<rparr>)"

text \<open>The extended choice bits, packed: 78 bytes whose first 416 bits are the choice bits.\<close>

definition packs :: "bytes \<Rightarrow> bool list \<Rightarrow> bool" where
  "packs x bits \<longleftrightarrow> length x = 78 \<and> (\<forall>j<416. bit (x ! (j div 8)) (j mod 8) = bits ! j)"

lemma bit_compressed_bits:
  assumes "j < 8 * n"
  shows "bit (map (compressed_byte bits) [0..<n] ! (j div 8)) (j mod 8) = bits ! j"
proof -
  have "j div 8 < n" using assms by (simp add: less_mult_imp_div_less)
  moreover have "j div 8 * 8 + j mod 8 = j" by simp
  ultimately show ?thesis by (simp add: bit_compressed_byte)
qed

lemma ote_receiver_phase1_eq:
  assumes S: "encodings_ok S" and bits: "length bits = BATCH_SIZE"
    and w: "length (seeds0 w) = KAPPA" "length (seeds1 w) = KAPPA"
  obtains x r' where "packs x bits"
    and "ote_receiver_run_phase1 S w sid bits r =
      Ok ((map (row_t S w sid) [0..<256], honest_ote_data S w sid x), r')"
    and "rng_live r \<Longrightarrow> rng_live r'"
proof -
  obtain rb r' where rb: "draw_list (\<lambda>_. random_bool) [0..<OT_SECURITY] r = (rb, r')" by fastforce
  have live: "rng_live r \<Longrightarrow> rng_live (snd (draw_list (\<lambda>_. random_bool) xs r))" for xs :: "nat list" and r :: "'a rng"
  proof (induction xs arbitrary: r)
    case (Cons y ys)
    then show ?case using Cons.IH [of "snd (random_bool r)"] by (simp add: split_def Let_def)
  qed simp
  let ?x = "map (compressed_byte (bits @ rb)) [0..<78]"
  have packs: "packs ?x bits"
  proof -
    have "bit (?x ! (j div 8)) (j mod 8) = bits ! j" if "j < 416" for j
    proof -
      have "bit (?x ! (j div 8)) (j mod 8) = (bits @ rb) ! j" by (rule bit_compressed_bits) (use that in simp)
      then show ?thesis using that bits by (simp add: nth_append ote_consts)
    qed
    then show ?thesis by (simp add: packs_def)
  qed
  let ?u = "matrix_u S w sid ?x"
  let ?c1 = "ote_chi S sid ''chi1'' ?u" and ?c2 = "ote_chi S sid ''chi2'' ?u"
  have ext: "map (\<lambda>i. extend_seed_pair S sid i (seeds0 w ! i) (seeds1 w ! i)) [0..<KAPPA] =
      map (\<lambda>i. (row_t S w sid i, extend_seed S sid i (seeds1 w ! i))) [0..<256]"
    by (simp only: extend_seed_pair_eq [OF S] row_t_def KAPPA_def)
  have xe: "map (compressed_byte (bits @ rb)) [0..<EXTENDED_BATCH_SIZE div 8] = ?x"
    by (simp add: ote_consts)
  have u: "map (\<lambda>i. map (\<lambda>j. map fst (map (\<lambda>i. (row_t S w sid i, extend_seed S sid i (seeds1 w ! i))) [0..<256]) ! i ! j XOR
      map snd (map (\<lambda>i. (row_t S w sid i, extend_seed S sid i (seeds1 w ! i))) [0..<256]) ! i ! j XOR ?x ! j)
      [0..<EXTENDED_BATCH_SIZE div 8]) [0..<KAPPA] = ?u"
    unfolding matrix_u_def by (rule nth_equalityI) (simp_all add: ote_consts)
  have chi: "length ?c1 = 26" "length ?c2 = 26" using length_ote_chi [OF S] by blast+
  have row: "length (row_t S w sid i) = 78" for i by (simp add: row_t_def length_extend_seed [OF S])
  have x: "check_value ?c1 ?c2 ?x = Ok (cval ?c1 ?c2 ?x)"
    by (rule check_value_eq [OF chi]) simp
  have t: "collect_try (\<lambda>i. check_value ?c1 ?c2 (map fst (map (\<lambda>i. (row_t S w sid i, extend_seed S sid i (seeds1 w ! i)))
      [0..<256]) ! i)) [0..<KAPPA] = Ok (map (\<lambda>i. cval ?c1 ?c2 (row_t S w sid i)) [0..<256])"
    unfolding KAPPA_def by (rule collect_try_total) (simp add: check_value_eq [OF chi row])
  have "ote_receiver_run_phase1 S w sid bits r = Ok ((map (row_t S w sid) [0..<256],
      \<lparr>ote_u = ?u, verify_x = cval ?c1 ?c2 ?x, verify_t = map (\<lambda>i. cval ?c1 ?c2 (row_t S w sid i)) [0..<256]\<rparr>), r')"
    using bits w x t unfolding ote_receiver_run_phase1_def Let_def rb ext prod.case xe u
    by (simp add: ote_consts comp_def)
  then show ?thesis using that packs live [of r "[0..<OT_SECURITY]"] rb by (simp add: honest_ote_data_def Let_def)
qed

lemma length_row_t: "encodings_ok S \<Longrightarrow> length (row_t S w sid i) = 78"
  by (simp add: row_t_def length_extend_seed)

lemma ote_sender_q_eq:
  assumes S: "encodings_ok S" and p: "ote_paired s w" and x: "length x = 78"
  shows "ote_sender_q S s sid (matrix_u S w sid x) =
     map (\<lambda>i. if ote_correlation s ! i then xor_n 78 (row_t S w sid i) x else row_t S w sid i) [0..<256]"
proof (rule nth_equalityI)
  fix i
  assume "i < length (ote_sender_q S s sid (matrix_u S w sid x))"
  then have i: "i < 256" by (simp add: ote_sender_q_def ote_consts)
  have seed: "ote_seeds s ! i = (if ote_correlation s ! i then seeds1 w ! i else seeds0 w ! i)"
    using p i by (simp add: ote_paired_def KAPPA_def)
  show "ote_sender_q S s sid (matrix_u S w sid x) ! i =
      map (\<lambda>i. if ote_correlation s ! i then xor_n 78 (row_t S w sid i) x else row_t S w sid i) [0..<256] ! i"
  proof (rule nth_equalityI)
    show "length (ote_sender_q S s sid (matrix_u S w sid x) ! i) =
        length (map (\<lambda>i. if ote_correlation s ! i then xor_n 78 (row_t S w sid i) x else row_t S w sid i) [0..<256] ! i)"
      using i by (simp add: ote_sender_q_def ote_consts length_row_t [OF S])
    fix j
    assume "j < length (ote_sender_q S s sid (matrix_u S w sid x) ! i)"
    then have j: "j < 78" using i by (simp add: ote_sender_q_def ote_consts)
    show "ote_sender_q S s sid (matrix_u S w sid x) ! i ! j =
        map (\<lambda>i. if ote_correlation s ! i then xor_n 78 (row_t S w sid i) x else row_t S w sid i) [0..<256] ! i ! j"
      using i j seed
      by (simp add: ote_sender_q_def ote_consts matrix_u_def row_t_def xor.assoc xor.commute xor.left_commute)
  qed
qed (simp add: ote_sender_q_def ote_consts)

lemma transposed_rows:
  assumes S: "encodings_ok S" and x: "packs x bits" and c: "length cs = 256"
    and tt: "transposed_at (map (row_t S w sid) [0..<256]) (\<lambda>c r. True) tt"
    and tq: "transposed_at (map (\<lambda>i. if cs ! i then xor_n 78 (row_t S w sid i) x else row_t S w sid i) [0..<256])
       (\<lambda>c r. True) tq"
    and j: "j < 416"
  shows "tq ! j = (if bits ! j then xor_n 32 (tt ! j) (map (compressed_byte cs) [0..<32]) else tt ! j)"
proof (rule nth_equalityI)
  have len: "length (tq ! j) = 32" "length (tt ! j) = 32" using tt tq j by (auto simp: transposed_at_def)
  then show "length (tq ! j) = length (if bits ! j then xor_n 32 (tt ! j) (map (compressed_byte cs) [0..<32]) else tt ! j)"
    by simp
  fix b
  assume "b < length (tq ! j)"
  then have b: "b < 32" using len by simp
  show "tq ! j ! b = (if bits ! j then xor_n 32 (tt ! j) (map (compressed_byte cs) [0..<32]) else tt ! j) ! b"
  proof (rule u8_eqI)
    fix m :: nat
    assume m: "m < 8"
    then have i: "b * 8 + m < 256" using b by linarith
    have jd: "j div 8 < 78" using j by (simp add: less_mult_imp_div_less)
    have "bit (tq ! j ! b) m = (bit (tt ! j ! b) m \<noteq> (cs ! (b * 8 + m) \<and> bits ! j))"
      using tt tq j b m i jd x unfolding transposed_at_def packs_def
      by (simp add: bit_xor_iff)
    then show "bit (tq ! j ! b) m = bit ((if bits ! j then xor_n 32 (tt ! j) (map (compressed_byte cs) [0..<32]) else tt ! j) ! b) m"
      using b m by (simp add: bit_xor_iff bit_compressed_byte)
  qed
qed

lemma check_rows:
  assumes S: "encodings_ok S" and chi: "length c1 = 26" "length c2 = 26" and x: "length x = 78"
  shows "check_value c1 c2 (if b i then xor_n 78 (row_t S w sid i) x else row_t S w sid i) = Ok (map (\<lambda>k. cval c1 c2 (row_t S w sid i) ! k XOR
     bit_times (b i) (cval c1 c2 x ! k)) [0..<26])"
proof -
  define q where "q = (\<lambda>i. if b i then xor_n 78 (row_t S w sid i) x else row_t S w sid i)"
  have "length (q i) = 78" by (simp add: q_def length_row_t [OF S])
  then have "check_value c1 c2 (q i) = Ok (cval c1 c2 (q i))" by (rule check_value_eq [OF chi])
  moreover have "cval c1 c2 (q i) = map (\<lambda>k. cval c1 c2 (row_t S w sid i) ! k XOR bit_times (b i) (cval c1 c2 x ! k)) [0..<26]"
  proof (cases "b i")
    case True
    then show ?thesis using cval_xor [OF chi length_row_t [OF S] x, of w sid i]
      by (simp add: q_def xor_n_def)
  next
    case False
    then show ?thesis by (intro nth_equalityI) (simp_all add: q_def)
  qed
  ultimately show ?thesis by (simp add: q_def)
qed

lemma xor_list_32: "map (\<lambda>i. a ! i XOR b ! i) [0..<32] = xor_n 32 a b"
  by (simp add: xor_n_def)

lemma ote_run:
  assumes S: "encodings_ok S" and p: "ote_paired s w"
    and phase1: "ote_receiver_run_phase1 S w sid bits r = Ok ((x, d), r')"
    and bits: "length bits = BATCH_SIZE"
    and corrs: "length corrs = unat width" "\<forall>c\<in>set corrs. length c = BATCH_SIZE"
  shows "\<exists>v0 tau tb. ote_sender_run S s sid width corrs d = Ok (v0, tau) \<and>
     ote_receiver_run_phase2 S sid width bits x tau = Ok tb \<and>
     length v0 = unat width \<and> length tb = unat width \<and>
     (\<forall>k<unat width. length (v0 ! k) = BATCH_SIZE \<and> length (tb ! k) = BATCH_SIZE \<and>
        (\<forall>j<BATCH_SIZE. tb ! k ! j + v0 ! k ! j = (if bits ! j then corrs ! k ! j else 0)))"
proof -
  have w: "length (seeds0 w) = KAPPA" "length (seeds1 w) = KAPPA" and cs: "length (ote_correlation s) = 256"
    and sd: "length (ote_seeds s) = KAPPA"
    using p by (simp_all add: ote_paired_def KAPPA_def)
  obtain X r2 where X: "packs X bits" and run: "ote_receiver_run_phase1 S w sid bits r =
      Ok ((map (row_t S w sid) [0..<256], honest_ote_data S w sid X), r2)"
    by (rule ote_receiver_phase1_eq [OF S bits w], rule that)
  have x: "x = map (row_t S w sid) [0..<256]" and dd: "d = honest_ote_data S w sid X"
    using phase1 unfolding run by simp_all
  have d: "ote_u d = matrix_u S w sid X"
      "verify_x d = cval (ote_chi S sid ''chi1'' (matrix_u S w sid X)) (ote_chi S sid ''chi2'' (matrix_u S w sid X)) X"
      "verify_t d = map (\<lambda>i. cval (ote_chi S sid ''chi1'' (matrix_u S w sid X)) (ote_chi S sid ''chi2'' (matrix_u S w sid X))
                        (row_t S w sid i)) [0..<256]"
    unfolding dd honest_ote_data_def Let_def by simp_all
  let ?c1 = "ote_chi S sid ''chi1'' (ote_u d)" and ?c2 = "ote_chi S sid ''chi2'' (ote_u d)"
  have X78: "length X = 78" using X by (simp add: packs_def)
  have chi: "length ?c1 = 26" "length ?c2 = 26" using length_ote_chi [OF S] by blast+
  let ?q = "map (\<lambda>i. if ote_correlation s ! i then xor_n 78 (row_t S w sid i) X else row_t S w sid i) [0..<256]"
  have q: "ote_sender_q S s sid (ote_u d) = ?q" unfolding d(1) by (rule ote_sender_q_eq [OF S p X78])
  let ?vs = "map (\<lambda>i. map (\<lambda>k. verify_t d ! i ! k XOR bit_times (ote_correlation s ! i) (verify_x d ! k)) [0..<26]) [0..<256]"
  have vq: "collect_try (\<lambda>i. check_value ?c1 ?c2 (?q ! i)) [0..<256] = Ok ?vs"
  proof (rule collect_try_total)
    fix i
    assume "i \<in> set [0..<256::nat]"
    then have i: "i < 256" by simp
    then show "check_value ?c1 ?c2 (?q ! i) =
        Ok (map (\<lambda>k. verify_t d ! i ! k XOR bit_times (ote_correlation s ! i) (verify_x d ! k)) [0..<26])"
      using check_rows [OF S chi X78, where b = "\<lambda>i. ote_correlation s ! i" and w = w and sid = sid and i = i]
      by (cases "ote_correlation s ! i") (simp_all add: d)
  qed
  obtain tt where tt: "cut_and_transpose x = Ok tt" "transposed_at x (\<lambda>c r. True) tt"
    using cut_and_transpose_at [of x] by (auto simp: x)
  obtain tq where tq: "cut_and_transpose ?q = Ok tq" "transposed_at ?q (\<lambda>c r. True) tq"
    using cut_and_transpose_at [of ?q] by auto
  let ?cc = "map (compressed_byte (ote_correlation s)) [0..<32]"
  have rows: "tq ! j = (if bits ! j then xor_n 32 (tt ! j) ?cc else tt ! j)" "length (tt ! j) = 32" if "j < 416" for j
    using transposed_rows [OF S X cs tt(2) [unfolded x] tq(2) that] tt(2) that by (auto simp: transposed_at_def)
  let ?rnd = "\<lambda>rows k j. ote_randomize S sid j k (rows j) :: 'a"
  let ?out = "map (\<lambda>k. map (\<lambda>j. ?rnd ((!) tq) k j) [0..<416]) [0..<unat width]"
  let ?alt = "map (\<lambda>k. map (\<lambda>j. ?rnd (\<lambda>j. xor_n 32 (tq ! j) ?cc) k j) [0..<416]) [0..<unat width]"
  let ?tau = "map (\<lambda>k. map (\<lambda>j. ?alt ! k ! j - ?out ! k ! j + corrs ! k ! j) [0..<416]) [0..<unat width]"
  let ?tb = "map (\<lambda>k. map (\<lambda>j. let t = - (map (\<lambda>k. map (\<lambda>j. ?rnd ((!) tt) k j) [0..<416]) [0..<unat width] ! k ! j)
      in if bits ! j then ?tau ! k ! j + t else t) [0..<416]) [0..<unat width]"
  have zip: "list_all (\<lambda>(a, b). a = b) (zip ?vs ?vs)" by (auto simp: list_all_iff zip_same_conv_map)
  have dims: "list_all (\<lambda>c. length c = BATCH_SIZE) corrs" "length (ote_u d) = 256" "length (verify_t d) = 256"
    using corrs(2) by (simp_all add: list_all_iff d matrix_u_def)
  have send: "ote_sender_run S s sid width corrs d = Ok (?out, ?tau)"
    unfolding ote_sender_run_def Let_def q
    using corrs(1) dims cs sd vq zip tq(1) by (simp add: ote_consts xor_list_32 del: upt_Suc)
  have recv: "ote_receiver_run_phase2 S sid width bits x ?tau = Ok ?tb"
    unfolding ote_receiver_run_phase2_def
    using bits tt(1) by (simp add: ote_consts x list_all_iff Let_def)
  have "?tb ! k ! j + ?out ! k ! j = (if bits ! j then corrs ! k ! j else 0)" if "k < unat width" "j < 416" for k j
    using that rows [OF that(2)] by (simp add: Let_def xor_n_self_cancel)
  then show ?thesis using send recv by (intro exI [of _ ?out] exI [of _ ?tau] exI [of _ ?tb]) (simp add: BATCH_SIZE_def)
qed

section \<open>The contract\<close>

text \<open>
  What the multiplication protocol uses: for correlations of the right shape the two outputs
  add up, entry by entry, to the chosen correlations.
\<close>

locale correlated_ot =
  fixes paired :: "'s \<Rightarrow> 'w \<Rightarrow> bool"
    and recv1 :: "'w \<Rightarrow> 'i \<Rightarrow> bool list \<Rightarrow> 'r \<Rightarrow> ('e, ('x \<times> 'd) \<times> 'r) outcome"
    and send :: "'s \<Rightarrow> 'i \<Rightarrow> u8 \<Rightarrow> 'f::field list list \<Rightarrow> 'd \<Rightarrow> ('e, 'f list list \<times> 'f list list) outcome"
    and recv2 :: "'i \<Rightarrow> u8 \<Rightarrow> bool list \<Rightarrow> 'x \<Rightarrow> 'f list list \<Rightarrow> ('e, 'f list list) outcome"
    and n :: nat
  assumes total: "paired s w \<Longrightarrow> length bits = n \<Longrightarrow> \<exists>x d r'. recv1 w i bits r = Ok ((x, d), r')"
    and correlated: "paired s w \<Longrightarrow> recv1 w i bits r = Ok ((x, d), r') \<Longrightarrow> length bits = n \<Longrightarrow>
      length corrs = unat width \<Longrightarrow> \<forall>c\<in>set corrs. length c = n \<Longrightarrow>
      \<exists>v0 tau tb. send s i width corrs d = Ok (v0, tau) \<and> recv2 i width bits x tau = Ok tb \<and>
        length v0 = unat width \<and> length tb = unat width \<and>
        (\<forall>k<unat width. length (v0 ! k) = n \<and> length (tb ! k) = n \<and>
           (\<forall>j<n. tb ! k ! j + v0 ! k ! j = (if bits ! j then corrs ! k ! j else 0)))"
begin

text \<open>The weighted sums of the outputs, for constant correlations, share a product.\<close>

lemma weighted:
  assumes p: "paired s w" and r1: "recv1 w i bits r = Ok ((x, d), r')" and bits: "length bits = n"
    and const: "length as = unat width"
  shows "\<exists>v0 tau tb. send s i width (map (replicate n) as) d = Ok (v0, tau) \<and> recv2 i width bits x tau = Ok tb \<and>
     length v0 = unat width \<and> length tb = unat width \<and>
     (\<forall>k<unat width. \<forall>g. (\<Sum>j<n. g j * tb ! k ! j) + (\<Sum>j<n. g j * v0 ! k ! j) =
        as ! k * (\<Sum>j<n. if bits ! j then g j else 0)) \<and>
     (\<forall>k<unat width. \<forall>j<n. tb ! k ! j + v0 ! k ! j = (if bits ! j then as ! k else 0))"
proof -
  have shape: "length (map (replicate n) as) = unat width" "\<forall>c\<in>set (map (replicate n) as). length c = n"
    using const by auto
  obtain v0 tau tb where run: "send s i width (map (replicate n) as) d = Ok (v0, tau)"
    "recv2 i width bits x tau = Ok tb" "length v0 = unat width" "length tb = unat width"
    and eq: "\<forall>k<unat width. length (v0 ! k) = n \<and> length (tb ! k) = n \<and>
       (\<forall>j<n. tb ! k ! j + v0 ! k ! j = (if bits ! j then map (replicate n) as ! k ! j else 0))"
    using correlated [OF p r1 bits shape] by blast
  have pt: "tb ! k ! j + v0 ! k ! j = (if bits ! j then as ! k else 0)" if "k < unat width" "j < n" for k j
    using eq that const by simp
  have "(\<Sum>j<n. g j * tb ! k ! j) + (\<Sum>j<n. g j * v0 ! k ! j) = as ! k * (\<Sum>j<n. if bits ! j then g j else 0)"
    if k: "k < unat width" for k g
  proof -
    have "(\<Sum>j<n. g j * tb ! k ! j) + (\<Sum>j<n. g j * v0 ! k ! j) = (\<Sum>j<n. g j * (tb ! k ! j + v0 ! k ! j))"
      by (simp only: sum.distrib [symmetric] distrib_left)
    also have "\<dots> = (\<Sum>j<n. as ! k * (if bits ! j then g j else 0))"
      by (rule sum.cong) (auto simp: pt [OF k] mult.commute)
    finally show ?thesis by (simp only: sum_distrib_left)
  qed
  with run pt show ?thesis by blast
qed

end

interpretation ote: correlated_ot
  where paired = "\<lambda>s w. encodings_ok S \<and> ote_paired s w"
    and recv1 = "ote_receiver_run_phase1 S"
    and send = "ote_sender_run S"
    and recv2 = "ote_receiver_run_phase2 S"
    and n = BATCH_SIZE
  for S :: "('f::field, 'g::ab_group_add) suite"
proof unfold_locales
  show "\<exists>x d r'. ote_receiver_run_phase1 S w i bits r = Ok ((x, d), r')"
    if "encodings_ok S \<and> ote_paired s w" "length bits = BATCH_SIZE" for s w i bits r
    using that ote_receiver_phase1_eq [of S bits w i r] unfolding ote_paired_def by metis
qed (use ote_run in blast)

text \<open>
  C12: an honest extension run is accepted, and for every iteration and position the outputs of
  sender and receiver add up to the sender's correlation if the choice bit is set and to 0
  otherwise.
\<close>

theorem ote_correct:
  assumes "suite_ok S" and "ote_paired s w"
    and "ote_receiver_run_phase1 S w sid bits r = Ok ((x, d), r')" and "length bits = BATCH_SIZE"
    and "length corrs = unat width" and "\<forall>c\<in>set corrs. length c = BATCH_SIZE"
  shows "\<exists>v0 tau tb. ote_sender_run S s sid width corrs d = Ok (v0, tau) \<and>
     ote_receiver_run_phase2 S sid width bits x tau = Ok tb \<and>
     (\<forall>k<unat width. \<forall>j<BATCH_SIZE. tb ! k ! j + v0 ! k ! j = (if bits ! j then corrs ! k ! j else 0))"
proof -
  have "encodings_ok S \<and> ote_paired s w" using assms(1,2) suite_okD(2) by blast
  from ote.correlated [OF this assms(3-6)] show ?thesis by blast
qed

section \<open>Refusals\<close>

text \<open>
  The sender refuses every message of the wrong shape, and one whose consistency values
  do not match; what it accepts has passed every one of these checks.
\<close>

theorem ote_sender_accepts:
  assumes "ote_sender_run S s sid width corrs d = Ok out"
  shows "length corrs = unat width \<and> (\<forall>c\<in>set corrs. length c = BATCH_SIZE) \<and>
     length (ote_u d) = KAPPA \<and> length (verify_t d) = KAPPA \<and>
     (\<forall>i<KAPPA. check_value (ote_chi S sid ''chi1'' (ote_u d)) (ote_chi S sid ''chi2'' (ote_u d))
          (ote_sender_q S s sid (ote_u d) ! i) =
        Ok (map (\<lambda>k. verify_t d ! i ! k XOR bit_times (ote_correlation s ! i) (verify_x d ! k))
              [0..<OT_SECURITY div 8]))"
proof -
  let ?c = "\<lambda>i. check_value (ote_chi S sid ''chi1'' (ote_u d)) (ote_chi S sid ''chi2'' (ote_u d))
          (ote_sender_q S s sid (ote_u d) ! i)"
  let ?v = "\<lambda>i. map (\<lambda>k. verify_t d ! i ! k XOR bit_times (ote_correlation s ! i) (verify_x d ! k))
              [0..<OT_SECURITY div 8]"
  from assms obtain vq where dims: "length corrs = unat width" "list_all (\<lambda>c. length c = BATCH_SIZE) corrs"
      "length (ote_u d) = KAPPA" "length (verify_t d) = KAPPA"
    and vq: "collect_try ?c [0..<KAPPA] = Ok vq"
    and eq: "list_all (\<lambda>(a, b). a = b) (zip vq (map ?v [0..<KAPPA]))"
    unfolding ote_sender_run_def Let_def by (auto simp only: and_then_eq_Ok_iff split: if_splits) 
  have "?c i = Ok (?v i)" if "i < KAPPA" for i
  proof -
    have all2: "list_all2 (\<lambda>i y. ?c i = Ok y) [0..<KAPPA] vq" using vq by (simp only: collect_try_eq_Ok_iff)
    then have len: "length vq = KAPPA" by (simp add: list_all2_lengthD [symmetric])
    have "?c i = Ok (vq ! i)" using list_all2_nthD [OF all2, of i] that by simp
    moreover have "(vq ! i, ?v i) \<in> set (zip vq (map ?v [0..<KAPPA]))"
      using that len by (auto simp: set_zip intro!: exI [where x = i])
    ultimately show ?thesis using eq by (auto simp: list_all_iff)
  qed
  with dims show ?thesis by (simp add: list_all_iff)
qed

end
