(* ===== verification/Multiplication.thy ===== *)
theory Multiplication
  imports OTExtension
begin

text \<open>
  Two-party multiplication on top of the OT extension (\<open>utilities/multiplication.rs\<close>):
  initialisation with the public gadget, the sender's run, the receiver's two phases with
  the consistency check. Shown: the outputs of an honest run add up to the product of the
  sender's inputs with the receiver's random factor, which is the contract
  \<open>two_party_multiplication\<close> signing relies on, and the check accepts nothing but
  outputs whose hash it has recomputed.
\<close>

section \<open>State\<close>

definition mul_L :: nat where "mul_L = 2"
definition OT_WIDTH :: u8 where "OT_WIDTH = 4"

datatype error_mul = ErrorMul string

record 'f mul_sender =
  sender_gadget :: "'f list"
  mul_ote_sender :: ote_sender

record 'f mul_receiver =
  receiver_gadget :: "'f list"
  mul_ote_receiver :: ote_receiver

record 'f mul_data_to_receiver =
  vector_of_tau :: "'f list list"
  verify_r :: bytes
  verify_u :: "'f list"
  gamma_sender :: "'f list"

record 'f mul_data_to_keep_receiver =
  mul_b :: 'f
  mul_choice_bits :: "bool list"
  mul_extended_seeds :: "bytes list"
  chi_tilde :: "'f list"
  chi_hat :: "'f list"

text \<open>\<open>format!("OTE error during multiplication: {:?}", error.description)\<close>\<close>

fun ote_error :: "error_ot \<Rightarrow> error_mul" where
  "ote_error (ErrorOT d) =
     ErrorMul (''OTE error during multiplication: '' @ [CHR 0x22] @ d @ [CHR 0x22])"

definition ote_sid :: "bytes \<Rightarrow> bytes" where
  "ote_sid session_id = bytes_of ''OT Extension protocol'' @ session_id"

section \<open>Initialisation\<close>

text \<open>One scalar per position, hashed from a counter that starts after the nonce.\<close>

definition public_gadget :: "('f::field, 'g) suite \<Rightarrow> bytes \<Rightarrow> 'f \<Rightarrow> 'f list" where
  "public_gadget S session_id nonce =
     snd (fold (\<lambda>_ (counter, gadget).
            let counter' = counter + 1
            in (counter', gadget @ [tagged_hash_as_scalar S TAG_MUL_GADGET [session_id, scalar_to_bytes S counter']]))
          [0..<BATCH_SIZE] (nonce, []))"

definition mul_sender_init_phase1 ::
  "('f::field, 'g::ab_group_add) suite \<Rightarrow> bytes \<Rightarrow> 'f rng
   \<Rightarrow> ('e, (ot_receiver \<times> bool list \<times> 'f list \<times> ('f, 'g) enc_proof list) \<times> 'f rng) outcome" where
  "mul_sender_init_phase1 S session_id r = ote_sender_init_phase1 S session_id r"

definition mul_sender_init_phase2 ::
  "('f::field, 'g::ab_group_add) suite \<Rightarrow> bytes \<Rightarrow> bool list \<Rightarrow> 'f list \<Rightarrow> ('f, 'g) dlog_proof \<Rightarrow> 'f
   \<Rightarrow> (error_ot, 'f mul_sender) outcome" where
  "mul_sender_init_phase2 S session_id correlation vec_r pf nonce =
     and_then (ote_sender_init_phase2 S session_id correlation vec_r pf) (\<lambda>s.
       Ok \<lparr>sender_gadget = public_gadget S session_id nonce, mul_ote_sender = s\<rparr>)"

definition mul_receiver_init_phase1 ::
  "('f::field, 'g) suite \<Rightarrow> bytes \<Rightarrow> 'f rng
   \<Rightarrow> ('e, (('f, 'g) ot_sender \<times> ('f, 'g) dlog_proof \<times> 'f) \<times> 'f rng) outcome" where
  "mul_receiver_init_phase1 S session_id r =
     and_then (ote_receiver_init_phase1 S session_id r) (\<lambda>((sndr, pf), r1).
       let (nonce, r2) = random_scalar r1 in Ok ((sndr, pf, nonce), r2))"

definition mul_receiver_init_phase2 ::
  "('f::field, 'g::ab_group_add) suite \<Rightarrow> ('f, 'g) ot_sender \<Rightarrow> bytes \<Rightarrow> bytes \<Rightarrow> ('f, 'g) enc_proof list \<Rightarrow> 'f
   \<Rightarrow> (error_ot, 'f mul_receiver) outcome" where
  "mul_receiver_init_phase2 S sndr session_id sd enc_proofs nonce =
     and_then (ote_receiver_init_phase2 S sndr session_id sd enc_proofs) (\<lambda>w.
       Ok \<lparr>receiver_gadget = public_gadget S session_id nonce, mul_ote_receiver = w\<rparr>)"

section \<open>The protocol\<close>

definition mul_transcript :: "ote_data_to_sender \<Rightarrow> bytes" where
  "mul_transcript data = concat [concat (ote_u data), verify_x data, concat (verify_t data)]"

definition mul_chi :: "('f, 'g) suite \<Rightarrow> bytes \<Rightarrow> bytes \<Rightarrow> ote_data_to_sender \<Rightarrow> 'f list" where
  "mul_chi S tag session_id data =
     map (\<lambda>i. tagged_hash_as_scalar S tag [session_id, [of_nat i], mul_transcript data]) [0..<mul_L]"

text \<open>The hash of the matrix \<open>r\<close>, given its entries.\<close>

definition mul_verify_hash :: "('f, 'g) suite \<Rightarrow> bytes \<Rightarrow> (nat \<Rightarrow> nat \<Rightarrow> 'f) \<Rightarrow> bytes" where
  "mul_verify_hash S session_id entry =
     tagged_hash S TAG_MUL_VERIFY [session_id,
       concat (map (\<lambda>i. concat (map (\<lambda>j. scalar_to_bytes S (entry i j)) [0..<BATCH_SIZE])) [0..<mul_L])]"

definition gadget_sum :: "'f::field list \<Rightarrow> 'f list \<Rightarrow> 'f" where
  "gadget_sum gadget z = foldl (\<lambda>summation j. summation + gadget ! j * z ! j) 0 [0..<BATCH_SIZE]"

text \<open>
  The sender. The inputs and the gadget are slices the code indexes up to \<open>L\<close> and
  \<open>BATCH_SIZE\<close>; a shorter one is a panic.
\<close>

definition mul_pads :: "'f rng \<Rightarrow> ('f \<times> 'f) list \<times> 'f rng" where
  "mul_pads r =
     draw_list (\<lambda>_ r. let (t, ra) = random_scalar r; (h, rb) = random_scalar ra in ((t, h), rb)) [0..<mul_L] r"

definition mul_sender_run ::
  "('f::field, 'g) suite \<Rightarrow> 'f mul_sender \<Rightarrow> bytes \<Rightarrow> 'f list \<Rightarrow> ote_data_to_sender \<Rightarrow> 'f rng
   \<Rightarrow> (error_mul, ('f list \<times> 'f mul_data_to_receiver) \<times> 'f rng) outcome" where
  "mul_sender_run S s session_id input data r =
     (let (pads, r1) = mul_pads r;
          a_tilde = map fst pads; a_hat = map snd pads;
          correlations = map (replicate BATCH_SIZE) a_tilde @ map (replicate BATCH_SIZE) a_hat in
      and_then (map_err ote_error (ote_sender_run S (mul_ote_sender s) (ote_sid session_id) OT_WIDTH correlations data))
        (\<lambda>(ot_outputs, tau).
      let z_tilde = take mul_L ot_outputs; z_hat = drop mul_L ot_outputs;
          ct = mul_chi S TAG_MUL_CHI_TILDE session_id data;
          ch = mul_chi S TAG_MUL_CHI_HAT session_id data;
          vr = mul_verify_hash S session_id (\<lambda>i j. ct ! i * z_tilde ! i ! j + ch ! i * z_hat ! i ! j);
          vu = map (\<lambda>i. ct ! i * a_tilde ! i + ch ! i * a_hat ! i) [0..<mul_L] in
      if length input < mul_L \<or> length (sender_gadget s) < BATCH_SIZE then Panic
      else let gamma = map (\<lambda>i. input ! i - a_tilde ! i) [0..<mul_L];
               out = map (\<lambda>i. gadget_sum (sender_gadget s) (z_tilde ! i)) [0..<mul_L]
           in Ok ((out, \<lparr>vector_of_tau = tau, verify_r = vr, verify_u = vu, gamma_sender = gamma\<rparr>), r1)))"

text \<open>Step 1 of the receiver: every set choice bit adds its gadget entry to \<open>b\<close>.\<close>

definition mul_choice_step ::
  "'f::field list \<Rightarrow> ('f \<times> bool list) \<times> 'f rng \<Rightarrow> nat \<Rightarrow> ('e, ('f \<times> bool list) \<times> 'f rng) outcome" where
  "mul_choice_step gadget st i =
     (let ((b, bits), r) = st; (current_bit, r1) = random_bool r in
      if current_bit then and_then (index gadget i) (\<lambda>g. Ok ((b + g, bits @ [current_bit]), r1))
      else Ok ((b, bits @ [current_bit]), r1))"

definition mul_choice :: "'f::field list \<Rightarrow> 'f rng \<Rightarrow> ('e, ('f \<times> bool list) \<times> 'f rng) outcome" where
  "mul_choice gadget r = each (mul_choice_step gadget) ((0, []), r) [0..<BATCH_SIZE]"

definition mul_receiver_run_phase1 ::
  "('f::field, 'g) suite \<Rightarrow> 'f mul_receiver \<Rightarrow> bytes \<Rightarrow> 'f rng
   \<Rightarrow> (error_mul, ('f \<times> 'f mul_data_to_keep_receiver \<times> ote_data_to_sender) \<times> 'f rng) outcome" where
  "mul_receiver_run_phase1 S w session_id r =
     and_then (mul_choice (receiver_gadget w) r) (\<lambda>((b, choice_bits), r1).
     and_then (map_err ote_error (ote_receiver_run_phase1 S (mul_ote_receiver w) (ote_sid session_id) choice_bits r1))
       (\<lambda>((extended_seeds, data_to_sender), r2).
     Ok ((b, \<lparr>mul_b = b, mul_choice_bits = choice_bits, mul_extended_seeds = extended_seeds,
              chi_tilde = mul_chi S TAG_MUL_CHI_TILDE session_id data_to_sender,
              chi_hat = mul_chi S TAG_MUL_CHI_HAT session_id data_to_sender\<rparr>, data_to_sender), r2)))"

definition mul_receiver_run_phase2 ::
  "('f::field, 'g) suite \<Rightarrow> 'f mul_receiver \<Rightarrow> bytes \<Rightarrow> 'f mul_data_to_keep_receiver \<Rightarrow> 'f mul_data_to_receiver
   \<Rightarrow> (error_mul, 'f list) outcome" where
  "mul_receiver_run_phase2 S w session_id kept received =
     (if length (verify_u received) \<noteq> mul_L \<or> length (gamma_sender received) \<noteq> mul_L
      then Err (ErrorMul ''Received data has incorrect dimensions'')
      else
      and_then (map_err ote_error (ote_receiver_run_phase2 S (ote_sid session_id) OT_WIDTH
                  (mul_choice_bits kept) (mul_extended_seeds kept) (vector_of_tau received))) (\<lambda>ot_outputs.
      let z_tilde = take mul_L ot_outputs; z_hat = drop mul_L ot_outputs;
          expected_verify_r = mul_verify_hash S session_id (\<lambda>i j.
            let entry = - (chi_tilde kept ! i * z_tilde ! i ! j) - chi_hat kept ! i * z_hat ! i ! j
            in if mul_choice_bits kept ! j then entry + verify_u received ! i else entry) in
      if verify_r received \<noteq> expected_verify_r
      then Err (ErrorMul ''Sender cheated in multiplication protocol: Consistency check failed!'')
      else if length (receiver_gadget w) < BATCH_SIZE then Panic
      else Ok (map (\<lambda>i. mul_b kept * gamma_sender received ! i + gadget_sum (receiver_gadget w) (z_tilde ! i))
                 [0..<mul_L])))"

section \<open>Correctness\<close>

lemma gadget_sum_eq: "gadget_sum gadget z = (\<Sum>j<BATCH_SIZE. gadget ! j * z ! j)"
proof -
  have "foldl (\<lambda>summation j. summation + gadget ! j * z ! j) a [0..<n] = a + (\<Sum>j<n. gadget ! j * z ! j)" for a n
    by (induction n) (simp_all add: add.assoc)
  then show ?thesis by (simp add: gadget_sum_def)
qed

lemma public_gadget_eq:
  "public_gadget S sid nonce =
     map (\<lambda>i. tagged_hash_as_scalar S TAG_MUL_GADGET [sid, scalar_to_bytes S (nonce + of_nat (Suc i))]) [0..<BATCH_SIZE]"
proof -
  have "fold (\<lambda>_ (counter, gadget).
            let counter' = counter + 1
            in (counter', gadget @ [tagged_hash_as_scalar S TAG_MUL_GADGET [sid, scalar_to_bytes S counter']]))
          [0..<n] (nonce, []) =
     (nonce + of_nat n,
      map (\<lambda>i. tagged_hash_as_scalar S TAG_MUL_GADGET [sid, scalar_to_bytes S (nonce + of_nat (Suc i))]) [0..<n])" for n
    by (induction n) (simp_all add: algebra_simps Let_def)
  then show ?thesis by (simp add: public_gadget_def)
qed

lemma length_mul_pads: "length (fst (mul_pads r)) = 2"
  unfolding mul_pads_def draw_list_length by (simp add: mul_L_def)

lemma length_public_gadget [width_simps]: "length (public_gadget S sid nonce) = BATCH_SIZE"
  by (simp add: public_gadget_eq)

lemma mul_choice_spec:
  assumes "BATCH_SIZE \<le> length gadget"
  shows "\<exists>bits r'. mul_choice gadget r =
       (Ok (((\<Sum>j<BATCH_SIZE. if bits ! j then gadget ! j else 0), bits), r') :: ('e, _) outcome) \<and>
     length bits = BATCH_SIZE \<and> (rng_live r \<longrightarrow> rng_live r')"
proof -
  have "n \<le> BATCH_SIZE \<Longrightarrow> \<exists>bits r'. each (mul_choice_step gadget) ((0, []), r) [0..<n] =
      (Ok (((\<Sum>j<n. if bits ! j then gadget ! j else 0), bits), r') :: ('e, _) outcome) \<and> length bits = n \<and> (rng_live r \<longrightarrow> rng_live r')" for n
  proof (induction n)
    case 0
    then show ?case by simp
  next
    case (Suc n)
    then obtain bits r' where IH: "each (mul_choice_step gadget) ((0, []), r) [0..<n] =
        (Ok (((\<Sum>j<n. if bits ! j then gadget ! j else 0), bits), r') :: ('e, _) outcome)" "length bits = n"
      and live: "rng_live r \<longrightarrow> rng_live r'"
      by auto
    obtain c r2 where c: "random_bool r' = (c, r2)" by fastforce
    have live2: "rng_live r \<longrightarrow> rng_live r2" using live rng_live_random_bool [of r'] by (simp add: c)
    have n: "n < length gadget" using Suc.prems assms by simp
    have same: "(\<Sum>j<n. if (bits @ [c]) ! j then gadget ! j else 0) = (\<Sum>j<n. if bits ! j then gadget ! j else 0)"
      by (rule sum.cong) (simp_all add: nth_append IH(2))
    have last: "(bits @ [x]) ! n = x" for x using IH(2) by (simp add: nth_append)
    have "each (mul_choice_step gadget) ((0, []), r) [0..<Suc n] =
        (Ok (((\<Sum>j<Suc n. if (bits @ [c]) ! j then gadget ! j else 0), bits @ [c]), r2) :: ('e, _) outcome)"
      using n IH(2) by (simp add: each_append IH(1) mul_choice_step_def c same last)
    then show ?case using IH(2) live2 by (intro exI [where x = "bits @ [c]"] exI [where x = r2]) simp
  qed
  from this [of BATCH_SIZE] show ?thesis unfolding mul_choice_def by blast
qed

text \<open>Both ends of an initialised multiplication: one gadget, and paired OT extension states.\<close>

definition mul_paired :: "'f mul_sender \<Rightarrow> 'f mul_receiver \<Rightarrow> bool" where
  "mul_paired s w \<longleftrightarrow> receiver_gadget w = sender_gadget s \<and> length (sender_gadget s) = BATCH_SIZE \<and>
     ote_paired (mul_ote_sender s) (mul_ote_receiver w)"

lemma mul_receiver_phase1_total:
  assumes "encodings_ok S" and "mul_paired s w"
  shows "\<exists>b k d r'. mul_receiver_run_phase1 S w sid r = Ok ((b, k, d), r')"
proof -
  have "BATCH_SIZE \<le> length (receiver_gadget w)" using assms(2) by (simp add: mul_paired_def)
  then obtain bits r1 where c: "mul_choice (receiver_gadget w) r =
      (Ok (((\<Sum>j<BATCH_SIZE. if bits ! j then receiver_gadget w ! j else 0), bits), r1) :: (error_mul, _) outcome)"
    and bits: "length bits = BATCH_SIZE"
    using mul_choice_spec by blast
  have "encodings_ok S \<and> ote_paired (mul_ote_sender s) (mul_ote_receiver w)"
    using assms by (simp add: mul_paired_def)
  from ote.total [OF this bits] obtain x d r2 where
    "ote_receiver_run_phase1 S (mul_ote_receiver w) (ote_sid sid) bits r1 = Ok ((x, d), r2)" by blast
  then show ?thesis by (simp add: mul_receiver_run_phase1_def c)
qed

lemma mul_run:
  assumes S: "encodings_ok S" and p: "mul_paired s w"
    and phase1: "mul_receiver_run_phase1 S w sid r = Ok ((b, k, d), r')" and input: "length input = mul_L"
  shows "\<exists>out m q' res. mul_sender_run S s sid input d q = Ok ((out, m), q') \<and>
     mul_receiver_run_phase2 S w sid k m = Ok res \<and> length out = mul_L \<and> length res = mul_L \<and>
     (\<forall>i<mul_L. out ! i + res ! i = input ! i * b)"
proof -
  let ?G = "sender_gadget s" and ?sid = "ote_sid sid"
  have G: "receiver_gadget w = ?G" "length ?G = BATCH_SIZE" and po: "ote_paired (mul_ote_sender s) (mul_ote_receiver w)"
    using p by (simp_all add: mul_paired_def)
  obtain bits r1 where c: "mul_choice ?G r =
      (Ok (((\<Sum>j<BATCH_SIZE. if bits ! j then ?G ! j else 0), bits), r1) :: (error_mul, _) outcome)"
    and bits: "length bits = BATCH_SIZE"
    using mul_choice_spec [of ?G r] G(2) by auto
  from phase1 obtain x where
    r1: "ote_receiver_run_phase1 S (mul_ote_receiver w) ?sid bits r1 = Ok ((x, d), r')"
    and b: "b = (\<Sum>j<BATCH_SIZE. if bits ! j then ?G ! j else 0)"
    and k: "mul_b k = b" "mul_choice_bits k = bits" "mul_extended_seeds k = x"
      "chi_tilde k = mul_chi S TAG_MUL_CHI_TILDE sid d" "chi_hat k = mul_chi S TAG_MUL_CHI_HAT sid d"
    by (auto simp: mul_receiver_run_phase1_def G(1) c outcome_simps)
  obtain pads q' where pads: "mul_pads q = (pads, q')" by fastforce
  have lp: "length pads = 2"
    using length_mul_pads [of q] unfolding pads by simp
  let ?a = "map fst pads" and ?h = "map snd pads"
  have as: "length (?a @ ?h) = unat OT_WIDTH" using lp by (simp add: OT_WIDTH_def)
  have conds: "encodings_ok S \<and> ote_paired (mul_ote_sender s) (mul_ote_receiver w)" using S po by blast
  from ote.weighted [OF conds r1 bits as] obtain zA tau zB where
    send: "ote_sender_run S (mul_ote_sender s) ?sid OT_WIDTH (map (replicate BATCH_SIZE) (?a @ ?h)) d = Ok (zA, tau)"
    and recv: "ote_receiver_run_phase2 S ?sid OT_WIDTH bits x tau = Ok zB"
    and len: "length zA = unat OT_WIDTH" "length zB = unat OT_WIDTH"
    and wsum: "\<forall>k<unat OT_WIDTH. \<forall>g. (\<Sum>j<BATCH_SIZE. g j * zB ! k ! j) + (\<Sum>j<BATCH_SIZE. g j * zA ! k ! j) =
        (?a @ ?h) ! k * (\<Sum>j<BATCH_SIZE. if bits ! j then g j else 0)"
    and pt: "\<forall>k<unat OT_WIDTH. \<forall>j<BATCH_SIZE. zB ! k ! j + zA ! k ! j = (if bits ! j then (?a @ ?h) ! k else 0)"
    by blast
  let ?ct = "mul_chi S TAG_MUL_CHI_TILDE sid d" and ?ch = "mul_chi S TAG_MUL_CHI_HAT sid d"
  let ?vu = "map (\<lambda>i. ?ct ! i * ?a ! i + ?ch ! i * ?h ! i) [0..<mul_L]"
  let ?vr = "mul_verify_hash S sid (\<lambda>i j. ?ct ! i * take mul_L zA ! i ! j + ?ch ! i * drop mul_L zA ! i ! j)"
  let ?m = "\<lparr>vector_of_tau = tau, verify_r = ?vr, verify_u = ?vu,
     gamma_sender = map (\<lambda>i. input ! i - ?a ! i) [0..<mul_L]\<rparr>"
  let ?out = "map (\<lambda>i. gadget_sum ?G (take mul_L zA ! i)) [0..<mul_L]"
  let ?res = "map (\<lambda>i. b * (map (\<lambda>i. input ! i - ?a ! i) [0..<mul_L]) ! i + gadget_sum ?G (take mul_L zB ! i)) [0..<mul_L]"
  have W: "unat OT_WIDTH = 4" by (simp add: OT_WIDTH_def)
  have run: "mul_sender_run S s sid input d q = Ok ((?out, ?m), q')"
    using send input G(2) unfolding mul_sender_run_def pads Let_def map_append prod.case by simp
  have entry: "(let entry = - (?ct ! i * take mul_L zB ! i ! j) - ?ch ! i * drop mul_L zB ! i ! j
       in if bits ! j then entry + ?vu ! i else entry) =
      ?ct ! i * take mul_L zA ! i ! j + ?ch ! i * drop mul_L zA ! i ! j"
    if i: "i < mul_L" and j: "j < BATCH_SIZE" for i j
  proof -
    have z: "zB ! i ! j = (if bits ! j then ?a ! i else 0) - zA ! i ! j"
      "zB ! (2 + i) ! j = (if bits ! j then ?h ! i else 0) - zA ! (2 + i) ! j"
      using pt [rule_format, of i j] pt [rule_format, of "2 + i" j] i j lp
      by (auto simp: W mul_L_def nth_append eq_diff_eq split: if_splits)
    have tk: "take mul_L zB ! i = zB ! i" "take mul_L zA ! i = zA ! i"
      "drop mul_L zB ! i = zB ! (2 + i)" "drop mul_L zA ! i = zA ! (2 + i)"
      using i len W by (simp_all add: mul_L_def)
    have vu: "?vu ! i = ?ct ! i * ?a ! i + ?ch ! i * ?h ! i" using i by simp
    show ?thesis unfolding tk z vu Let_def by (cases "bits ! j") (simp_all only: if_True if_False algebra_simps, simp_all)
  qed
  have vr: "mul_verify_hash S sid (\<lambda>i j. let entry = - (?ct ! i * take mul_L zB ! i ! j) - ?ch ! i * drop mul_L zB ! i ! j
       in if bits ! j then entry + ?vu ! i else entry) = ?vr"
    unfolding mul_verify_hash_def
    by (intro arg_cong [where f = "\<lambda>m. tagged_hash S TAG_MUL_VERIFY [sid, concat m]"] map_cong refl
        arg_cong [where f = concat] arg_cong [where f = "scalar_to_bytes S"]) (rule entry, simp_all)
  have res: "mul_receiver_run_phase2 S w sid k ?m = Ok ?res"
    using recv G unfolding mul_receiver_run_phase2_def k mul_data_to_receiver.simps
    by (simp add: vr)
  have sum: "?out ! i + ?res ! i = input ! i * b" if i: "i < mul_L" for i
  proof -
    have "gadget_sum ?G (zB ! i) + gadget_sum ?G (zA ! i) = ?a ! i * b"
      using wsum [rule_format, of i "\<lambda>j. ?G ! j"] i lp unfolding gadget_sum_eq b
      by (simp add: W mul_L_def nth_append)
    then show ?thesis using i by (simp add: algebra_simps)
  qed
  have "length ?out = mul_L" "length ?res = mul_L" by simp_all
  with run res sum show ?thesis by blast
qed

section \<open>The contract\<close>

text \<open>
  What signing uses of the multiplication: the receiver obtains a random factor, and for the
  sender's inputs the two outputs are additive shares of the products with that factor.
\<close>

locale two_party_multiplication =
  fixes paired :: "'s \<Rightarrow> 'w \<Rightarrow> bool"
    and recv1 :: "'w \<Rightarrow> 'i \<Rightarrow> 'r \<Rightarrow> ('e, ('f::field \<times> 'k \<times> 'd) \<times> 'r) outcome"
    and send :: "'s \<Rightarrow> 'i \<Rightarrow> 'f list \<Rightarrow> 'd \<Rightarrow> 'r \<Rightarrow> ('e, ('f list \<times> 'm) \<times> 'r) outcome"
    and recv2 :: "'w \<Rightarrow> 'i \<Rightarrow> 'k \<Rightarrow> 'm \<Rightarrow> ('e, 'f list) outcome"
    and l :: nat
  assumes multiplies: "paired s w \<Longrightarrow> recv1 w i r = Ok ((b, k, d), r') \<Longrightarrow> length input = l \<Longrightarrow>
      \<exists>out m q' res. send s i input d q = Ok ((out, m), q') \<and> recv2 w i k m = Ok res \<and>
        length out = l \<and> length res = l \<and> (\<forall>n<l. out ! n + res ! n = input ! n * b)"
begin

text \<open>The same read from the results.\<close>

lemma outputs:
  assumes "paired s w" and "recv1 w i r = Ok ((b, k, d), r')" and "length input = l"
    and "send s i input d q = Ok ((out, m), q')" and "recv2 w i k m = Ok res" and "n < l"
  shows "out ! n + res ! n = input ! n * b"
  using multiplies [OF assms(1-3), of q] assms(4-6) by auto

lemma receiver_accepts:
  assumes "paired s w" and "recv1 w i r = Ok ((b, k, d), r')" and "length input = l"
    and "send s i input d q = Ok ((out, m), q')"
  shows "\<exists>res. recv2 w i k m = Ok res \<and> length res = l"
  using multiplies [OF assms(1-3), of q] assms(4) by auto

end

interpretation mul: two_party_multiplication
  where paired = "\<lambda>s w. encodings_ok S \<and> mul_paired s w"
    and recv1 = "mul_receiver_run_phase1 S"
    and send = "mul_sender_run S"
    and recv2 = "mul_receiver_run_phase2 S"
    and l = mul_L
  for S :: "('f::field, 'g::ab_group_add) suite"
  by unfold_locales (use mul_run in blast)

text \<open>
  C11: two-party multiplication. The sender accepts the receiver's first message and the
  receiver the sender's answer; output by output they hold additive shares of the sender's
  input times the receiver's random factor.
\<close>

theorem multiplication_correct:
  assumes "suite_ok S" and "mul_paired s w"
    and "mul_receiver_run_phase1 S w sid r = Ok ((b, k, d), r')" and "length input = mul_L"
  shows "\<exists>out m q' res. mul_sender_run S s sid input d q = Ok ((out, m), q') \<and>
     mul_receiver_run_phase2 S w sid k m = Ok res \<and> length out = mul_L \<and> length res = mul_L \<and>
     (\<forall>i<mul_L. out ! i + res ! i = input ! i * b)"
proof -
  have "encodings_ok S \<and> mul_paired s w" using assms(1,2) suite_okD(2) by blast
  from mul.multiplies [OF this assms(3,4)] show ?thesis .
qed

section \<open>Initialised pairs\<close>

lemma draw_bits_length:
  "draw_list (\<lambda>_. random_bool) xs r = (bits, r') \<Longrightarrow> length bits = length xs"
  using draw_list_length [of "\<lambda>_. random_bool" xs r] by simp

text \<open>The initialisation of both sides, with the messages delivered, leaves them paired.\<close>

lemma mul_init_paired:
  assumes S: "suite_ok S"
    and recv: "mul_receiver_init_phase1 S sid r0 = (Ok ((sndr, pf, nonce), r0') :: ('e, _) outcome)"
    and d: "distinct (rand_commitments pf)"
    and send: "mul_sender_init_phase1 S sid r1 = (Ok ((rcv, correlation, vec_r, es), r1') :: ('d, _) outcome)"
  shows "\<exists>s w. mul_sender_init_phase2 S sid correlation vec_r pf nonce = Ok s \<and>
     mul_receiver_init_phase2 S sndr sid (ot_seed rcv) es nonce = Ok w \<and> mul_paired s w"
proof -
  obtain ra where init: "ot_sender_init S sid r0 = (Ok (sndr, ra) :: ('e, _) outcome)"
    and pf: "pf = ot_proof sndr"
    using recv by (auto simp: mul_receiver_init_phase1_def ote_receiver_init_phase1_def outcome_simps
        ot_sender_run_phase1_def split_beta)
  obtain rb where dl: "dlog_prove S (ot_s sndr) sid rb = Ok (ot_proof sndr, ra)"
    using init by (auto simp: ot_sender_init_def outcome_simps)
  note pfok = dlog_complete [OF S dl d [unfolded pf]]
  obtain rc rd where bits: "draw_list (\<lambda>_. random_bool) [0..<KAPPA] rc = (correlation, rd)"
    and batch: "ot_receiver_run_phase1_batch S rcv sid correlation rd = Ok ((vec_r, es), r1')"
    using send by (auto simp: mul_sender_init_phase1_def ote_sender_init_phase1_def outcome_simps Let_def
        split_beta prod_eq_iff)
  have len: "length correlation = KAPPA" using draw_bits_length [OF bits] by simp
  obtain m0s m1s where m: "ot_sender_run_phase2_batch S sndr sid (ot_seed rcv) es = Ok (m0s, m1s)"
    "length vec_r = KAPPA" "length m0s = KAPPA" "length m1s = KAPPA"
    "\<forall>i<KAPPA. ot_receiver_run_phase2_step2 S (current_sid i sid) (vec_r ! i) (dlog_point pf) =
       (if correlation ! i then m1s ! i else m0s ! i)"
    using ot_batch_correct [OF suite_okD(1) [OF S] batch pfok(2)] len pf by auto
  let ?ms = "map (\<lambda>i. ot_receiver_run_phase2_step2 S (current_sid i sid) (vec_r ! i) (dlog_point pf)) [0..<KAPPA]"
  have "ot_receiver_run_phase2_batch S sid vec_r pf = Ok ?ms"
    using pfok(1) m(2) by (simp add: ot_receiver_run_phase2_batch_def ot_receiver_run_phase2_step1_def
        ot_batch_size_def pf KAPPA_def u16_MAX_def)
  then have "mul_sender_init_phase2 S sid correlation vec_r pf nonce =
      Ok \<lparr>sender_gadget = public_gadget S sid nonce,
         mul_ote_sender = \<lparr>ote_correlation = correlation, ote_seeds = ?ms\<rparr>\<rparr>"
    by (simp add: mul_sender_init_phase2_def ote_sender_init_phase2_def)
  moreover have "mul_receiver_init_phase2 S sndr sid (ot_seed rcv) es nonce =
      Ok \<lparr>receiver_gadget = public_gadget S sid nonce, mul_ote_receiver = \<lparr>seeds0 = m0s, seeds1 = m1s\<rparr>\<rparr>"
    using m(1) by (simp add: mul_receiver_init_phase2_def ote_receiver_init_phase2_def)
  moreover have "mul_paired \<lparr>sender_gadget = public_gadget S sid nonce,
         mul_ote_sender = \<lparr>ote_correlation = correlation, ote_seeds = ?ms\<rparr>\<rparr>
      \<lparr>receiver_gadget = public_gadget S sid nonce, mul_ote_receiver = \<lparr>seeds0 = m0s, seeds1 = m1s\<rparr>\<rparr>"
    using len m by (simp add: mul_paired_def ote_paired_def length_public_gadget)
  ultimately show ?thesis by blast
qed

text \<open>
  C18: the initialisation of a multiplication, run by both sides with every message delivered,
  succeeds and leaves a pair the multiplication can be run on.
\<close>

theorem mul_init_correct:
  assumes "suite_ok S"
    and "mul_receiver_init_phase1 S sid r0 = (Ok ((sndr, pf, nonce), r0') :: (error_ot, _) outcome)"
    and "distinct (rand_commitments pf)"
    and "mul_sender_init_phase1 S sid r1 = (Ok ((rcv, correlation, vec_r, es), r1') :: (error_ot, _) outcome)"
  shows "\<exists>s w. mul_sender_init_phase2 S sid correlation vec_r pf nonce = Ok s \<and>
     mul_receiver_init_phase2 S sndr sid (ot_seed rcv) es nonce = Ok w \<and> mul_paired s w"
  by (rule mul_init_paired [OF assms])

section \<open>Refusals\<close>

text \<open>
  What the receiver accepts carries the hash of the matrix it recomputes from its own
  outputs, its choice bits and the sender's \<open>u\<close>, and has the right dimensions.
\<close>

theorem mul_receiver_accepts:
  assumes "mul_receiver_run_phase2 S w sid k m = Ok res"
  shows "length (verify_u m) = mul_L \<and> length (gamma_sender m) = mul_L \<and>
     (\<exists>z. ote_receiver_run_phase2 S (ote_sid sid) OT_WIDTH (mul_choice_bits k) (mul_extended_seeds k)
            (vector_of_tau m) = Ok z \<and>
       verify_r m = mul_verify_hash S sid (\<lambda>i j.
         - (chi_tilde k ! i * z ! i ! j) - chi_hat k ! i * drop mul_L z ! i ! j +
         (if mul_choice_bits k ! j then verify_u m ! i else 0)))"
proof -
  from assms obtain z where dims: "length (verify_u m) = mul_L" "length (gamma_sender m) = mul_L"
    and z: "ote_receiver_run_phase2 S (ote_sid sid) OT_WIDTH (mul_choice_bits k) (mul_extended_seeds k)
            (vector_of_tau m) = Ok z"
    and r: "verify_r m = mul_verify_hash S sid (\<lambda>i j.
            let entry = - (chi_tilde k ! i * take mul_L z ! i ! j) - chi_hat k ! i * drop mul_L z ! i ! j
            in if mul_choice_bits k ! j then entry + verify_u m ! i else entry)"
    unfolding mul_receiver_run_phase2_def Let_def
    by (auto simp only: and_then_eq_Ok_iff map_err_eq_Ok_iff split: if_splits)
  have "mul_verify_hash S sid (\<lambda>i j.
            let entry = - (chi_tilde k ! i * take mul_L z ! i ! j) - chi_hat k ! i * drop mul_L z ! i ! j
            in if mul_choice_bits k ! j then entry + verify_u m ! i else entry) =
      mul_verify_hash S sid (\<lambda>i j. - (chi_tilde k ! i * z ! i ! j) - chi_hat k ! i * drop mul_L z ! i ! j +
         (if mul_choice_bits k ! j then verify_u m ! i else 0))"
    unfolding mul_verify_hash_def Let_def
    by (intro arg_cong [where f = "\<lambda>m. tagged_hash S TAG_MUL_VERIFY [sid, concat m]"] map_cong refl
        arg_cong [where f = concat] arg_cong [where f = "scalar_to_bytes S"]) auto
  note eq = this
  show ?thesis using dims by (intro conjI exI [of _ z] z) (simp_all only: r eq)
qed

end
