(* ===== verification/Lagrange.thy ===== *)
theory Lagrange
  imports Suite
begin

text \<open>
  Polynomials by their coefficients, evaluated by Horner's rule as the source does, over any
  module: over the scalars themselves for the secret polynomials of key generation, and over
  the curve for the consistency check "in the exponent". Shown: the root bound,
  interpolation, and that Lagrange's coefficients at 0 recover the constant term, which is
  the contract \<open>secret_sharing\<close>.
\<close>

section \<open>Actions of the scalars\<close>

definition action_ok :: "('g::ab_group_add \<Rightarrow> 'f::field \<Rightarrow> 'g) \<Rightarrow> bool" where
  "action_ok act \<longleftrightarrow>
     (\<forall>P Q a. act (P + Q) a = act P a + act Q a) \<and>
     (\<forall>P a b. act P (a + b) = act P a + act P b) \<and>
     (\<forall>P a b. act (act P a) b = act P (a * b)) \<and> (\<forall>P. act P 1 = P)"

lemma action_ok_smul: "curve_ok S \<Longrightarrow> action_ok (smul S)"
  by (simp add: action_ok_def curve_ok_def)

lemma action_ok_times: "action_ok (*)"
  by (simp add: action_ok_def algebra_simps)

lemma act_add_left: "action_ok act \<Longrightarrow> act (P + Q) a = act P a + act Q a"
  by (simp add: action_ok_def)

lemma act_add_right: "action_ok act \<Longrightarrow> act P (a + b) = act P a + act P b"
  by (simp add: action_ok_def)

lemma act_act: "action_ok act \<Longrightarrow> act (act P a) b = act P (a * b)"
  by (simp add: action_ok_def)

lemma act_one: "action_ok act \<Longrightarrow> act P 1 = P"
  by (simp add: action_ok_def)

lemma act_zero_right: "action_ok act \<Longrightarrow> act P 0 = 0"
  using act_add_right [of act P 0 0] by simp

lemma act_zero_left: "action_ok act \<Longrightarrow> act 0 a = 0"
  using act_add_left [of act 0 0 a] by simp

lemma act_minus_left: "action_ok act \<Longrightarrow> act (- P) a = - act P a"
  using act_add_left [of act P "- P" a] act_zero_left [of act a]
  by (simp add: eq_neg_iff_add_eq_0 add.commute)

lemma act_minus_right: "action_ok act \<Longrightarrow> act P (- a) = - act P a"
  using act_add_right [of act P a "- a"] act_zero_right [of act P]
  by (simp add: eq_neg_iff_add_eq_0 add.commute)

lemma act_diff_left: "action_ok act \<Longrightarrow> act (P - Q) a = act P a - act Q a"
  using act_add_left [of act P "- Q" a] by (simp add: act_minus_left)

lemma act_diff_right: "action_ok act \<Longrightarrow> act P (a - b) = act P a - act P b"
  using act_add_right [of act P a "- b"] by (simp add: act_minus_right)

lemmas act_simps = act_add_left act_add_right act_zero_right act_zero_left act_minus_left
  act_minus_right act_diff_left act_diff_right

lemma act_cancel: "action_ok act \<Longrightarrow> a \<noteq> 0 \<Longrightarrow> act P a = 0 \<Longrightarrow> P = 0"
proof -
  assume act: "action_ok act" and a: "a \<noteq> 0" and z: "act P a = 0"
  have "P = act (act P a) (inverse a)" using act a by (simp add: act_act act_one)
  then show ?thesis using z act by (simp add: act_zero_left)
qed

lemma act_sum_left: "action_ok act \<Longrightarrow> act (\<Sum>x\<in>A. f x) a = (\<Sum>x\<in>A. act (f x) a)"
  by (induction A rule: infinite_finite_induct) (simp_all add: act_simps)

lemma act_sum_right: "action_ok act \<Longrightarrow> act P (\<Sum>x\<in>A. f x) = (\<Sum>x\<in>A. act P (f x))"
  by (induction A rule: infinite_finite_induct) (simp_all add: act_simps)

section \<open>Polynomials\<close>

text \<open>The coefficients come in increasing order of degree.\<close>

fun horner :: "('g::ab_group_add \<Rightarrow> 'f::field \<Rightarrow> 'g) \<Rightarrow> 'g list \<Rightarrow> 'f \<Rightarrow> 'g" where
  "horner act [] x = 0"
| "horner act (c # cs) x = act (horner act cs x) x + c"

text \<open>Functions that are polynomials with at most \<open>d\<close> coefficients.\<close>

definition poly_fun :: "('g::ab_group_add \<Rightarrow> 'f::field \<Rightarrow> 'g) \<Rightarrow> nat \<Rightarrow> ('f \<Rightarrow> 'g) \<Rightarrow> bool" where
  "poly_fun act d f \<longleftrightarrow> (\<exists>cs. length cs = d \<and> (\<forall>x. f x = horner act cs x))"

lemma poly_fun_horner: "poly_fun act (length cs) (horner act cs)"
  by (auto simp: poly_fun_def)

lemma poly_fun_zero: "action_ok act \<Longrightarrow> poly_fun act d (\<lambda>x. 0)"
proof -
  assume act: "action_ok act"
  have "horner act (replicate n 0) x = 0" for n x
    by (induction n) (simp_all add: act act_zero_left)
  then show ?thesis unfolding poly_fun_def by (intro exI [where x = "replicate d 0"]) simp
qed

lemma horner_add:
  assumes "action_ok act" and "length cs = length ds"
  shows "horner act (map2 (+) cs ds) x = horner act cs x + horner act ds x"
  using assms(2) by (induction cs ds rule: list_induct2) (simp_all add: assms(1) act_simps algebra_simps)

lemma poly_fun_add:
  assumes "action_ok act" and "poly_fun act d f" and "poly_fun act d g"
  shows "poly_fun act d (\<lambda>x. f x + g x)"
proof -
  obtain cs ds where "length cs = d" "\<forall>x. f x = horner act cs x" "length ds = d" "\<forall>x. g x = horner act ds x"
    using assms(2,3) by (auto simp: poly_fun_def)
  then show ?thesis using horner_add [OF assms(1), of cs ds] unfolding poly_fun_def
    by (intro exI [where x = "map2 (+) cs ds"]) simp
qed

lemma poly_fun_sum:
  assumes "action_ok act" and "\<And>i. i \<in> A \<Longrightarrow> poly_fun act d (f i)"
  shows "poly_fun act d (\<lambda>x. \<Sum>i\<in>A. f i x)"
  using assms(2)
  by (induction A rule: infinite_finite_induct) (simp_all add: assms(1) poly_fun_zero poly_fun_add)

lemma horner_scale:
  assumes "action_ok act"
  shows "horner act (map (\<lambda>c. act c a) cs) x = act (horner act cs x) a"
  by (induction cs) (simp_all add: assms act_simps act_act mult.commute)

lemma poly_fun_scale:
  assumes "action_ok act" and "poly_fun act d f"
  shows "poly_fun act d (\<lambda>x. act (f x) a)"
proof -
  obtain cs where "length cs = d" "\<forall>x. f x = horner act cs x" using assms(2) by (auto simp: poly_fun_def)
  then show ?thesis using horner_scale [OF assms(1), of a cs] unfolding poly_fun_def
    by (intro exI [where x = "map (\<lambda>c. act c a) cs"]) simp
qed

lemma poly_fun_shift:
  assumes "poly_fun act d f"
  shows "poly_fun act (Suc d) (\<lambda>x. act (f x) x)"
proof -
  obtain cs where "length cs = d" "\<forall>x. f x = horner act cs x" using assms by (auto simp: poly_fun_def)
  then show ?thesis unfolding poly_fun_def by (intro exI [where x = "0 # cs"]) simp
qed

lemma horner_pad: "action_ok act \<Longrightarrow> horner act (cs @ [0]) x = horner act cs x"
  by (induction cs) (simp_all add: act_simps)

lemma poly_fun_mono: "action_ok act \<Longrightarrow> poly_fun act d f \<Longrightarrow> d \<le> e \<Longrightarrow> poly_fun act e f"
proof (induction e)
  case 0
  then show ?case by simp
next
  case (Suc e)
  show ?case
  proof (cases "d = Suc e")
    case False
    then obtain cs where "length cs = e" "\<forall>x. f x = horner act cs x"
      using Suc by (auto simp: poly_fun_def)
    then show ?thesis unfolding poly_fun_def
      by (intro exI [where x = "cs @ [0]"]) (simp add: horner_pad [OF Suc.prems(1)])
  qed (use Suc in simp)
qed

lemma poly_fun_linear:
  assumes "action_ok act" and "poly_fun act d f"
  shows "poly_fun act (Suc d) (\<lambda>x. act (f x) (x - a))"
proof -
  have "poly_fun act (Suc d) (\<lambda>x. act (f x) x + act (f x) (- a))"
    using assms by (intro poly_fun_add poly_fun_shift poly_fun_mono [OF assms(1) poly_fun_scale]) auto
  then show ?thesis using assms(1) by (simp add: act_simps)
qed

lemma poly_fun_prod:
  assumes "action_ok act"
  shows "poly_fun act (Suc (length as)) (\<lambda>x. act c (\<Prod>a\<leftarrow>as. x - a))"
proof (induction as)
  case Nil
  then show ?case unfolding poly_fun_def
    by (intro exI [where x = "[c]"]) (simp add: assms act_one act_zero_left)
next
  case (Cons a as)
  have "poly_fun act (Suc (Suc (length as))) (\<lambda>x. act (act c (\<Prod>a\<leftarrow>as. x - a)) (x - a))"
    using assms Cons by (rule poly_fun_linear)
  then show ?case using assms by (simp add: act_act mult.commute)
qed

text \<open>A polynomial vanishing at as many points as it has coefficients is zero everywhere.\<close>

lemma horner_factor:
  assumes act: "action_ok act"
  shows "\<exists>ds. length ds = length cs - 1 \<and> (\<forall>x. horner act cs x - horner act cs a = act (horner act ds x) (x - a))"
proof (induction cs)
  case Nil
  then show ?case by (simp add: act act_zero_left)
next
  case (Cons c cs)
  then obtain ds where ds: "length ds = length cs - 1"
    "\<And>x. horner act cs x - horner act cs a = act (horner act ds x) (x - a)" by blast
  show ?case
  proof (cases "cs = []")
    case True
    then show ?thesis using act by (intro exI [where x = "[]"]) (simp add: act_simps)
  next
    case False
    have "horner act (c # cs) x - horner act (c # cs) a =
        act (horner act (horner act cs a # ds) x) (x - a)" for x
    proof -
      have "horner act cs x = act (horner act ds x) (x - a) + horner act cs a"
        using ds(2) [of x] by (metis diff_add_cancel)
      then have "horner act (c # cs) x - horner act (c # cs) a =
          act (act (horner act ds x) (x - a) + horner act cs a) x - act (horner act cs a) a" by simp
      also have "\<dots> = act (horner act (horner act cs a # ds) x) (x - a)"
        using act by (simp add: act_simps act_act algebra_simps)
      finally show ?thesis .
    qed
    then show ?thesis using False ds(1) by (intro exI [where x = "horner act cs a # ds"]) (cases cs; simp)
  qed
qed

lemma root_bound:
  assumes act: "action_ok act"
  shows "length cs \<le> length xs \<Longrightarrow> distinct xs \<Longrightarrow> \<forall>a\<in>set xs. horner act cs a = 0 \<Longrightarrow> horner act cs x = 0"
proof (induction xs arbitrary: cs x)
  case Nil
  then show ?case by simp
next
  case (Cons a xs)
  obtain ds where ds: "length ds = length cs - 1"
    "\<And>x. horner act cs x - horner act cs a = act (horner act ds x) (x - a)"
    using horner_factor [OF act] by blast
  have eq: "horner act cs y = act (horner act ds y) (y - a)" for y
    using ds(2) [of y] Cons.prems(3) by simp
  have "horner act ds b = 0" if "b \<in> set xs" for b
  proof (rule act_cancel [OF act])
    show "b - a \<noteq> 0" using that Cons.prems(2) by auto
    show "act (horner act ds b) (b - a) = 0" using eq [of b] Cons.prems(3) that by simp
  qed
  then have "horner act ds x = 0" using Cons.prems(1,2) ds(1) by (intro Cons.IH) auto
  then show ?case using eq [of x] act by (simp add: act_zero_left)
qed

lemma poly_fun_zero_everywhere:
  assumes act: "action_ok act" and f: "poly_fun act d f" and "finite N" "d \<le> card N" "\<And>a. a \<in> N \<Longrightarrow> f a = 0"
  shows "f x = 0"
proof -
  obtain cs where cs: "length cs = d" "\<forall>x. f x = horner act cs x" using f by (auto simp: poly_fun_def)
  obtain xs where "set xs = N" "distinct xs" using assms(3) finite_distinct_list by blast
  then show ?thesis using root_bound [OF act, of cs xs x] cs assms(4,5) distinct_card by fastforce
qed

lemma poly_fun_agree:
  assumes act: "action_ok act" and "poly_fun act d f" "poly_fun act d g"
    and "finite N" "d \<le> card N" "\<And>a. a \<in> N \<Longrightarrow> f a = g a"
  shows "f x = g x"
proof -
  have "poly_fun act d (\<lambda>x. f x + act (g x) (- 1))"
    using assms by (intro poly_fun_add poly_fun_scale)
  then have "f x + act (g x) (- 1) = 0"
    by (rule poly_fun_zero_everywhere [OF act _ assms(4,5)]) (simp add: assms(6) act act_simps act_one)
  then show ?thesis using act by (simp add: act_simps act_one)
qed

section \<open>Lagrange coefficients\<close>

definition lagrange_at :: "'f::field list \<Rightarrow> 'f \<Rightarrow> 'f \<Rightarrow> 'f" where
  "lagrange_at as a x = (\<Prod>b\<leftarrow>remove1 a as. x - b) * inverse (\<Prod>b\<leftarrow>remove1 a as. a - b)"

lemma prod_list_zero_iff: "(\<Prod>b\<leftarrow>xs. f b) = (0 :: 'f::field) \<longleftrightarrow> (\<exists>b\<in>set xs. f b = 0)"
  by (induction xs) auto

lemma lagrange_at_node:
  assumes "distinct as" "a \<in> set as" "b \<in> set as"
  shows "lagrange_at as a b = (if a = b then 1 else 0)"
  using assms by (auto simp: lagrange_at_def prod_list_zero_iff)

lemma lagrange_interpolation:
  assumes act: "action_ok act" and d: "distinct as" and cs: "length cs \<le> length as"
  shows "(\<Sum>a\<in>set as. act (horner act cs a) (lagrange_at as a x)) = horner act cs x"
proof -
  have card: "card (set as) = length as" using d by (rule distinct_card)
  have "poly_fun act (length as) (\<lambda>x. act (horner act cs a) (lagrange_at as a x))" if "a \<in> set as" for a
  proof -
    have "poly_fun act (Suc (length (remove1 a as))) (\<lambda>x. act (horner act cs a) (\<Prod>b\<leftarrow>remove1 a as. x - b))"
      by (rule poly_fun_prod [OF act])
    moreover have "Suc (length (remove1 a as)) = length as"
      using that by (simp add: length_remove1) (metis Suc_pred length_pos_if_in_set)
    ultimately have "poly_fun act (length as) (\<lambda>x. act (act (horner act cs a) (\<Prod>b\<leftarrow>remove1 a as. x - b))
        (inverse (\<Prod>b\<leftarrow>remove1 a as. a - b)))"
      using poly_fun_scale [OF act] by simp
    then show ?thesis using act by (simp add: lagrange_at_def act_act)
  qed
  then have L: "poly_fun act (length as) (\<lambda>x. \<Sum>a\<in>set as. act (horner act cs a) (lagrange_at as a x))"
    by (rule poly_fun_sum [OF act])
  have R: "poly_fun act (length as) (horner act cs)"
    by (rule poly_fun_mono [OF act poly_fun_horner cs])
  show ?thesis
  proof (rule poly_fun_agree [OF act L R, of "set as"])
    fix b
    assume b: "b \<in> set as"
    have "(\<Sum>a\<in>set as. act (horner act cs a) (lagrange_at as a b)) = (\<Sum>a\<in>set as. if a = b then horner act cs b else 0)"
      by (rule sum.cong) (auto simp: lagrange_at_node [OF d _ b] act act_one act_zero_right)
    then show "(\<Sum>a\<in>set as. act (horner act cs a) (lagrange_at as a b)) = horner act cs b"
      using b by simp
  qed (simp_all add: card)
qed

text \<open>Any values at distinct nodes are those of a polynomial.\<close>

lemma interpolation_exists:
  assumes act: "action_ok act" and d: "distinct as"
  shows "\<exists>cs. length cs = length as \<and> (\<forall>a\<in>set as. horner act cs a = v a)"
proof -
  have "poly_fun act (length as) (\<lambda>x. \<Sum>a\<in>set as. act (v a) (lagrange_at as a x))"
  proof (rule poly_fun_sum [OF act])
    fix a
    assume "a \<in> set as"
    have "poly_fun act (Suc (length (remove1 a as))) (\<lambda>x. act (v a) (\<Prod>b\<leftarrow>remove1 a as. x - b))"
      by (rule poly_fun_prod [OF act])
    moreover have "Suc (length (remove1 a as)) = length as"
      using \<open>a \<in> set as\<close> by (simp add: length_remove1) (metis Suc_pred length_pos_if_in_set)
    ultimately have "poly_fun act (length as) (\<lambda>x. act (act (v a) (\<Prod>b\<leftarrow>remove1 a as. x - b))
        (inverse (\<Prod>b\<leftarrow>remove1 a as. a - b)))"
      using poly_fun_scale [OF act] by simp
    then show "poly_fun act (length as) (\<lambda>x. act (v a) (lagrange_at as a x))"
      using act by (simp add: lagrange_at_def act_act)
  qed
  then obtain cs where cs: "length cs = length as"
    "\<And>x. (\<Sum>a\<in>set as. act (v a) (lagrange_at as a x)) = horner act cs x"
    by (auto simp: poly_fun_def)
  have "horner act cs b = v b" if b: "b \<in> set as" for b
  proof -
    have "(\<Sum>a\<in>set as. act (v a) (lagrange_at as a b)) = (\<Sum>a\<in>set as. if a = b then v b else 0)"
      by (rule sum.cong) (auto simp: lagrange_at_node [OF d _ b] act act_one act_zero_right)
    then show ?thesis using b cs(2) [of b] by simp
  qed
  with cs(1) show ?thesis by blast
qed

section \<open>The coefficients of the source\<close>

text \<open>
  The loop over the other parties of \<open>set\<close>: numerator the product of their indices,
  denominator the product of the differences to \<open>j\<close>; \<open>invert\<close> fails on a zero denominator.
\<close>

definition lagrange_loop :: "u8 list \<Rightarrow> u8 \<Rightarrow> 'f::field \<times> 'f" where
  "lagrange_loop ks j =
     foldl (\<lambda>(num, den) k.
        if k \<noteq> j then (num * scalar_of_u8 k, den * (scalar_of_u8 k - scalar_of_u8 j)) else (num, den))
       (1, 1) ks"

lemma lagrange_loop_eq:
  assumes "distinct ks"
  shows "lagrange_loop ks j = ((\<Prod>k\<leftarrow>remove1 j ks. scalar_of_u8 k),
     (\<Prod>k\<leftarrow>remove1 j ks. scalar_of_u8 k - scalar_of_u8 j) :: 'f::field)"
proof -
  have "foldl (\<lambda>(num, den) k.
        if k \<noteq> j then (num * scalar_of_u8 k, den * (scalar_of_u8 k - scalar_of_u8 j)) else (num, den))
       (a, b) ks = (a * (\<Prod>k\<leftarrow>filter (\<lambda>k. k \<noteq> j) ks. scalar_of_u8 k),
     b * (\<Prod>k\<leftarrow>filter (\<lambda>k. k \<noteq> j) ks. scalar_of_u8 k - scalar_of_u8 j) :: 'f)" for a b :: 'f
    by (induction ks arbitrary: a b) (auto simp: mult.assoc)
  moreover have "filter (\<lambda>k. k \<noteq> j) ks = remove1 j ks"
    using assms by (simp add: distinct_remove1_removeAll removeAll_filter_not_eq conj_commute eq_commute)
  ultimately show ?thesis by (simp add: lagrange_loop_def)
qed

lemma lagrange_signs:
  "(\<Prod>k\<leftarrow>ks. 0 - f k) * inverse (\<Prod>k\<leftarrow>ks. a - f k) =
     (\<Prod>k\<leftarrow>ks. f k) * inverse (\<Prod>k\<leftarrow>ks. f k - a :: 'f::field)"
proof (induction ks)
  case Nil
  then show ?case by simp
next
  case (Cons k ks)
  have s: "(0 - f k) * inverse (a - f k) = f k * inverse (f k - a)"
    by (metis diff_0 inverse_minus_eq minus_diff_eq minus_mult_minus)
  have "(\<Prod>k\<leftarrow>k # ks. 0 - f k) * inverse (\<Prod>k\<leftarrow>k # ks. a - f k) =
      ((0 - f k) * inverse (a - f k)) * ((\<Prod>k\<leftarrow>ks. 0 - f k) * inverse (\<Prod>k\<leftarrow>ks. a - f k))"
    by (simp add: inverse_mult_distrib mult.commute mult.left_commute)
  also have "\<dots> = (f k * inverse (f k - a)) * ((\<Prod>k\<leftarrow>ks. f k) * inverse (\<Prod>k\<leftarrow>ks. f k - a))"
    by (simp only: s Cons.IH)
  also have "\<dots> = (\<Prod>k\<leftarrow>k # ks. f k) * inverse (\<Prod>k\<leftarrow>k # ks. f k - a)"
    by (simp add: inverse_mult_distrib mult.commute mult.left_commute)
  finally show ?case .
qed

text \<open>With distinct nodes the loop does not divide by zero and computes the coefficient at 0.\<close>

definition lagrange_zero :: "u8 list \<Rightarrow> u8 \<Rightarrow> 'f::field" where
  "lagrange_zero ks j = lagrange_at (map scalar_of_u8 ks) (scalar_of_u8 j) 0"

lemma map_remove1_inj: "inj f \<Longrightarrow> map f (remove1 x xs) = remove1 (f x) (map f xs)"
  by (induction xs) (auto dest: injD)

lemma inj_scalar_of_u8: "scalars_ok (S :: ('f::field, 'g) suite) \<Longrightarrow> inj (scalar_of_u8 :: u8 \<Rightarrow> 'f)"
  by (auto intro!: injI simp: scalar_of_u8_inject)

lemma lagrange_loop_ok:
  assumes S: "scalars_ok (S :: ('f::field, 'g) suite)" and d: "distinct ks"
  shows "snd (lagrange_loop ks j :: 'f \<times> 'f) \<noteq> 0"
    and "fst (lagrange_loop ks j) * inverse (snd (lagrange_loop ks j)) = (lagrange_zero ks j :: 'f)"
proof -
  have "\<forall>k\<in>set (remove1 j ks). (scalar_of_u8 k :: 'f) \<noteq> scalar_of_u8 j"
    using d by (auto simp: scalar_of_u8_inject [OF S] in_set_remove1)
  then show "snd (lagrange_loop ks j :: 'f \<times> 'f) \<noteq> 0"
    by (auto simp: lagrange_loop_eq [OF d] prod_list_zero_iff)
  have r: "remove1 (scalar_of_u8 j) (map scalar_of_u8 ks) = (map scalar_of_u8 (remove1 j ks) :: 'f list)"
    by (rule map_remove1_inj [OF inj_scalar_of_u8 [OF S], symmetric])
  show "fst (lagrange_loop ks j) * inverse (snd (lagrange_loop ks j)) = (lagrange_zero ks j :: 'f)"
    using lagrange_signs [of "scalar_of_u8 :: u8 \<Rightarrow> 'f" "remove1 j ks" "scalar_of_u8 j"]
    by (simp add: lagrange_loop_eq [OF d] lagrange_zero_def lagrange_at_def r comp_def)
qed

lemma lagrange_zero_recovers:
  assumes S: "scalars_ok (S :: ('f::field, 'g) suite)" and act: "action_ok act" and d: "distinct ks"
    and cs: "length cs \<le> length ks"
  shows "(\<Sum>k\<in>set ks. act (horner act cs (scalar_of_u8 k)) (lagrange_zero ks k :: 'f)) = horner act cs 0"
proof -
  note inj = inj_scalar_of_u8 [OF S]
  have "distinct (map scalar_of_u8 ks :: 'f list)" using d inj_on_subset [OF inj subset_UNIV] by (simp add: distinct_map)
  from lagrange_interpolation [OF act this, of cs 0] cs
  have "(\<Sum>a\<in>scalar_of_u8 ` set ks. act (horner act cs a) (lagrange_at (map scalar_of_u8 ks) a 0)) = horner act cs 0"
    by simp
  moreover have "(\<Sum>a\<in>scalar_of_u8 ` set ks. act (horner act cs a) (lagrange_at (map scalar_of_u8 ks) a 0)) =
      (\<Sum>k\<in>set ks. act (horner act cs (scalar_of_u8 k)) (lagrange_at (map scalar_of_u8 ks) (scalar_of_u8 k) 0))"
    using inj_on_subset [OF inj subset_UNIV] by (simp add: sum.reindex)
  ultimately show ?thesis by (simp add: lagrange_zero_def)
qed

section \<open>The contract of secret sharing\<close>

text \<open>
  A dealing gives every holder a share; the shares of any quorum, weighted, add up to the
  secret. Adding shares of zero and multiplying by a constant keep that.
\<close>

locale secret_sharing =
  fixes deal :: "'d \<Rightarrow> 'p \<Rightarrow> 'f::field"
    and secret :: "'d \<Rightarrow> 'f"
    and weight :: "'p list \<Rightarrow> 'p \<Rightarrow> 'f"
    and quorum :: "'d \<Rightarrow> 'p list \<Rightarrow> bool"
  assumes reconstruct: "quorum d ps \<Longrightarrow> (\<Sum>p\<in>set ps. deal d p * weight ps p) = secret d"
begin

lemma scaled: "quorum d ps \<Longrightarrow> (\<Sum>p\<in>set ps. c * (deal d p * weight ps p)) = c * secret d"
  by (simp add: sum_distrib_left [symmetric] reconstruct)

lemma masked:
  assumes "quorum d ps" and "(\<Sum>p\<in>set ps. z p) = 0"
  shows "(\<Sum>p\<in>set ps. deal d p * weight ps p + z p) = secret d"
  using assms by (simp add: sum.distrib reconstruct)

end

definition shamir_quorum :: "('f, 'g) suite \<Rightarrow> 'f list \<Rightarrow> u8 list \<Rightarrow> bool" where
  "shamir_quorum S cs ps \<longleftrightarrow> distinct ps \<and> length cs \<le> length ps"

interpretation shamir: secret_sharing
  where deal = "\<lambda>cs p. horner (*) cs (scalar_of_u8 p)"
    and secret = "\<lambda>cs. horner (*) cs 0"
    and weight = lagrange_zero
    and quorum = "\<lambda>cs ps. scalars_ok S \<and> shamir_quorum S cs ps"
  for S :: "('f::field, 'g) suite"
  by unfold_locales
    (use lagrange_zero_recovers [OF _ action_ok_times] in \<open>auto simp: shamir_quorum_def\<close>)

end
