(* ===== verification/Party.thy ===== *)
theory Party
  imports ZeroShares Multiplication
begin

text \<open>
  What key generation leaves behind (\<open>protocols.rs\<close>): a party with its key share, its
  zero-share seeds and its multiplication states, and the public key package. The
  derivation data is declared here because a party contains it.
\<close>

record ('f, 'g) deriv_data =
  depth :: u8
  child_number :: u32
  parent_fingerprint :: bytes
  dd_poly_point :: 'f
  dd_pk :: 'g
  chain_code :: bytes

record ('f, 'g) party =
  party_parameters :: parameters
  party_index_of :: party_index
  party_session_id :: bytes
  poly_point :: 'f
  pk :: 'g
  zero_share_of :: zero_share
  mul_senders :: "(party_index, 'f mul_sender) btree_map"
  mul_receivers :: "(party_index, 'f mul_receiver) btree_map"
  derivation_data :: "('f, 'g) deriv_data"
  address :: string

record 'g public_key_package =
  verifying_key :: 'g
  verifying_shares :: "(party_index, 'g) btree_map"
  pkp_parameters :: parameters

definition public_key_package_new ::
  "'g \<Rightarrow> (party_index, 'g) btree_map \<Rightarrow> parameters \<Rightarrow> 'g public_key_package" where
  "public_key_package_new key shares params =
     \<lparr>verifying_key = key, verifying_shares = shares, pkp_parameters = params\<rparr>"

definition verifying_share :: "'g public_key_package \<Rightarrow> party_index \<Rightarrow> 'g option" where
  "verifying_share p i = btree_get (verifying_shares p) i"

definition verify_share :: "'g public_key_package \<Rightarrow> party_index \<Rightarrow> 'g \<Rightarrow> bool" where
  "verify_share p i share =
     (case btree_get (verifying_shares p) i of None \<Rightarrow> False | Some stored \<Rightarrow> stored = share)"

definition pkp_threshold :: "'g public_key_package \<Rightarrow> u8" where
  "pkp_threshold p = threshold (pkp_parameters p)"

definition pkp_share_count :: "'g public_key_package \<Rightarrow> u8" where
  "pkp_share_count p = share_count (pkp_parameters p)"

lemma verify_share_iff: "verify_share p i s \<longleftrightarrow> verifying_share p i = Some s"
  by (auto simp: verify_share_def verifying_share_def split: option.splits)

text \<open>The invariant of a party: the derivation data repeats its key share and public key.\<close>

definition party_ok :: "('f, 'g) party \<Rightarrow> bool" where
  "party_ok p \<longleftrightarrow> dd_poly_point (derivation_data p) = poly_point p \<and> dd_pk (derivation_data p) = pk p \<and>
     btree_wf (mul_senders p) \<and> btree_wf (mul_receivers p) \<and>
     btree_keys (mul_senders p) = btree_keys (mul_receivers p)"

end
