(* ===== verification/Derivation.thy ===== *)
theory Derivation
  imports Party
begin

text \<open>
  Non-hardened BIP-32 derivation in the threshold setting (\<open>protocols/derivation.rs\<close>).
  Every party shifts its share by the same public tweak. Shown: derived shares belong to
  the derived public key, the package derives to the same key and shares, the path parser
  reads what a printer writes, and the depth and index bounds are enforced.
\<close>

section \<open>Derivation data\<close>

datatype error_deriv = ErrorDeriv string

definition CHAIN_CODE_LEN :: nat where "CHAIN_CODE_LEN = 32"
definition MAX_DEPTH :: u8 where "MAX_DEPTH = 255"
definition MAX_CHILD_NUMBER :: u32 where "MAX_CHILD_NUMBER = 0x7FFFFFFF"

text \<open>The HMAC of a key and a child number: tweak and chain code, before the range check.\<close>

definition bip32_hmac :: "('f, 'g) suite \<Rightarrow> bytes \<Rightarrow> 'g \<Rightarrow> u32 \<Rightarrow> bytes" where
  "bip32_hmac S cc P n = hmac_sha512 S cc (point_to_bytes S P @ u32_be n)"

definition bip32_tweak :: "('f, 'g) suite \<Rightarrow> bytes \<Rightarrow> (error_deriv, 'f) outcome" where
  "bip32_tweak S hmac_bytes =
     (let tweak_bytes = take CHAIN_CODE_LEN hmac_bytes; tweak = reduce S tweak_bytes in
      if to_repr S tweak \<noteq> tweak_bytes
      then Err (ErrorDeriv ''BIP-32: HMAC left half >= curve order, child index is invalid'')
      else Ok tweak)"

definition child_tweak ::
  "('f, 'g) suite \<Rightarrow> ('f, 'g) deriv_data \<Rightarrow> u32 \<Rightarrow> (error_deriv, 'f \<times> bytes \<times> bytes) outcome" where
  "child_tweak S d n =
     (let hmac_bytes = bip32_hmac S (chain_code d) (dd_pk d) n in
      and_then (bip32_tweak S hmac_bytes) (\<lambda>tweak.
        Ok (tweak, drop CHAIN_CODE_LEN hmac_bytes,
            take 4 (ripemd160 S (sha256 S (point_to_bytes S (dd_pk d)))))))"

definition derive_child ::
  "('f::field, 'g::ab_group_add) suite \<Rightarrow> ('f, 'g) deriv_data \<Rightarrow> u32 \<Rightarrow> (error_deriv, ('f, 'g) deriv_data) outcome" where
  "derive_child S d n =
     (if depth d = MAX_DEPTH then Err (ErrorDeriv ''We are already at maximum depth!'')
      else if MAX_CHILD_NUMBER < n then Err (ErrorDeriv ''Child index should be between 0 and 2^31 - 1!'')
      else and_then (child_tweak S d n) (\<lambda>(tweak, new_chain_code, fingerprint).
        let new_poly_point = dd_poly_point d + tweak;
            new_pk = smul S (generator S) tweak + dd_pk d in
        if new_pk = 0
        then Err (ErrorDeriv ''Very improbable: Child index results in value not allowed by BIP-32!'')
        else Ok \<lparr>depth = depth d + 1, child_number = n, parent_fingerprint = fingerprint,
                 dd_poly_point = new_poly_point, dd_pk = new_pk, chain_code = new_chain_code\<rparr>))"

section \<open>Paths\<close>

text \<open>\<open>str::split(c)\<close>: at least one part, empty parts kept.\<close>

fun split_on :: "char \<Rightarrow> string \<Rightarrow> string list" where
  "split_on c [] = [[]]"
| "split_on c (x # xs) =
     (if x = c then [] # split_on c xs
      else case split_on c xs of [] \<Rightarrow> [[x]] | p # ps \<Rightarrow> (x # p) # ps)"

definition is_digit :: "char \<Rightarrow> bool" where
  "is_digit c = (48 \<le> (of_char c :: nat) \<and> (of_char c :: nat) \<le> 57)"

definition digit_value :: "char \<Rightarrow> nat" where
  "digit_value c = of_char c - 48"

text \<open>\<open>str::parse::<u32>\<close>: an optional plus sign, decimal digits, a value below \<open>2 ^ 32\<close>.\<close>

definition parse_digits :: "string \<Rightarrow> nat option" where
  "parse_digits s = (if s = [] \<or> \<not> list_all is_digit s then None
     else Some (foldl (\<lambda>n c. 10 * n + digit_value c) 0 s))"

definition parse_u32 :: "string \<Rightarrow> u32 option" where
  "parse_u32 s =
     (let s' = (case s of c # cs \<Rightarrow> if c = CHR ''+'' then cs else s | [] \<Rightarrow> s) in
      case parse_digits s' of None \<Rightarrow> None
      | Some n \<Rightarrow> if n < 2 ^ 32 then Some (of_nat n) else None)"

definition parse_path :: "string \<Rightarrow> (error_deriv, u32 list) outcome" where
  "parse_path path =
     (case split_on (CHR ''/'') path of
        [] \<Rightarrow> Err (ErrorDeriv ''Invalid path format!'')
      | first # parts \<Rightarrow>
          if first \<noteq> ''m'' then Err (ErrorDeriv ''Invalid path format!'')
          else and_then (collect_try (\<lambda>part.
                 case parse_u32 part of
                   Some num \<Rightarrow> if num \<le> MAX_CHILD_NUMBER then Ok num
                     else Err (ErrorDeriv ''Invalid path format or index out of bounds!'')
                 | None \<Rightarrow> Err (ErrorDeriv ''Invalid path format or index out of bounds!'')) parts) (\<lambda>path_parsed.
               if unat MAX_DEPTH < length path_parsed then Err (ErrorDeriv ''The path is too long!'')
               else Ok path_parsed))"

definition derive_from_path ::
  "('f::field, 'g::ab_group_add) suite \<Rightarrow> ('f, 'g) deriv_data \<Rightarrow> string \<Rightarrow> (error_deriv, ('f, 'g) deriv_data) outcome" where
  "derive_from_path S d path = and_then (parse_path path) (\<lambda>ns. each (derive_child S) d ns)"

section \<open>Parties and packages\<close>

definition with_derivation ::
  "('g \<Rightarrow> string) \<Rightarrow> ('f, 'g) party \<Rightarrow> ('f, 'g) deriv_data \<Rightarrow> ('f, 'g) party" where
  "with_derivation address_fn p d =
     p\<lparr>poly_point := dd_poly_point d, pk := dd_pk d, derivation_data := d, address := address_fn (dd_pk d)\<rparr>"

definition party_derive_child ::
  "('f::field, 'g::ab_group_add) suite \<Rightarrow> ('g \<Rightarrow> string) \<Rightarrow> ('f, 'g) party \<Rightarrow> u32 \<Rightarrow> (error_deriv, ('f, 'g) party) outcome" where
  "party_derive_child S address_fn p n =
     and_then (derive_child S (derivation_data p) n) (\<lambda>d. Ok (with_derivation address_fn p d))"

definition party_derive_from_path ::
  "('f::field, 'g::ab_group_add) suite \<Rightarrow> ('g \<Rightarrow> string) \<Rightarrow> ('f, 'g) party \<Rightarrow> string \<Rightarrow> (error_deriv, ('f, 'g) party) outcome" where
  "party_derive_from_path S address_fn p path =
     and_then (derive_from_path S (derivation_data p) path) (\<lambda>d. Ok (with_derivation address_fn p d))"

definition pkp_derive_child ::
  "('f::field, 'g::ab_group_add) suite \<Rightarrow> 'g public_key_package \<Rightarrow> bytes \<Rightarrow> u32
   \<Rightarrow> (error_deriv, 'g public_key_package) outcome" where
  "pkp_derive_child S p cc n =
     (if MAX_CHILD_NUMBER < n then Err (ErrorDeriv ''Child index should be between 0 and 2^31 - 1!'')
      else and_then (bip32_tweak S (bip32_hmac S cc (verifying_key p) n)) (\<lambda>tweak.
        let tweak_point = smul S (generator S) tweak;
            new_verifying_key = tweak_point + verifying_key p in
        if new_verifying_key = 0
        then Err (ErrorDeriv ''Very improbable: Child index results in value not allowed by BIP-32!'')
        else Ok (public_key_package_new new_verifying_key
                   (map (\<lambda>(i, share). (i, tweak_point + share)) (verifying_shares p)) (pkp_parameters p))))"

section \<open>Shares and keys stay consistent\<close>

text \<open>
  A group: every share belongs to its verifying share, and the package holds the parties' key.
\<close>

definition shares_match :: "('f::field, 'g::ab_group_add) suite \<Rightarrow> (party_index \<Rightarrow> 'f) \<Rightarrow> 'g public_key_package \<Rightarrow> bool" where
  "shares_match S shares p \<longleftrightarrow>
     (\<forall>i share. (i, share) \<in> set (verifying_shares p) \<longrightarrow> share = smul S (generator S) (shares i))"

lemma derive_child_Ok:
  "derive_child S d n = Ok d' \<longleftrightarrow>
     depth d \<noteq> MAX_DEPTH \<and> n \<le> MAX_CHILD_NUMBER \<and>
     (\<exists>tweak. bip32_tweak S (bip32_hmac S (chain_code d) (dd_pk d) n) = Ok tweak \<and>
        smul S (generator S) tweak + dd_pk d \<noteq> 0 \<and>
        d' = \<lparr>depth = depth d + 1, child_number = n,
              parent_fingerprint = take 4 (ripemd160 S (sha256 S (point_to_bytes S (dd_pk d)))),
              dd_poly_point = dd_poly_point d + tweak, dd_pk = smul S (generator S) tweak + dd_pk d,
              chain_code = drop CHAIN_CODE_LEN (bip32_hmac S (chain_code d) (dd_pk d) n)\<rparr>)"
  by (auto simp: derive_child_def child_tweak_def outcome_simps Let_def not_less split: if_splits)

text \<open>
  Derivation is consistent across a group. When a party derives a child, every party with
  the same public key and chain code and a depth left derives the same child key and chain
  code, the package derives to that key, and shares that matched the package still do after
  each is shifted as the parties shift theirs.
\<close>

theorem derivation_consistent:
  assumes S: "suite_ok S" and p: "party_ok p" and derived: "party_derive_child S address_fn p n = Ok p'"
    and key: "verifying_key pkp = pk p" and match: "shares_match S shares pkp"
  shows "\<exists>tweak pkp'. poly_point p' = poly_point p + tweak \<and> pk p' = smul S (generator S) tweak + pk p \<and>
     pkp_derive_child S pkp (chain_code (derivation_data p)) n = Ok pkp' \<and> verifying_key pkp' = pk p' \<and>
     btree_keys (verifying_shares pkp') = btree_keys (verifying_shares pkp) \<and>
     shares_match S (\<lambda>i. shares i + tweak) pkp' \<and> party_ok p' \<and>
     (\<forall>q. dd_pk (derivation_data q) = pk p \<and> chain_code (derivation_data q) = chain_code (derivation_data p) \<and>
        depth (derivation_data q) \<noteq> MAX_DEPTH \<longrightarrow>
        (\<exists>q'. party_derive_child S address_fn q n = Ok q' \<and> pk q' = pk p' \<and>
           poly_point q' = dd_poly_point (derivation_data q) + tweak \<and>
           chain_code (derivation_data q') = chain_code (derivation_data p')))"
proof -
  from derived obtain d' where d': "derive_child S (derivation_data p) n = Ok d'"
    and p': "p' = with_derivation address_fn p d'"
    by (auto simp: party_derive_child_def outcome_simps)
  then obtain tweak where t: "n \<le> MAX_CHILD_NUMBER"
    "bip32_tweak S (bip32_hmac S (chain_code (derivation_data p)) (pk p) n) = Ok tweak"
    "smul S (generator S) tweak + pk p \<noteq> 0"
    "dd_poly_point d' = poly_point p + tweak" "dd_pk d' = smul S (generator S) tweak + pk p"
    "chain_code d' = drop CHAIN_CODE_LEN (bip32_hmac S (chain_code (derivation_data p)) (pk p) n)"
    using p unfolding derive_child_Ok party_ok_def by auto
  define pkp' where "pkp' = public_key_package_new (smul S (generator S) tweak + pk p)
      (map (\<lambda>(i, share). (i, smul S (generator S) tweak + share)) (verifying_shares pkp)) (pkp_parameters pkp)"
  have pkg: "pkp_derive_child S pkp (chain_code (derivation_data p)) n = Ok pkp'"
    using t(1,2,3) by (simp add: pkp_derive_child_def key pkp'_def Let_def not_less [symmetric])
  have keys: "btree_keys (verifying_shares pkp') = btree_keys (verifying_shares pkp)"
    by (simp add: pkp'_def public_key_package_new_def btree_keys_def comp_def split_def)
  have "shares_match S (\<lambda>i. shares i + tweak) pkp'"
    using match suite_okD(1) [OF S]
    by (auto simp: shares_match_def pkp'_def public_key_package_new_def smul_distrib)
  moreover have "\<exists>q'. party_derive_child S address_fn q n = Ok q' \<and> pk q' = pk p' \<and>
       poly_point q' = dd_poly_point (derivation_data q) + tweak \<and>
       chain_code (derivation_data q') = chain_code (derivation_data p')"
    if "dd_pk (derivation_data q) = pk p" "chain_code (derivation_data q) = chain_code (derivation_data p)"
      "depth (derivation_data q) \<noteq> MAX_DEPTH" for q
  proof -
    let ?e = "\<lparr>depth = depth (derivation_data q) + 1, child_number = n,
        parent_fingerprint = take 4 (ripemd160 S (sha256 S (point_to_bytes S (dd_pk (derivation_data q))))),
        dd_poly_point = dd_poly_point (derivation_data q) + tweak, dd_pk = smul S (generator S) tweak + pk p,
        chain_code = drop CHAIN_CODE_LEN (bip32_hmac S (chain_code (derivation_data q)) (dd_pk (derivation_data q)) n)\<rparr>"
    have "derive_child S (derivation_data q) n = Ok ?e"
      unfolding derive_child_Ok using that t(1,2,3) by (intro conjI exI [of _ tweak]) simp_all
    then have "party_derive_child S address_fn q n = Ok (with_derivation address_fn q ?e)"
      by (simp add: party_derive_child_def)
    moreover have "pk (with_derivation address_fn q ?e) = pk p'"
      "poly_point (with_derivation address_fn q ?e) = dd_poly_point (derivation_data q) + tweak"
      "chain_code (derivation_data (with_derivation address_fn q ?e)) = chain_code (derivation_data p')"
      using that t by (simp_all add: p' with_derivation_def)
    ultimately show ?thesis by blast
  qed
  moreover have "poly_point p' = poly_point p + tweak" "pk p' = smul S (generator S) tweak + pk p"
    "verifying_key pkp' = pk p'"
    by (simp_all add: p' with_derivation_def t pkp'_def public_key_package_new_def)
  moreover have "party_ok p'" using p by (simp add: p' with_derivation_def party_ok_def)
  ultimately show ?thesis using pkg keys by blast
qed

text \<open>
  The bounds of derivation: a child at depth 255, or one with a hardened index, is refused
  whatever the HMAC; a derived child is one level deeper and never the point at infinity.
\<close>

theorem derive_child_bounds:
  "(depth d = MAX_DEPTH \<longrightarrow> derive_child S d n = Err (ErrorDeriv ''We are already at maximum depth!'')) \<and>
   (depth d \<noteq> MAX_DEPTH \<and> MAX_CHILD_NUMBER < n \<longrightarrow>
      derive_child S d n = Err (ErrorDeriv ''Child index should be between 0 and 2^31 - 1!'')) \<and>
   (\<forall>d'. derive_child S d n = Ok d' \<longrightarrow> unat (depth d') = unat (depth d) + 1 \<and> dd_pk d' \<noteq> 0 \<and> child_number d' = n)"
proof (intro conjI impI allI)
  fix d'
  assume ok: "derive_child S d n = Ok d'"
  then have "depth d \<noteq> MAX_DEPTH" and e: "depth d' = depth d + 1" by (auto simp: derive_child_Ok)
  then show "unat (depth d') = unat (depth d) + 1" by (simp add: e MAX_DEPTH_def unat_u8_succ)
  show "dd_pk d' \<noteq> 0" "child_number d' = n" using ok by (auto simp: derive_child_Ok)
qed (auto simp: derive_child_def)

section \<open>Printing and parsing paths\<close>

definition digit_char :: "nat \<Rightarrow> char" where
  "digit_char d = char_of (48 + d)"

fun show_nat :: "nat \<Rightarrow> string" where
  "show_nat n = (if n < 10 then [digit_char n] else show_nat (n div 10) @ [digit_char (n mod 10)])"

declare show_nat.simps [simp del]

definition show_path :: "u32 list \<Rightarrow> string" where
  "show_path ns = ''m'' @ concat (map (\<lambda>n. CHR ''/'' # show_nat (unat n)) ns)"

lemma of_char_digit: "d < 10 \<Longrightarrow> (of_char (digit_char d) :: nat) = 48 + d"
  by (simp add: digit_char_def of_char_of)

lemma digit_char_ok: "d < 10 \<Longrightarrow> is_digit (digit_char d) \<and> digit_value (digit_char d) = d"
  by (simp add: is_digit_def digit_value_def of_char_digit)

lemma show_nat_spec:
  "show_nat n \<noteq> [] \<and> list_all is_digit (show_nat n) \<and> foldl (\<lambda>m c. 10 * m + digit_value c) 0 (show_nat n) = n"
proof (induction n rule: show_nat.induct)
  case (1 n)
  show ?case
  proof (cases "n < 10")
    case True
    then show ?thesis by (subst (1 2 3) show_nat.simps) (simp add: digit_char_ok)
  next
    case False
    then show ?thesis using "1.IH" digit_char_ok [of "n mod 10"]
      by (subst (1 2 3) show_nat.simps) simp
  qed
qed

lemma digit_not_plus: "is_digit c \<Longrightarrow> c \<noteq> CHR ''+'' \<and> c \<noteq> CHR ''/''"
  by (auto simp: is_digit_def)

lemma parse_u32_show: "parse_u32 (show_nat (unat (n :: u32))) = Some n"
proof -
  obtain c cs where s: "show_nat (unat n) = c # cs" using show_nat_spec [of "unat n"] by (cases "show_nat (unat n)") auto
  have "c \<noteq> CHR ''+''" using show_nat_spec [of "unat n"] s digit_not_plus by auto
  moreover have "parse_digits (show_nat (unat n)) = Some (unat n)"
    using show_nat_spec [of "unat n"] by (simp add: parse_digits_def)
  moreover have "unat n < 2 ^ 32" using unsigned_less [of n] by simp
  ultimately show ?thesis by (simp add: parse_u32_def s)
qed

lemma split_on_part:
  assumes "list_all (\<lambda>x. x \<noteq> c) p"
  shows "split_on c (p @ c # rest) = p # split_on c rest" and "split_on c p = [p]"
  using assms by (induction p) auto

lemma split_on_concat:
  assumes "\<forall>p\<in>set ps. list_all (\<lambda>x. x \<noteq> c) p" and "list_all (\<lambda>x. x \<noteq> c) p"
  shows "split_on c (p @ concat (map (\<lambda>q. c # q) ps)) = p # ps"
  using assms
proof (induction ps arbitrary: p)
  case Nil
  then show ?case by (simp add: split_on_part)
next
  case (Cons q ps)
  then show ?case using split_on_part(1) [of c p "q @ concat (map (\<lambda>q. c # q) ps)"] by simp
qed

text \<open>
  C37: the path parser reads back every path of at most 255 non-hardened child numbers, and
  accepts nothing longer and nothing with a hardened index.
\<close>

theorem parse_path_round_trip:
  "((\<forall>n\<in>set ns. n \<le> MAX_CHILD_NUMBER) \<and> length ns \<le> 255 \<longrightarrow> parse_path (show_path ns) = Ok ns) \<and>
   (parse_path path = Ok ms \<longrightarrow> length ms \<le> 255 \<and> (\<forall>n\<in>set ms. n \<le> MAX_CHILD_NUMBER))"
proof (intro conjI impI)
  assume ns: "(\<forall>n\<in>set ns. n \<le> MAX_CHILD_NUMBER) \<and> length ns \<le> 255"
  have "list_all (\<lambda>x. x \<noteq> CHR ''/'') (show_nat k)" for k
    using show_nat_spec [of k] digit_not_plus by (auto simp: list_all_iff)
  then have split: "split_on (CHR ''/'') (show_path ns) = ''m'' # map (\<lambda>n. show_nat (unat n)) ns"
    using split_on_concat [of "map (\<lambda>n. show_nat (unat n)) ns" "CHR ''/''" "''m''"]
    by (simp add: show_path_def comp_def)
  have "collect_try (\<lambda>part. case parse_u32 part of
                   Some num \<Rightarrow> if num \<le> MAX_CHILD_NUMBER then Ok num
                     else Err (ErrorDeriv ''Invalid path format or index out of bounds!'')
                 | None \<Rightarrow> Err (ErrorDeriv ''Invalid path format or index out of bounds!''))
       (map (\<lambda>n. show_nat (unat n)) ns) = Ok ns"
    unfolding collect_try_map using ns
    by (subst collect_try_total [where g = id]) (simp_all add: parse_u32_show)
  then show "parse_path (show_path ns) = Ok ns"
    using ns unfolding parse_path_def split by (simp add: MAX_DEPTH_def)
next
  assume ok: "parse_path path = Ok ms"
  then obtain first parts where "split_on (CHR ''/'') path = first # parts"
    by (cases "split_on (CHR ''/'') path") (auto simp: parse_path_def)
  with ok have c: "collect_try (\<lambda>part. case parse_u32 part of
                   Some num \<Rightarrow> if num \<le> MAX_CHILD_NUMBER then Ok num
                     else Err (ErrorDeriv ''Invalid path format or index out of bounds!'')
                 | None \<Rightarrow> Err (ErrorDeriv ''Invalid path format or index out of bounds!'')) parts = Ok ms"
    and len: "length ms \<le> 255"
    by (auto simp: parse_path_def MAX_DEPTH_def outcome_simps split: if_splits)
  have "n \<le> MAX_CHILD_NUMBER" if "n \<in> set ms" for n
    using c that unfolding collect_try_eq_Ok_iff list_all2_conv_all_nth in_set_conv_nth
    by (auto split: option.splits if_splits)
  with len show "length ms \<le> 255" "\<forall>n\<in>set ms. n \<le> MAX_CHILD_NUMBER" by auto
qed

section \<open>Derivation along a path\<close>

text \<open>Following a path is deriving child by child; concatenated paths compose.\<close>

lemma derive_each_append:
  "each (derive_child S) d (ms @ ns) = and_then (each (derive_child S) d ms) (\<lambda>d'. each (derive_child S) d' ns)"
  by (rule each_append)

lemma derive_path_depth:
  assumes "each (derive_child S) d ns = Ok d'"
  shows "unat (depth d') = unat (depth d) + length ns"
  using assms
proof (induction ns arbitrary: d)
  case Nil
  then show ?case by simp
next
  case (Cons n ns)
  then obtain e where e: "derive_child S d n = Ok e" "each (derive_child S) e ns = Ok d'"
    by (auto simp: outcome_simps)
  have "depth d \<noteq> MAX_DEPTH" "depth e = depth d + 1" using e(1) by (auto simp: derive_child_Ok)
  then have "unat (depth e) = unat (depth d) + 1"
    by (simp add: MAX_DEPTH_def unat_u8_succ)
  then show ?case using Cons.IH [OF e(2)] by simp
qed

text \<open>
  Along any path every party's share moves by one public tweak, the same for all parties
  that start from the same key data, and the key moves by that tweak's point.
\<close>

theorem derive_path_tweak:
  assumes "suite_ok S" and "each (derive_child S) d ns = Ok d'"
  shows "\<exists>tweak. dd_poly_point d' = dd_poly_point d + tweak \<and>
     dd_pk d' = dd_pk d + smul S (generator S) tweak \<and>
     unat (depth d') = unat (depth d) + length ns \<and>
     (\<forall>share. \<exists>e'. each (derive_child S) (d\<lparr>dd_poly_point := share\<rparr>) ns = Ok e' \<and>
        dd_poly_point e' = share + tweak \<and> dd_pk e' = dd_pk d' \<and> chain_code e' = chain_code d')"
proof -
  note curve = suite_okD(1) [OF assms(1)]
  have "\<exists>tweak. dd_poly_point d' = dd_poly_point d + tweak \<and>
     dd_pk d' = dd_pk d + smul S (generator S) tweak \<and>
     (\<forall>share. each (derive_child S) (d\<lparr>dd_poly_point := share\<rparr>) ns = Ok (d'\<lparr>dd_poly_point := share + tweak\<rparr>))"
    using assms(2)
  proof (induction ns arbitrary: d)
    case Nil
    then show ?case by (intro exI [of _ 0]) (simp add: curve smul_distrib)
  next
    case (Cons n ns)
    then obtain e where e: "derive_child S d n = Ok e" "each (derive_child S) e ns = Ok d'"
      by (auto simp: outcome_simps)
    obtain t where t: "dd_poly_point e = dd_poly_point d + t" "dd_pk e = smul S (generator S) t + dd_pk d"
      "\<And>share. derive_child S (d\<lparr>dd_poly_point := share\<rparr>) n = Ok (e\<lparr>dd_poly_point := share + t\<rparr>)"
      using e(1) unfolding derive_child_Ok by fastforce
    obtain u where u: "dd_poly_point d' = dd_poly_point e + u" "dd_pk d' = dd_pk e + smul S (generator S) u"
      "\<And>share. each (derive_child S) (e\<lparr>dd_poly_point := share\<rparr>) ns = Ok (d'\<lparr>dd_poly_point := share + u\<rparr>)"
      using Cons.IH [OF e(2)] by blast
    show ?case
      by (intro exI [of _ "t + u"])
        (simp add: t u curve smul_distrib add.assoc add.commute add.left_commute)
  qed
  then show ?thesis using derive_path_depth [OF assms(2)] by force
qed

end
