(* ===== verification/Dkg.thy ===== *)
theory Dkg
  imports Party Derivation Lagrange
begin

text \<open>
  Distributed key generation (\<open>protocols/dkg.rs\<close>): the polynomial steps 1, 2, 3 and 5 and the
  four phases that weave in the zero shares, the multiplications and the chain code. Shown
  here: step 5 accepts points of one polynomial and returns the key of its constant term, an
  accepted set of points lies on one polynomial below the threshold's degree whatever the
  other parties sent, and what a successful fourth phase has checked.
\<close>

section \<open>Messages and kept state\<close>

record ('f, 'g) proof_commitment =
  pc_index :: party_index
  pc_proof :: "('f, 'g) dlog_proof"
  pc_commitment :: bytes

record session_data =
  sd_parameters :: parameters
  sd_party_index :: party_index
  sd_session_id :: bytes

record transmit_zero_2to4 =
  z2_parties :: parties_message
  z2_commitment :: bytes

record transmit_zero_3to4 =
  z3_parties :: parties_message
  z3_seed :: bytes
  z3_salt :: bytes

record keep_zero_2to3 =
  kz2_seed :: bytes
  kz2_salt :: bytes

record keep_zero_3to4 =
  kz3_seed :: bytes

record ('f, 'g) transmit_mul_3to4 =
  tm_parties :: parties_message
  tm_dlog_proof :: "('f, 'g) dlog_proof"
  tm_nonce :: 'f
  tm_enc_proofs :: "('f, 'g) enc_proof list"
  tm_seed :: bytes

record ('f, 'g) keep_mul_3to4 =
  km_ot_sender :: "('f, 'g) ot_sender"
  km_nonce :: 'f
  km_ot_receiver :: ot_receiver
  km_correlation :: "bool list"
  km_vec_r :: "'f list"

record broadcast_derivation_2to4 =
  b2_sender_index :: party_index
  b2_cc_commitment :: bytes

record broadcast_derivation_3to4 =
  b3_sender_index :: party_index
  b3_aux_chain_code :: bytes
  b3_cc_salt :: bytes

record keep_derivation_2to3 =
  kd_aux_chain_code :: bytes
  kd_cc_salt :: bytes

section \<open>Steps\<close>

text \<open>Step 1: a polynomial by its coefficients, lowest degree first.\<close>

definition dkg_step1 :: "parameters \<Rightarrow> 'f rng \<Rightarrow> 'f list \<times> 'f rng" where
  "dkg_step1 p r = draw_list (\<lambda>_. random_scalar) [0..<unat (threshold p)] r"

text \<open>Step 2: Horner's rule from the coefficient of index \<open>threshold - 1\<close> down.\<close>

definition dkg_step2 :: "bool \<Rightarrow> parameters \<Rightarrow> 'f::field list \<Rightarrow> ('e, 'f list) outcome" where
  "dkg_step2 oc p polynomial =
     and_then (u8_sub oc (threshold p) 1) (\<lambda>l.
     let last_index = unat l in
     collect_try (\<lambda>j.
       and_then (index polynomial last_index) (\<lambda>top.
         Ok (fold (\<lambda>coefficient e. e * scalar_of_u8 j + coefficient) (rev (take last_index polynomial)) top)))
       (u8_range_incl 1 (share_count p)))"

text \<open>Step 3: add up the fragments and commit to a proof for the sum.\<close>

definition dkg_step3 ::
  "('f::field, 'g) suite \<Rightarrow> party_index \<Rightarrow> bytes \<Rightarrow> 'f list \<Rightarrow> 'f rng
   \<Rightarrow> ('e, ('f \<times> ('f, 'g) proof_commitment) \<times> 'f rng) outcome" where
  "dkg_step3 S me session_id poly_fragments r =
     (let pp = sum_list poly_fragments in
      and_then (expect (prove_commit S pp session_id r)) (\<lambda>((pf, c), r1).
        Ok ((pp, \<lparr>pc_index = me, pc_proof = pf, pc_commitment = c\<rparr>), r1)))"

text \<open>Step 5, first loop: verify the others' proofs and gather the committed points.\<close>

definition dkg_gather_step ::
  "('f::field, 'g::ab_group_add) suite \<Rightarrow> party_index \<Rightarrow> bytes \<Rightarrow> (party_index, 'g) btree_map
   \<Rightarrow> ('f, 'g) proof_commitment \<Rightarrow> (abort, (party_index, 'g) btree_map) outcome" where
  "dkg_gather_step S me session_id points pj =
     (if pc_index pj \<noteq> me \<and> \<not> decommit_verify S (pc_proof pj) (pc_commitment pj) session_id
      then Err (recoverable me (ProofVerificationFailed (pc_index pj)))
      else Ok (btree_insert (pc_index pj) (dlog_point (pc_proof pj)) points))"

text \<open>Step 5, the loop body over \<open>j\<close> in the window \<open>i..(i + threshold)\<close>.\<close>

definition dkg_window_step ::
  "('f::field, 'g::ab_group_add) suite \<Rightarrow> party_index \<Rightarrow> (party_index, 'g) btree_map \<Rightarrow> u8 list
   \<Rightarrow> 'g \<Rightarrow> u8 \<Rightarrow> (abort, 'g) outcome" where
  "dkg_window_step S me points window current_pk j =
     (let (num, den) = lagrange_loop window j in
      and_then (unwrap (invert den)) (\<lambda>inv.
      and_then (party_index_unwrap j) (\<lambda>idx.
      and_then (ok_or (recoverable me (MissingCommittedPoint idx)) (btree_get points idx)) (\<lambda>point_j.
        Ok (smul S point_j (num * inv) + current_pk)))))"

definition dkg_window ::
  "('f::field, 'g::ab_group_add) suite \<Rightarrow> bool \<Rightarrow> party_index \<Rightarrow> (party_index, 'g) btree_map \<Rightarrow> u8 \<Rightarrow> u8
   \<Rightarrow> (abort, 'g) outcome" where
  "dkg_window S oc me points t i =
     and_then (u8_add oc i t) (\<lambda>e. each (dkg_window_step S me points (u8_range i e)) 0 (u8_range i e))"

definition dkg_consistency_step ::
  "('f::field, 'g::ab_group_add) suite \<Rightarrow> bool \<Rightarrow> party_index \<Rightarrow> (party_index, 'g) btree_map \<Rightarrow> u8
   \<Rightarrow> 'g \<Rightarrow> u8 \<Rightarrow> (abort, 'g) outcome" where
  "dkg_consistency_step S oc me points t key i =
     and_then (dkg_window S oc me points t i) (\<lambda>current_pk.
       if i = 1 then Ok current_pk
       else if key \<noteq> current_pk then Err (recoverable me PolynomialInconsistency)
       else Ok key)"

definition dkg_step5 ::
  "('f::field, 'g::ab_group_add) suite \<Rightarrow> bool \<Rightarrow> parameters \<Rightarrow> party_index \<Rightarrow> bytes
   \<Rightarrow> ('f, 'g) proof_commitment list \<Rightarrow> (abort, 'g \<times> (party_index, 'g) btree_map) outcome" where
  "dkg_step5 S oc p me session_id proofs_commitments =
     and_then (each (dkg_gather_step S me session_id) [] proofs_commitments) (\<lambda>points.
     and_then (u8_sub oc (share_count p) (threshold p)) (\<lambda>d.
     and_then (u8_add oc d 1) (\<lambda>windows.
     and_then (each (dkg_consistency_step S oc me points (threshold p)) 0 (u8_range_incl 1 windows)) (\<lambda>key.
       Ok (key, points)))))"

section \<open>Phases\<close>

definition dkg_phase1 ::
  "bool \<Rightarrow> session_data \<Rightarrow> 'f::field rng \<Rightarrow> ('e, 'f list \<times> 'f rng) outcome" where
  "dkg_phase1 oc data r =
     (let (secret_polynomial, r1) = dkg_step1 (sd_parameters data) r in
      and_then (dkg_step2 oc (sd_parameters data) secret_polynomial) (\<lambda>fragments. Ok (fragments, r1)))"

text \<open>Phase 2, the loop over the parties: a committed seed for each other one.\<close>

definition dkg_phase2_step ::
  "('f, 'g) suite \<Rightarrow> party_index
   \<Rightarrow> ((party_index, keep_zero_2to3) btree_map \<times> transmit_zero_2to4 list) \<times> 'f rng \<Rightarrow> u8
   \<Rightarrow> ('e, ((party_index, keep_zero_2to3) btree_map \<times> transmit_zero_2to4 list) \<times> 'f rng) outcome" where
  "dkg_phase2_step S me st i =
     (let ((keep, transmit), r) = st in
      and_then (party_index_unwrap i) (\<lambda>idx.
      if idx = me then Ok ((keep, transmit), r)
      else let ((sd, commitment, salt), r1) = generate_seed_with_commitment S r in
        Ok ((btree_insert idx \<lparr>kz2_seed = sd, kz2_salt = salt\<rparr> keep,
             transmit @ [\<lparr>z2_parties = \<lparr>sender = me, receiver = idx\<rparr>, z2_commitment = commitment\<rparr>]), r1)))"

definition dkg_phase2 ::
  "('f::field, 'g) suite \<Rightarrow> bool \<Rightarrow> session_data \<Rightarrow> 'f list \<Rightarrow> 'f rng
   \<Rightarrow> ('e, ('f \<times> ('f, 'g) proof_commitment \<times> (party_index, keep_zero_2to3) btree_map
            \<times> transmit_zero_2to4 list \<times> keep_derivation_2to3 \<times> broadcast_derivation_2to4) \<times> 'f rng) outcome" where
  "dkg_phase2 S oc data poly_fragments r =
     (let me = sd_party_index data; n = share_count (sd_parameters data) in
      and_then (dkg_step3 S me (sd_session_id data) poly_fragments r) (\<lambda>((pp, pc), r1).
      and_then (u8_sub oc n 1) (\<lambda>_.
      and_then (each (dkg_phase2_step S me) (([], []), r1) (u8_range_incl 1 n)) (\<lambda>((zero_keep, zero_transmit), r2).
      let (aux, r3) = random_bytes CHAIN_CODE_LEN r2;
          ((cc_commitment, cc_salt), r4) = commit S aux r3 in
      Ok ((pp, pc, zero_keep, zero_transmit, \<lparr>kd_aux_chain_code = aux, kd_cc_salt = cc_salt\<rparr>,
           \<lparr>b2_sender_index = me, b2_cc_commitment = cc_commitment\<rparr>), r4)))))"

text \<open>The session id of a multiplication names its receiver and its sender.\<close>

definition mul_sid :: "party_index \<Rightarrow> party_index \<Rightarrow> bytes \<Rightarrow> bytes" where
  "mul_sid mul_receiver_idx mul_sender_idx session_id =
     concat [bytes_of ''Multiplication protocol'', [as_u8 mul_receiver_idx], [as_u8 mul_sender_idx], session_id]"

definition dkg_phase3_zero_step ::
  "party_index \<Rightarrow> (party_index, keep_zero_3to4) btree_map \<times> transmit_zero_3to4 list
   \<Rightarrow> party_index \<times> keep_zero_2to3
   \<Rightarrow> (party_index, keep_zero_3to4) btree_map \<times> transmit_zero_3to4 list" where
  "dkg_phase3_zero_step me st entry =
     (let (keep, transmit) = st; (target_party, kept) = entry in
      (btree_insert target_party \<lparr>kz3_seed = kz2_seed kept\<rparr> keep,
       transmit @ [\<lparr>z3_parties = \<lparr>sender = me, receiver = target_party\<rparr>, z3_seed = kz2_seed kept,
                    z3_salt = kz2_salt kept\<rparr>]))"

definition dkg_phase3_mul_step ::
  "('f::field, 'g::ab_group_add) suite \<Rightarrow> party_index \<Rightarrow> bytes
   \<Rightarrow> ((party_index, ('f, 'g) keep_mul_3to4) btree_map \<times> ('f, 'g) transmit_mul_3to4 list) \<times> 'f rng \<Rightarrow> u8
   \<Rightarrow> ('e, ((party_index, ('f, 'g) keep_mul_3to4) btree_map \<times> ('f, 'g) transmit_mul_3to4 list) \<times> 'f rng) outcome" where
  "dkg_phase3_mul_step S me session_id st i =
     (let ((keep, transmit), r) = st in
      and_then (party_index_unwrap i) (\<lambda>idx.
      if idx = me then Ok ((keep, transmit), r)
      else
      and_then (mul_receiver_init_phase1 S (mul_sid me idx session_id) r) (\<lambda>((sndr, pf, nonce), r1).
      and_then (mul_sender_init_phase1 S (mul_sid idx me session_id) r1) (\<lambda>((rcv, correlation, vec_r, es), r2).
      Ok ((btree_insert idx \<lparr>km_ot_sender = sndr, km_nonce = nonce, km_ot_receiver = rcv,
              km_correlation = correlation, km_vec_r = vec_r\<rparr> keep,
           transmit @ [\<lparr>tm_parties = \<lparr>sender = me, receiver = idx\<rparr>, tm_dlog_proof = pf, tm_nonce = nonce,
              tm_enc_proofs = es, tm_seed = ot_seed rcv\<rparr>]), r2)))))"

definition dkg_phase3 ::
  "('f::field, 'g::ab_group_add) suite \<Rightarrow> bool \<Rightarrow> session_data \<Rightarrow> (party_index, keep_zero_2to3) btree_map
   \<Rightarrow> keep_derivation_2to3 \<Rightarrow> 'f rng
   \<Rightarrow> ('e, ((party_index, keep_zero_3to4) btree_map \<times> transmit_zero_3to4 list
            \<times> (party_index, ('f, 'g) keep_mul_3to4) btree_map \<times> ('f, 'g) transmit_mul_3to4 list
            \<times> broadcast_derivation_3to4) \<times> 'f rng) outcome" where
  "dkg_phase3 S oc data zero_kept bip_kept r =
     (let me = sd_party_index data; n = share_count (sd_parameters data) in
      and_then (u8_sub oc n 1) (\<lambda>_.
      let (zero_keep, zero_transmit) = foldl (dkg_phase3_zero_step me) ([], []) zero_kept in
      and_then (each (dkg_phase3_mul_step S me (sd_session_id data)) (([], []), r) (u8_range_incl 1 n))
        (\<lambda>((mul_keep, mul_transmit), r1).
      Ok ((zero_keep, zero_transmit, mul_keep, mul_transmit,
           \<lparr>b3_sender_index = me, b3_aux_chain_code = kd_aux_chain_code bip_kept,
            b3_cc_salt = kd_cc_salt bip_kept\<rparr>), r1))))"

text \<open>Phase 4, the seeds: open the counterparty's commitment and combine the two seeds.\<close>

definition dkg_seed_pair ::
  "('f, 'g) suite \<Rightarrow> party_index \<Rightarrow> (party_index, transmit_zero_2to4) btree_map
   \<Rightarrow> (party_index, transmit_zero_3to4) btree_map \<Rightarrow> party_index \<times> keep_zero_3to4 \<Rightarrow> (abort, seed_pair) outcome" where
  "dkg_seed_pair S me received_2 received_3 entry =
     (let (target_party, kept) = entry in
      and_then (message_from me received_2 target_party) (\<lambda>m2.
      and_then (message_from me received_3 target_party) (\<lambda>m3.
      if \<not> verify_seed S (z3_seed m3) (z2_commitment m2) (z3_salt m3)
      then Err (recoverable me (ZeroShareDecommitFailed target_party))
      else Ok (generate_seed_pair me target_party (kz3_seed kept) (z3_seed m3)))))"

definition dkg_zero_share ::
  "('f, 'g) suite \<Rightarrow> party_index \<Rightarrow> (party_index, keep_zero_3to4) btree_map \<Rightarrow> transmit_zero_2to4 list
   \<Rightarrow> transmit_zero_3to4 list \<Rightarrow> (abort, zero_share) outcome" where
  "dkg_zero_share S me kept received_2 received_3 =
     and_then (file_by_sender me kept z2_parties received_2) (\<lambda>filed_2.
     and_then (file_by_sender me kept z3_parties received_3) (\<lambda>filed_3.
     and_then (check_count me kept filed_2) (\<lambda>_.
     and_then (check_count me kept filed_3) (\<lambda>_.
     and_then (collect_try (dkg_seed_pair S me filed_2 filed_3) kept) (\<lambda>ss.
       Ok (zero_share_initialize ss))))))"

text \<open>Phase 4, the multiplications: finish both roles with every counterparty.\<close>

definition mul_abort :: "party_index \<Rightarrow> party_index \<Rightarrow> error_ot \<Rightarrow> abort" where
  "mul_abort me target_party e =
     (case e of ErrorOT d \<Rightarrow> recoverable me (MultiplicationVerificationFailed target_party d))"

definition dkg_mul_step ::
  "('f::field, 'g::ab_group_add) suite \<Rightarrow> party_index \<Rightarrow> bytes
   \<Rightarrow> (party_index, ('f, 'g) transmit_mul_3to4) btree_map
   \<Rightarrow> (party_index, 'f mul_receiver) btree_map \<times> (party_index, 'f mul_sender) btree_map
   \<Rightarrow> party_index \<times> ('f, 'g) keep_mul_3to4
   \<Rightarrow> (abort, (party_index, 'f mul_receiver) btree_map \<times> (party_index, 'f mul_sender) btree_map) outcome" where
  "dkg_mul_step S me session_id filed st entry =
     (let (receivers, senders) = st; (target_party, kept) = entry in
      and_then (message_from me filed target_party) (\<lambda>m.
      and_then (map_err (mul_abort me target_party)
        (mul_receiver_init_phase2 S (km_ot_sender kept) (mul_sid me target_party session_id) (tm_seed m)
           (tm_enc_proofs m) (km_nonce kept))) (\<lambda>w.
      and_then (map_err (mul_abort me target_party)
        (mul_sender_init_phase2 S (mul_sid target_party me session_id) (km_correlation kept) (km_vec_r kept)
           (tm_dlog_proof m) (tm_nonce m))) (\<lambda>s.
      Ok (btree_insert target_party w receivers, btree_insert target_party s senders)))))"

definition dkg_mul ::
  "('f::field, 'g::ab_group_add) suite \<Rightarrow> party_index \<Rightarrow> bytes \<Rightarrow> (party_index, ('f, 'g) keep_mul_3to4) btree_map
   \<Rightarrow> ('f, 'g) transmit_mul_3to4 list
   \<Rightarrow> (abort, (party_index, 'f mul_receiver) btree_map \<times> (party_index, 'f mul_sender) btree_map) outcome" where
  "dkg_mul S me session_id kept received =
     and_then (file_by_sender me kept tm_parties received) (\<lambda>filed.
     and_then (check_count me kept filed) (\<lambda>_.
       each (dkg_mul_step S me session_id filed) ([], []) kept))"

text \<open>Phase 4, the chain code: open every party's commitment, in order, and XOR.\<close>

definition dkg_chain_code_step ::
  "('f, 'g) suite \<Rightarrow> party_index \<Rightarrow> (party_index, broadcast_derivation_2to4) btree_map
   \<Rightarrow> (party_index, broadcast_derivation_3to4) btree_map \<Rightarrow> bytes \<Rightarrow> u8 \<Rightarrow> (abort, bytes) outcome" where
  "dkg_chain_code_step S me received_2 received_3 cc i =
     and_then (party_index_unwrap i) (\<lambda>idx.
     and_then (message_from me received_3 idx) (\<lambda>m3.
     and_then (message_from me received_2 idx) (\<lambda>m2.
       if \<not> verify_commitment S (b3_aux_chain_code m3) (b2_cc_commitment m2) (b3_cc_salt m3)
       then Err (recoverable me (ChainCodeCommitmentFailed idx))
       else Ok (xor_n CHAIN_CODE_LEN cc (b3_aux_chain_code m3)))))"

definition dkg_chain_code ::
  "('f, 'g) suite \<Rightarrow> party_index \<Rightarrow> u8 \<Rightarrow> (party_index, broadcast_derivation_2to4) btree_map
   \<Rightarrow> (party_index, broadcast_derivation_3to4) btree_map \<Rightarrow> (abort, bytes) outcome" where
  "dkg_chain_code S me n received_2 received_3 =
     each (dkg_chain_code_step S me received_2 received_3) (replicate CHAIN_CODE_LEN 0) (u8_range_incl 1 n)"

text \<open>The party that phase 4 builds: the master node of the derivation tree.\<close>

definition dkg_party ::
  "session_data \<Rightarrow> 'f \<Rightarrow> 'g \<Rightarrow> zero_share \<Rightarrow> (party_index, 'f mul_sender) btree_map
   \<Rightarrow> (party_index, 'f mul_receiver) btree_map \<Rightarrow> bytes \<Rightarrow> string \<Rightarrow> ('f, 'g) party" where
  [simp]: "dkg_party data pp key zs senders receivers cc addr =
     \<lparr>party_parameters = sd_parameters data, party_index_of = sd_party_index data,
      party_session_id = sd_session_id data, poly_point = pp, pk = key, zero_share_of = zs,
      mul_senders = senders, mul_receivers = receivers,
      derivation_data = \<lparr>depth = 0, child_number = 0, parent_fingerprint = replicate 4 0,
        dd_poly_point = pp, dd_pk = key, chain_code = cc\<rparr>, address = addr\<rparr>"

text \<open>
  Phase 4. The \<open>share_count - 1\<close> that sizes a vector cannot overflow here: with no parties
  step 5 fails or returns the identity.
\<close>

definition dkg_phase4 ::
  "('f::field, 'g::ab_group_add) suite \<Rightarrow> bool \<Rightarrow> session_data \<Rightarrow> 'f \<Rightarrow> ('f, 'g) proof_commitment list
   \<Rightarrow> (party_index, keep_zero_3to4) btree_map \<Rightarrow> transmit_zero_2to4 list \<Rightarrow> transmit_zero_3to4 list
   \<Rightarrow> (party_index, ('f, 'g) keep_mul_3to4) btree_map \<Rightarrow> ('f, 'g) transmit_mul_3to4 list
   \<Rightarrow> (party_index, broadcast_derivation_2to4) btree_map \<Rightarrow> (party_index, broadcast_derivation_3to4) btree_map
   \<Rightarrow> ('g \<Rightarrow> string) \<Rightarrow> (abort, ('f, 'g) party \<times> 'g public_key_package) outcome" where
  "dkg_phase4 S oc data pp proofs_commitments zero_kept zero_received_2 zero_received_3 mul_kept mul_received
     bip_received_2 bip_received_3 address_fn =
     (let me = sd_party_index data; params = sd_parameters data; session_id = sd_session_id data in
      and_then (dkg_step5 S oc params me session_id proofs_commitments) (\<lambda>(key, shares).
      if key = 0 \<or> key = generator S then Err (recoverable me TrivialPublicKey)
      else if pp = 0 \<or> pp = 1 then Err (recoverable me TrivialKeyShare)
      else
      and_then (dkg_zero_share S me zero_kept zero_received_2 zero_received_3) (\<lambda>zs.
      and_then (dkg_mul S me session_id mul_kept mul_received) (\<lambda>(receivers, senders).
      and_then (dkg_chain_code S me (share_count params) bip_received_2 bip_received_3) (\<lambda>cc.
      Ok (dkg_party data pp key zs senders receivers cc (address_fn key), public_key_package_new key shares params))))))"

section \<open>The polynomial steps\<close>

lemma horner_fold:
  fixes x :: "'f::field"
  shows "fold (\<lambda>c e. e * x + c) (rev cs) e0 = horner (*) (cs @ [e0]) x"
  by (induction cs) simp_all

lemma dkg_step2_eq:
  assumes "length f = unat (threshold p)" and "threshold p \<noteq> 0"
  shows "dkg_step2 oc p f =
     (Ok (map (\<lambda>j. horner (*) f (scalar_of_u8 j)) (u8_range_incl 1 (share_count p))) :: ('e, 'f::field list) outcome)"
proof -
  from assms(2) have pos: "1 \<le> unat (threshold p)" by (simp add: Suc_le_eq unat_gt_0)
  then have l: "unat (threshold p - 1) = length f - 1" using assms(1) by (simp add: unat_sub word_le_nat_alt)
  have "f \<noteq> []" using pos assms(1) by auto
  then have f: "take (length f - 1) f @ [f ! (length f - 1)] = f"
    by (metis append_butlast_last_id butlast_conv_take last_conv_nth)
  have idx: "index f (length f - 1) = (Ok (f ! (length f - 1)) :: ('e, 'f) outcome)" using \<open>f \<noteq> []\<close> by simp
  have "collect_try (\<lambda>j. and_then (index f (length f - 1)) (\<lambda>top.
         Ok (fold (\<lambda>c e. e * scalar_of_u8 j + c) (rev (take (length f - 1) f)) top)))
       (u8_range_incl 1 (share_count p)) =
     (Ok (map (\<lambda>j. horner (*) f (scalar_of_u8 j)) (u8_range_incl 1 (share_count p))) :: ('e, 'f list) outcome)"
    by (rule collect_try_total) (simp only: idx and_then.simps horner_fold f)
  then show ?thesis using pos by (simp add: dkg_step2_def u8_sub_exact Let_def l)
qed

lemma dkg_phase1_eq:
  assumes "threshold (sd_parameters data) \<noteq> 0"
  shows "\<exists>f r'. dkg_step1 (sd_parameters data) r = (f, r') \<and> length f = unat (threshold (sd_parameters data)) \<and>
     dkg_phase1 oc data r =
       (Ok (map (\<lambda>j. horner (*) f (scalar_of_u8 j)) (u8_range_incl 1 (share_count (sd_parameters data))), r')
        :: ('e, 'f::field list \<times> 'f rng) outcome)"
proof -
  obtain f r' where f: "dkg_step1 (sd_parameters data) r = (f, r')" by fastforce
  moreover from this have "length f = unat (threshold (sd_parameters data))"
    using draw_list_length [of "\<lambda>_. random_scalar" "[0..<unat (threshold (sd_parameters data))]" r]
    by (simp add: dkg_step1_def)
  ultimately show ?thesis using dkg_step2_eq [where 'e = 'e, of f "sd_parameters data" oc] assms
    by (simp add: dkg_phase1_def)
qed

text \<open>A window of \<open>u8\<close> indices, and the sum its loop computes.\<close>

lemma unat_u8_add_exact: "unat a + unat b < 256 \<Longrightarrow> unat (a + b :: u8) = unat a + unat b"
  by (simp add: unat_u8_plus)

lemma distinct_u8_range: "distinct (u8_range a b)"
  unfolding u8_range_def by (rule distinct_u8_map) (auto intro: less_trans [OF _ unat_u8_bound])

lemma length_u8_range: "length (u8_range a b) = unat b - unat a"
  by (simp add: u8_range_def)

lemma party_index_unwrap_eq_Ok_iff:
  "party_index_unwrap j = Ok idx \<longleftrightarrow> j \<noteq> 0 \<and> idx = PartyIndex j"
  by (auto simp: party_index_unwrap_def party_index_new_def)

definition point_at :: "(party_index, 'g::zero) btree_map \<Rightarrow> u8 \<Rightarrow> 'g" where
  "point_at points j = (case btree_get points (PartyIndex j) of None \<Rightarrow> 0 | Some P \<Rightarrow> P)"

lemma dkg_window_step_eq_Ok_iff:
  assumes "scalars_ok (S :: ('f::field, 'g::ab_group_add) suite)" and "distinct W"
  shows "dkg_window_step S me points W acc j = Ok v \<longleftrightarrow>
     j \<noteq> 0 \<and> btree_contains points (PartyIndex j) \<and>
     v = smul S (point_at points j) (lagrange_zero W j) + acc"
proof -
  obtain num den where nd: "lagrange_loop W j = (num, den :: 'f)" by fastforce
  have den: "den \<noteq> 0" and z: "num * inverse den = lagrange_zero W j"
    using lagrange_loop_ok [OF assms, of j] by (simp_all add: nd)
  show ?thesis using den
    by (auto simp: dkg_window_step_def nd invert_def outcome_simps party_index_unwrap_eq_Ok_iff z
        point_at_def btree_contains_iff split: if_splits)
qed

lemma dkg_window_sum:
  assumes "scalars_ok (S :: ('f::field, 'g::ab_group_add) suite)" and "distinct W" and "distinct js"
  shows "each (dkg_window_step S me points W) acc js = Ok v \<longleftrightarrow>
     (\<forall>j\<in>set js. j \<noteq> 0 \<and> btree_contains points (PartyIndex j)) \<and>
     v = acc + (\<Sum>j\<in>set js. smul S (point_at points j) (lagrange_zero W j))"
  using assms(3)
  by (induction js arbitrary: acc)
    (auto simp: outcome_simps dkg_window_step_eq_Ok_iff [OF assms(1,2)] algebra_simps)

lemma dkg_window_eq_Ok_iff:
  assumes "scalars_ok (S :: ('f::field, 'g::ab_group_add) suite)" and "unat i + unat t < 256"
  shows "dkg_window S oc me points t i = Ok v \<longleftrightarrow>
     (\<forall>j\<in>set (u8_range i (i + t)). j \<noteq> 0 \<and> btree_contains points (PartyIndex j)) \<and>
     v = (\<Sum>j\<in>set (u8_range i (i + t)). smul S (point_at points j) (lagrange_zero (u8_range i (i + t)) j))"
  using dkg_window_sum [OF assms(1) distinct_u8_range distinct_u8_range, of me points i "i + t" 0 i "i + t" v]
  by (simp add: dkg_window_def u8_add_exact [OF assms(2)])

lemma dkg_gather_step_eq_Ok_iff:
  "dkg_gather_step S me sid m pc = Ok m' \<longleftrightarrow>
     (pc_index pc \<noteq> me \<longrightarrow> decommit_verify S (pc_proof pc) (pc_commitment pc) sid) \<and>
     m' = btree_insert (pc_index pc) (dlog_point (pc_proof pc)) m"
  by (auto simp: dkg_gather_step_def)

lemma dkg_gather_sound:
  assumes "each (dkg_gather_step S me sid) m0 pcs = Ok m" and "btree_wf m0"
  shows "btree_wf m \<and> (\<forall>pc\<in>set pcs. pc_index pc \<noteq> me \<longrightarrow> decommit_verify S (pc_proof pc) (pc_commitment pc) sid) \<and>
     (\<forall>k. btree_contains m k \<longleftrightarrow> btree_contains m0 k \<or> k \<in> pc_index ` set pcs) \<and>
     (\<forall>k P. btree_get m k = Some P \<longrightarrow> btree_get m0 k = Some P \<or>
        (\<exists>pc\<in>set pcs. pc_index pc = k \<and> P = dlog_point (pc_proof pc)))"
  using assms
proof (induction pcs arbitrary: m0)
  case Nil
  then show ?case by simp
next
  case (Cons pc pcs)
  let ?m = "btree_insert (pc_index pc) (dlog_point (pc_proof pc)) m0"
  from Cons.prems have ok: "pc_index pc \<noteq> me \<longrightarrow> decommit_verify S (pc_proof pc) (pc_commitment pc) sid"
    and rest: "each (dkg_gather_step S me sid) ?m pcs = Ok m"
    by (auto simp: dkg_gather_step_eq_Ok_iff outcome_simps)
  have get: "btree_get ?m j = (if j = pc_index pc then Some (dlog_point (pc_proof pc)) else btree_get m0 j)" for j
    by (rule btree_get_insert [OF Cons.prems(2)])
  have contains: "btree_contains ?m j \<longleftrightarrow> btree_contains m0 j \<or> j = pc_index pc" for j
    by (simp add: btree_contains_iff get)
  have IH: "btree_wf m" "\<forall>pc\<in>set pcs. pc_index pc \<noteq> me \<longrightarrow> decommit_verify S (pc_proof pc) (pc_commitment pc) sid"
    "\<And>k. btree_contains m k \<longleftrightarrow> btree_contains ?m k \<or> k \<in> pc_index ` set pcs"
    "\<And>k P. btree_get m k = Some P \<Longrightarrow> btree_get ?m k = Some P \<or>
        (\<exists>pc\<in>set pcs. pc_index pc = k \<and> P = dlog_point (pc_proof pc))"
    using Cons.IH [OF rest btree_wf_insert [OF Cons.prems(2)]] by blast+
  have "btree_get m0 k = Some P \<or> (\<exists>pc\<in>set (pc # pcs). pc_index pc = k \<and> P = dlog_point (pc_proof pc))"
    if "btree_get m k = Some P" for k P
    using IH(4) [OF that] by (auto simp: get split: if_splits)
  then show ?case using IH(1,2) ok by (auto simp: IH(3) contains)
qed

lemma dkg_gather_total:
  assumes "\<And>pc. pc \<in> set pcs \<Longrightarrow> pc_index pc \<noteq> me \<Longrightarrow> decommit_verify S (pc_proof pc) (pc_commitment pc) sid"
  shows "\<exists>m. each (dkg_gather_step S me sid) m0 pcs = Ok m"
  using assms by (induction pcs arbitrary: m0) (auto simp: dkg_gather_step_def)

text \<open>The loop over the windows: the first sets the key, the others must agree with it.\<close>

lemma dkg_consistency_step_eq_Ok_iff:
  "dkg_consistency_step S oc me points t key i = Ok v \<longleftrightarrow>
     dkg_window S oc me points t i = Ok v \<and> (i = 1 \<or> v = key)"
  by (auto simp: dkg_consistency_step_def outcome_simps)

lemma dkg_consistency_later:
  assumes "1 \<notin> set is"
  shows "each (dkg_consistency_step S oc me points t) key is = Ok v \<longleftrightarrow>
     v = key \<and> (\<forall>i\<in>set is. dkg_window S oc me points t i = Ok key)"
  using assms by (induction "is") (auto simp: dkg_consistency_step_eq_Ok_iff outcome_simps)

lemma u8_range_incl_1: "n \<noteq> 0 \<Longrightarrow> u8_range_incl 1 n = 1 # u8_range_incl 2 n"
proof -
  assume "n \<noteq> 0"
  then have "1 < Suc (unat n)" by (simp add: unat_gt_0)
  then have "[1..<Suc (unat n)] = 1 # [2..<Suc (unat n)]"
    by (simp only: upt_conv_Cons one_add_one [symmetric] Suc_eq_plus1)
  moreover have "unat (1 :: u8) = 1" "unat (2 :: u8) = 2" by simp_all
  ultimately show ?thesis by (simp only: u8_range_incl_def list.map of_nat_1)
qed

lemma dkg_consistency_loop:
  assumes "w \<noteq> 0"
  shows "each (dkg_consistency_step S oc me points t) key0 (u8_range_incl 1 w) = Ok key \<longleftrightarrow>
     (\<forall>i\<in>set (u8_range_incl 1 w). dkg_window S oc me points t i = Ok key)"
proof -
  have "1 \<notin> set (u8_range_incl 2 w)" by (auto simp: u8_range_incl_eq)
  note later = dkg_consistency_later [OF this]
  show ?thesis unfolding u8_range_incl_1 [OF assms]
    by (auto simp: dkg_consistency_step_eq_Ok_iff outcome_simps later)
qed

definition valid_parameters :: "parameters \<Rightarrow> bool" where
  "valid_parameters p \<longleftrightarrow> 1 \<le> unat (threshold p) \<and> unat (threshold p) \<le> unat (share_count p)"

lemma parameters_new_valid: "parameters_new t n = Ok p \<Longrightarrow> valid_parameters p"
  by (auto simp: parameters_new_def valid_parameters_def word_le_nat_alt word_less_nat_alt split: if_splits)

lemma dkg_windows:
  assumes "valid_parameters p"
  shows "\<exists>w. u8_sub oc (share_count p) (threshold p) = (Ok (w - 1) :: ('e, u8) outcome) \<and>
     u8_add oc (w - 1) 1 = (Ok w :: ('e, u8) outcome) \<and> w \<noteq> 0 \<and>
     unat w = unat (share_count p) - unat (threshold p) + 1"
proof -
  let ?d = "share_count p - threshold p"
  have d: "unat ?d = unat (share_count p) - unat (threshold p)"
    using assms by (simp add: unat_sub word_le_nat_alt valid_parameters_def)
  then have "unat ?d + 1 < 256" using assms unat_u8_bound [of "share_count p"]
    unfolding valid_parameters_def by linarith
  then have w: "unat (?d + 1) = unat ?d + 1" using unat_u8_add_exact [of ?d 1] by simp
  then have "?d + 1 \<noteq> 0" by (metis add_is_0 one_neq_zero unat_0)
  then show ?thesis using assms \<open>unat ?d + 1 < 256\<close> w d
    by (intro exI [of _ "?d + 1"]) (simp add: u8_sub_exact u8_add_exact valid_parameters_def)
qed

section \<open>Overlapping windows pin down one polynomial\<close>

lemma interpolate_u8:
  assumes S: "scalars_ok (S :: ('f::field, 'g) suite)" and act: "action_ok act" and d: "distinct W"
  shows "\<exists>cs. length cs = length W \<and> (\<forall>j\<in>set W. horner act cs (scalar_of_u8 j :: 'f) = v j)"
proof -
  note inj = inj_scalar_of_u8 [OF S]
  have "distinct (map scalar_of_u8 W :: 'f list)"
    using d inj_on_subset [OF inj subset_UNIV] by (simp add: distinct_map)
  from interpolation_exists [OF act this, of "\<lambda>a. v (inv scalar_of_u8 a)"]
  show ?thesis by (auto simp: inv_f_f [OF inj])
qed

lemma scalar_of_u8_zero: "scalars_ok (S :: ('f::field, 'g) suite) \<Longrightarrow> (scalar_of_u8 j :: 'f) = 0 \<longleftrightarrow> j = 0"
  using scalar_of_u8_inject [of S j 0] by (simp add: scalar_of_u8_def)

lemma windows_one_polynomial:
  fixes act :: "'g::ab_group_add \<Rightarrow> 'f::field \<Rightarrow> 'g" and v :: "u8 \<Rightarrow> 'g"
  assumes S: "scalars_ok (S :: ('f, 'h) suite)" and act: "action_ok act"
    and t: "1 \<le> unat t" "unat t \<le> n" "n < 255"
    and windows: "\<And>i. 1 \<le> unat i \<Longrightarrow> unat i + unat t \<le> n + 1 \<Longrightarrow>
      (\<Sum>j\<in>set (u8_range i (i + t)). act (v j) (lagrange_zero (u8_range i (i + t)) j)) = key"
  shows "\<exists>cs. length cs = unat t \<and> horner act cs 0 = key \<and>
    (\<forall>j. 1 \<le> unat j \<and> unat j \<le> n \<longrightarrow> v j = horner act cs (scalar_of_u8 j))"
proof -
  let ?W = "\<lambda>i. u8_range i (i + t)"
  have wsum: "unat (i + t) = unat i + unat t" if "unat i + unat t \<le> n + 1" for i
    using that t by (intro unat_u8_add_exact) simp
  have wlen: "length (?W i) = unat t" if "unat i + unat t \<le> n + 1" for i
    by (simp add: length_u8_range wsum [OF that])
  have poly: "\<exists>cs. length cs = unat t \<and> horner act cs 0 = key \<and> (\<forall>j\<in>set (?W i). horner act cs (scalar_of_u8 j) = v j)"
    if i: "1 \<le> unat i" "unat i + unat t \<le> n + 1" for i
  proof -
    obtain cs where cs: "length cs = length (?W i)" "\<forall>j\<in>set (?W i). horner act cs (scalar_of_u8 j) = v j"
      using interpolate_u8 [OF S act distinct_u8_range] by blast
    have "horner act cs 0 = (\<Sum>j\<in>set (?W i). act (horner act cs (scalar_of_u8 j)) (lagrange_zero (?W i) j))"
      using cs(1) by (intro lagrange_zero_recovers [OF S act distinct_u8_range, symmetric]) simp
    also have "\<dots> = key" using cs(2) windows [OF i] by simp
    finally show ?thesis using cs wlen [OF i(2)] by auto
  qed
  have "unat (1 :: u8) + unat t \<le> n + 1" using t by simp
  from poly [OF _ this] obtain C where C: "length C = unat t" "horner act C 0 = key"
    and C1: "\<forall>j\<in>set (?W 1). horner act C (scalar_of_u8 j) = v j" by auto
  have main: "v j = horner act C (scalar_of_u8 j)" if "1 \<le> unat j" "unat j \<le> m" "m \<le> n" for j m
    using that
  proof (induction m arbitrary: j)
    case 0
    then show ?case by simp
  next
    case (Suc m)
    show ?case
    proof (cases "unat j \<le> unat t")
      case True
      then have "j \<in> set (?W 1)" using Suc.prems wsum [of 1] t by (simp add: set_u8_range)
      then show ?thesis using C1 by simp
    next
      case False
      define i :: u8 where "i = of_nat (unat j + 1 - unat t)"
      have i: "unat i = unat j + 1 - unat t" unfolding i_def
        using t Suc.prems by (intro unat_of_nat_u8) simp
      have r: "1 \<le> unat i" "unat i + unat t \<le> n + 1" "unat i + unat t = unat j + 1"
        using i False Suc.prems t by simp_all
      from poly [OF r(1,2)] obtain D where D: "length D = unat t" "horner act D 0 = key"
        and D1: "\<forall>j\<in>set (?W i). horner act D (scalar_of_u8 j) = v j" by blast
      let ?N = "insert 0 (scalar_of_u8 ` set (u8_range i j)) :: 'f set"
      have inW: "set (u8_range i j) \<subseteq> set (?W i)" "j \<in> set (?W i)"
        using r wsum [OF r(2)] t by (auto simp: set_u8_range)
      have card: "card ?N = unat t"
      proof -
        have "card (scalar_of_u8 ` set (u8_range i j) :: 'f set) = card (set (u8_range i j))"
          by (rule card_image) (rule inj_on_subset [OF inj_scalar_of_u8 [OF S] subset_UNIV])
        also have "\<dots> = unat t - 1"
          using r by (simp add: distinct_card [OF distinct_u8_range] length_u8_range)
        finally have "card (scalar_of_u8 ` set (u8_range i j) :: 'f set) = unat t - 1" .
        moreover have "(0 :: 'f) \<notin> scalar_of_u8 ` set (u8_range i j)"
          using r(1) scalar_of_u8_zero [OF S] by (auto simp: set_u8_range)
        ultimately show ?thesis using t by simp
      qed
      have "horner act D (scalar_of_u8 j) = horner act C (scalar_of_u8 j)"
      proof (rule poly_fun_agree [OF act, of "unat t" _ _ ?N])
        show "poly_fun act (unat t) (horner act D)" "poly_fun act (unat t) (horner act C)"
          using poly_fun_horner [of act D] poly_fun_horner [of act C] by (simp_all add: C D)
        fix a
        assume "a \<in> ?N"
        then consider "a = 0" | k where "k \<in> set (u8_range i j)" "a = scalar_of_u8 k" by blast
        then show "horner act D a = horner act C a"
        proof cases
          case 1
          then show ?thesis by (simp add: C D)
        next
          case 2
          then have "unat k < unat j" "1 \<le> unat k" using r(1) by (simp_all add: set_u8_range)
          then have "v k = horner act C (scalar_of_u8 k)" using Suc.prems by (intro Suc.IH) simp_all
          moreover have "horner act D (scalar_of_u8 k) = v k" using D1 inW(1) 2(1) by blast
          ultimately show ?thesis by (simp add: 2(2))
        qed
      qed (simp_all add: card)
      moreover have "horner act D (scalar_of_u8 j) = v j" using D1 inW(2) by blast
      ultimately show ?thesis by simp
    qed
  qed
  show ?thesis using C main [OF _ _ order_refl] by blast
qed

section \<open>Step 5\<close>

lemma dkg_step5_eq_Ok_iff:
  assumes S: "scalars_ok (S :: ('f::field, 'g::ab_group_add) suite)"
    and p: "valid_parameters p" "unat (share_count p) < 255"
  shows "dkg_step5 S oc p me sid pcs = Ok (key, points) \<longleftrightarrow>
     each (dkg_gather_step S me sid) [] pcs = Ok points \<and>
     (\<forall>i. 1 \<le> unat i \<longrightarrow> unat i + unat (threshold p) \<le> unat (share_count p) + 1 \<longrightarrow>
        (\<forall>j\<in>set (u8_range i (i + threshold p)). btree_contains points (PartyIndex j)) \<and>
        key = (\<Sum>j\<in>set (u8_range i (i + threshold p)).
                 smul S (point_at points j) (lagrange_zero (u8_range i (i + threshold p)) j)))"
proof -
  obtain w where w: "u8_sub oc (share_count p) (threshold p) = (Ok (w - 1) :: (abort, u8) outcome)"
    "u8_add oc (w - 1) 1 = (Ok w :: (abort, u8) outcome)" "w \<noteq> 0"
    "unat w = unat (share_count p) - unat (threshold p) + 1"
    using dkg_windows [OF p(1), of oc] by blast
  have range: "i \<in> set (u8_range_incl 1 w) \<longleftrightarrow> 1 \<le> unat i \<and> unat i + unat (threshold p) \<le> unat (share_count p) + 1" for i
    using p(1) by (auto simp: u8_range_incl_eq w(4) valid_parameters_def)
  have window: "dkg_window S oc me points (threshold p) i = Ok key \<longleftrightarrow>
      (\<forall>j\<in>set (u8_range i (i + threshold p)). btree_contains points (PartyIndex j)) \<and>
      key = (\<Sum>j\<in>set (u8_range i (i + threshold p)).
                 smul S (point_at points j) (lagrange_zero (u8_range i (i + threshold p)) j))"
    if i: "1 \<le> unat i" "unat i + unat (threshold p) \<le> unat (share_count p) + 1" for i points
  proof -
    have s: "unat i + unat (threshold p) < 256" using i p(2) by simp
    have "\<forall>j\<in>set (u8_range i (i + threshold p)). j \<noteq> 0" using i(1) by (auto simp: set_u8_range)
    then show ?thesis using dkg_window_eq_Ok_iff [OF S s, of oc me points key] by blast
  qed
  show ?thesis
    by (auto simp: dkg_step5_def outcome_simps w(1,2) dkg_consistency_loop [OF w(3)] range window)
qed

text \<open>The facts behind the soundness of step 5, which refresh uses too.\<close>

lemma dkg_step5_polynomial:
  assumes "suite_ok S" and "valid_parameters p" and "unat (share_count p) < 255"
    and "dkg_step5 S oc p me sid pcs = Ok (key, points)"
  shows "(\<forall>pc\<in>set pcs. pc_index pc \<noteq> me \<longrightarrow> decommit_verify S (pc_proof pc) (pc_commitment pc) sid) \<and>
     (\<exists>cs. length cs = unat (threshold p) \<and> key = horner (smul S) cs 0 \<and>
        (\<forall>j. 1 \<le> unat j \<and> unat j \<le> unat (share_count p) \<longrightarrow>
           btree_get points (PartyIndex j) = Some (horner (smul S) cs (scalar_of_u8 j)))) \<and>
     (\<forall>ps. distinct ps \<and> unat (threshold p) \<le> length ps \<and> (\<forall>j\<in>set ps. 1 \<le> unat j \<and> unat j \<le> unat (share_count p)) \<longrightarrow>
        (\<Sum>j\<in>set ps. smul S (point_at points j) (lagrange_zero ps j)) = key)"
proof -
  note S = suite_okD(1,3) [OF assms(1)] and act = action_ok_smul [OF suite_okD(1) [OF assms(1)]]
  note ok = assms(4) [unfolded dkg_step5_eq_Ok_iff [OF S(2) assms(2,3)]]
  have v: "\<forall>pc\<in>set pcs. pc_index pc \<noteq> me \<longrightarrow> decommit_verify S (pc_proof pc) (pc_commitment pc) sid"
    using dkg_gather_sound [OF conjunct1 [OF ok]] by simp
  have "\<exists>cs. length cs = unat (threshold p) \<and> horner (smul S) cs 0 = key \<and>
    (\<forall>j. 1 \<le> unat j \<and> unat j \<le> unat (share_count p) \<longrightarrow> point_at points j = horner (smul S) cs (scalar_of_u8 j))"
    using ok assms(2,3) by (intro windows_one_polynomial [OF S(2) act]) (auto simp: valid_parameters_def)
  then obtain cs where cs: "length cs = unat (threshold p)" "horner (smul S) cs 0 = key"
    and pt: "\<And>j. 1 \<le> unat j \<Longrightarrow> unat j \<le> unat (share_count p) \<Longrightarrow> point_at points j = horner (smul S) cs (scalar_of_u8 j)"
    by blast
  have contains: "btree_contains points (PartyIndex j)" if j: "1 \<le> unat j" "unat j \<le> unat (share_count p)" for j
  proof -
    define i :: u8 where "i = of_nat (if unat j < unat (threshold p) then 1 else unat j + 1 - unat (threshold p))"
    have i: "unat i = (if unat j < unat (threshold p) then 1 else unat j + 1 - unat (threshold p))"
      unfolding i_def using j assms(2,3) by (intro unat_of_nat_u8) (auto simp: valid_parameters_def)
    have r: "1 \<le> unat i" "unat i + unat (threshold p) \<le> unat (share_count p) + 1"
      using i j assms(2) by (auto simp: valid_parameters_def)
    then have "unat (i + threshold p) = unat i + unat (threshold p)"
      using assms(3) by (intro unat_u8_add_exact) simp
    then have "j \<in> set (u8_range i (i + threshold p))"
      using i j assms(2) by (auto simp: set_u8_range valid_parameters_def)
    then show ?thesis using ok r by blast
  qed
  have "btree_get points (PartyIndex j) = Some (horner (smul S) cs (scalar_of_u8 j))"
    if "1 \<le> unat j" "unat j \<le> unat (share_count p)" for j
    using contains [OF that] pt [OF that] by (auto simp: btree_contains_iff point_at_def)
  moreover have "(\<Sum>j\<in>set ps. smul S (point_at points j) (lagrange_zero ps j)) = key"
    if "distinct ps" "unat (threshold p) \<le> length ps" "\<forall>j\<in>set ps. 1 \<le> unat j \<and> unat j \<le> unat (share_count p)" for ps
  proof -
    have "(\<Sum>j\<in>set ps. smul S (horner (smul S) cs (scalar_of_u8 j)) (lagrange_zero ps j)) = horner (smul S) cs 0"
      using cs(1) that(2) by (intro lagrange_zero_recovers [OF S(2) act that(1)]) simp
    then show ?thesis using pt that(3) cs(2) by simp
  qed
  ultimately show ?thesis using v cs by blast
qed

text \<open>
  C7: step 5 is sound. Whatever proofs and points the other parties sent, if it accepts, then
  every other party's proof was verified against its commitment, the points of all parties
  lie on one polynomial in the exponent with \<open>threshold\<close> coefficients, the key is its constant
  term, and every set of at least \<open>threshold\<close> parties reconstructs the key.
\<close>

theorem dkg_step5_sound:
  assumes "suite_ok S" and "valid_parameters p" and "unat (share_count p) < 255"
    and "dkg_step5 S oc p me sid pcs = Ok (key, points)"
  shows "(\<forall>pc\<in>set pcs. pc_index pc \<noteq> me \<longrightarrow> decommit_verify S (pc_proof pc) (pc_commitment pc) sid) \<and>
     (\<exists>cs. length cs = unat (threshold p) \<and> key = horner (smul S) cs 0 \<and>
        (\<forall>j. 1 \<le> unat j \<and> unat j \<le> unat (share_count p) \<longrightarrow>
           btree_get points (PartyIndex j) = Some (horner (smul S) cs (scalar_of_u8 j)))) \<and>
     (\<forall>ps. distinct ps \<and> unat (threshold p) \<le> length ps \<and> (\<forall>j\<in>set ps. 1 \<le> unat j \<and> unat j \<le> unat (share_count p)) \<longrightarrow>
        (\<Sum>j\<in>set ps. smul S (point_at points j) (lagrange_zero ps j)) = key)"
  using dkg_step5_polynomial [OF assms] .

text \<open>Conversely, points on one polynomial are accepted, wherever they come from.\<close>

lemma dkg_step5_from_points:
  assumes S: "suite_ok (S :: ('f::field, 'g::ab_group_add) suite)" and p: "valid_parameters p" "unat (share_count p) < 255"
    and cs: "length cs \<le> unat (threshold p)"
    and g: "each (dkg_gather_step S me sid) [] pcs = Ok points"
    and get: "\<And>j. 1 \<le> unat j \<Longrightarrow> unat j \<le> unat (share_count p) \<Longrightarrow>
      btree_get points (PartyIndex j) = Some (horner (smul S) cs (scalar_of_u8 j))"
  shows "dkg_step5 S oc p me sid pcs = Ok (horner (smul S) cs 0, points)"
proof -
  note S' = suite_okD(1,3) [OF S] and act = action_ok_smul [OF suite_okD(1) [OF S]]
  have "(\<forall>j\<in>set (u8_range i (i + threshold p)). btree_contains points (PartyIndex j)) \<and>
        horner (smul S) cs 0 = (\<Sum>j\<in>set (u8_range i (i + threshold p)).
                 smul S (point_at points j) (lagrange_zero (u8_range i (i + threshold p)) j))"
    if i: "1 \<le> unat i" "unat i + unat (threshold p) \<le> unat (share_count p) + 1" for i
  proof -
    have e: "unat (i + threshold p) = unat i + unat (threshold p)"
      using i p(2) by (intro unat_u8_add_exact) simp
    have range: "1 \<le> unat j \<and> unat j \<le> unat (share_count p)" if "j \<in> set (u8_range i (i + threshold p))" for j
      using that i e by (simp add: set_u8_range)
    have "(\<Sum>j\<in>set (u8_range i (i + threshold p)). smul S (horner (smul S) cs (scalar_of_u8 j))
        (lagrange_zero (u8_range i (i + threshold p)) j)) = horner (smul S) cs 0"
      using cs by (intro lagrange_zero_recovers [OF S'(2) act distinct_u8_range]) (simp add: length_u8_range e)
    then show ?thesis using range get by (simp add: btree_contains_iff point_at_def)
  qed
  then show ?thesis unfolding dkg_step5_eq_Ok_iff [OF S'(2) p] using g by blast
qed

lemma dkg_step5_complete:
  assumes S: "suite_ok (S :: ('f::field, 'g::ab_group_add) suite)" and p: "valid_parameters p" "unat (share_count p) < 255"
    and cs: "length cs \<le> unat (threshold p)"
    and all: "\<And>j. 1 \<le> unat j \<Longrightarrow> unat j \<le> unat (share_count p) \<Longrightarrow> PartyIndex j \<in> pc_index ` set pcs"
    and ok: "\<And>pc. pc \<in> set pcs \<Longrightarrow> pc_index pc \<noteq> me \<Longrightarrow> decommit_verify S (pc_proof pc) (pc_commitment pc) sid"
    and pt: "\<And>pc. pc \<in> set pcs \<Longrightarrow> dlog_point (pc_proof pc) = horner (smul S) cs (scalar_of_u8 (as_u8 (pc_index pc)))"
  shows "\<exists>points. dkg_step5 S oc p me sid pcs = Ok (horner (smul S) cs 0, points) \<and> btree_wf points \<and>
     (\<forall>k. btree_contains points k \<longleftrightarrow> k \<in> pc_index ` set pcs) \<and>
     (\<forall>k P. btree_get points k = Some P \<longrightarrow> P = horner (smul S) cs (scalar_of_u8 (as_u8 k)))"
proof -
  obtain points where g: "each (dkg_gather_step S me sid) [] pcs = Ok points"
    using dkg_gather_total ok by blast
  note gs = dkg_gather_sound [OF g btree_wf_Nil]
  have get: "P = horner (smul S) cs (scalar_of_u8 (as_u8 k))" if "btree_get points k = Some P" for k P
    using gs that pt by fastforce
  have contains: "btree_contains points k \<longleftrightarrow> k \<in> pc_index ` set pcs" for k
    using gs by (simp add: btree_contains_def)
  have "btree_get points (PartyIndex j) = Some (horner (smul S) cs (scalar_of_u8 j))"
    if "1 \<le> unat j" "unat j \<le> unat (share_count p)" for j
    using contains [of "PartyIndex j"] all [OF that] get [of "PartyIndex j"] by (auto simp: btree_contains_iff)
  from dkg_step5_from_points [OF S p cs g this] show ?thesis using gs contains get by blast
qed

text \<open>With 255 parties step 5 accepts nothing but the identity.\<close>

lemma dkg_step5_255:
  assumes "valid_parameters p" and n: "share_count p = 255"
    and ok: "dkg_step5 S oc p me sid pcs = Ok (key, points)"
  shows "key = 0"
proof -
  obtain w where w: "u8_sub oc (share_count p) (threshold p) = (Ok (w - 1) :: (abort, u8) outcome)"
    "u8_add oc (w - 1) 1 = (Ok w :: (abort, u8) outcome)" "w \<noteq> 0"
    "unat w = unat (share_count p) - unat (threshold p) + 1"
    using dkg_windows [OF assms(1), of oc] by blast
  have sum: "unat w + unat (threshold p) = 256"
    using w(4) assms(1) by (simp add: n valid_parameters_def)
  then have "unat (w + threshold p) = 0" by (simp add: unat_u8_plus)
  then have z: "w + threshold p = 0" by (simp only: unat_eq_0)
  have "w \<in> set (u8_range_incl 1 w)" using w(3) by (simp add: u8_range_incl_eq Suc_le_eq unat_gt_0)
  then have "dkg_window S oc me points (threshold p) w = Ok key"
    using ok unfolding dkg_step5_def w(1) and_then.simps w(2)
    by (auto simp: outcome_simps dkg_consistency_loop [OF w(3)])
  then show ?thesis using sum by (auto simp: dkg_window_def u8_add_def outcome_simps z u8_range_def split: if_splits)
qed

text \<open>
  C39: a group of 255 parties, which \<open>Parameters::new\<close> accepts, can never finish key
  generation: the end of the last window is 256, so it overflows (a panic in a debug build)
  or wraps to the empty window, whose sum is the identity, and then either the windows
  disagree or the public key is refused as trivial. No input makes phase 4 succeed.
\<close>

theorem dkg_255_parties_never_finish:
  assumes "valid_parameters (sd_parameters data)" and "share_count (sd_parameters data) = 255"
  shows "dkg_phase4 S oc data pp pcs zk z2 z3 mk mr b2 b3 address_fn \<noteq> Ok res"
proof
  assume "dkg_phase4 S oc data pp pcs zk z2 z3 mk mr b2 b3 address_fn = Ok res"
  then obtain key points where "dkg_step5 S oc (sd_parameters data) (sd_party_index data) (sd_session_id data) pcs = Ok (key, points)"
    and "key \<noteq> 0"
    by (auto simp: dkg_phase4_def Let_def outcome_simps split: if_splits)
  with dkg_step5_255 [OF assms] show False by blast
qed

section \<open>What a finished phase 4 has checked\<close>

lemma dkg_phase4_Ok:
  assumes "dkg_phase4 S oc data pp pcs zk z2 z3 mk mr b2 b3 address_fn = Ok (pty, pkg)"
  obtains key points zs receivers senders cc where
    "dkg_step5 S oc (sd_parameters data) (sd_party_index data) (sd_session_id data) pcs = Ok (key, points)"
    and "key \<noteq> 0" "key \<noteq> generator S" "pp \<noteq> 0" "pp \<noteq> 1"
    and "dkg_zero_share S (sd_party_index data) zk z2 z3 = Ok zs"
    and "dkg_mul S (sd_party_index data) (sd_session_id data) mk mr = Ok (receivers, senders)"
    and "dkg_chain_code S (sd_party_index data) (share_count (sd_parameters data)) b2 b3 = Ok cc"
    and "pty = \<lparr>party_parameters = sd_parameters data, party_index_of = sd_party_index data,
            party_session_id = sd_session_id data, poly_point = pp,
            pk = key, zero_share_of = zs, mul_senders = senders, mul_receivers = receivers,
            derivation_data = \<lparr>depth = 0, child_number = 0, parent_fingerprint = replicate 4 0,
              dd_poly_point = pp, dd_pk = key, chain_code = cc\<rparr>, address = address_fn key\<rparr>"
    and "pkg = public_key_package_new key points (sd_parameters data)"
proof -
  from assms obtain key points zs receivers senders cc where
    "dkg_step5 S oc (sd_parameters data) (sd_party_index data) (sd_session_id data) pcs = Ok (key, points)"
    "key \<noteq> 0 \<and> key \<noteq> generator S" "pp \<noteq> 0 \<and> pp \<noteq> 1"
    "dkg_zero_share S (sd_party_index data) zk z2 z3 = Ok zs"
    "dkg_mul S (sd_party_index data) (sd_session_id data) mk mr = Ok (receivers, senders)"
    "dkg_chain_code S (sd_party_index data) (share_count (sd_parameters data)) b2 b3 = Ok cc"
    "pty = \<lparr>party_parameters = sd_parameters data, party_index_of = sd_party_index data,
            party_session_id = sd_session_id data, poly_point = pp,
            pk = key, zero_share_of = zs, mul_senders = senders, mul_receivers = receivers,
            derivation_data = \<lparr>depth = 0, child_number = 0, parent_fingerprint = replicate 4 0,
              dd_poly_point = pp, dd_pk = key, chain_code = cc\<rparr>, address = address_fn key\<rparr>"
    "pkg = public_key_package_new key points (sd_parameters data)"
    by (auto simp: dkg_phase4_def Let_def outcome_simps split: if_splits)
  with that show ?thesis by blast
qed

lemma dkg_mul_step_eq_Ok_iff:
  "dkg_mul_step S me sid filed (receivers, senders) (j, k) = Ok st' \<longleftrightarrow>
     (\<exists>m w s. btree_get filed j = Some m \<and>
        mul_receiver_init_phase2 S (km_ot_sender k) (mul_sid me j sid) (tm_seed m) (tm_enc_proofs m) (km_nonce k) = Ok w \<and>
        mul_sender_init_phase2 S (mul_sid j me sid) (km_correlation k) (km_vec_r k) (tm_dlog_proof m) (tm_nonce m) = Ok s \<and>
        st' = (btree_insert j w receivers, btree_insert j s senders))"
  by (auto simp: dkg_mul_step_def message_from_def outcome_simps)

lemma btree_keys_Nil: "btree_keys [] = []"
  by (simp add: btree_keys_def)

lemma dkg_mul_maps:
  assumes "each (dkg_mul_step S me sid filed) (receivers0, senders0) kept = Ok (receivers, senders)"
    and "btree_wf receivers0" "btree_wf senders0" "btree_keys receivers0 = btree_keys senders0"
  shows "btree_wf receivers \<and> btree_wf senders \<and> btree_keys receivers = btree_keys senders \<and>
     set (btree_keys receivers) = set (btree_keys receivers0) \<union> set (btree_keys kept)"
  using assms
proof (induction kept arbitrary: receivers0 senders0)
  case Nil
  then show ?case by (simp add: btree_keys_def)
next
  case (Cons entry kept)
  obtain j k where entry: "entry = (j, k)" by fastforce
  from Cons.prems(1) obtain w s where
    rest: "each (dkg_mul_step S me sid filed) (btree_insert j w receivers0, btree_insert j s senders0) kept = Ok (receivers, senders)"
    by (auto simp: dkg_mul_step_eq_Ok_iff outcome_simps entry)
  have keys: "btree_keys (btree_insert j w receivers0) = btree_keys (btree_insert j s senders0)"
    using Cons.prems(4) by (rule btree_insert_keys_cong)
  have "btree_wf receivers \<and> btree_wf senders \<and> btree_keys receivers = btree_keys senders \<and>
     set (btree_keys receivers) = set (btree_keys (btree_insert j w receivers0)) \<union> set (btree_keys kept)"
    using Cons.prems by (intro Cons.IH [OF rest] btree_wf_insert keys)
  moreover have "set (btree_keys (btree_insert j w receivers0)) \<union> set (btree_keys kept) =
      set (btree_keys receivers0) \<union> set (btree_keys (entry # kept))"
    by (auto simp: btree_keys_def keys_btree_insert entry)
  ultimately show ?case by (elim conjE) (intro conjI, simp_all only:)
qed

text \<open>What the loop stores for a counterparty is what the two setups computed from its message.\<close>

lemma dkg_mul_states:
  assumes "each (dkg_mul_step S me sid filed) (receivers0, senders0) kept = Ok (receivers, senders)"
    and "btree_wf receivers0" "btree_wf senders0" and "distinct (map fst kept)"
  shows "(\<forall>j. j \<notin> fst ` set kept \<longrightarrow> btree_get receivers j = btree_get receivers0 j \<and> btree_get senders j = btree_get senders0 j) \<and>
     (\<forall>(j, k)\<in>set kept. \<exists>m w s. btree_get filed j = Some m \<and>
        mul_receiver_init_phase2 S (km_ot_sender k) (mul_sid me j sid) (tm_seed m) (tm_enc_proofs m) (km_nonce k) = Ok w \<and>
        mul_sender_init_phase2 S (mul_sid j me sid) (km_correlation k) (km_vec_r k) (tm_dlog_proof m) (tm_nonce m) = Ok s \<and>
        btree_get receivers j = Some w \<and> btree_get senders j = Some s)"
  using assms
proof (induction kept arbitrary: receivers0 senders0)
  case (Cons entry kept)
  obtain j k where entry: "entry = (j, k)" by fastforce
  from Cons.prems(1) obtain m w s where step: "btree_get filed j = Some m"
      "mul_receiver_init_phase2 S (km_ot_sender k) (mul_sid me j sid) (tm_seed m) (tm_enc_proofs m) (km_nonce k) = Ok w"
      "mul_sender_init_phase2 S (mul_sid j me sid) (km_correlation k) (km_vec_r k) (tm_dlog_proof m) (tm_nonce m) = Ok s"
    and rest: "each (dkg_mul_step S me sid filed) (btree_insert j w receivers0, btree_insert j s senders0) kept = Ok (receivers, senders)"
    by (auto simp: dkg_mul_step_eq_Ok_iff outcome_simps entry)
  note IH = Cons.IH [OF rest btree_wf_insert [OF Cons.prems(2)] btree_wf_insert [OF Cons.prems(3)]]
  have "j \<notin> fst ` set kept" "distinct (map fst kept)" using Cons.prems(4) by (simp_all add: entry)
  with IH have "btree_get receivers j = Some w" "btree_get senders j = Some s"
    using Cons.prems(2,3) by (simp_all add: btree_get_insert)
  with IH step \<open>distinct (map fst kept)\<close> show ?case using Cons.prems(2,3) by (auto simp: entry btree_get_insert)
qed simp

lemma filed_unique:
  assumes "file_by_sender me kept parties msgs = Ok filed" and "btree_get filed j = Some m"
  shows "{m \<in> set msgs. sender (parties m) = j} = {m}"
  using file_by_sender_spec(4) [OF assms(1), of j] assms(2) by force

lemma dkg_seed_pair_eq_Ok_iff:
  "dkg_seed_pair S me filed_2 filed_3 (j, k) = Ok sp \<longleftrightarrow>
     (\<exists>m2 m3. btree_get filed_2 j = Some m2 \<and> btree_get filed_3 j = Some m3 \<and>
        verify_seed S (z3_seed m3) (z2_commitment m2) (z3_salt m3) \<and>
        sp = generate_seed_pair me j (kz3_seed k) (z3_seed m3))"
  by (auto simp: dkg_seed_pair_def message_from_def outcome_simps split: if_splits)

text \<open>Messages of one round: one from every party something was kept for, all for the party itself.\<close>

definition filed_exactly :: "party_index \<Rightarrow> party_index list \<Rightarrow> ('m \<Rightarrow> parties_message) \<Rightarrow> 'm list \<Rightarrow> bool" where
  "filed_exactly me js parties msgs \<longleftrightarrow>
     distinct (map (sender \<circ> parties) msgs) \<and> set (map (sender \<circ> parties) msgs) = set js \<and>
     (\<forall>m\<in>set msgs. receiver (parties m) = me)"

lemma file_by_sender_exactly:
  assumes f: "file_by_sender me kept parties msgs = Ok filed"
    and all: "\<And>j. j \<in> set (btree_keys kept) \<Longrightarrow> btree_get filed j \<noteq> None"
  shows "filed_exactly me (btree_keys kept) parties msgs"
proof -
  note spec = file_by_sender_spec [OF f]
  have "j \<in> (sender \<circ> parties) ` set msgs" if "j \<in> set (btree_keys kept)" for j
    using all [OF that] spec(4) by force
  moreover have "sender (parties m) \<in> set (btree_keys kept)" if "m \<in> set msgs" for m
    using spec(3) that by (simp add: btree_keys_contains)
  ultimately show ?thesis using spec(2,3) by (auto simp: filed_exactly_def)
qed

text \<open>The seed pair kept with a counterparty, as the two opened seeds determine it.\<close>

definition seed_pair_opened ::
  "('f, 'g) suite \<Rightarrow> party_index \<Rightarrow> transmit_zero_2to4 list \<Rightarrow> transmit_zero_3to4 list
   \<Rightarrow> party_index \<times> keep_zero_3to4 \<Rightarrow> seed_pair \<Rightarrow> bool" where
  "seed_pair_opened S me z2 z3 entry sp \<longleftrightarrow>
     (\<exists>m2 m3. {m \<in> set z2. sender (z2_parties m) = fst entry} = {m2} \<and> {m \<in> set z3. sender (z3_parties m) = fst entry} = {m3} \<and>
        verify_commitment S (z3_seed m3) (z2_commitment m2) (z3_salt m3) \<and>
        sp = \<lparr>lowest_index = (me \<le> fst entry), index_counterparty = fst entry,
              seed = xor_n 32 (kz3_seed (snd entry)) (z3_seed m3)\<rparr>)"

lemma dkg_zero_share_sound:
  assumes "dkg_zero_share S me kept z2 z3 = Ok zs"
  shows "map index_counterparty (seeds zs) = btree_keys kept"
    and "list_all2 (seed_pair_opened S me z2 z3) kept (seeds zs)"
    and "filed_exactly me (btree_keys kept) z2_parties z2" "filed_exactly me (btree_keys kept) z3_parties z3"
proof -
  from assms obtain filed_2 filed_3 ss where f2: "file_by_sender me kept z2_parties z2 = Ok filed_2"
    and f3: "file_by_sender me kept z3_parties z3 = Ok filed_3"
    and ss: "list_all2 (\<lambda>entry sp. dkg_seed_pair S me filed_2 filed_3 entry = Ok sp) kept ss"
    and zs: "zs = zero_share_initialize ss"
    by (auto simp: dkg_zero_share_def outcome_simps collect_try_eq_Ok_iff)
  have opened: "seed_pair_opened S me z2 z3 entry sp" if "dkg_seed_pair S me filed_2 filed_3 entry = Ok sp" for entry sp
  proof -
    obtain j k where entry: "entry = (j, k)" by fastforce
    from that obtain m2 m3 where "btree_get filed_2 j = Some m2" "btree_get filed_3 j = Some m3"
      and "verify_seed S (z3_seed m3) (z2_commitment m2) (z3_salt m3)" "sp = generate_seed_pair me j (kz3_seed k) (z3_seed m3)"
      unfolding entry dkg_seed_pair_eq_Ok_iff by blast
    then show ?thesis using filed_unique [OF f2, of j m2] filed_unique [OF f3, of j m3]
      by (auto simp: seed_pair_opened_def entry generate_seed_pair_def verify_seed_def)
  qed
  show all: "list_all2 (seed_pair_opened S me z2 z3) kept (seeds zs)"
    unfolding zs zero_share_initialize_def zero_share.simps using ss by (rule list_all2_mono) (rule opened)
  then have "list_all2 (\<lambda>entry sp. index_counterparty sp = fst entry) kept (seeds zs)"
    by (rule list_all2_mono) (auto simp: seed_pair_opened_def)
  then show "map index_counterparty (seeds zs) = btree_keys kept"
    unfolding btree_keys_def by (induction rule: list_all2_induct) simp_all
  have "btree_get filed_2 j \<noteq> None \<and> btree_get filed_3 j \<noteq> None" if "j \<in> set (btree_keys kept)" for j
  proof -
    from that obtain k where "(j, k) \<in> set kept" by (auto simp: btree_keys_def)
    then obtain n where "n < length kept" "kept ! n = (j, k)" by (auto simp: in_set_conv_nth)
    then have "dkg_seed_pair S me filed_2 filed_3 (j, k) = Ok (ss ! n)" using list_all2_nthD [OF ss, of n] by simp
    then show ?thesis by (auto simp: dkg_seed_pair_eq_Ok_iff)
  qed
  then show "filed_exactly me (btree_keys kept) z2_parties z2" "filed_exactly me (btree_keys kept) z3_parties z3"
    using file_by_sender_exactly [OF f2] file_by_sender_exactly [OF f3] by blast+
qed

text \<open>The multiplication states with a counterparty, as the two setups finish on its one message.\<close>

definition mul_states_finished ::
  "('f::field, 'g::ab_group_add) suite \<Rightarrow> party_index \<Rightarrow> bytes \<Rightarrow> ('f, 'g) transmit_mul_3to4 list
   \<Rightarrow> (party_index, 'f mul_receiver) btree_map \<Rightarrow> (party_index, 'f mul_sender) btree_map
   \<Rightarrow> party_index \<times> ('f, 'g) keep_mul_3to4 \<Rightarrow> bool" where
  "mul_states_finished S me sid mr receivers senders entry \<longleftrightarrow>
     (\<exists>m w s. {m \<in> set mr. sender (tm_parties m) = fst entry} = {m} \<and>
        mul_receiver_init_phase2 S (km_ot_sender (snd entry)) (mul_sid me (fst entry) sid) (tm_seed m) (tm_enc_proofs m)
          (km_nonce (snd entry)) = Ok w \<and>
        mul_sender_init_phase2 S (mul_sid (fst entry) me sid) (km_correlation (snd entry)) (km_vec_r (snd entry))
          (tm_dlog_proof m) (tm_nonce m) = Ok s \<and>
        btree_get receivers (fst entry) = Some w \<and> btree_get senders (fst entry) = Some s)"

lemma dkg_mul_sound:
  assumes "dkg_mul S me sid kept mr = Ok (receivers, senders)" and "btree_wf kept"
  shows "btree_wf receivers" "btree_wf senders" "btree_keys receivers = btree_keys senders"
    and "set (btree_keys senders) = set (btree_keys kept)"
    and "\<forall>entry\<in>set kept. mul_states_finished S me sid mr receivers senders entry"
    and "filed_exactly me (btree_keys kept) tm_parties mr"
proof -
  from assms obtain filed where f: "file_by_sender me kept tm_parties mr = Ok filed"
    and c: "check_count me kept filed = Ok ()"
    and run: "each (dkg_mul_step S me sid filed) ([], []) kept = Ok (receivers, senders)"
    by (auto simp: dkg_mul_def outcome_simps)
  note maps = dkg_mul_maps [OF run btree_wf_Nil btree_wf_Nil trans [OF btree_keys_Nil btree_keys_Nil [symmetric]]]
  show "btree_wf receivers" "btree_wf senders" and k: "btree_keys receivers = btree_keys senders"
    using maps by blast+
  have "set (btree_keys receivers) = set (btree_keys kept)"
    using maps by (elim conjE) (simp add: btree_keys_Nil)
  then show "set (btree_keys senders) = set (btree_keys kept)" by (simp only: k)
  have "btree_get filed j \<noteq> None" if "j \<in> set (btree_keys kept)" for j
    using file_by_sender_complete [OF f c assms(2)] that by (metis btree_keys_contains option.distinct(1))
  then show "filed_exactly me (btree_keys kept) tm_parties mr" by (rule file_by_sender_exactly [OF f])
  have "distinct (map fst kept)" using assms(2) by (rule btree_wf_distinct)
  note states = dkg_mul_states [OF run btree_wf_Nil btree_wf_Nil this]
  show "\<forall>entry\<in>set kept. mul_states_finished S me sid mr receivers senders entry"
  proof
    fix entry assume entry: "entry \<in> set kept"
    obtain j k where jk: "entry = (j, k)" by fastforce
    from bspec [OF conjunct2 [OF states] entry] obtain m w s where m: "btree_get filed j = Some m"
        "mul_receiver_init_phase2 S (km_ot_sender k) (mul_sid me j sid) (tm_seed m) (tm_enc_proofs m) (km_nonce k) = Ok w"
        "mul_sender_init_phase2 S (mul_sid j me sid) (km_correlation k) (km_vec_r k) (tm_dlog_proof m) (tm_nonce m) = Ok s"
        "btree_get receivers j = Some w" "btree_get senders j = Some s"
      unfolding jk prod.case by blast
    show "mul_states_finished S me sid mr receivers senders entry"
      unfolding mul_states_finished_def jk fst_conv snd_conv using filed_unique [OF f m(1)] m(2-5) by blast
  qed
qed

text \<open>The chain code: the XOR, in the order of the indices, of the auxiliary ones opened against their commitments.\<close>

definition chain_code_opened ::
  "('f, 'g) suite \<Rightarrow> party_index list \<Rightarrow> (party_index, broadcast_derivation_2to4) btree_map
   \<Rightarrow> (party_index, broadcast_derivation_3to4) btree_map \<Rightarrow> bytes \<Rightarrow> bytes \<Rightarrow> bool" where
  "chain_code_opened S js b2 b3 cc0 cc \<longleftrightarrow>
     (\<exists>ms. list_all2 (\<lambda>j m3. btree_get b3 j = Some m3 \<and>
          (\<exists>m2. btree_get b2 j = Some m2 \<and> verify_commitment S (b3_aux_chain_code m3) (b2_cc_commitment m2) (b3_cc_salt m3))) js ms \<and>
        cc = foldl (xor_n CHAIN_CODE_LEN) cc0 (map b3_aux_chain_code ms))"

lemma dkg_chain_code_step_eq_Ok_iff:
  "dkg_chain_code_step S me b2 b3 cc i = Ok cc' \<longleftrightarrow>
     (\<exists>m2 m3. i \<noteq> 0 \<and> btree_get b2 (PartyIndex i) = Some m2 \<and> btree_get b3 (PartyIndex i) = Some m3 \<and>
        verify_commitment S (b3_aux_chain_code m3) (b2_cc_commitment m2) (b3_cc_salt m3) \<and>
        cc' = xor_n CHAIN_CODE_LEN cc (b3_aux_chain_code m3))"
  by (auto simp: dkg_chain_code_step_def message_from_def outcome_simps party_index_unwrap_eq_Ok_iff split: if_splits)

lemma dkg_chain_code_sound:
  assumes "dkg_chain_code S me n b2 b3 = Ok cc"
  shows "chain_code_opened S (map PartyIndex (u8_range_incl 1 n)) b2 b3 (replicate CHAIN_CODE_LEN 0) cc"
proof -
  have "each (dkg_chain_code_step S me b2 b3) cc0 is = Ok cc \<Longrightarrow> chain_code_opened S (map PartyIndex is) b2 b3 cc0 cc" for cc0 "is"
  proof (induction "is" arbitrary: cc0)
    case Nil
    then show ?case by (simp add: chain_code_opened_def)
  next
    case (Cons i "is")
    from Cons.prems obtain m2 m3 where m: "btree_get b2 (PartyIndex i) = Some m2" "btree_get b3 (PartyIndex i) = Some m3"
        "verify_commitment S (b3_aux_chain_code m3) (b2_cc_commitment m2) (b3_cc_salt m3)"
      and rest: "each (dkg_chain_code_step S me b2 b3) (xor_n CHAIN_CODE_LEN cc0 (b3_aux_chain_code m3)) is = Ok cc"
      by (auto simp: dkg_chain_code_step_eq_Ok_iff outcome_simps)
    from Cons.IH [OF rest] obtain ms where "list_all2 (\<lambda>j m3. btree_get b3 j = Some m3 \<and>
          (\<exists>m2. btree_get b2 j = Some m2 \<and> verify_commitment S (b3_aux_chain_code m3) (b2_cc_commitment m2) (b3_cc_salt m3)))
        (map PartyIndex is) ms" "cc = foldl (xor_n CHAIN_CODE_LEN) (xor_n CHAIN_CODE_LEN cc0 (b3_aux_chain_code m3)) (map b3_aux_chain_code ms)"
      unfolding chain_code_opened_def by blast
    with m show ?case unfolding chain_code_opened_def by (intro exI [of _ "m3 # ms"]) simp
  qed
  with assms show ?thesis unfolding dkg_chain_code_def by blast
qed

text \<open>
  C5: what phase 4 guarantees whatever was received. A party it returns is well formed, carries the
  session's data, and its key and share are not trivial; its key is that of step 5, and its chain code is the XOR of
  all auxiliary ones, each opened against its commitment. In every round there was exactly one message from every counterparty, for the party itself, and
  none from anyone else. Its zero-share seeds are, in order, the XOR of the seed it kept and the one the
  counterparty opened against its commitment; its multiplication states are those the two setups compute from
  what it kept and the counterparty's message.
\<close>

theorem dkg_phase4_sound:
  assumes "dkg_phase4 S oc data pp pcs zk z2 z3 mk mr b2 b3 address_fn = Ok (pty, pkg)"
    and "btree_wf mk"
  shows "party_ok pty \<and> poly_point pty = pp \<and> pp \<noteq> 0 \<and> pp \<noteq> 1 \<and> pk pty \<noteq> 0 \<and> pk pty \<noteq> generator S \<and>
     party_parameters pty = sd_parameters data \<and> party_index_of pty = sd_party_index data \<and>
     party_session_id pty = sd_session_id data \<and> address pty = address_fn (pk pty) \<and>
     dkg_step5 S oc (sd_parameters data) (sd_party_index data) (sd_session_id data) pcs =
       Ok (pk pty, verifying_shares pkg) \<and> verifying_key pkg = pk pty \<and> pkp_parameters pkg = sd_parameters data \<and>
     chain_code_opened S (map PartyIndex (u8_range_incl 1 (share_count (sd_parameters data)))) b2 b3
       (replicate 32 0) (chain_code (derivation_data pty)) \<and>
     depth (derivation_data pty) = 0 \<and> child_number (derivation_data pty) = 0 \<and>
     parent_fingerprint (derivation_data pty) = [0, 0, 0, 0] \<and>
     filed_exactly (sd_party_index data) (btree_keys zk) z2_parties z2 \<and>
     filed_exactly (sd_party_index data) (btree_keys zk) z3_parties z3 \<and>
     filed_exactly (sd_party_index data) (btree_keys mk) tm_parties mr \<and>
     list_all2 (seed_pair_opened S (sd_party_index data) z2 z3) zk (seeds (zero_share_of pty)) \<and>
     set (btree_keys (mul_senders pty)) = set (btree_keys mk) \<and>
     (\<forall>entry\<in>set mk. mul_states_finished S (sd_party_index data) (sd_session_id data) mr (mul_receivers pty) (mul_senders pty) entry)"
proof -
  from assms(1) obtain key points zs receivers senders cc where
    step5: "dkg_step5 S oc (sd_parameters data) (sd_party_index data) (sd_session_id data) pcs = Ok (key, points)"
    and trivial: "key \<noteq> 0" "key \<noteq> generator S" "pp \<noteq> 0" "pp \<noteq> 1"
    and zero: "dkg_zero_share S (sd_party_index data) zk z2 z3 = Ok zs"
    and mult: "dkg_mul S (sd_party_index data) (sd_session_id data) mk mr = Ok (receivers, senders)"
    and cc: "dkg_chain_code S (sd_party_index data) (share_count (sd_parameters data)) b2 b3 = Ok cc"
    and pty: "pty = \<lparr>party_parameters = sd_parameters data, party_index_of = sd_party_index data,
            party_session_id = sd_session_id data, poly_point = pp,
            pk = key, zero_share_of = zs, mul_senders = senders, mul_receivers = receivers,
            derivation_data = \<lparr>depth = 0, child_number = 0, parent_fingerprint = replicate 4 0,
              dd_poly_point = pp, dd_pk = key, chain_code = cc\<rparr>, address = address_fn key\<rparr>"
    and pkg: "pkg = public_key_package_new key points (sd_parameters data)"
    by (rule dkg_phase4_Ok)
  note z = dkg_zero_share_sound [OF zero] and m = dkg_mul_sound [OF mult assms(2)]
  have "party_ok pty" using m(1-3) by (simp add: party_ok_def pty)
  moreover have "verifying_shares pkg = points" "verifying_key pkg = key" "pkp_parameters pkg = sd_parameters data"
    by (simp_all add: pkg public_key_package_new_def)
  moreover have "replicate 4 0 = [0, 0, 0, 0 :: u8]" by (simp add: numeral_eq_Suc)
  moreover note dkg_chain_code_sound [OF cc, unfolded CHAIN_CODE_LEN_def]
  ultimately show ?thesis using step5 trivial z(2-4) m(4-6) by (simp add: pty)
qed

end
