(* ===== verification/Group.thy ===== *)
theory Group
  imports Derivation Lagrange "HOL-Library.Multiset"
begin

text \<open>
  The specification of a group of parties: what key generation establishes, what signing
  relies on, and what derivation, refresh and re-keying keep. The shares are the values of
  one secret polynomial with as many coefficients as the threshold, the public key belongs
  to its constant term, the zero-share seeds agree pairwise, and every party's multiplication
  sender is paired with the other party's receiver.
\<close>

definition share_of :: "'f::field list \<Rightarrow> party_index \<Rightarrow> 'f" where
  "share_of cs i = horner (*) cs (scalar_of_u8 (as_u8 i))"

definition secret_of :: "'f::field list \<Rightarrow> 'f" where
  "secret_of cs = horner (*) cs 0"

text \<open>One member: its share, key, parameters, identifiers and index.\<close>

definition member_ok ::
  "('f::field, 'g::ab_group_add) suite \<Rightarrow> 'f list \<Rightarrow> parameters \<Rightarrow> bytes \<Rightarrow> bytes \<Rightarrow> party_index \<Rightarrow> ('f, 'g) party \<Rightarrow> bool" where
  "member_ok S cs prm sid cc i p \<longleftrightarrow>
     party_parameters p = prm \<and> party_index_of p = i \<and> party_session_id p = sid \<and>
     chain_code (derivation_data p) = cc \<and> party_ok p \<and> as_u8 i \<noteq> 0 \<and> as_u8 i \<le> share_count prm \<and>
     poly_point p = share_of cs i \<and> pk p = smul S (generator S) (secret_of cs)"

text \<open>Every sender of one member is paired with the receiver of the other.\<close>

definition mul_states_paired :: "party_index list \<Rightarrow> (party_index \<Rightarrow> ('f::field, 'g) party) \<Rightarrow> bool" where
  "mul_states_paired ps pty \<longleftrightarrow>
     (\<forall>i\<in>set ps. \<forall>j\<in>set ps. i \<noteq> j \<longrightarrow>
        (\<exists>s w. btree_get (mul_senders (pty i)) j = Some s \<and> btree_get (mul_receivers (pty j)) i = Some w \<and>
           mul_paired s w))"

definition group_ok ::
  "('f::field, 'g::ab_group_add) suite \<Rightarrow> 'f list \<Rightarrow> parameters \<Rightarrow> bytes \<Rightarrow> bytes \<Rightarrow> party_index list
   \<Rightarrow> (party_index \<Rightarrow> ('f, 'g) party) \<Rightarrow> bool" where
  "group_ok S cs prm sid cc ps pty \<longleftrightarrow>
     length cs = unat (threshold prm) \<and> cs \<noteq> [] \<and> distinct ps \<and>
     (\<forall>i\<in>set ps. member_ok S cs prm sid cc i (pty i)) \<and>
     zero_shares_agree ps (\<lambda>i. zero_share_of (pty i)) \<and> mul_states_paired ps pty"

lemma group_ok_subset:
  assumes "group_ok S cs prm sid cc ps pty" and "set qs \<subseteq> set ps" and "distinct qs"
  shows "group_ok S cs prm sid cc qs pty"
proof -
  have "zero_shares_agree qs (\<lambda>i. zero_share_of (pty i))"
    using assms(1,2) unfolding group_ok_def zero_shares_agree_def by blast
  moreover have "mul_states_paired qs pty"
    using assms(1,2) unfolding group_ok_def mul_states_paired_def by blast
  ultimately show ?thesis using assms unfolding group_ok_def by blast
qed

lemma group_ok_cong:
  assumes "group_ok S cs prm sid cc ps pty" and "\<And>i. i \<in> set ps \<Longrightarrow> pty' i = pty i"
  shows "group_ok S cs prm sid cc ps pty'"
proof -
  have "zero_shares_agree ps (\<lambda>i. zero_share_of (pty' i))"
    using assms unfolding group_ok_def zero_shares_agree_def by simp
  moreover have "mul_states_paired ps pty'"
    using assms unfolding group_ok_def mul_states_paired_def by simp
  ultimately show ?thesis using assms unfolding group_ok_def by simp
qed

text \<open>Any quorum reconstructs the secret: the contract of secret sharing on party indices.\<close>

definition quorum_weight :: "party_index list \<Rightarrow> party_index \<Rightarrow> 'f::field" where
  "quorum_weight qs i = lagrange_zero (map as_u8 qs) (as_u8 i)"

lemma inj_as_u8: "inj as_u8"
  by (rule injI) (rule party_index.expand)

interpretation group_shares: secret_sharing
  where deal = share_of and secret = secret_of and weight = quorum_weight
    and quorum = "\<lambda>cs qs. scalars_ok S \<and> shamir_quorum S cs (map as_u8 qs)"
  for S :: "('f::field, 'g) suite"
proof unfold_locales
  fix cs :: "'f list" and qs :: "party_index list"
  assume q: "scalars_ok S \<and> shamir_quorum S cs (map as_u8 qs)"
  then have "(\<Sum>k\<in>set (map as_u8 qs). horner (*) cs (scalar_of_u8 k) * lagrange_zero (map as_u8 qs) k) = horner (*) cs 0"
    using q by (intro shamir.reconstruct [of S]) simp
  then show "(\<Sum>i\<in>set qs. share_of cs i * quorum_weight qs i) = secret_of cs"
    using inj_on_subset [OF inj_as_u8]
    by (simp add: sum.reindex share_of_def secret_of_def quorum_weight_def)
qed

text \<open>The weights do not depend on the order of the quorum.\<close>

lemma lagrange_zero_order:
  assumes "distinct ks" "distinct ls" "set ks = set ls"
  shows "lagrange_zero ks j = (lagrange_zero ls j :: 'f::field)"
proof -
  have m: "mset (map (scalar_of_u8 :: u8 \<Rightarrow> 'f) ks) = mset (map scalar_of_u8 ls)"
    using assms by (metis mset_map set_eq_iff_mset_eq_distinct)
  have "(\<Prod>b\<leftarrow>remove1 a xs. f b) = (\<Prod>b\<leftarrow>remove1 a ys. (f b :: 'f))" if "mset xs = mset ys" for f a and xs ys :: "'f list"
    by (metis mset_map mset_remove1 prod_mset_prod_list that)
  from this [OF m] show ?thesis by (simp add: lagrange_zero_def lagrange_at_def)
qed

section \<open>Derivation keeps a group\<close>

lemma horner_shift_constant: "cs \<noteq> [] \<Longrightarrow> horner (*) ((hd cs + t) # tl cs) x = horner (*) cs x + (t :: 'f::field)"
  by (cases cs) simp_all

lemma party_derive_child_fields:
  assumes "party_derive_child S address_fn p n = Ok p'"
  shows "party_parameters p' = party_parameters p" "party_index_of p' = party_index_of p"
    "party_session_id p' = party_session_id p" "zero_share_of p' = zero_share_of p"
    "mul_senders p' = mul_senders p" "mul_receivers p' = mul_receivers p"
  using assms by (auto simp: party_derive_child_def with_derivation_def outcome_simps)

lemma derivation_forms_group:
  assumes S: "suite_ok S" and g: "group_ok S cs prm sid cc ps pty"
    and i: "i \<in> set ps" and derived: "party_derive_child S address_fn (pty i) n = Ok p'"
    and deep: "\<And>j. j \<in> set ps \<Longrightarrow> depth (derivation_data (pty j)) \<noteq> MAX_DEPTH"
  shows "\<exists>tweak cc' pty'. (\<forall>j\<in>set ps. party_derive_child S address_fn (pty j) n = Ok (pty' j)) \<and>
     bip32_tweak S (bip32_hmac S cc (pk (pty i)) n) = Ok tweak \<and>
     group_ok S ((hd cs + tweak) # tl cs) prm sid cc' ps pty' \<and> secret_of ((hd cs + tweak) # tl cs) = secret_of cs + tweak"
proof -
  note gd = g [unfolded group_ok_def]
  have mem: "member_ok S cs prm sid cc j (pty j)" if "j \<in> set ps" for j using gd that by blast
  have dd: "dd_poly_point (derivation_data (pty j)) = share_of cs j" "dd_pk (derivation_data (pty j)) = smul S (generator S) (secret_of cs)"
    "chain_code (derivation_data (pty j)) = cc" if "j \<in> set ps" for j
    using mem [OF that] by (auto simp: member_ok_def party_ok_def)
  let ?Q = "smul S (generator S) (secret_of cs)"
  obtain tweak where t: "n \<le> MAX_CHILD_NUMBER" "bip32_tweak S (bip32_hmac S cc ?Q n) = Ok tweak"
    "smul S (generator S) tweak + ?Q \<noteq> 0"
    using derived dd [OF i] by (auto simp: party_derive_child_def outcome_simps derive_child_Ok)
  let ?cc = "drop CHAIN_CODE_LEN (bip32_hmac S cc ?Q n)"
  let ?d = "\<lambda>j. \<lparr>depth = depth (derivation_data (pty j)) + 1, child_number = n,
      parent_fingerprint = take 4 (ripemd160 S (sha256 S (point_to_bytes S ?Q))),
      dd_poly_point = share_of cs j + tweak, dd_pk = smul S (generator S) tweak + ?Q, chain_code = ?cc\<rparr>"
  have derive: "derive_child S (derivation_data (pty j)) n = Ok (?d j)" if "j \<in> set ps" for j
    unfolding derive_child_Ok using deep [OF that] dd [OF that] t by (intro conjI exI [of _ tweak]) simp_all
  define dp where "dp = (\<lambda>j. with_derivation address_fn (pty j) (?d j))"
  have run: "party_derive_child S address_fn (pty j) n = Ok (dp j)" if "j \<in> set ps" for j
    by (simp add: party_derive_child_def derive [OF that] dp_def)
  let ?cs = "(hd cs + tweak) # tl cs"
  have ne: "cs \<noteq> []" using gd by auto
  have sec: "secret_of ?cs = secret_of cs + tweak" "share_of ?cs j = share_of cs j + tweak" for j
    unfolding secret_of_def share_of_def by (rule horner_shift_constant [OF ne])+
  have "member_ok S ?cs prm sid ?cc j (dp j)" if "j \<in> set ps" for j
    using mem [OF that] suite_okD(1) [OF S]
    by (simp add: member_ok_def with_derivation_def party_ok_def sec smul_distrib dp_def)
  moreover have "zero_shares_agree ps (\<lambda>j. zero_share_of (dp j))" "mul_states_paired ps dp"
    using gd by (simp_all add: with_derivation_def mul_states_paired_def dp_def)
  moreover have "length ?cs = unat (threshold prm)" "?cs \<noteq> []" "distinct ps" using ne gd by (cases cs; simp)+
  ultimately have "group_ok S ?cs prm sid ?cc ps dp"
    unfolding group_ok_def by blast
  moreover have "pk (pty i) = ?Q" using mem [OF i] by (simp add: member_ok_def)
  ultimately show ?thesis using run sec(1) t(2) by metis
qed

text \<open>
  C22: when one party of a group derives a child key, every party whose derivation depth is not
  exhausted derives it too, and what they hold afterwards is again a group: for the same
  session, with one new chain code, whose secret is the old one plus a public tweak.
\<close>

theorem derivation_keeps_group:
  assumes S: "suite_ok S" and g: "group_ok S cs prm sid cc ps pty"
    and i: "i \<in> set ps" and derived: "party_derive_child S address_fn (pty i) n = Ok p'"
    and deep: "\<And>j. j \<in> set ps \<Longrightarrow> depth (derivation_data (pty j)) \<noteq> MAX_DEPTH"
  shows "\<exists>tweak cc' pty'. (\<forall>j\<in>set ps. party_derive_child S address_fn (pty j) n = Ok (pty' j)) \<and>
     bip32_tweak S (bip32_hmac S cc (pk (pty i)) n) = Ok tweak \<and>
     group_ok S ((hd cs + tweak) # tl cs) prm sid cc' ps pty' \<and> secret_of ((hd cs + tweak) # tl cs) = secret_of cs + tweak"
  by (rule derivation_forms_group [OF S g i derived deep])

end
