(* ===== verification/Rounds.thy ===== *)
theory Rounds
  imports Protocols "HOL-Library.Multiset"
begin

text \<open>
  What the phases of key generation, signing and refresh have in common: a loop over the
  other parties that keeps one record and produces one message for each, and the delivery
  of a round's messages, which is the caller's task and may use any order.
\<close>

section \<open>Loops\<close>

lemma each_map: "each f s (map g xs) = each (\<lambda>s x. f s (g x)) s xs"
  by (induction xs arbitrary: s) (auto intro!: arg_cong2 [where f = and_then])

text \<open>A loop refines another when their bodies do.\<close>

lemma each_refines:
  assumes "\<And>s x. x \<in> set xs \<Longrightarrow> f (h s) x = and_then (g s x) (\<lambda>t. Ok (h t))"
  shows "each f (h s) xs = and_then (each g s xs) (\<lambda>t. Ok (h t))"
  using assms
proof (induction xs arbitrary: s)
  case Nil
  then show ?case by simp
next
  case (Cons x xs)
  then show ?case by (cases "g s x") simp_all
qed

lemma collect_try_refines:
  assumes "\<And>x. x \<in> set xs \<Longrightarrow> f (h x) = g x"
  shows "collect_try f (map h xs) = collect_try g xs"
  using assms by (induction xs) simp_all

lemma each_skip:
  assumes "\<And>s x. x \<in> set xs \<Longrightarrow> \<not> P x \<Longrightarrow> f s x = Ok s"
  shows "each f s xs = each f s (filter P xs)"
  using assms
proof (induction xs arbitrary: s)
  case Nil
  then show ?case by simp
next
  case (Cons x xs)
  have IH: "each f s xs = each f s (filter P xs)" for s using Cons by simp
  show ?case by (cases "P x") (simp_all add: IH Cons.prems)
qed

lemma each_total:
  assumes "\<And>s x. x \<in> set xs \<Longrightarrow> I s \<Longrightarrow> \<exists>t. f s x = Ok t \<and> I t" and "I s"
  shows "\<exists>t. each f s xs = Ok t \<and> I t"
  using assms
proof (induction xs arbitrary: s)
  case Nil
  then show ?case by simp
next
  case (Cons x xs)
  then obtain t where t: "f s x = Ok t" "I t" by fastforce
  have "\<exists>u. each f t xs = Ok u \<and> I u" using Cons.prems(1) t(2) by (intro Cons.IH) auto
  with t show ?case by simp
qed

lemma each_Err:
  assumes "each f s xs = Err e"
  obtains x s' where "x \<in> set xs" and "f s' x = Err e"
  using assms by (induction xs arbitrary: s thesis) (auto simp: outcome_simps)

text \<open>
  A loop that in every round inserts one record into the map of what is kept and appends one
  message to the list of what is sent, each round with a key of its own.
\<close>

lemma each_keep_transmit:
  assumes run: "each f s xs = Ok t" and d: "distinct (map key xs)" and wf: "btree_wf (kp s)"
    and step: "\<And>s x t. x \<in> set xs \<Longrightarrow> f s x = Ok t \<Longrightarrow>
      \<exists>k m. kp t = btree_insert (key x) k (kp s) \<and> tr t = tr s @ [m] \<and> P x k m"
  shows "btree_wf (kp t) \<and>
     set (btree_keys (kp t)) = set (btree_keys (kp s)) \<union> key ` set xs \<and>
     (\<exists>K M. tr t = tr s @ map M xs \<and> (\<forall>x\<in>set xs. btree_get (kp t) (key x) = Some (K x) \<and> P x (K x) (M x)) \<and>
       (\<forall>j. j \<notin> key ` set xs \<longrightarrow> btree_get (kp t) j = btree_get (kp s) j))"
  using run d wf step
proof (induction xs arbitrary: s)
  case Nil
  then show ?case by (auto simp: btree_keys_def)
next
  case (Cons x xs)
  from Cons.prems(1) obtain s1 where s1: "f s x = Ok s1" and rest: "each f s1 xs = Ok t"
    by (auto simp: outcome_simps)
  from Cons.prems(4) [OF _ s1] obtain k m where km: "kp s1 = btree_insert (key x) k (kp s)"
    "tr s1 = tr s @ [m]" "P x k m" by auto
  have wf1: "btree_wf (kp s1)" using Cons.prems(3) by (auto simp: km)
  note IH = Cons.IH [OF rest _ wf1 Cons.prems(4)]
  from IH Cons.prems(2) obtain K M where wft: "btree_wf (kp t)"
    and keys: "set (btree_keys (kp t)) = set (btree_keys (kp s1)) \<union> key ` set xs"
    and KM: "tr t = tr s1 @ map M xs" "\<forall>y\<in>set xs. btree_get (kp t) (key y) = Some (K y) \<and> P y (K y) (M y)"
    and other: "\<forall>j. j \<notin> key ` set xs \<longrightarrow> btree_get (kp t) j = btree_get (kp s1) j"
    by (auto simp del: set_map)
  have fresh: "x \<notin> set xs" "key x \<notin> key ` set xs" using Cons.prems(2) by auto
  have "map (M(x := m)) xs = map M xs" using fresh(1) by simp
  then have "tr t = tr s @ map (M(x := m)) (x # xs)" by (simp add: KM(1) km)
  moreover have "\<forall>y\<in>set (x # xs). btree_get (kp t) (key y) = Some ((K(x := k)) y) \<and> P y ((K(x := k)) y) ((M(x := m)) y)"
    using KM(2) fresh other km(3) by (auto simp: km(1) btree_get_insert [OF Cons.prems(3)])
  moreover have "\<forall>j. j \<notin> key ` set (x # xs) \<longrightarrow> btree_get (kp t) j = btree_get (kp s) j"
    using other by (auto simp: km(1) btree_get_insert [OF Cons.prems(3)])
  moreover have "set (btree_keys (kp t)) = set (btree_keys (kp s)) \<union> key ` set (x # xs)"
    using keys by (auto simp: km(1) btree_keys_def keys_btree_insert)
  ultimately show ?case using wft by blast
qed

text \<open>Filing does not look into the messages or the kept values.\<close>

lemma file_by_sender_map:
  "file_by_sender me (map_values g kept) parties (map h msgs) =
     and_then (file_by_sender me kept (parties \<circ> h) msgs) (\<lambda>filed. Ok (map_values h filed))"
  unfolding file_by_sender_def each_map
  by (subst each_refines [where h = "map_values h", symmetric]) (auto simp: btree_insert_map_values)

lemma check_count_map: "check_count me (map_values g kept) (map_values h filed) = check_count me kept filed"
  by (simp add: check_count_def)

lemma message_from_map: "message_from me (map_values h filed) i = and_then (message_from me filed i) (\<lambda>m. Ok (h m))"
  by (cases "btree_get filed i") (simp_all add: message_from_def)

section \<open>Delivery\<close>

text \<open>
  Everyone's outgoing messages of one round, and those of them that are for one party. The
  caller hands them over in any order: any list with the same multiset.
\<close>

definition addressed_to ::
  "('m \<Rightarrow> parties_message) \<Rightarrow> party_index list \<Rightarrow> (party_index \<Rightarrow> 'm list) \<Rightarrow> party_index \<Rightarrow> 'm list" where
  "addressed_to parties qs sent i = filter (\<lambda>m. receiver (parties m) = i) (concat (map sent qs))"

lemma addressed_to_eq:
  assumes "\<And>j. j \<in> set qs \<Longrightarrow> sent j = map (M j) (cs j) \<and> distinct (cs j) \<and> set (cs j) = set qs - {j}"
    and "\<And>j c. j \<in> set qs \<Longrightarrow> c \<in> set (cs j) \<Longrightarrow> receiver (parties (M j c)) = c"
    and "i \<in> set qs"
  shows "addressed_to parties qs sent i = map (\<lambda>j. M j i) (filter (\<lambda>j. j \<noteq> i) qs)"
proof -
  have one: "filter (\<lambda>m. receiver (parties m) = i) (sent j) = (if j \<noteq> i then [M j i] else [])" if j: "j \<in> set qs" for j
  proof -
    have "filter (\<lambda>m. receiver (parties m) = i) (map (M j) (cs j)) = map (M j) (filter (\<lambda>c. c = i) (cs j))"
      using assms(2) [OF j] by (auto simp: filter_map intro!: arg_cong [where f = "map (M j)"] filter_cong)
    also have "filter (\<lambda>c. c = i) (cs j) = (if j \<noteq> i then [i] else [])"
    proof -
      have "filter (\<lambda>c. c = i) cs = (if i \<in> set cs then [i] else [])" if "distinct cs" for cs
        using that by (induction cs) auto
      then show ?thesis using assms(1) [OF j] assms(3) by auto
    qed
    finally show ?thesis using assms(1) [OF j] by simp
  qed
  have "concat (map (\<lambda>j. filter (\<lambda>m. receiver (parties m) = i) (sent j)) qs') = map (\<lambda>j. M j i) (filter (\<lambda>j. j \<noteq> i) qs')"
    if "set qs' \<subseteq> set qs" for qs'
    using that one by (induction qs') auto
  then show ?thesis by (simp add: addressed_to_def filter_concat comp_def)
qed

text \<open>However ordered, what a party receives is one message from each other party.\<close>

lemma delivery:
  assumes sent: "\<And>j. j \<in> set qs \<Longrightarrow> sent j = map (M j) (cs j) \<and> distinct (cs j) \<and> set (cs j) = set qs - {j}"
    and parties: "\<And>j c. j \<in> set qs \<Longrightarrow> c \<in> set qs - {j} \<Longrightarrow> parties (M j c) = \<lparr>sender = j, receiver = c\<rparr>"
    and i: "i \<in> set qs" and d: "distinct qs"
    and rcv: "mset rcv = mset (addressed_to parties qs sent i)"
  shows "\<exists>js. rcv = map (\<lambda>j. M j i) js \<and> distinct js \<and> set js = set qs - {i}"
proof -
  have eq: "addressed_to parties qs sent i = map (\<lambda>j. M j i) (filter (\<lambda>j. j \<noteq> i) qs)"
    using sent parties i by (intro addressed_to_eq) auto
  let ?js = "map (sender \<circ> parties) rcv"
  have snd: "sender (parties (M j i)) = j" if "j \<in> set qs" "j \<noteq> i" for j
    using parties [OF that(1)] that i by simp
  have "set rcv = set (map (\<lambda>j. M j i) (filter (\<lambda>j. j \<noteq> i) qs))"
    using rcv unfolding eq by (rule mset_eq_setD)
  then have "M (sender (parties m)) i = m" if "m \<in> set rcv" for m
    using that snd by auto
  then have "map (\<lambda>j. M j i) ?js = rcv" by (simp add: map_idI)
  moreover have "mset ?js = mset (filter (\<lambda>j. j \<noteq> i) qs)"
  proof -
    have "mset ?js = image_mset (sender \<circ> parties) (mset (map (\<lambda>j. M j i) (filter (\<lambda>j. j \<noteq> i) qs)))"
      by (simp only: mset_map rcv eq)
    also have "\<dots> = mset (map (\<lambda>j. sender (parties (M j i))) (filter (\<lambda>j. j \<noteq> i) qs))"
      by (simp add: comp_def image_mset.compositionality)
    also have "map (\<lambda>j. sender (parties (M j i))) (filter (\<lambda>j. j \<noteq> i) qs) = filter (\<lambda>j. j \<noteq> i) qs"
      using snd by (intro map_idI) auto
    finally show ?thesis .
  qed
  moreover have "distinct ?js"
    using d by (simp only: mset_eq_imp_distinct_iff [OF calculation(2)] distinct_filter)
  moreover have "set ?js = set qs - {i}"
    using mset_eq_setD [OF calculation(2)] by auto
  ultimately show ?thesis by (metis (no_types))
qed

end
