(* ===== verification/Signing.thy ===== *)
theory Signing
  imports Group Rounds
begin

text \<open>
  The signing protocol (\<open>protocols/signing.rs\<close>): the four phases with every check in the
  order of the source, and the ECDSA verification the last phase ends with. Shown here: the
  verification is the textbook one with strict ranges, what a signature returned by phase 4
  satisfies, and which failures ban a counterparty. That honest runs succeed is in
  \<open>SigningHonest\<close>.
\<close>

section \<open>Messages and kept state\<close>

record sign_data =
  sign_id :: bytes
  counterparties :: "party_index list"
  message_hash :: bytes

record transmit_phase_1to2 =
  t1_parties :: parties_message
  t1_commitment :: bytes
  t1_mul_transmit :: ote_data_to_sender

record ('f, 'g) transmit_phase_2to3 =
  t2_parties :: parties_message
  t2_gamma_u :: 'g
  t2_gamma_v :: 'g
  t2_psi :: 'f
  t2_public_share :: 'g
  t2_instance_point :: 'g
  t2_salt :: bytes
  t2_mul_transmit :: "'f mul_data_to_receiver"

record 'f broadcast_3to4 =
  bc_u :: 'f
  bc_w :: 'f

record 'f keep_phase_1to2 =
  k1_salt :: bytes
  k1_chi :: 'f
  k1_mul_keep :: "'f mul_data_to_keep_receiver"

record 'f keep_phase_2to3 =
  k2_c_u :: 'f
  k2_c_v :: 'f
  k2_commitment :: bytes
  k2_mul_keep :: "'f mul_data_to_keep_receiver"
  k2_chi :: 'f

record ('f, 'g) unique_keep_1to2 =
  uk1_instance_key :: 'f
  uk1_instance_point :: 'g
  uk1_inversion_mask :: 'f
  uk1_zeta :: 'f

record ('f, 'g) unique_keep_2to3 =
  uk2_instance_key :: 'f
  uk2_instance_point :: 'g
  uk2_inversion_mask :: 'f
  uk2_key_share :: 'f
  uk2_public_share :: 'g

section \<open>Hexadecimal scalars\<close>

definition FIELD_BYTES :: nat where "FIELD_BYTES = 32"

definition parse_hex_to_scalar :: "('f, 'g) suite \<Rightarrow> string \<Rightarrow> 'f option" where
  "parse_hex_to_scalar S hex_value =
     (case hex_decode S FIELD_BYTES hex_value of None \<Rightarrow> None | Some b \<Rightarrow> from_repr S b)"

text \<open>A hash has the 32 bytes of a field element, so its conversion cannot fail.\<close>

definition reduce_hash_bytes :: "('f, 'g) suite \<Rightarrow> bytes \<Rightarrow> 'f" where
  "reduce_hash_bytes S hash_output = reduce S hash_output"

definition reduce_hex_bytes :: "('f, 'g) suite \<Rightarrow> string \<Rightarrow> ('e, 'f) outcome" where
  "reduce_hex_bytes S hex_value =
     and_then (unwrap (hex_decode S FIELD_BYTES hex_value)) (\<lambda>b. Ok (reduce S b))"

section \<open>Verification\<close>

definition verify_ecdsa_signature ::
  "('f::field, 'g::ab_group_add) suite \<Rightarrow> bytes \<Rightarrow> 'g \<Rightarrow> string \<Rightarrow> string \<Rightarrow> bool" where
  "verify_ecdsa_signature S msg key x_coord signature =
     (case (parse_hex_to_scalar S x_coord, parse_hex_to_scalar S signature) of
        (Some rx_as_scalar, Some s_as_scalar) \<Rightarrow>
          if rx_as_scalar = 0 \<or> s_as_scalar = 0 then False
          else (case invert s_as_scalar of
              None \<Rightarrow> False
            | Some inverse_s \<Rightarrow>
                let first = reduce_hash_bytes S msg * inverse_s; second = rx_as_scalar * inverse_s;
                    point_to_check = smul S (generator S) first + smul S key second in
                if point_to_check = 0 then False
                else reduce S (affine_x S point_to_check) = rx_as_scalar)
      | _ \<Rightarrow> False)"

section \<open>Phase 1\<close>

text \<open>The session id of a multiplication: its receiver, its sender and everything that fixes the session.\<close>

definition sign_mul_sid ::
  "('f, 'g) party \<Rightarrow> sign_data \<Rightarrow> party_index \<Rightarrow> party_index \<Rightarrow> bytes" where
  "sign_mul_sid p d mul_receiver_idx mul_sender_idx =
     concat [bytes_of ''Multiplication protocol'', [as_u8 mul_receiver_idx], [as_u8 mul_sender_idx],
       party_session_id p, sign_id d, chain_code (derivation_data p)]"

definition sign_zero_sid :: "('f, 'g) party \<Rightarrow> sign_data \<Rightarrow> bytes" where
  "sign_zero_sid p d =
     concat [bytes_of ''Zero shares protocol'', party_session_id p, sign_id d, chain_code (derivation_data p)]"

fun mul_detail :: "error_mul \<Rightarrow> string" where
  "mul_detail (ErrorMul description) = description"

text \<open>The check of one counterparty; \<open>seen\<close> is the set of those before it.\<close>

definition sign_check_step ::
  "('f, 'g) party \<Rightarrow> party_index list \<Rightarrow> party_index \<Rightarrow> (abort, party_index list) outcome" where
  "sign_check_step p seen c =
     (let me = party_index_of p in
      if share_count (party_parameters p) < as_u8 c
      then Err (recoverable me (InvalidPartyIndexAbort c))
      else if c \<in> set seen then Err (recoverable me (DuplicateCounterparty c))
      else if c = me then Err (recoverable me SelfInCounterparties)
      else if \<not> btree_contains (mul_senders p) c \<or> \<not> btree_contains (mul_receivers p) c
      then Err (recoverable me (MissingMulState c))
      else Ok (c # seen))"

definition sign_phase1_step ::
  "('f::field, 'g::ab_group_add) suite \<Rightarrow> ('f, 'g) party \<Rightarrow> sign_data \<Rightarrow> 'g
   \<Rightarrow> ((party_index, 'f keep_phase_1to2) btree_map \<times> transmit_phase_1to2 list) \<times> 'f rng \<Rightarrow> party_index
   \<Rightarrow> (abort, ((party_index, 'f keep_phase_1to2) btree_map \<times> transmit_phase_1to2 list) \<times> 'f rng) outcome" where
  "sign_phase1_step S p d instance_point st c =
     (let ((keep, transmit), r) = st; me = party_index_of p;
          ((commitment, salt), r1) = commit_point S instance_point r in
      and_then (ok_or (recoverable me (MissingMulState c)) (btree_get (mul_receivers p) c)) (\<lambda>w.
      and_then (map_err (\<lambda>e. recoverable me (MultiplicationVerificationFailed c (mul_detail e)))
        (mul_receiver_run_phase1 S w (sign_mul_sid p d me c) r1)) (\<lambda>((chi, mul_keep, mul_transmit), r2).
      Ok ((btree_insert c \<lparr>k1_salt = salt, k1_chi = chi, k1_mul_keep = mul_keep\<rparr> keep,
           transmit @ [\<lparr>t1_parties = \<lparr>sender = me, receiver = c\<rparr>, t1_commitment = commitment,
                        t1_mul_transmit = mul_transmit\<rparr>]), r2))))"

definition sign_phase1 ::
  "('f::field, 'g::ab_group_add) suite \<Rightarrow> bool \<Rightarrow> ('f, 'g) party \<Rightarrow> sign_data \<Rightarrow> 'f rng
   \<Rightarrow> (abort, (('f, 'g) unique_keep_1to2 \<times> (party_index, 'f keep_phase_1to2) btree_map
            \<times> transmit_phase_1to2 list) \<times> 'f rng) outcome" where
  "sign_phase1 S oc p d r =
     (let me = party_index_of p in
      and_then (u8_sub oc (threshold (party_parameters p)) 1) (\<lambda>expected.
      if length (counterparties d) \<noteq> unat expected
      then Err (recoverable me (WrongCounterpartyCount (unat expected) (length (counterparties d))))
      else if share_count (party_parameters p) < as_u8 me
      then Err (recoverable me (InvalidPartyIndexAbort me))
      else
      and_then (each (sign_check_step p) [] (counterparties d)) (\<lambda>_.
      let (instance_key, r1) = random_scalar r; (inversion_mask, r2) = random_scalar r1;
          instance_point = smul S (generator S) instance_key in
      and_then (each (sign_phase1_step S p d instance_point) (([], []), r2) (counterparties d))
        (\<lambda>((keep, transmit), r3).
      let zeta = zero_share_compute S (zero_share_of p) (counterparties d) (sign_zero_sid p d) in
      Ok ((\<lparr>uk1_instance_key = instance_key, uk1_instance_point = instance_point,
            uk1_inversion_mask = inversion_mask, uk1_zeta = zeta\<rparr>, keep, transmit), r3)))))"

section \<open>Phase 2\<close>

text \<open>The own Lagrange coefficient, over the counterparties as they come.\<close>

definition sign_lagrange :: "u8 list \<Rightarrow> u8 \<Rightarrow> 'f::field \<times> 'f" where
  "sign_lagrange cs me =
     foldl (\<lambda>(num, den) c. (num * scalar_of_u8 c, den * (scalar_of_u8 c - scalar_of_u8 me))) (1, 1) cs"

text \<open>The checks of a message's header common to phases 2 and 3.\<close>

definition sign_check_header :: "party_index \<Rightarrow> sign_data \<Rightarrow> parties_message \<Rightarrow> (abort, unit) outcome" where
  "sign_check_header me d parties =
     (if sender parties \<notin> set (counterparties d)
      then Err (recoverable me (UnexpectedSender (sender parties)))
      else if receiver parties \<noteq> me
      then Err (recoverable me (MisroutedMessage me (receiver parties)))
      else Ok ())"

definition sign_check_fresh :: "party_index \<Rightarrow> party_index list \<Rightarrow> party_index \<Rightarrow> (abort, unit) outcome" where
  "sign_check_fresh me seen c =
     (if c \<in> set seen then Err (recoverable me (DuplicateSender c)) else Ok ())"

definition sign_phase2_step ::
  "('f::field, 'g::ab_group_add) suite \<Rightarrow> ('f, 'g) party \<Rightarrow> sign_data \<Rightarrow> ('f, 'g) unique_keep_1to2
   \<Rightarrow> (party_index, 'f keep_phase_1to2) btree_map \<Rightarrow> 'f \<Rightarrow> 'g
   \<Rightarrow> (party_index list \<times> (party_index, 'f keep_phase_2to3) btree_map \<times> ('f, 'g) transmit_phase_2to3 list) \<times> 'f rng
   \<Rightarrow> transmit_phase_1to2
   \<Rightarrow> (abort, (party_index list \<times> (party_index, 'f keep_phase_2to3) btree_map
            \<times> ('f, 'g) transmit_phase_2to3 list) \<times> 'f rng) outcome" where
  "sign_phase2_step S p d unique_kept kept key_share public_share st m =
     (let ((seen, keep, transmit), r) = st; me = party_index_of p; c = sender (t1_parties m) in
      and_then (sign_check_header me d (t1_parties m)) (\<lambda>_.
      and_then (sign_check_fresh me seen c) (\<lambda>_.
      and_then (ok_or (recoverable me (MissingMulState c)) (btree_get kept c)) (\<lambda>current_kept.
      and_then (ok_or (recoverable me (MissingMulState c)) (btree_get (mul_senders p) c)) (\<lambda>s.
      and_then (map_err (\<lambda>e. ban me c (MultiplicationVerificationFailed c (mul_detail e)))
        (mul_sender_run S s (sign_mul_sid p d c me) [uk1_instance_key unique_kept, key_share]
           (t1_mul_transmit m) r)) (\<lambda>((c_values, mul_transmit), r1).
      and_then (index c_values 0) (\<lambda>c_u.
      and_then (index c_values 1) (\<lambda>c_v.
      Ok ((c # seen,
           btree_insert c \<lparr>k2_c_u = c_u, k2_c_v = c_v, k2_commitment = t1_commitment m,
             k2_mul_keep = k1_mul_keep current_kept, k2_chi = k1_chi current_kept\<rparr> keep,
           transmit @ [\<lparr>t2_parties = \<lparr>sender = me, receiver = c\<rparr>,
             t2_gamma_u = smul S (generator S) c_u, t2_gamma_v = smul S (generator S) c_v,
             t2_psi = uk1_inversion_mask unique_kept - k1_chi current_kept,
             t2_public_share = public_share, t2_instance_point = uk1_instance_point unique_kept,
             t2_salt = k1_salt current_kept, t2_mul_transmit = mul_transmit\<rparr>]), r1)))))))))"

definition sign_phase2 ::
  "('f::field, 'g::ab_group_add) suite \<Rightarrow> bool \<Rightarrow> ('f, 'g) party \<Rightarrow> sign_data \<Rightarrow> ('f, 'g) unique_keep_1to2
   \<Rightarrow> (party_index, 'f keep_phase_1to2) btree_map \<Rightarrow> transmit_phase_1to2 list \<Rightarrow> 'f rng
   \<Rightarrow> (abort, (('f, 'g) unique_keep_2to3 \<times> (party_index, 'f keep_phase_2to3) btree_map
            \<times> ('f, 'g) transmit_phase_2to3 list) \<times> 'f rng) outcome" where
  "sign_phase2 S oc p d unique_kept kept received r =
     (let me = party_index_of p;
          (l_numerator, l_denominator) = sign_lagrange (map as_u8 (counterparties d)) (as_u8 me) in
      and_then (ok_or (recoverable me LagrangeCoefficientFailed) (invert l_denominator)) (\<lambda>inv.
      let l = l_numerator * inv;
          key_share = poly_point p * l + uk1_zeta unique_kept;
          public_share = smul S (generator S) key_share in
      and_then (u8_sub oc (threshold (party_parameters p)) 1) (\<lambda>_.
      if length received \<noteq> length (counterparties d)
      then Err (recoverable me (WrongMessageCount (length (counterparties d)) (length received)))
      else
      and_then (each (sign_phase2_step S p d unique_kept kept key_share public_share) (([], [], []), r) received)
        (\<lambda>((seen, keep, transmit), r1).
      Ok ((\<lparr>uk2_instance_key = uk1_instance_key unique_kept, uk2_instance_point = uk1_instance_point unique_kept,
            uk2_inversion_mask = uk1_inversion_mask unique_kept, uk2_key_share = key_share,
            uk2_public_share = public_share\<rparr>, keep, transmit), r1)))))"

section \<open>Phase 3\<close>

text \<open>The running sums of the third phase.\<close>

record ('f, 'g) sign_sums =
  expected_public_key :: 'g
  total_instance_point :: 'g
  first_sum_u_v :: 'f
  second_sum_u :: 'f
  second_sum_v :: 'f

text \<open>The two consistency checks in the exponent.\<close>

definition sign_consistency ::
  "('f::field, 'g::ab_group_add) suite \<Rightarrow> party_index \<Rightarrow> party_index \<Rightarrow> 'f \<Rightarrow> 'f \<Rightarrow> 'f \<Rightarrow> ('f, 'g) transmit_phase_2to3
   \<Rightarrow> (abort, unit) outcome" where
  "sign_consistency S me c chi d_u d_v m =
     (if smul S (t2_instance_point m) chi \<noteq> smul S (generator S) d_u + t2_gamma_u m
      then Err (ban me c (GammaUInconsistency c))
      else if smul S (t2_public_share m) chi \<noteq> smul S (generator S) d_v + t2_gamma_v m
      then Err (ban me c (OtConsistencyCheckFailed c))
      else Ok ())"

definition sign_add ::
  "('f::field, 'g::ab_group_add) sign_sums \<Rightarrow> 'f keep_phase_2to3 \<Rightarrow> 'f \<Rightarrow> 'f \<Rightarrow> ('f, 'g) transmit_phase_2to3
   \<Rightarrow> ('f, 'g) sign_sums" where
  "sign_add sums current_kept d_u d_v m =
     \<lparr>expected_public_key = expected_public_key sums + t2_public_share m,
      total_instance_point = total_instance_point sums + t2_instance_point m,
      first_sum_u_v = first_sum_u_v sums + t2_psi m,
      second_sum_u = second_sum_u sums + k2_c_u current_kept + d_u,
      second_sum_v = second_sum_v sums + k2_c_v current_kept + d_v\<rparr>"

definition sign_phase3_step ::
  "('f::field, 'g::ab_group_add) suite \<Rightarrow> ('f, 'g) party \<Rightarrow> sign_data \<Rightarrow> (party_index, 'f keep_phase_2to3) btree_map
   \<Rightarrow> party_index list \<times> ('f, 'g) sign_sums \<Rightarrow> ('f, 'g) transmit_phase_2to3
   \<Rightarrow> (abort, party_index list \<times> ('f, 'g) sign_sums) outcome" where
  "sign_phase3_step S p d kept st m =
     (let (seen, sums) = st; me = party_index_of p; c = sender (t2_parties m) in
      and_then (sign_check_header me d (t2_parties m)) (\<lambda>_.
      if t2_instance_point m = 0 then Err (recoverable me (TrivialInstancePoint c))
      else
      and_then (sign_check_fresh me seen c) (\<lambda>_.
      and_then (ok_or (recoverable me (MissingMulState c)) (btree_get kept c)) (\<lambda>current_kept.
      if \<not> verify_commitment_point S (t2_instance_point m) (k2_commitment current_kept) (t2_salt m)
      then Err (recoverable me (CommitmentMismatch c))
      else
      and_then (ok_or (recoverable me (MissingMulState c)) (btree_get (mul_receivers p) c)) (\<lambda>w.
      and_then (map_err (\<lambda>e. ban me c (MultiplicationVerificationFailed c (mul_detail e)))
        (mul_receiver_run_phase2 S w (sign_mul_sid p d me c) (k2_mul_keep current_kept) (t2_mul_transmit m)))
        (\<lambda>d_values.
      and_then (index d_values 0) (\<lambda>d_u.
      and_then (index d_values 1) (\<lambda>d_v.
      and_then (sign_consistency S me c (k2_chi current_kept) d_u d_v m) (\<lambda>_.
      Ok (c # seen, sign_add sums current_kept d_u d_v m))))))))))"

text \<open>After the checks: the own parts of numerator and denominator of the signature.\<close>

definition sign_contribution ::
  "('f::field, 'g::ab_group_add) suite \<Rightarrow> sign_data \<Rightarrow> ('f, 'g) unique_keep_2to3 \<Rightarrow> ('f, 'g) sign_sums
   \<Rightarrow> (abort, string \<times> 'f broadcast_3to4) outcome" where
  [simp]: "sign_contribution S d unique_kept sums =
     (let u = uk2_instance_key unique_kept * first_sum_u_v sums + second_sum_u sums;
          v = uk2_key_share unique_kept * first_sum_u_v sums + second_sum_v sums;
          x_coord = hex_encode S (affine_x S (total_instance_point sums));
          msg_scalar = reduce_hash_bytes S (message_hash d) in
      and_then (reduce_hex_bytes S x_coord) (\<lambda>rx_scalar.
      Ok (x_coord, \<lparr>bc_u = u, bc_w = msg_scalar * uk2_inversion_mask unique_kept + v * rx_scalar\<rparr>)))"

definition sign_phase3 ::
  "('f::field, 'g::ab_group_add) suite \<Rightarrow> ('f, 'g) party \<Rightarrow> sign_data \<Rightarrow> ('f, 'g) unique_keep_2to3
   \<Rightarrow> (party_index, 'f keep_phase_2to3) btree_map \<Rightarrow> ('f, 'g) transmit_phase_2to3 list
   \<Rightarrow> (abort, string \<times> 'f broadcast_3to4) outcome" where
  "sign_phase3 S p d unique_kept kept received =
     (let me = party_index_of p in
      if length received \<noteq> length (counterparties d)
      then Err (recoverable me (WrongMessageCount (length (counterparties d)) (length received)))
      else
      and_then (each (sign_phase3_step S p d kept)
        ([], \<lparr>expected_public_key = uk2_public_share unique_kept, total_instance_point = uk2_instance_point unique_kept,
              first_sum_u_v = uk2_inversion_mask unique_kept, second_sum_u = 0, second_sum_v = 0\<rparr>) received)
        (\<lambda>(seen, sums).
      if expected_public_key sums \<noteq> pk p then Err (recoverable me PolynomialInconsistency)
      else if total_instance_point sums = 0 then Err (recoverable me PolynomialInconsistency)
      else
      sign_contribution S d unique_kept sums))"

section \<open>Phase 4\<close>

text \<open>The end of the phase: encode \<open>s\<close>, verify, and compute the recovery id from the signature point.\<close>

definition sign_finish ::
  "('f::field, 'g::ab_group_add) suite \<Rightarrow> ('f, 'g) party \<Rightarrow> sign_data \<Rightarrow> string \<Rightarrow> 'f \<Rightarrow> (abort, string \<times> u8) outcome" where
  "sign_finish S p d x_coord s =
     (let signature = hex_encode S (to_repr S s) in
      if \<not> verify_ecdsa_signature S (message_hash d) (pk p) x_coord signature
      then Err (recoverable (party_index_of p) SignatureVerificationFailed)
      else
      and_then (reduce_hex_bytes S x_coord) (\<lambda>rx_scalar.
      let first = smul S (generator S) (reduce_hash_bytes S (message_hash d)); second = smul S (pk p) rx_scalar in
      and_then (unwrap (invert s)) (\<lambda>s_inverse.
      let signature_point = smul S (first + second) s_inverse in
      and_then (index (enc_point S signature_point) 0) (\<lambda>tag.
      and_then (unwrap (hex_decode S FIELD_BYTES x_coord)) (\<lambda>x_bytes_original.
      let is_y_odd = (tag = 3); is_x_reduced = (x_bytes_original \<noteq> to_repr S rx_scalar) in
      Ok (signature, (if is_y_odd then 1 else 0) OR (if is_x_reduced then 2 else 0)))))))"

definition sign_phase4 ::
  "('f::field, 'g::ab_group_add) suite \<Rightarrow> ('f, 'g) party \<Rightarrow> sign_data \<Rightarrow> string \<Rightarrow> 'f broadcast_3to4 list \<Rightarrow> bool
   \<Rightarrow> (abort, string \<times> u8) outcome" where
  "sign_phase4 S p d x_coord received low_s =
     (let (numerator, denominator) = foldl (\<lambda>(num, den) m. (num + bc_w m, den + bc_u m)) (0, 0) received in
      and_then (ok_or (recoverable (party_index_of p) ZeroDenominator) (invert denominator)) (\<lambda>denominator_inverse.
      let s = numerator * denominator_inverse in
      sign_finish S p d x_coord (if low_s \<and> is_high S s then - s else s)))"

section \<open>The specification of ECDSA\<close>

text \<open>Nonzero scalars, and the point they determine has \<open>r\<close> as the reduction of its x-coordinate.\<close>

definition ecdsa_point :: "('f::field, 'g::ab_group_add) suite \<Rightarrow> bytes \<Rightarrow> 'g \<Rightarrow> 'f \<Rightarrow> 'f \<Rightarrow> 'g" where
  "ecdsa_point S msg key r s = smul S (smul S (generator S) (reduce S msg) + smul S key r) (inverse s)"

definition ecdsa_valid :: "('f::field, 'g::ab_group_add) suite \<Rightarrow> bytes \<Rightarrow> 'g \<Rightarrow> 'f \<Rightarrow> 'f \<Rightarrow> bool" where
  "ecdsa_valid S msg key r s \<longleftrightarrow> r \<noteq> 0 \<and> s \<noteq> 0 \<and> ecdsa_point S msg key r s \<noteq> 0 \<and>
     reduce S (affine_x S (ecdsa_point S msg key r s)) = r"

lemma ecdsa_point_minus: "curve_ok S \<Longrightarrow> ecdsa_point S msg key r (- s) = - ecdsa_point S msg key r s"
  by (simp add: ecdsa_point_def smul_distrib)

lemma ecdsa_valid_minus: "suite_ok S \<Longrightarrow> ecdsa_valid S msg key r (- s) = ecdsa_valid S msg key r s"
  using suite_okD [of S] by (auto simp: ecdsa_valid_def ecdsa_point_minus affine_x_minus)

text \<open>With the signature's point the key can be recovered.\<close>

lemma ecdsa_recovers:
  assumes S: "curve_ok S" and "s \<noteq> 0" "r \<noteq> 0"
  shows "key = smul S (smul S (ecdsa_point S msg key r s) s - smul S (generator S) (reduce S msg)) (inverse r)"
proof -
  have "smul S (ecdsa_point S msg key r s) s = smul S (generator S) (reduce S msg) + smul S key r"
    using assms by (simp add: ecdsa_point_def smul_smul smul_one)
  then show ?thesis using assms by (simp add: smul_smul smul_one)
qed

text \<open>The nonce \<open>k\<close> and the secret give a valid signature.\<close>

lemma ecdsa_sign_valid:
  assumes S: "curve_ok S" and k: "k \<noteq> 0" and r: "r \<noteq> 0" "reduce S (affine_x S (smul S (generator S) k)) = r"
    and s: "s = (reduce S msg + r * x) * inverse k" "reduce S msg + r * x \<noteq> 0"
  shows "ecdsa_valid S msg (smul S (generator S) x) r s"
proof -
  have "ecdsa_point S msg (smul S (generator S) x) r s = smul S (generator S) ((reduce S msg + r * x) * inverse s)"
    using S by (simp add: ecdsa_point_def smul_smul smul_add_scalar [symmetric] mult.commute distrib_left distrib_right)
  also have "(reduce S msg + r * x) * inverse s = k"
  proof -
    have "s \<noteq> 0" "reduce S msg + r * x = k * s" using s k by simp_all
    then show ?thesis by (simp add: mult.assoc)
  qed
  finally have p: "ecdsa_point S msg (smul S (generator S) x) r s = smul S (generator S) k" .
  moreover have "smul S (generator S) k \<noteq> 0" using S k by (auto simp: smul_eq_zero_iff curve_ok_def)
  ultimately show ?thesis using r s k by (simp add: ecdsa_valid_def)
qed

lemma parse_hex_to_scalar_iff:
  "encodings_ok S \<Longrightarrow> parse_hex_to_scalar S h = Some a \<longleftrightarrow> hex_decode S FIELD_BYTES h = Some (to_repr S a)"
  by (auto simp: parse_hex_to_scalar_def from_to_repr dest: to_from_repr split: option.splits)

lemma parse_hex_encode: "encodings_ok S \<Longrightarrow> parse_hex_to_scalar S (hex_encode S (to_repr S a)) = Some a"
  by (simp add: parse_hex_to_scalar_iff hex_decode_encode length_to_repr FIELD_BYTES_def)

lemma verify_ecdsa_iff:
  assumes "suite_ok S"
  shows "verify_ecdsa_signature S msg key x_coord signature \<longleftrightarrow>
     (\<exists>r s. parse_hex_to_scalar S x_coord = Some r \<and> parse_hex_to_scalar S signature = Some s \<and>
        ecdsa_valid S msg key r s)"
proof -
  have point: "smul S (generator S) (reduce S msg * inverse s) + smul S key (r * inverse s) =
      ecdsa_point S msg key r s" for r s
    using suite_okD(1) [OF assms] by (simp add: ecdsa_point_def smul_distrib smul_smul mult.commute)
  show ?thesis
    by (auto simp: verify_ecdsa_signature_def reduce_hash_bytes_def
        Let_def point invert_def ecdsa_valid_def split: option.splits)
qed

text \<open>
  C23: \<open>verify_ecdsa_signature\<close> implements ECDSA verification with strict ranges: it accepts
  exactly when both strings are canonical encodings of scalars that form a valid signature.
\<close>

theorem verify_ecdsa_correct:
  assumes "suite_ok S"
  shows "verify_ecdsa_signature S msg key x_coord signature \<longleftrightarrow>
     (\<exists>r s. hex_decode S FIELD_BYTES x_coord = Some (to_repr S r) \<and>
        hex_decode S FIELD_BYTES signature = Some (to_repr S s) \<and> ecdsa_valid S msg key r s)"
  using suite_okD(2) [OF assms] by (simp add: verify_ecdsa_iff [OF assms] parse_hex_to_scalar_iff)

section \<open>What a returned signature satisfies\<close>

lemma reduce_hex_bytes_eq_Ok_iff [outcome_simps]:
  "reduce_hex_bytes S h = Ok a \<longleftrightarrow> (\<exists>b. hex_decode S FIELD_BYTES h = Some b \<and> a = reduce S b)"
  by (auto simp: reduce_hex_bytes_def outcome_simps)

lemma reduce_hex_bytes_neq_Err [simp]: "reduce_hex_bytes S h \<noteq> Err e"
  by (auto simp: reduce_hex_bytes_def outcome_simps)

text \<open>The sums of the fourth phase.\<close>

lemma sign_phase4_sums:
  "foldl (\<lambda>(num, den) m. (num + bc_w m, den + bc_u m)) (a, b) ms = (a + (\<Sum>m\<leftarrow>ms. bc_w m), b + (\<Sum>m\<leftarrow>ms. bc_u m))"
  by (induction ms arbitrary: a b) (simp_all add: add.assoc)

text \<open>Phase 4 in terms of the specification.\<close>

lemma sign_finish_eq_Ok_iff:
  fixes S :: "('f::field, 'g::ab_group_add) suite"
  assumes S: "suite_ok S"
  shows "sign_finish S p d x_coord s = Ok (sig, rec_id) \<longleftrightarrow>
     (\<exists>r. hex_decode S FIELD_BYTES x_coord = Some (to_repr S r) \<and> ecdsa_valid S (message_hash d) (pk p) r s \<and>
        sig = hex_encode S (to_repr S s) \<and> enc_point S (ecdsa_point S (message_hash d) (pk p) r s) \<noteq> [] \<and>
        rec_id = (if hd (enc_point S (ecdsa_point S (message_hash d) (pk p) r s)) = 3 then 1 else 0))"
proof -
  note E = suite_okD(2) [OF S]
  let ?P = "\<lambda>r. ecdsa_point S (message_hash d) (pk p) r s"
  let ?ver = "verify_ecdsa_signature S (message_hash d) (pk p) x_coord (hex_encode S (to_repr S s))"
  have hd: "index xs 0 = (Ok a :: (abort, _) outcome) \<longleftrightarrow> xs \<noteq> [] \<and> a = hd xs" for xs and a :: u8
    by (auto simp: index_eq_Ok_iff hd_conv_nth)
  have ver: "?ver \<longleftrightarrow> (\<exists>r. hex_decode S FIELD_BYTES x_coord = Some (to_repr S r) \<and> ecdsa_valid S (message_hash d) (pk p) r s)"
    by (auto simp: verify_ecdsa_iff [OF S] parse_hex_encode [OF E] parse_hex_to_scalar_iff [OF E])
  show ?thesis
  proof (cases ?ver)
    case True
    then obtain r where r: "hex_decode S FIELD_BYTES x_coord = Some (to_repr S r)" "ecdsa_valid S (message_hash d) (pk p) r s"
      using ver by blast
    have uniq: "to_repr S r = to_repr S r' \<longleftrightarrow> r' = r" for r'
      using E by (metis reduce_to_repr)
    have s: "invert s = Some (inverse s)" using r(2) by (simp add: ecdsa_valid_def invert_def)
    have rx: "reduce_hex_bytes S x_coord = (Ok r :: (abort, 'f) outcome)"
      by (simp add: reduce_hex_bytes_eq_Ok_iff r reduce_to_repr [OF E])
    have "sign_finish S p d x_coord s = Ok (sig, rec_id) \<longleftrightarrow> (\<exists>tag. index (enc_point S (?P r)) 0 = (Ok tag :: (abort, _) outcome) \<and>
        sig = hex_encode S (to_repr S s) \<and> rec_id = (if tag = 3 then 1 else 0))"
      unfolding sign_finish_def Let_def ecdsa_point_def
      using True by (auto simp: s rx r(1) reduce_hash_bytes_def outcome_simps)
    then show ?thesis using r by (auto simp: hd uniq)
  next
    case False
    then show ?thesis using ver by (auto simp: sign_finish_def Let_def)
  qed
qed

lemma sign_phase4_eq_Ok_iff:
  assumes "suite_ok S"
  shows "sign_phase4 S p d x_coord ms low_s = Ok (sig, rec_id) \<longleftrightarrow>
     (\<exists>r s t. (\<Sum>m\<leftarrow>ms. bc_u m) \<noteq> 0 \<and>
        t = (\<Sum>m\<leftarrow>ms. bc_w m) * inverse (\<Sum>m\<leftarrow>ms. bc_u m) \<and> s = (if low_s \<and> is_high S t then - t else t) \<and>
        hex_decode S FIELD_BYTES x_coord = Some (to_repr S r) \<and> ecdsa_valid S (message_hash d) (pk p) r s \<and>
        sig = hex_encode S (to_repr S s) \<and>
        enc_point S (ecdsa_point S (message_hash d) (pk p) r s) \<noteq> [] \<and>
        rec_id = (if hd (enc_point S (ecdsa_point S (message_hash d) (pk p) r s)) = 3 then 1 else 0))"
proof (cases "(\<Sum>m\<leftarrow>ms. bc_u m) = 0")
  case True
  then show ?thesis by (simp add: sign_phase4_def sign_phase4_sums invert_def)
next
  case False
  then show ?thesis
    unfolding sign_phase4_def sign_phase4_sums prod.case
    by (simp add: invert_def Let_def sign_finish_eq_Ok_iff [OF assms])
qed

text \<open>
  C4: a signature phase 4 returns is valid for the party's public key, whatever was broadcast;
  it is in low form when that was asked for; the recovery id is 0 or 1 and tells the parity of
  the signature point, from which the public key can be recomputed.
\<close>

theorem sign_phase4_sound:
  assumes "suite_ok S" and "sign_phase4 S p d x_coord ms low_s = Ok (sig, rec_id)"
  shows "verify_ecdsa_signature S (message_hash d) (pk p) x_coord sig \<and>
     (\<exists>r s R. hex_decode S FIELD_BYTES x_coord = Some (to_repr S r) \<and> sig = hex_encode S (to_repr S s) \<and>
        (low_s \<longrightarrow> \<not> is_high S s) \<and> R \<noteq> 0 \<and> reduce S (affine_x S R) = r \<and>
        rec_id = (if hd (enc_point S R) = 3 then 1 else 0) \<and>
        pk p = smul S (smul S R s - smul S (generator S) (reduce S (message_hash d))) (inverse r))"
proof -
  obtain r s t where rs: "s = (if low_s \<and> is_high S t then - t else t)"
    "hex_decode S FIELD_BYTES x_coord = Some (to_repr S r)" "ecdsa_valid S (message_hash d) (pk p) r s"
    "sig = hex_encode S (to_repr S s)"
    "rec_id = (if hd (enc_point S (ecdsa_point S (message_hash d) (pk p) r s)) = 3 then 1 else 0)"
    using assms(2) unfolding sign_phase4_eq_Ok_iff [OF assms(1)] by blast
  have "verify_ecdsa_signature S (message_hash d) (pk p) x_coord sig"
    unfolding rs(4) verify_ecdsa_iff [OF assms(1)] parse_hex_encode [OF suite_okD(2) [OF assms(1)]]
      parse_hex_to_scalar_iff [OF suite_okD(2) [OF assms(1)]] using rs(2,3) by blast
  moreover have "low_s \<longrightarrow> \<not> is_high S s"
    using rs(1) is_high_minus [OF suite_okD(2) [OF assms(1)]] by auto
  moreover have "r \<noteq> 0" "s \<noteq> 0" using rs(3) by (simp_all add: ecdsa_valid_def)
  ultimately show ?thesis
    using rs ecdsa_recovers [OF suite_okD(1) [OF assms(1)] \<open>s \<noteq> 0\<close> \<open>r \<noteq> 0\<close>] unfolding ecdsa_valid_def by blast
qed

section \<open>What the phases check\<close>

lemma sign_check_header_eq_Ok_iff [outcome_simps]:
  "sign_check_header me d h = Ok u \<longleftrightarrow> sender h \<in> set (counterparties d) \<and> receiver h = me"
  by (simp add: sign_check_header_def)

lemma sign_check_header_Err:
  "sign_check_header me d h = Err a \<Longrightarrow> index_of a = me \<and> kind a = Recoverable"
  by (auto simp: sign_check_header_def split: if_splits)

lemma sign_check_fresh_eq_Ok_iff [outcome_simps]: "sign_check_fresh me seen c = Ok u \<longleftrightarrow> c \<notin> set seen"
  by (simp add: sign_check_fresh_def)

lemma sign_check_fresh_Err:
  "sign_check_fresh me seen c = Err a \<Longrightarrow> index_of a = me \<and> kind a = Recoverable"
  by (auto simp: sign_check_fresh_def split: if_splits)

lemma sign_consistency_eq_Ok_iff [outcome_simps]:
  "sign_consistency S me c chi d_u d_v m = Ok u \<longleftrightarrow>
     smul S (t2_instance_point m) chi = smul S (generator S) d_u + t2_gamma_u m \<and>
     smul S (t2_public_share m) chi = smul S (generator S) d_v + t2_gamma_v m"
  by (simp add: sign_consistency_def)

lemma sign_check_step_eq_Ok_iff:
  "sign_check_step p seen c = Ok seen' \<longleftrightarrow>
     as_u8 c \<le> share_count (party_parameters p) \<and> c \<notin> set seen \<and> c \<noteq> party_index_of p \<and>
     btree_contains (mul_senders p) c \<and> btree_contains (mul_receivers p) c \<and> seen' = c # seen"
  by (auto simp: sign_check_step_def Let_def not_less)

lemma sign_check_loop:
  "each (sign_check_step p) seen cs = Ok seen' \<longleftrightarrow>
     (\<forall>c\<in>set cs. as_u8 c \<le> share_count (party_parameters p) \<and> c \<notin> set seen \<and> c \<noteq> party_index_of p \<and>
        btree_contains (mul_senders p) c \<and> btree_contains (mul_receivers p) c) \<and>
     distinct cs \<and> seen' = rev cs @ seen"
  by (induction cs arbitrary: seen) (auto simp: outcome_simps sign_check_step_eq_Ok_iff)

lemma sign_phase1_step_eq_Ok_iff:
  "sign_phase1_step S p d ip ((keep, transmit), r) c = Ok st \<longleftrightarrow>
     (\<exists>w x k m r2. btree_get (mul_receivers p) c = Some w \<and>
        mul_receiver_run_phase1 S w (sign_mul_sid p d (party_index_of p) c) (snd (commit_point S ip r)) = Ok ((x, k, m), r2) \<and>
        st = ((btree_insert c \<lparr>k1_salt = snd (fst (commit_point S ip r)), k1_chi = x, k1_mul_keep = k\<rparr> keep,
          transmit @ [\<lparr>t1_parties = \<lparr>sender = party_index_of p, receiver = c\<rparr>,
             t1_commitment = fst (fst (commit_point S ip r)), t1_mul_transmit = m\<rparr>]), r2))"
  by (cases "commit_point S ip r") (auto simp: sign_phase1_step_def outcome_simps Let_def split: prod.splits)

lemma sign_phase2_step_eq_Ok_iff:
  "sign_phase2_step S p d uk kept ks ps ((seen, keep, transmit), r) m = Ok st \<longleftrightarrow>
     (\<exists>k s out data r1. sender (t1_parties m) \<in> set (counterparties d) \<and> receiver (t1_parties m) = party_index_of p \<and>
        sender (t1_parties m) \<notin> set seen \<and> btree_get kept (sender (t1_parties m)) = Some k \<and>
        btree_get (mul_senders p) (sender (t1_parties m)) = Some s \<and>
        mul_sender_run S s (sign_mul_sid p d (sender (t1_parties m)) (party_index_of p))
          [uk1_instance_key uk, ks] (t1_mul_transmit m) r = Ok ((out, data), r1) \<and> 1 < length out \<and>
        st = ((sender (t1_parties m) # seen,
           btree_insert (sender (t1_parties m)) \<lparr>k2_c_u = out ! 0, k2_c_v = out ! 1, k2_commitment = t1_commitment m,
             k2_mul_keep = k1_mul_keep k, k2_chi = k1_chi k\<rparr> keep,
           transmit @ [\<lparr>t2_parties = \<lparr>sender = party_index_of p, receiver = sender (t1_parties m)\<rparr>,
             t2_gamma_u = smul S (generator S) (out ! 0), t2_gamma_v = smul S (generator S) (out ! 1),
             t2_psi = uk1_inversion_mask uk - k1_chi k,
             t2_public_share = ps, t2_instance_point = uk1_instance_point uk,
             t2_salt = k1_salt k, t2_mul_transmit = data\<rparr>]), r1))"
  by (auto simp: sign_phase2_step_def outcome_simps Let_def)

lemma index_first_of_two: "Suc 0 < length xs \<Longrightarrow> index xs 0 = Ok (xs ! 0)"
  by (cases xs) (simp_all add: index_def)

lemma sign_phase3_step_eq_Ok_iff:
  "sign_phase3_step S p d kept (seen, sums) m = Ok st \<longleftrightarrow>
     (\<exists>k w ds. sender (t2_parties m) \<in> set (counterparties d) \<and> receiver (t2_parties m) = party_index_of p \<and>
        t2_instance_point m \<noteq> 0 \<and> sender (t2_parties m) \<notin> set seen \<and> btree_get kept (sender (t2_parties m)) = Some k \<and>
        verify_commitment_point S (t2_instance_point m) (k2_commitment k) (t2_salt m) \<and>
        btree_get (mul_receivers p) (sender (t2_parties m)) = Some w \<and>
        mul_receiver_run_phase2 S w (sign_mul_sid p d (party_index_of p) (sender (t2_parties m))) (k2_mul_keep k)
          (t2_mul_transmit m) = Ok ds \<and> 1 < length ds \<and>
        smul S (t2_instance_point m) (k2_chi k) = smul S (generator S) (ds ! 0) + t2_gamma_u m \<and>
        smul S (t2_public_share m) (k2_chi k) = smul S (generator S) (ds ! 1) + t2_gamma_v m \<and>
        st = (sender (t2_parties m) # seen, sign_add sums k (ds ! 0) (ds ! 1) m))"
    (is "?L \<longleftrightarrow> ?R")
proof
  show "?L \<Longrightarrow> ?R"
    by (auto simp: sign_phase3_step_def outcome_simps Let_def split: if_splits)
  show "?R \<Longrightarrow> ?L"
    by (elim exE conjE) (simp add: sign_phase3_step_def Let_def sign_check_header_def sign_check_fresh_def sign_consistency_def
        index_first_of_two)
qed

text \<open>What the receiver has checked of one message of the second round.\<close>

definition sign_accepted ::
  "('f::field, 'g::ab_group_add) suite \<Rightarrow> ('f, 'g) party \<Rightarrow> sign_data \<Rightarrow> (party_index, 'f keep_phase_2to3) btree_map
   \<Rightarrow> ('f, 'g) transmit_phase_2to3 \<Rightarrow> bool" where
  "sign_accepted S p d kept m \<longleftrightarrow>
     sender (t2_parties m) \<in> set (counterparties d) \<and> receiver (t2_parties m) = party_index_of p \<and> t2_instance_point m \<noteq> 0 \<and>
     (\<exists>k w ds. btree_get kept (sender (t2_parties m)) = Some k \<and>
        verify_commitment_point S (t2_instance_point m) (k2_commitment k) (t2_salt m) \<and>
        btree_get (mul_receivers p) (sender (t2_parties m)) = Some w \<and>
        mul_receiver_run_phase2 S w (sign_mul_sid p d (party_index_of p) (sender (t2_parties m))) (k2_mul_keep k)
          (t2_mul_transmit m) = Ok ds \<and>
        smul S (t2_instance_point m) (k2_chi k) = smul S (generator S) (ds ! 0) + t2_gamma_u m \<and>
        smul S (t2_public_share m) (k2_chi k) = smul S (generator S) (ds ! 1) + t2_gamma_v m)"

lemma sign_phase3_loop:
  assumes "each (sign_phase3_step S p d kept) (seen0, sums0) ms = Ok (seen, sums)"
  shows "distinct (map (sender \<circ> t2_parties) ms) \<and> set (map (sender \<circ> t2_parties) ms) \<inter> set seen0 = {} \<and>
     (\<forall>m\<in>set ms. sign_accepted S p d kept m) \<and>
     expected_public_key sums = expected_public_key sums0 + (\<Sum>m\<leftarrow>ms. t2_public_share m) \<and>
     total_instance_point sums = total_instance_point sums0 + (\<Sum>m\<leftarrow>ms. t2_instance_point m)"
  using assms
proof (induction ms arbitrary: seen0 sums0)
  case Nil
  then show ?case by simp
next
  case (Cons m ms)
  from Cons.prems obtain k w ds where step: "sender (t2_parties m) \<notin> set seen0" "sign_accepted S p d kept m"
    and rest: "each (sign_phase3_step S p d kept) (sender (t2_parties m) # seen0, sign_add sums0 k (ds ! 0) (ds ! 1) m) ms = Ok (seen, sums)"
    by (auto simp: outcome_simps sign_phase3_step_eq_Ok_iff sign_accepted_def)
  note IH = Cons.IH [OF rest]
  show ?case using IH step by (auto simp: sign_add_def add.assoc)
qed

text \<open>
  C6: what phase 3 guarantees whatever was received: exactly one message from every
  counterparty, each opening the commitment of the first round and passing the
  multiplication's and both exponent checks; the public shares add up to the public key; the
  instance points add up to a point other than the identity, whose x-coordinate is returned.
\<close>

theorem sign_phase3_sound:
  assumes "sign_phase3 S p d uk kept received = Ok (x_coord, bc)"
  shows "distinct (map (sender \<circ> t2_parties) received) \<and> length received = length (counterparties d) \<and>
     (\<forall>m\<in>set received. sign_accepted S p d kept m) \<and>
     pk p = uk2_public_share uk + (\<Sum>m\<leftarrow>received. t2_public_share m) \<and>
     uk2_instance_point uk + (\<Sum>m\<leftarrow>received. t2_instance_point m) \<noteq> 0 \<and>
     x_coord = hex_encode S (affine_x S (uk2_instance_point uk + (\<Sum>m\<leftarrow>received. t2_instance_point m)))"
proof -
  from assms obtain seen sums where len: "length received = length (counterparties d)"
    and run: "each (sign_phase3_step S p d kept)
        ([], \<lparr>expected_public_key = uk2_public_share uk, total_instance_point = uk2_instance_point uk,
              first_sum_u_v = uk2_inversion_mask uk, second_sum_u = 0, second_sum_v = 0\<rparr>) received = Ok (seen, sums)"
    and fin: "expected_public_key sums = pk p" "total_instance_point sums \<noteq> 0"
      "x_coord = hex_encode S (affine_x S (total_instance_point sums))"
    by (auto simp: sign_phase3_def Let_def outcome_simps split: if_splits)
  from sign_phase3_loop [OF run] len fin show ?thesis by auto
qed

section \<open>Aborts\<close>

lemma u8_sub_neq_Err [simp]: "u8_sub oc a b \<noteq> Err e"
  by (simp add: u8_sub_def)

lemma sign_phase1_Err:
  assumes "sign_phase1 S oc p d r = Err a"
  shows "index_of a = party_index_of p \<and> kind a = Recoverable"
proof -
  have check: "index_of a = party_index_of p \<and> kind a = Recoverable" if "sign_check_step p s c = Err a" for s c
    using that by (auto simp: sign_check_step_def Let_def split: if_splits)
  have step: "index_of a = party_index_of p \<and> kind a = Recoverable" if "sign_phase1_step S p d ip s c = Err a" for ip s c
    using that by (auto simp: sign_phase1_step_def outcome_simps Let_def split: prod.splits)
  show ?thesis using assms
    by (auto simp: sign_phase1_def Let_def outcome_simps split: if_splits prod.splits elim!: each_Err dest: check step)
qed

text \<open>
  The first failing round of a loop. A ban is pinned down by the message at which it was raised: everything
  before it was accepted, and the message fails one of the checks that only a cheating sender fails.
\<close>

lemma each_Err_split:
  "each f s xs = Err e \<longleftrightarrow> (\<exists>ys x zs s'. xs = ys @ x # zs \<and> each f s ys = Ok s' \<and> f s' x = Err e)" (is "?L \<longleftrightarrow> ?R")
proof
  show "?L \<Longrightarrow> ?R"
  proof (induction xs arbitrary: s)
    case (Cons x xs)
    show ?case
    proof (cases "f s x")
      case (Ok t)
      with Cons.prems have "each f t xs = Err e" by simp
      from Cons.IH [OF this] obtain ys y zs s' where "xs = ys @ y # zs" "each f t ys = Ok s'" "f s' y = Err e" by blast
      with Ok show ?thesis by (intro exI [of _ "x # ys"]) auto
    next
      case (Err d)
      with Cons.prems show ?thesis by (intro exI [of _ "[]"]) auto
    qed (use Cons.prems in auto)
  qed simp
  show "?R \<Longrightarrow> ?L" by (auto simp: each_append)
qed

lemma each_ban_split:
  assumes "\<And>s' x. f s' x = Err a \<and> kind a = k \<longleftrightarrow> P s' x"
  shows "each f s xs = Err a \<and> kind a = k \<longleftrightarrow> (\<exists>ys x zs s'. xs = ys @ x # zs \<and> each f s ys = Ok s' \<and> P s' x)"
  unfolding each_Err_split using assms by metis

text \<open>
  The message of the second round is authentic, opens the commitment and concerns kept state, but its
  multiplication fails, or one of the two equations in the exponent does.
\<close>

definition sign_caught ::
  "('f::field, 'g::ab_group_add) suite \<Rightarrow> ('f, 'g) party \<Rightarrow> sign_data \<Rightarrow> (party_index, 'f keep_phase_2to3) btree_map
   \<Rightarrow> ('f, 'g) transmit_phase_2to3 \<Rightarrow> abort_reason \<Rightarrow> bool" where
  "sign_caught S p d kept m why \<longleftrightarrow>
     (let c = sender (t2_parties m) in
      c \<in> set (counterparties d) \<and> receiver (t2_parties m) = party_index_of p \<and> t2_instance_point m \<noteq> 0 \<and>
      (\<exists>k w. btree_get kept c = Some k \<and> btree_get (mul_receivers p) c = Some w \<and>
         verify_commitment_point S (t2_instance_point m) (k2_commitment k) (t2_salt m) \<and>
         (case mul_receiver_run_phase2 S w (sign_mul_sid p d (party_index_of p) c) (k2_mul_keep k) (t2_mul_transmit m) of
            Err e \<Rightarrow> why = MultiplicationVerificationFailed c (mul_detail e)
          | Ok ds \<Rightarrow>
              if smul S (t2_instance_point m) (k2_chi k) \<noteq> smul S (generator S) (ds ! 0) + t2_gamma_u m
              then why = GammaUInconsistency c
              else smul S (t2_public_share m) (k2_chi k) \<noteq> smul S (generator S) (ds ! 1) + t2_gamma_v m \<and>
                why = OtConsistencyCheckFailed c
          | _ \<Rightarrow> False)))"

lemma ban_inject [simp]: "ban i c r = ban i' c' r' \<longleftrightarrow> i = i' \<and> c = c' \<and> r = r'"
  by (auto simp: ban_def)

lemma recoverable_neq_ban [simp]: "recoverable i r \<noteq> ban i' c r'" "ban i' c r' \<noteq> recoverable i r"
  by (simp_all add: ban_def recoverable_def)

lemma mul_receiver_run_phase2_length: "mul_receiver_run_phase2 S w sid k m = Ok ds \<Longrightarrow> length ds = 2"
  by (auto simp: mul_receiver_run_phase2_def Let_def outcome_simps mul_L_def split: if_splits)

lemma sign_phase3_step_ban_iff:
  "sign_phase3_step S p d kept (seen, sums) m = Err a \<and> kind a = BanCounterparty c \<longleftrightarrow>
     sender (t2_parties m) = c \<and> c \<notin> set seen \<and> (\<exists>why. sign_caught S p d kept m why \<and> a = ban (party_index_of p) c why)"
  (is "?L \<longleftrightarrow> ?R")
proof
  assume ?L
  then show ?R
    by (auto simp: sign_phase3_step_def outcome_simps Let_def sign_check_header_def sign_check_fresh_def sign_consistency_def
        sign_caught_def index_eq_Ok_iff split: if_splits)
next
  assume R: ?R
  then obtain why k w where h: "sender (t2_parties m) = c" "c \<notin> set seen" "a = ban (party_index_of p) c why"
      "c \<in> set (counterparties d)" "receiver (t2_parties m) = party_index_of p" "t2_instance_point m \<noteq> 0"
      "btree_get kept c = Some k" "btree_get (mul_receivers p) c = Some w"
      "verify_commitment_point S (t2_instance_point m) (k2_commitment k) (t2_salt m)"
    and why: "case mul_receiver_run_phase2 S w (sign_mul_sid p d (party_index_of p) c) (k2_mul_keep k) (t2_mul_transmit m) of
            Err e \<Rightarrow> why = MultiplicationVerificationFailed c (mul_detail e)
          | Ok ds \<Rightarrow>
              if smul S (t2_instance_point m) (k2_chi k) \<noteq> smul S (generator S) (ds ! 0) + t2_gamma_u m
              then why = GammaUInconsistency c
              else smul S (t2_public_share m) (k2_chi k) \<noteq> smul S (generator S) (ds ! 1) + t2_gamma_v m \<and>
                why = OtConsistencyCheckFailed c
          | _ \<Rightarrow> False"
    unfolding sign_caught_def Let_def by blast
  show ?L
  proof (cases "mul_receiver_run_phase2 S w (sign_mul_sid p d (party_index_of p) c) (k2_mul_keep k) (t2_mul_transmit m)")
    case (Ok ds)
    then have "1 < length ds" using mul_receiver_run_phase2_length [OF Ok] by simp
    then show ?thesis using h why Ok
      by (auto simp: sign_phase3_step_def Let_def sign_check_header_def sign_check_fresh_def sign_consistency_def
          index_first_of_two split: if_splits)
  qed (use h why in \<open>auto simp: sign_phase3_step_def Let_def sign_check_header_def sign_check_fresh_def\<close>)
qed

text \<open>The loop passes over accepted messages of different senders, and only over those.\<close>

lemma sign_phase3_loop_iff:
  "(\<exists>seen sums. each (sign_phase3_step S p d kept) (seen0, sums0) ms = Ok (seen, sums) \<and>
      set seen = set seen0 \<union> set (map (sender \<circ> t2_parties) ms)) \<longleftrightarrow>
   distinct (map (sender \<circ> t2_parties) ms) \<and> set (map (sender \<circ> t2_parties) ms) \<inter> set seen0 = {} \<and>
   (\<forall>m\<in>set ms. sign_accepted S p d kept m)"
proof (induction ms arbitrary: seen0 sums0)
  case Nil
  then show ?case by auto
next
  case (Cons m ms)
  let ?c = "sender (t2_parties m)"
  have step: "(\<exists>k ds. sign_phase3_step S p d kept (seen0, sums0) m = Ok (?c # seen0, sign_add sums0 k (ds ! 0) (ds ! 1) m)) \<longleftrightarrow>
      ?c \<notin> set seen0 \<and> sign_accepted S p d kept m"
    unfolding sign_phase3_step_eq_Ok_iff sign_accepted_def using mul_receiver_run_phase2_length by fastforce
  have only: "\<exists>k ds. st = (?c # seen0, sign_add sums0 k (ds ! 0) (ds ! 1) m)"
    if "sign_phase3_step S p d kept (seen0, sums0) m = Ok st" for st
    using that unfolding sign_phase3_step_eq_Ok_iff by blast
  show ?case
  proof (cases "\<exists>st. sign_phase3_step S p d kept (seen0, sums0) m = Ok st")
    case True
    then obtain k ds where run: "sign_phase3_step S p d kept (seen0, sums0) m = Ok (?c # seen0, sign_add sums0 k (ds ! 0) (ds ! 1) m)"
      using only by blast
    then have "?c \<notin> set seen0 \<and> sign_accepted S p d kept m" using step by blast
    with Cons.IH [of "?c # seen0" "sign_add sums0 k (ds ! 0) (ds ! 1) m"] run show ?thesis by auto
  next
    case False
    then have "\<not> (?c \<notin> set seen0 \<and> sign_accepted S p d kept m)" using step by blast
    with False show ?thesis by (auto simp: outcome_simps)
  qed
qed

lemma sign_phase3_loop_seen:
  "each (sign_phase3_step S p d kept) (seen0, sums0) ms = Ok (seen, sums) \<Longrightarrow>
   set seen = set seen0 \<union> set (map (sender \<circ> t2_parties) ms)"
proof (induction ms arbitrary: seen0 sums0)
  case (Cons m ms)
  then obtain k ds where "each (sign_phase3_step S p d kept) (sender (t2_parties m) # seen0, sign_add sums0 k (ds ! 0) (ds ! 1) m) ms = Ok (seen, sums)"
    by (auto simp: outcome_simps sign_phase3_step_eq_Ok_iff)
  from Cons.IH [OF this] show ?case by auto
qed simp

lemma sign_phase3_loop_reaches:
  "(\<exists>seen sums. each (sign_phase3_step S p d kept) ([], s0) ms = Ok (seen, sums) \<and> c \<notin> set seen) \<longleftrightarrow>
     distinct (map (sender \<circ> t2_parties) ms) \<and> c \<notin> set (map (sender \<circ> t2_parties) ms) \<and>
     (\<forall>m\<in>set ms. sign_accepted S p d kept m)" (is "?L \<longleftrightarrow> ?R")
proof
  assume ?L
  then obtain seen sums where run: "each (sign_phase3_step S p d kept) ([], s0) ms = Ok (seen, sums)" and c: "c \<notin> set seen" by blast
  note seen = sign_phase3_loop_seen [OF run]
  from run seen have "\<exists>seen sums. each (sign_phase3_step S p d kept) ([], s0) ms = Ok (seen, sums) \<and>
      set seen = set [] \<union> set (map (sender \<circ> t2_parties) ms)" by blast
  then show ?R unfolding sign_phase3_loop_iff using c seen by simp
next
  assume R: ?R
  then have "distinct (map (sender \<circ> t2_parties) ms) \<and> set (map (sender \<circ> t2_parties) ms) \<inter> set [] = {} \<and>
      (\<forall>m\<in>set ms. sign_accepted S p d kept m)" by simp
  then obtain seen sums where "each (sign_phase3_step S p d kept) ([], s0) ms = Ok (seen, sums)"
      "set seen = set [] \<union> set (map (sender \<circ> t2_parties) ms)"
    unfolding sign_phase3_loop_iff [symmetric, where ?sums0.0 = s0] by blast
  with R show ?L by auto
qed

lemma sign_phase3_ban_iff:
  fixes S :: "('f::field, 'g::ab_group_add) suite"
  shows
  "sign_phase3 S p d uk kept received = Err a \<and> kind a = BanCounterparty c \<longleftrightarrow>
     length received = length (counterparties d) \<and>
     (\<exists>ms m ms' why. received = ms @ m # ms' \<and> distinct (map (sender \<circ> t2_parties) (ms @ [m])) \<and>
        (\<forall>m'\<in>set ms. sign_accepted S p d kept m') \<and> sender (t2_parties m) = c \<and> sign_caught S p d kept m why \<and>
        a = ban (party_index_of p) c why)"
  (is "_ \<longleftrightarrow> _ \<and> ?R")
proof -
  define s0 where "s0 = \<lparr>expected_public_key = uk2_public_share uk, total_instance_point = uk2_instance_point uk,
      first_sum_u_v = uk2_inversion_mask uk, second_sum_u = 0, second_sum_v = 0\<rparr>"
  have "sign_phase3 S p d uk kept received = Err a \<and> kind a = BanCounterparty c \<longleftrightarrow>
      length received = length (counterparties d) \<and>
      each (sign_phase3_step S p d kept) ([], s0) received = Err a \<and> kind a = BanCounterparty c"
    unfolding sign_phase3_def Let_def s0_def
    by (auto simp: outcome_simps Let_def split: if_splits)
  also have "each (sign_phase3_step S p d kept) ([], s0) received = Err a \<and> kind a = BanCounterparty c \<longleftrightarrow>
      (\<exists>ms m ms' seen sums. received = ms @ m # ms' \<and> each (sign_phase3_step S p d kept) ([], s0) ms = Ok (seen, sums) \<and>
         sender (t2_parties m) = c \<and> c \<notin> set seen \<and>
         (\<exists>why. sign_caught S p d kept m why \<and> a = ban (party_index_of p) c why))"
    by (subst each_ban_split [where P = "\<lambda>(seen, sums) m. sender (t2_parties m) = c \<and> c \<notin> set seen \<and>
         (\<exists>why. sign_caught S p d kept m why \<and> a = ban (party_index_of p) c why)"])
      (simp_all add: sign_phase3_step_ban_iff split: prod.splits)
  also have "\<dots> \<longleftrightarrow> (\<exists>ms m ms'. received = ms @ m # ms' \<and>
         (\<exists>seen sums. each (sign_phase3_step S p d kept) ([], s0) ms = Ok (seen, sums) \<and> sender (t2_parties m) \<notin> set seen) \<and>
         sender (t2_parties m) = c \<and> (\<exists>why. sign_caught S p d kept m why \<and> a = ban (party_index_of p) c why))"
    by blast
  also have "\<dots> \<longleftrightarrow> (\<exists>ms m ms'. received = ms @ m # ms' \<and> distinct (map (sender \<circ> t2_parties) (ms @ [m])) \<and>
         (\<forall>m'\<in>set ms. sign_accepted S p d kept m') \<and>
         sender (t2_parties m) = c \<and> (\<exists>why. sign_caught S p d kept m why \<and> a = ban (party_index_of p) c why))"
  proof -
    have "distinct (map (sender \<circ> t2_parties) (ms @ [m])) \<longleftrightarrow> distinct (map (sender \<circ> t2_parties) ms) \<and>
        sender (t2_parties m) \<notin> set (map (sender \<circ> t2_parties) ms)" for ms and m :: "('f, 'g) transmit_phase_2to3"
      by simp
    then show ?thesis by (simp only: sign_phase3_loop_reaches conj_assoc)
  qed
  also have "\<dots> \<longleftrightarrow> ?R" by blast
  finally show ?thesis .
qed

text \<open>
  The first round. The own key share decides whether the loop is reached at all; a message is caught by
  the multiplication, at the state of the random source that the messages before it left.
\<close>

definition sign_key_share :: "('f::field, 'g) party \<Rightarrow> sign_data \<Rightarrow> ('f, 'g) unique_keep_1to2 \<Rightarrow> 'f option" where
  "sign_key_share p d uk =
     (let (l_numerator, l_denominator) = sign_lagrange (map as_u8 (counterparties d)) (as_u8 (party_index_of p)) in
      map_option (\<lambda>inv. poly_point p * (l_numerator * inv) + uk1_zeta uk) (invert l_denominator))"

definition sign_caught_early ::
  "('f::field, 'g) suite \<Rightarrow> ('f, 'g) party \<Rightarrow> sign_data \<Rightarrow> ('f, 'g) unique_keep_1to2 \<Rightarrow> (party_index, 'f keep_phase_1to2) btree_map
   \<Rightarrow> 'f \<Rightarrow> 'f rng \<Rightarrow> transmit_phase_1to2 \<Rightarrow> abort_reason \<Rightarrow> bool" where
  "sign_caught_early S p d uk kept key_share q m why \<longleftrightarrow>
     (let c = sender (t1_parties m) in
      c \<in> set (counterparties d) \<and> receiver (t1_parties m) = party_index_of p \<and> btree_get kept c \<noteq> None \<and>
      (\<exists>s e. btree_get (mul_senders p) c = Some s \<and>
         mul_sender_run S s (sign_mul_sid p d c (party_index_of p)) [uk1_instance_key uk, key_share] (t1_mul_transmit m) q = Err e \<and>
         why = MultiplicationVerificationFailed c (mul_detail e)))"

lemma sign_phase2_step_ban_iff:
  "sign_phase2_step S p d uk kept ks ps ((seen, keep, tr), q) m = Err a \<and> kind a = BanCounterparty c \<longleftrightarrow>
     sender (t1_parties m) = c \<and> c \<notin> set seen \<and> (\<exists>why. sign_caught_early S p d uk kept ks q m why \<and> a = ban (party_index_of p) c why)"
  (is "?L \<longleftrightarrow> ?R")
proof
  show "?L \<Longrightarrow> ?R"
    by (auto simp: sign_phase2_step_def outcome_simps Let_def sign_check_header_def sign_check_fresh_def sign_caught_early_def
        split: if_splits prod.splits)
  show "?R \<Longrightarrow> ?L"
    by (auto simp: sign_phase2_step_def Let_def sign_check_header_def sign_check_fresh_def sign_caught_early_def)
qed

lemma sign_phase2_ban_iff:
  "sign_phase2 S oc p d uk kept received r = Err a \<and> kind a = BanCounterparty c \<longleftrightarrow>
     length received = length (counterparties d) \<and>
     (\<exists>x ks ms m ms' seen keep tr q why. u8_sub oc (threshold (party_parameters p)) 1 = (Ok x :: (abort, u8) outcome) \<and>
        sign_key_share p d uk = Some ks \<and> received = ms @ m # ms' \<and>
        each (sign_phase2_step S p d uk kept ks (smul S (generator S) ks)) (([], [], []), r) ms = Ok ((seen, keep, tr), q) \<and>
        sender (t1_parties m) = c \<and> c \<notin> set seen \<and> sign_caught_early S p d uk kept ks q m why \<and> a = ban (party_index_of p) c why)"
proof -
  have "sign_phase2 S oc p d uk kept received r = Err a \<and> kind a = BanCounterparty c \<longleftrightarrow>
     length received = length (counterparties d) \<and>
     (\<exists>x ks. u8_sub oc (threshold (party_parameters p)) 1 = (Ok x :: (abort, u8) outcome) \<and> sign_key_share p d uk = Some ks \<and>
        each (sign_phase2_step S p d uk kept ks (smul S (generator S) ks)) (([], [], []), r) received = Err a \<and>
        kind a = BanCounterparty c)"
    unfolding sign_phase2_def sign_key_share_def Let_def
    by (auto simp: outcome_simps split: if_splits prod.splits)
  then show ?thesis
    unfolding each_Err_split [of _ _ received] using sign_phase2_step_ban_iff by fast
qed

lemma sign_phase2_Err_index:
  assumes "sign_phase2 S oc p d uk kept received r = Err a"
  shows "index_of a = party_index_of p"
proof -
  have "index_of e = party_index_of p" if "sign_phase2_step S p d uk kept ks ps st m = Err e" for ks ps st m e
    using that by (auto simp: sign_phase2_step_def outcome_simps Let_def split: prod.splits
        dest: sign_check_header_Err sign_check_fresh_Err)
  with assms show ?thesis
    by (auto simp: sign_phase2_def outcome_simps Let_def elim!: each_Err split: prod.splits if_splits)
qed

lemma sign_phase3_Err_index:
  assumes "sign_phase3 S p d uk kept received = Err a"
  shows "index_of a = party_index_of p"
proof -
  have "index_of e = party_index_of p" if "sign_phase3_step S p d kept st m = Err e" for st m e
    using that by (auto simp: sign_phase3_step_def outcome_simps Let_def sign_consistency_def split: prod.splits if_splits
        dest: sign_check_header_Err sign_check_fresh_Err)
  with assms show ?thesis
    by (auto simp: sign_phase3_def outcome_simps Let_def elim!: each_Err split: prod.splits if_splits)
qed

lemma sign_phase4_Err:
  "sign_phase4 S p d x_coord broadcasts low_s = Err a \<Longrightarrow> index_of a = party_index_of p \<and> kind a = Recoverable"
  by (auto simp: sign_phase4_def sign_finish_def outcome_simps Let_def split: prod.splits if_splits)

text \<open>
  C35: who is blamed, exactly. Phases 1 and 4 never ban. Phase 2 bans a counterparty precisely when the loop
  reaches a message from it, the first one, on which the party's own run of the multiplication as its sender fails. Phase 3
  bans precisely at a message that is authentic, opens its commitment and comes after accepted messages of
  others only, and that fails the multiplication or one of the two equations in the exponent; which one is
  the reason of the abort. Every abort carries the index of the party that raised it.
\<close>

theorem sign_abort_blame:
  "(sign_phase1 S oc p d r = Err a \<longrightarrow> index_of a = party_index_of p \<and> kind a = Recoverable) \<and>
   (sign_phase2 S oc p d uk1 kept1 received1 r = Err a \<longrightarrow> index_of a = party_index_of p) \<and>
   (sign_phase2 S oc p d uk1 kept1 received1 r = Err a \<and> kind a = BanCounterparty c \<longleftrightarrow>
      length received1 = length (counterparties d) \<and>
      (\<exists>x ks ms m ms' seen keep tr q why. u8_sub oc (threshold (party_parameters p)) 1 = (Ok x :: (abort, u8) outcome) \<and>
         sign_key_share p d uk1 = Some ks \<and> received1 = ms @ m # ms' \<and>
         each (sign_phase2_step S p d uk1 kept1 ks (smul S (generator S) ks)) (([], [], []), r) ms = Ok ((seen, keep, tr), q) \<and>
         sender (t1_parties m) = c \<and> c \<notin> set seen \<and> sign_caught_early S p d uk1 kept1 ks q m why \<and> a = ban (party_index_of p) c why)) \<and>
   (sign_phase3 S p d uk2 kept2 received2 = Err a \<longrightarrow> index_of a = party_index_of p) \<and>
   (sign_phase3 S p d uk2 kept2 received2 = Err a \<and> kind a = BanCounterparty c \<longleftrightarrow>
      length received2 = length (counterparties d) \<and>
      (\<exists>ms m ms' why. received2 = ms @ m # ms' \<and> distinct (map (sender \<circ> t2_parties) (ms @ [m])) \<and>
         (\<forall>m'\<in>set ms. sign_accepted S p d kept2 m') \<and> sender (t2_parties m) = c \<and> sign_caught S p d kept2 m why \<and>
         a = ban (party_index_of p) c why)) \<and>
   (sign_phase4 S p d x_coord broadcasts low_s = Err a \<longrightarrow> index_of a = party_index_of p \<and> kind a = Recoverable)"
  by (intro conjI; (rule impI)?;
      (rule sign_phase2_ban_iff sign_phase3_ban_iff
        | erule sign_phase1_Err sign_phase2_Err_index sign_phase3_Err_index sign_phase4_Err))

end
