(* ===== verification/SigningHonest.thy ===== *)
theory SigningHonest
  imports Signing
begin

text \<open>
  Signing by an honest quorum of a group: every phase succeeds for every party, for any
  order of delivery, and the result is one ECDSA signature of the message under the group's
  key. The proof rests on the contracts of the components: \<open>secret_sharing\<close>,
  \<open>zero_sharing\<close>, \<open>two_party_multiplication\<close> and \<open>commitment_scheme\<close>.
\<close>

section \<open>The signers\<close>

definition signers_ok :: "parameters \<Rightarrow> party_index list \<Rightarrow> (party_index \<Rightarrow> sign_data) \<Rightarrow> bytes \<Rightarrow> bytes \<Rightarrow> bool" where
  "signers_ok prm qs d sid h \<longleftrightarrow> distinct qs \<and> length qs = unat (threshold prm) \<and>
     (\<forall>i\<in>set qs. sign_id (d i) = sid \<and> message_hash (d i) = h \<and> distinct (counterparties (d i)) \<and>
        set (counterparties (d i)) = set qs - {i})"

lemma signers_counterparties:
  assumes "signers_ok prm qs d sid h" and "i \<in> set qs"
  shows "distinct (counterparties (d i))" "set (counterparties (d i)) = set qs - {i}"
    "length (counterparties (d i)) = unat (threshold prm) - 1"
proof -
  show c: "distinct (counterparties (d i))" "set (counterparties (d i)) = set qs - {i}"
    using assms by (simp_all add: signers_ok_def)
  have "length (counterparties (d i)) = card (set qs - {i})" using c by (metis distinct_card)
  also have "\<dots> = length qs - 1" using assms by (simp add: signers_ok_def distinct_card)
  finally show "length (counterparties (d i)) = unat (threshold prm) - 1"
    using assms(1) by (simp add: signers_ok_def)
qed

text \<open>The loop of phase 2 computes the party's weight in the quorum.\<close>

lemma sign_lagrange_weight:
  assumes S: "scalars_ok (S :: ('f::field, 'g) suite)" and q: "distinct qs" "i \<in> set qs"
    and cs: "distinct cs" "set cs = set qs - {i}"
  shows "snd (sign_lagrange (map as_u8 cs) (as_u8 i) :: 'f \<times> 'f) \<noteq> 0"
    and "fst (sign_lagrange (map as_u8 cs) (as_u8 i)) * inverse (snd (sign_lagrange (map as_u8 cs) (as_u8 i))) =
      (quorum_weight qs i :: 'f)"
proof -
  let ?cs = "map as_u8 cs" and ?i = "as_u8 i"
  note inj = inj_on_subset [OF inj_as_u8 subset_UNIV]
  have d: "distinct (?i # ?cs)" using cs by (simp add: distinct_map inj inj_image_mem_iff [OF inj_as_u8])
  have prods: "foldl (\<lambda>(num, den) c. (num * scalar_of_u8 c, den * (scalar_of_u8 c - scalar_of_u8 ?i))) (a, b) xs =
      (a * (\<Prod>c\<leftarrow>xs. scalar_of_u8 c), b * (\<Prod>c\<leftarrow>xs. scalar_of_u8 c - scalar_of_u8 ?i) :: 'f)" for a b xs
    by (induction xs arbitrary: a b) (simp_all add: mult.assoc)
  have loop: "sign_lagrange ?cs ?i = (lagrange_loop (?i # ?cs) ?i :: 'f \<times> 'f)"
    unfolding sign_lagrange_def lagrange_loop_eq [OF d] prods by simp
  show "snd (sign_lagrange ?cs ?i :: 'f \<times> 'f) \<noteq> 0"
    unfolding loop by (rule lagrange_loop_ok(1) [OF S d])
  have "set (?i # ?cs) = set (map as_u8 qs)" using cs q by auto
  moreover have "distinct (map as_u8 qs)" using q by (simp add: distinct_map inj)
  ultimately have "lagrange_zero (?i # ?cs) ?i = (quorum_weight qs i :: 'f)"
    unfolding quorum_weight_def using d by (intro lagrange_zero_order) simp_all
  then show "fst (sign_lagrange ?cs ?i) * inverse (snd (sign_lagrange ?cs ?i)) = (quorum_weight qs i :: 'f)"
    unfolding loop lagrange_loop_ok(2) [OF S d] .
qed

text \<open>A loop that refuses a key seen before goes through when the keys are distinct.\<close>

lemma each_total_seen:
  assumes "\<And>s x. x \<in> set xs \<Longrightarrow> key x \<notin> set (seen s) \<Longrightarrow> \<exists>t. f s x = Ok t \<and> seen t = key x # seen s"
    and "distinct (map key xs)" and "\<forall>x\<in>set xs. key x \<notin> set (seen s)"
  shows "\<exists>t. each f s xs = Ok t"
  using assms
proof (induction xs arbitrary: s)
  case Nil
  then show ?case by simp
next
  case (Cons x xs)
  then obtain t where t: "f s x = Ok t" "seen t = key x # seen s" by force
  have "\<forall>y\<in>set xs. key y \<notin> set (seen t)" using Cons.prems(2,3) unfolding t(2) by (auto intro: rev_image_eqI)
  then have "\<exists>u. each f t xs = Ok u" using Cons.prems(1,2) by (intro Cons.IH) auto
  with t show ?case by simp
qed

section \<open>The first round\<close>

text \<open>\<open>K i c\<close> and \<open>M i c\<close> are what party \<open>i\<close> keeps of and sends to \<open>c\<close>.\<close>

definition first_round ::
  "('f::field, 'g::ab_group_add) suite \<Rightarrow> party_index list \<Rightarrow> (party_index \<Rightarrow> ('f, 'g) party) \<Rightarrow> (party_index \<Rightarrow> sign_data)
   \<Rightarrow> (party_index \<Rightarrow> ('f, 'g) unique_keep_1to2) \<Rightarrow> (party_index \<Rightarrow> (party_index, 'f keep_phase_1to2) btree_map)
   \<Rightarrow> (party_index \<Rightarrow> transmit_phase_1to2 list)
   \<Rightarrow> (party_index \<Rightarrow> party_index \<Rightarrow> 'f keep_phase_1to2) \<Rightarrow> (party_index \<Rightarrow> party_index \<Rightarrow> transmit_phase_1to2) \<Rightarrow> bool" where
  "first_round S qs pty d uk keep tr K M \<longleftrightarrow>
     (\<forall>i\<in>set qs. uk1_instance_point (uk i) = smul S (generator S) (uk1_instance_key (uk i)) \<and>
        uk1_zeta (uk i) = zero_share_compute S (zero_share_of (pty i)) (counterparties (d i)) (sign_zero_sid (pty i) (d i)) \<and>
        tr i = map (M i) (counterparties (d i)) \<and>
        (\<forall>c\<in>set qs - {i}. btree_get (keep i) c = Some (K i c) \<and> t1_parties (M i c) = \<lparr>sender = i, receiver = c\<rparr> \<and>
           verify_commitment_point S (uk1_instance_point (uk i)) (t1_commitment (M i c)) (k1_salt (K i c)) \<and>
           (\<exists>w ra rb. btree_get (mul_receivers (pty i)) c = Some w \<and>
              mul_receiver_run_phase1 S w (sign_mul_sid (pty i) (d i) i c) ra =
                Ok ((k1_chi (K i c), k1_mul_keep (K i c), t1_mul_transmit (M i c)), rb))))"

lemma sign_phase1_result:
  assumes ok: "sign_phase1 S oc p d r = Ok ((uk, keep, tr), r')"
  shows "uk1_instance_point uk = smul S (generator S) (uk1_instance_key uk) \<and>
    uk1_zeta uk = zero_share_compute S (zero_share_of p) (counterparties d) (sign_zero_sid p d) \<and>
    (\<exists>K M. tr = map M (counterparties d) \<and> (\<forall>c\<in>set (counterparties d).
        btree_get keep c = Some (K c) \<and> t1_parties (M c) = \<lparr>sender = party_index_of p, receiver = c\<rparr> \<and>
        verify_commitment_point S (uk1_instance_point uk) (t1_commitment (M c)) (k1_salt (K c)) \<and>
        (\<exists>w ra rb. btree_get (mul_receivers p) c = Some w \<and>
           mul_receiver_run_phase1 S w (sign_mul_sid p d (party_index_of p) c) ra =
             Ok ((k1_chi (K c), k1_mul_keep (K c), t1_mul_transmit (M c)), rb))))"
proof -
  let ?P = "\<lambda>ip c k m. t1_parties m = \<lparr>sender = party_index_of p, receiver = c\<rparr> \<and>
        verify_commitment_point S ip (t1_commitment m) (k1_salt k) \<and>
        (\<exists>w ra rb. btree_get (mul_receivers p) c = Some w \<and>
           mul_receiver_run_phase1 S w (sign_mul_sid p d (party_index_of p) c) ra =
             Ok ((k1_chi k, k1_mul_keep k, t1_mul_transmit m), rb))"
  from ok obtain ra where d: "distinct (counterparties d)"
    and uk: "uk1_instance_point uk = smul S (generator S) (uk1_instance_key uk)"
      "uk1_zeta uk = zero_share_compute S (zero_share_of p) (counterparties d) (sign_zero_sid p d)"
    and loop: "each (sign_phase1_step S p d (uk1_instance_point uk)) (([], []), ra) (counterparties d) = Ok ((keep, tr), r')"
    by (auto simp: sign_phase1_def Let_def outcome_simps sign_check_loop split: if_splits prod.splits)
  have step: "\<exists>k m. fst (fst t) = btree_insert c k (fst (fst s)) \<and> snd (fst t) = snd (fst s) @ [m] \<and> ?P (uk1_instance_point uk) c k m"
    if "c \<in> set (counterparties d)" "sign_phase1_step S p d (uk1_instance_point uk) s c = Ok t" for s c t
  proof -
    obtain keep0 tr0 r0 where s: "s = ((keep0, tr0), r0)" by (metis prod.exhaust)
    from that(2) show ?thesis unfolding s sign_phase1_step_eq_Ok_iff
      using commit_point_opens [of S "uk1_instance_point uk" r0] by (elim exE conjE) fastforce
  qed
  note result = each_keep_transmit [OF loop, where key = "\<lambda>c. c" and kp = "\<lambda>s. fst (fst s)" and tr = "\<lambda>s. snd (fst s)"
      and P = "?P (uk1_instance_point uk)"]
  have "distinct (map (\<lambda>c. c) (counterparties d))" "btree_wf (fst (fst (([], []), ra)))" using d by simp_all
  from result [OF this step] have "\<exists>K M. tr = map M (counterparties d) \<and>
    (\<forall>c\<in>set (counterparties d). btree_get keep c = Some (K c) \<and> ?P (uk1_instance_point uk) c (K c) (M c))"
    unfolding fst_conv snd_conv append_Nil by blast
  with uk show ?thesis by blast
qed

lemma sign_phase1_total:
  fixes S :: "('f::field, 'g::ab_group_add) suite"
  assumes S: "suite_ok S" and g: "group_ok S cs prm sid cc qs pty" and q: "signers_ok prm qs d sign h" and i: "i \<in> set qs"
  shows "\<exists>res. sign_phase1 S oc (pty i) (d i) r = Ok res"
proof -
  note c = signers_counterparties [OF q i]
  have pos: "unat (threshold prm) \<noteq> 0" using g by (metis group_ok_def length_0_conv)
  have m: "member_ok S cs prm sid cc i (pty i)" and mem: "\<And>j. j \<in> set qs \<Longrightarrow> member_ok S cs prm sid cc j (pty j)"
    using g i by (auto simp: group_ok_def)
  have one: "u8_sub oc (threshold prm) 1 = (Ok (threshold prm - 1) :: (abort, u8) outcome)"
    "unat (threshold prm - 1) = unat (threshold prm) - 1"
  proof -
    have "unat (1 :: u8) \<le> unat (threshold prm)" using pos by simp
    then show "u8_sub oc (threshold prm) 1 = (Ok (threshold prm - 1) :: (abort, u8) outcome)" by (rule u8_sub_exact)
    show "unat (threshold prm - 1) = unat (threshold prm) - 1" using pos by (intro unat_minus_one) auto
  qed
  have states: "\<exists>s w. btree_get (mul_senders (pty i)) j = Some s \<and> btree_get (mul_receivers (pty i)) j = Some w \<and> (\<exists>s'. mul_paired s' w)"
    if "j \<in> set (counterparties (d i))" for j
    using g i that c(2) unfolding group_ok_def mul_states_paired_def by (metis Diff_iff singletonI)
  have checks: "each (sign_check_step (pty i)) [] (counterparties (d i)) = Ok (rev (counterparties (d i)))"
    unfolding sign_check_loop using c m mem states by (fastforce simp: member_ok_def btree_contains_iff)
  have "\<exists>t. each (sign_phase1_step S (pty i) (d i) ip) s (counterparties (d i)) = Ok t \<and> True" for ip s
  proof (rule each_total [where I = "\<lambda>_. True"])
    fix s :: "((party_index, 'f keep_phase_1to2) btree_map \<times> transmit_phase_1to2 list) \<times> 'f rng" and c
    assume "c \<in> set (counterparties (d i))"
    then obtain w s' where w: "btree_get (mul_receivers (pty i)) c = Some w" "mul_paired s' w" using states by blast
    obtain keep0 tr0 r0 where s: "s = ((keep0, tr0), r0)" by (metis prod.exhaust)
    show "\<exists>t. sign_phase1_step S (pty i) (d i) ip s c = Ok t \<and> True"
      unfolding s sign_phase1_step_eq_Ok_iff using w mul_receiver_phase1_total [OF suite_okD(2) [OF S] w(2)] by blast
  qed simp
  then have loop: "\<exists>a b e. each (sign_phase1_step S (pty i) (d i) ip) s (counterparties (d i)) = Ok ((a, b), e)" for ip s
    by (metis prod.exhaust)
  have "sign_phase1 S oc (pty i) (d i) r \<noteq> Err e \<and> sign_phase1 S oc (pty i) (d i) r \<noteq> Panic \<and> sign_phase1 S oc (pty i) (d i) r \<noteq> Diverge" for e
  proof -
    obtain a b f where l: "each (sign_phase1_step S (pty i) (d i) (smul S (generator S) (fst (random_scalar r))))
        (([], []), snd (random_scalar (snd (random_scalar r)))) (counterparties (d i)) = Ok ((a, b), f)"
      using loop by blast
    show ?thesis
      using m c(3) by (simp add: sign_phase1_def Let_def split_beta one checks l member_ok_def not_less [symmetric])
  qed
  then show ?thesis by (cases "sign_phase1 S oc (pty i) (d i) r") auto
qed

lemma first_round_exists:
  assumes g: "group_ok S cs prm sid cc qs pty" and q: "signers_ok prm qs d sign h"
    and ok: "\<And>i. i \<in> set qs \<Longrightarrow> sign_phase1 S oc (pty i) (d i) (r i) = Ok ((uk i, keep i, tr i), r' i)"
  shows "\<exists>K M. first_round S qs pty d uk keep tr K M"
proof -
  define P where "P = (\<lambda>i K M. tr i = map M (counterparties (d i)) \<and> (\<forall>c\<in>set qs - {i}. btree_get (keep i) c = Some (K c) \<and>
         t1_parties (M c) = \<lparr>sender = i, receiver = c\<rparr> \<and>
         verify_commitment_point S (uk1_instance_point (uk i)) (t1_commitment (M c)) (k1_salt (K c)) \<and>
         (\<exists>w ra rb. btree_get (mul_receivers (pty i)) c = Some w \<and>
            mul_receiver_run_phase1 S w (sign_mul_sid (pty i) (d i) i c) ra =
              Ok ((k1_chi (K c), k1_mul_keep (K c), t1_mul_transmit (M c)), rb))))"
  have "\<exists>K M. P i K M" if i: "i \<in> set qs" for i
  proof -
    have "party_index_of (pty i) = i" using g i by (auto simp: group_ok_def member_ok_def)
    note res = sign_phase1_result [OF ok [OF i], unfolded this signers_counterparties(2) [OF q i]]
    show ?thesis unfolding P_def using res by blast
  qed
  then obtain K M where "\<forall>i\<in>set qs. P i (K i) (M i)" by metis
  moreover have "uk1_instance_point (uk i) = smul S (generator S) (uk1_instance_key (uk i)) \<and>
        uk1_zeta (uk i) = zero_share_compute S (zero_share_of (pty i)) (counterparties (d i)) (sign_zero_sid (pty i) (d i))"
    if "i \<in> set qs" for i
    using sign_phase1_result [OF ok [OF that]] by blast
  ultimately have "first_round S qs pty d uk keep tr K M" unfolding first_round_def P_def by blast
  then show ?thesis by blast
qed

section \<open>The second round\<close>

text \<open>What party \<open>i\<close> keeps of and sends to \<open>c\<close> in phase 2, \<open>x\<close> being its additive key share.\<close>

definition second_link ::
  "('f::field, 'g::ab_group_add) suite \<Rightarrow> (party_index \<Rightarrow> ('f, 'g) party) \<Rightarrow> (party_index \<Rightarrow> sign_data)
   \<Rightarrow> (party_index \<Rightarrow> ('f, 'g) unique_keep_1to2) \<Rightarrow> 'f
   \<Rightarrow> (party_index \<Rightarrow> party_index \<Rightarrow> 'f keep_phase_1to2) \<Rightarrow> (party_index \<Rightarrow> party_index \<Rightarrow> transmit_phase_1to2)
   \<Rightarrow> party_index \<Rightarrow> party_index \<Rightarrow> 'f keep_phase_2to3 \<Rightarrow> ('f, 'g) transmit_phase_2to3 \<Rightarrow> bool" where
  "second_link S pty d uk x K M i c k m \<longleftrightarrow>
     t2_parties m = \<lparr>sender = i, receiver = c\<rparr> \<and>
     t2_gamma_u m = smul S (generator S) (k2_c_u k) \<and> t2_gamma_v m = smul S (generator S) (k2_c_v k) \<and>
     t2_psi m = uk1_inversion_mask (uk i) - k1_chi (K i c) \<and> t2_public_share m = smul S (generator S) x \<and>
     t2_instance_point m = uk1_instance_point (uk i) \<and> t2_salt m = k1_salt (K i c) \<and>
     k2_commitment k = t1_commitment (M c i) \<and> k2_mul_keep k = k1_mul_keep (K i c) \<and> k2_chi k = k1_chi (K i c) \<and>
     (\<exists>s out q q'. btree_get (mul_senders (pty i)) c = Some s \<and>
        mul_sender_run S s (sign_mul_sid (pty i) (d i) c i) [uk1_instance_key (uk i), x] (t1_mul_transmit (M c i)) q =
          Ok ((out, t2_mul_transmit m), q') \<and> k2_c_u k = out ! 0 \<and> k2_c_v k = out ! 1)"

text \<open>Both parties of a pair name the multiplication by the same session id.\<close>

lemma sign_mul_sid_agree:
  assumes "group_ok S cs prm sid cc qs pty" and "signers_ok prm qs d sign h" and "i \<in> set qs" "j \<in> set qs"
  shows "sign_mul_sid (pty i) (d i) a b = sign_mul_sid (pty j) (d j) a b"
    and "sign_zero_sid (pty i) (d i) = sign_zero_sid (pty j) (d j)"
  using assms by (auto simp: group_ok_def signers_ok_def member_ok_def sign_mul_sid_def sign_zero_sid_def)

lemma first_round_pair:
  assumes g: "group_ok S cs prm sid cc qs pty" and q: "signers_ok prm qs d sign h" and f: "first_round S qs pty d uk keep tr K M"
    and ij: "i \<in> set qs" "j \<in> set qs" "i \<noteq> j"
  shows "\<exists>s w ra rb. btree_get (mul_senders (pty i)) j = Some s \<and> btree_get (mul_receivers (pty j)) i = Some w \<and> mul_paired s w \<and>
     mul_receiver_run_phase1 S w (sign_mul_sid (pty i) (d i) j i) ra =
       Ok ((k1_chi (K j i), k1_mul_keep (K j i), t1_mul_transmit (M j i)), rb)"
proof -
  obtain s w where sw: "btree_get (mul_senders (pty i)) j = Some s" "btree_get (mul_receivers (pty j)) i = Some w" "mul_paired s w"
    using g ij unfolding group_ok_def mul_states_paired_def by blast
  have "i \<in> set qs - {j}" using ij by blast
  then obtain w' ra rb where "btree_get (mul_receivers (pty j)) i = Some w'"
    "mul_receiver_run_phase1 S w' (sign_mul_sid (pty j) (d j) j i) ra =
       Ok ((k1_chi (K j i), k1_mul_keep (K j i), t1_mul_transmit (M j i)), rb)"
    using f ij(2) unfolding first_round_def by blast
  with sw show ?thesis using sign_mul_sid_agree(1) [OF g q ij(1,2)] by auto
qed

text \<open>The multiplication behind a link: the receiver's second phase succeeds with complementary shares.\<close>

lemma second_link_multiplies:
  assumes S: "suite_ok S" and g: "group_ok S cs prm sid cc qs pty" and q: "signers_ok prm qs d sign h"
    and f: "first_round S qs pty d uk keep tr K M" and ij: "i \<in> set qs" "j \<in> set qs" "i \<noteq> j"
    and link: "second_link S pty d uk x K M i j k m"
  shows "\<exists>w res. btree_get (mul_receivers (pty j)) i = Some w \<and>
     mul_receiver_run_phase2 S w (sign_mul_sid (pty j) (d j) j i) (k1_mul_keep (K j i)) (t2_mul_transmit m) = Ok res \<and>
     length res = mul_L \<and> k2_c_u k + res ! 0 = uk1_instance_key (uk i) * k1_chi (K j i) \<and>
     k2_c_v k + res ! 1 = x * k1_chi (K j i)"
proof -
  obtain s w ra rb where sw: "btree_get (mul_senders (pty i)) j = Some s" "btree_get (mul_receivers (pty j)) i = Some w" "mul_paired s w"
    and ph1: "mul_receiver_run_phase1 S w (sign_mul_sid (pty i) (d i) j i) ra =
       Ok ((k1_chi (K j i), k1_mul_keep (K j i), t1_mul_transmit (M j i)), rb)"
    using first_round_pair [OF g q f ij] by blast
  obtain out q0 q' where send: "mul_sender_run S s (sign_mul_sid (pty i) (d i) j i) [uk1_instance_key (uk i), x] (t1_mul_transmit (M j i)) q0 =
          Ok ((out, t2_mul_transmit m), q')" and c: "k2_c_u k = out ! 0" "k2_c_v k = out ! 1"
    using link sw(1) unfolding second_link_def by auto
  have paired: "encodings_ok S \<and> mul_paired s w" using suite_okD(2) [OF S] sw(3) by blast
  have two: "length [uk1_instance_key (uk i), x] = mul_L" by (simp add: mul_L_def)
  obtain res where res: "mul_receiver_run_phase2 S w (sign_mul_sid (pty i) (d i) j i) (k1_mul_keep (K j i)) (t2_mul_transmit m) = Ok res"
    "length res = mul_L"
    using mul.receiver_accepts [OF paired ph1 two send] by blast
  note out = mul.outputs [OF paired ph1 two send res(1)]
  have "out ! 0 + res ! 0 = uk1_instance_key (uk i) * k1_chi (K j i)" "out ! 1 + res ! 1 = x * k1_chi (K j i)"
    using out [of 0] out [of 1] by (simp_all add: mul_L_def)
  with sw(2) res c show ?thesis using sign_mul_sid_agree(1) [OF g q ij(1,2)] by auto
qed

lemma sign_phase2_honest:
  fixes S :: "('f::field, 'g::ab_group_add) suite"
  assumes S: "suite_ok S" and g: "group_ok S cs prm sid cc qs pty" and q: "signers_ok prm qs d sign h"
    and f: "first_round S qs pty d uk keep tr K M" and i: "i \<in> set qs"
    and js: "rcv = map (\<lambda>j. M j i) js" "distinct js" "set js = set qs - {i}"
    and x: "x = share_of cs i * quorum_weight qs i + uk1_zeta (uk i)"
  shows "\<exists>uk2 keep2 tr2 r2 K2 M2. sign_phase2 S oc (pty i) (d i) (uk i) (keep i) rcv r = Ok ((uk2, keep2, tr2), r2) \<and>
     uk2 = \<lparr>uk2_instance_key = uk1_instance_key (uk i), uk2_instance_point = uk1_instance_point (uk i),
            uk2_inversion_mask = uk1_inversion_mask (uk i), uk2_key_share = x, uk2_public_share = smul S (generator S) x\<rparr> \<and>
     tr2 = map M2 js \<and> (\<forall>j\<in>set js. btree_get keep2 j = Some (K2 j) \<and> second_link S pty d uk x K M i j (K2 j) (M2 j))"
proof -
  note c = signers_counterparties [OF q i]
  have me: "party_index_of (pty i) = i" "poly_point (pty i) = share_of cs i" "party_parameters (pty i) = prm"
    using g i by (auto simp: group_ok_def member_ok_def)
  let ?lag = "sign_lagrange (map as_u8 (counterparties (d i))) (as_u8 i) :: 'f \<times> 'f"
  have dq: "distinct qs" using q by (simp add: signers_ok_def)
  note w = sign_lagrange_weight [OF suite_okD(3) [OF S] dq i c(1,2)]
  have inv: "invert (snd ?lag) = Some (inverse (snd ?lag))" using w(1) by (simp add: invert_def)
  have M: "t1_parties (M j i) = \<lparr>sender = j, receiver = i\<rparr>" and Kk: "btree_get (keep i) j = Some (K i j)" if "j \<in> set js" for j
    using f i that js(3) unfolding first_round_def by auto
  let ?step = "\<lambda>st j. sign_phase2_step S (pty i) (d i) (uk i) (keep i) x (smul S (generator S) x) st (M j i)"
  have total: "\<exists>t. each ?step (([], [], []), r) js = Ok t"
  proof (rule each_total_seen [where key = "\<lambda>j. j" and seen = "\<lambda>st. fst (fst st)"])
    fix st :: "(party_index list \<times> (party_index, 'f keep_phase_2to3) btree_map \<times> ('f, 'g) transmit_phase_2to3 list) \<times> 'f rng" and j
    assume j: "j \<in> set js" and fresh: "j \<notin> set (fst (fst st))"
    obtain seen k0 t0 r0 where st: "st = ((seen, k0, t0), r0)" by (metis prod.exhaust)
    have ij: "j \<in> set qs" "i \<noteq> j" using j js(3) by auto
    obtain s w ra rb where sw: "btree_get (mul_senders (pty i)) j = Some s" "mul_paired s w"
      and ph1: "mul_receiver_run_phase1 S w (sign_mul_sid (pty i) (d i) j i) ra =
       Ok ((k1_chi (K j i), k1_mul_keep (K j i), t1_mul_transmit (M j i)), rb)"
      using first_round_pair [OF g q f i ij] by blast
    have "encodings_ok S \<and> mul_paired s w" using suite_okD(2) [OF S] sw(2) by blast
    from mul.multiplies [OF this ph1, of "[uk1_instance_key (uk i), x]" r0] obtain out m q'
      where "mul_sender_run S s (sign_mul_sid (pty i) (d i) j i) [uk1_instance_key (uk i), x] (t1_mul_transmit (M j i)) r0 = Ok ((out, m), q')"
      "length out = mul_L" by (auto simp: mul_L_def)
    then show "\<exists>t. ?step st j = Ok t \<and> fst (fst t) = j # fst (fst st)"
      unfolding st sign_phase2_step_eq_Ok_iff
      using M [OF j] Kk [OF j] sw(1) fresh c(2) j js(3) me(1) by (fastforce simp: st mul_L_def)
  qed (use js in auto)
  then obtain seen2 keep2 tr2 r2 where run: "each ?step (([], [], []), r) js = Ok ((seen2, keep2, tr2), r2)"
    by (metis prod.exhaust)
  have step: "\<exists>k m. fst (snd (fst t)) = btree_insert j k (fst (snd (fst st))) \<and> snd (snd (fst t)) = snd (snd (fst st)) @ [m] \<and>
      second_link S pty d uk x K M i j k m" if j: "j \<in> set js" and ok: "?step st j = Ok t" for st j t
  proof -
    obtain seen k0 t0 r0 where st: "st = ((seen, k0, t0), r0)" by (metis prod.exhaust)
    obtain s out data r1 where t: "btree_get (mul_senders (pty i)) j = Some s"
      "mul_sender_run S s (sign_mul_sid (pty i) (d i) j i) [uk1_instance_key (uk i), x] (t1_mul_transmit (M j i)) r0 = Ok ((out, data), r1)"
      "t = ((j # seen, btree_insert j \<lparr>k2_c_u = out ! 0, k2_c_v = out ! 1, k2_commitment = t1_commitment (M j i),
             k2_mul_keep = k1_mul_keep (K i j), k2_chi = k1_chi (K i j)\<rparr> k0,
           t0 @ [\<lparr>t2_parties = \<lparr>sender = i, receiver = j\<rparr>,
             t2_gamma_u = smul S (generator S) (out ! 0), t2_gamma_v = smul S (generator S) (out ! 1),
             t2_psi = uk1_inversion_mask (uk i) - k1_chi (K i j), t2_public_share = smul S (generator S) x,
             t2_instance_point = uk1_instance_point (uk i), t2_salt = k1_salt (K i j), t2_mul_transmit = data\<rparr>]), r1)"
      using ok unfolding st sign_phase2_step_eq_Ok_iff using M [OF j] Kk [OF j] me(1) by (elim exE conjE) simp
    have "second_link S pty d uk x K M i j \<lparr>k2_c_u = out ! 0, k2_c_v = out ! 1, k2_commitment = t1_commitment (M j i),
             k2_mul_keep = k1_mul_keep (K i j), k2_chi = k1_chi (K i j)\<rparr> \<lparr>t2_parties = \<lparr>sender = i, receiver = j\<rparr>,
             t2_gamma_u = smul S (generator S) (out ! 0), t2_gamma_v = smul S (generator S) (out ! 1),
             t2_psi = uk1_inversion_mask (uk i) - k1_chi (K i j), t2_public_share = smul S (generator S) x,
             t2_instance_point = uk1_instance_point (uk i), t2_salt = k1_salt (K i j), t2_mul_transmit = data\<rparr>"
      unfolding second_link_def using t(1,2) by (simp only: keep_phase_2to3.simps transmit_phase_2to3.simps) blast
    then show ?thesis unfolding t(3) st fst_conv snd_conv by blast
  qed
  have "distinct (map (\<lambda>j. j) js)" "btree_wf (fst (snd (fst (([], [], []), r))))" using js by simp_all
  from each_keep_transmit [where kp = "\<lambda>st. fst (snd (fst st))" and tr = "\<lambda>st. snd (snd (fst st))"
      and key = "\<lambda>j. j" and P = "second_link S pty d uk x K M i", OF run this step]
  obtain K2 M2 where "tr2 = map M2 js" "\<forall>j\<in>set js. btree_get keep2 j = Some (K2 j) \<and> second_link S pty d uk x K M i j (K2 j) (M2 j)"
    unfolding fst_conv snd_conv append_Nil by blast
  moreover have "sign_phase2 S oc (pty i) (d i) (uk i) (keep i) rcv r =
     Ok ((\<lparr>uk2_instance_key = uk1_instance_key (uk i), uk2_instance_point = uk1_instance_point (uk i),
            uk2_inversion_mask = uk1_inversion_mask (uk i), uk2_key_share = x, uk2_public_share = smul S (generator S) x\<rparr>, keep2, tr2), r2)"
  proof -
    have pos: "unat (1 :: u8) \<le> unat (threshold prm)" using g by (simp add: group_ok_def) (metis length_greater_0_conv Suc_leI)
    have len: "length js = length (counterparties (d i))" using js(2,3) c(1,2) by (metis distinct_card)
    have "share_of cs i * (fst ?lag * inverse (snd ?lag)) + uk1_zeta (uk i) = x" by (simp add: x w(2))
    then show ?thesis using run
      by (simp add: sign_phase2_def Let_def split_beta inv me u8_sub_exact [OF pos] len js(1) each_map)
  qed
  ultimately show ?thesis by blast
qed

section \<open>The third round\<close>

lemma each_fold_seen:
  assumes "\<And>seen s x. x \<in> set xs \<Longrightarrow> x \<notin> set seen \<Longrightarrow> f (seen, s) x = Ok (x # seen, g s x)"
    and "distinct xs" and "set xs \<inter> set seen = {}"
  shows "each f (seen, s) xs = Ok (rev xs @ seen, foldl g s xs)"
  using assms
proof (induction xs arbitrary: seen s)
  case Nil
  then show ?case by simp
next
  case (Cons x xs)
  have "each f (x # seen, g s x) xs = Ok (rev xs @ x # seen, foldl g (g s x) xs)"
    using Cons.prems by (intro Cons.IH) auto
  moreover have "f (seen, s) x = Ok (x # seen, g s x)" using Cons.prems by simp
  ultimately show ?case by simp
qed

lemma foldl_sign_sums:
  "foldl (\<lambda>s j. \<lparr>expected_public_key = expected_public_key s + A j, total_instance_point = total_instance_point s + B j,
      first_sum_u_v = first_sum_u_v s + C j, second_sum_u = second_sum_u s + D j, second_sum_v = second_sum_v s + E j\<rparr>) s js =
   \<lparr>expected_public_key = expected_public_key s + (\<Sum>j\<leftarrow>js. A j), total_instance_point = total_instance_point s + (\<Sum>j\<leftarrow>js. B j),
      first_sum_u_v = first_sum_u_v s + (\<Sum>j\<leftarrow>js. C j), second_sum_u = second_sum_u s + (\<Sum>j\<leftarrow>js. D j),
      second_sum_v = second_sum_v s + (\<Sum>j\<leftarrow>js. E j)\<rparr>"
  by (induction js arbitrary: s) (simp_all add: add.assoc)

lemma sum_list_distinct_set: "distinct xs \<Longrightarrow> (\<Sum>x\<leftarrow>xs. f x) = (\<Sum>x\<in>set xs. f x)"
  by (simp add: sum_list_distinct_conv_sum_set)

text \<open>
  Party \<open>i\<close>'s part of the two products: its own factor times the sum of the masks, adjusted,
  plus its shares of the multiplications in both roles.
\<close>

definition product_part ::
  "party_index set \<Rightarrow> (party_index \<Rightarrow> 'f::field) \<Rightarrow> (party_index \<Rightarrow> 'f) \<Rightarrow> (party_index \<Rightarrow> party_index \<Rightarrow> 'f)
   \<Rightarrow> (party_index \<Rightarrow> party_index \<Rightarrow> 'f) \<Rightarrow> party_index \<Rightarrow> 'f" where
  "product_part Q a phi chi c i =
     a i * (phi i + (\<Sum>j\<in>Q - {i}. phi j - chi j i)) + (\<Sum>j\<in>Q - {i}. c i j + (a j * chi i j - c j i))"

lemma product_parts_sum:
  assumes "finite Q"
  shows "(\<Sum>i\<in>Q. product_part Q a phi chi c i) = (\<Sum>i\<in>Q. a i) * (\<Sum>i\<in>Q. phi i)"
proof -
  have swap: "(\<Sum>i\<in>Q. \<Sum>j\<in>Q - {i}. f j i) = (\<Sum>i\<in>Q. \<Sum>j\<in>Q - {i}. f i j)" for f :: "party_index \<Rightarrow> party_index \<Rightarrow> 'a"
  proof -
    have e: "{j\<in>Q. i \<noteq> j} = Q - {i}" "{j\<in>Q. j \<noteq> i} = Q - {i}" for i by auto
    show ?thesis
      using sum.swap_restrict [OF assms assms, of "\<lambda>i j. f j i" "\<lambda>i j. i \<noteq> j"] unfolding e .
  qed
  have own: "phi i + (\<Sum>j\<in>Q - {i}. phi j - chi j i) = (\<Sum>j\<in>Q. phi j) - (\<Sum>j\<in>Q - {i}. chi j i)" if "i \<in> Q" for i
    using that assms by (simp add: sum_subtractf sum.remove [of Q i phi])
  have "product_part Q a phi chi c i = a i * (\<Sum>j\<in>Q. phi j) - (\<Sum>j\<in>Q - {i}. a i * chi j i) +
      ((\<Sum>j\<in>Q - {i}. c i j) + ((\<Sum>j\<in>Q - {i}. a j * chi i j) - (\<Sum>j\<in>Q - {i}. c j i)))" if "i \<in> Q" for i
    unfolding product_part_def own [OF that]
    by (simp only: right_diff_distrib sum.distrib sum_subtractf sum_distrib_left [of "a i" "\<lambda>j. chi j i"])
  then have "(\<Sum>i\<in>Q. product_part Q a phi chi c i) =
      (\<Sum>i\<in>Q. a i * (\<Sum>j\<in>Q. phi j)) - (\<Sum>i\<in>Q. \<Sum>j\<in>Q - {i}. a i * chi j i) +
      ((\<Sum>i\<in>Q. \<Sum>j\<in>Q - {i}. c i j) + ((\<Sum>i\<in>Q. \<Sum>j\<in>Q - {i}. a j * chi i j) - (\<Sum>i\<in>Q. \<Sum>j\<in>Q - {i}. c j i)))"
    by (simp add: sum.distrib sum_subtractf)
  also have "\<dots> = (\<Sum>i\<in>Q. a i * (\<Sum>j\<in>Q. phi j))"
    using swap [of "\<lambda>i j. a i * chi j i"] swap [of c] by simp
  finally show ?thesis by (simp add: sum_distrib_right)
qed

lemma sign_phase3_honest:
  fixes S :: "('f::field, 'g::ab_group_add) suite"
  assumes S: "suite_ok S" and g: "group_ok S cs prm sid cc qs pty" and q: "signers_ok prm qs d sign h"
    and f: "first_round S qs pty d uk keep tr K M" and i: "i \<in> set qs"
    and links: "\<And>a b. a \<in> set qs \<Longrightarrow> b \<in> set qs - {a} \<Longrightarrow> second_link S pty d uk (x a) K M a b (K2 a b) (M2 a b)"
    and kept: "\<And>b. b \<in> set qs - {i} \<Longrightarrow> btree_get keep2 b = Some (K2 i b)"
    and uk2: "uk2 = \<lparr>uk2_instance_key = uk1_instance_key (uk i), uk2_instance_point = uk1_instance_point (uk i),
            uk2_inversion_mask = uk1_inversion_mask (uk i), uk2_key_share = x i, uk2_public_share = smul S (generator S) (x i)\<rparr>"
    and js: "rcv = map (\<lambda>j. M2 j i) js" "distinct js" "set js = set qs - {i}"
    and key: "(\<Sum>j\<in>set qs. x j) = secret_of cs" and nonzero: "\<And>j. j \<in> set qs \<Longrightarrow> uk1_instance_key (uk j) \<noteq> 0"
    and total: "k = (\<Sum>j\<in>set qs. uk1_instance_key (uk j))" "k \<noteq> 0"
  shows "sign_phase3 S (pty i) (d i) uk2 keep2 rcv = Ok (hex_encode S (affine_x S (smul S (generator S) k)),
     \<lparr>bc_u = product_part (set qs) (\<lambda>j. uk1_instance_key (uk j)) (\<lambda>j. uk1_inversion_mask (uk j)) (\<lambda>a b. k1_chi (K a b)) (\<lambda>a b. k2_c_u (K2 a b)) i,
      bc_w = reduce S h * uk1_inversion_mask (uk i) +
        product_part (set qs) x (\<lambda>j. uk1_inversion_mask (uk j)) (\<lambda>a b. k1_chi (K a b)) (\<lambda>a b. k2_c_v (K2 a b)) i *
        reduce S (affine_x S (smul S (generator S) k))\<rparr>)"
proof -
  note C = suite_okD(1) [OF S] and c = signers_counterparties [OF q i]
  have me: "party_index_of (pty i) = i" "pk (pty i) = smul S (generator S) (secret_of cs)" and h: "message_hash (d i) = h"
    and dq: "distinct qs"
    using g q i by (auto simp: group_ok_def member_ok_def signers_ok_def)
  let ?ik = "\<lambda>j. uk1_instance_key (uk j)" and ?chi = "\<lambda>a b. k1_chi (K a b)" and ?G = "smul S (generator S)"
  have ip: "uk1_instance_point (uk j) = ?G (?ik j)" if "j \<in> set qs" for j using f that by (simp add: first_round_def)
  let ?du = "\<lambda>j. ?ik j * ?chi i j - k2_c_u (K2 j i)" and ?dv = "\<lambda>j. x j * ?chi i j - k2_c_v (K2 j i)"
  let ?step = "\<lambda>st j. sign_phase3_step S (pty i) (d i) keep2 st (M2 j i)"
  let ?g = "\<lambda>s j. \<lparr>expected_public_key = expected_public_key s + ?G (x j), total_instance_point = total_instance_point s + ?G (?ik j),
      first_sum_u_v = first_sum_u_v s + (uk1_inversion_mask (uk j) - ?chi j i),
      second_sum_u = second_sum_u s + (k2_c_u (K2 i j) + ?du j), second_sum_v = second_sum_v s + (k2_c_v (K2 i j) + ?dv j)\<rparr>"
  have step: "?step (seen, s) j = Ok (j # seen, ?g s j)" if j: "j \<in> set js" "j \<notin> set seen" for seen s j
  proof -
    have jq: "j \<in> set qs" "j \<noteq> i" "i \<in> set qs - {j}" "j \<in> set qs - {i}" using j js(3) i by auto
    note out = links [OF jq(1,3)] and own = links [OF i jq(4)]
    obtain w res where w: "btree_get (mul_receivers (pty i)) j = Some w"
      "mul_receiver_run_phase2 S w (sign_mul_sid (pty i) (d i) i j) (k1_mul_keep (K i j)) (t2_mul_transmit (M2 j i)) = Ok res"
      "length res = mul_L" "k2_c_u (K2 j i) + res ! 0 = ?ik j * ?chi i j" "k2_c_v (K2 j i) + res ! 1 = x j * ?chi i j"
      using second_link_multiplies [OF S g q f jq(1) i jq(2) out] by blast
    have res: "res ! 0 = ?du j" "res ! 1 = ?dv j" using w(4,5) by (simp_all add: algebra_simps)
    have m: "t2_parties (M2 j i) = \<lparr>sender = j, receiver = i\<rparr>" "t2_gamma_u (M2 j i) = ?G (k2_c_u (K2 j i))"
      "t2_gamma_v (M2 j i) = ?G (k2_c_v (K2 j i))" "t2_psi (M2 j i) = uk1_inversion_mask (uk j) - ?chi j i"
      "t2_public_share (M2 j i) = ?G (x j)" "t2_instance_point (M2 j i) = ?G (?ik j)" "t2_salt (M2 j i) = k1_salt (K j i)"
      using out ip [OF jq(1)] by (simp_all add: second_link_def)
    have k: "k2_commitment (K2 i j) = t1_commitment (M j i)" "k2_mul_keep (K2 i j) = k1_mul_keep (K i j)" "k2_chi (K2 i j) = ?chi i j"
      using own by (simp_all add: second_link_def)
    have "?G (?ik j) \<noteq> 0" using C nonzero [OF jq(1)] by (auto simp: smul_eq_zero_iff curve_ok_def)
    moreover have "verify_commitment_point S (?G (?ik j)) (t1_commitment (M j i)) (k1_salt (K j i))"
      using f jq ip [OF jq(1)] by (auto simp: first_round_def)
    moreover have "smul S (?G (?ik j)) (?chi i j) = ?G (?du j) + ?G (k2_c_u (K2 j i))"
      "smul S (?G (x j)) (?chi i j) = ?G (?dv j) + ?G (k2_c_v (K2 j i))"
      using C by (simp_all add: smul_smul smul_add_scalar [symmetric])
    moreover have "1 < length res" using w(3) by (simp add: mul_L_def)
    ultimately have "?step (seen, s) j = Ok (j # seen, sign_add s (K2 i j) (?du j) (?dv j) (M2 j i))"
      unfolding sign_phase3_step_eq_Ok_iff m k parties_message.simps me(1)
      using j(2) jq(4) c(2) kept [OF jq(4)] w(1,2) res by (intro exI [of _ "K2 i j"] exI [of _ w] exI [of _ res]) (simp add: k)
    then show ?thesis by (simp add: sign_add_def m add.assoc)
  qed
  define s0 where "s0 = \<lparr>expected_public_key = uk2_public_share uk2, total_instance_point = uk2_instance_point uk2,
              first_sum_u_v = uk2_inversion_mask uk2, second_sum_u = 0, second_sum_v = (0 :: 'f)\<rparr>"
  have run: "each (sign_phase3_step S (pty i) (d i) keep2) ([], s0) rcv = Ok (rev js, foldl ?g s0 js)"
    unfolding js(1) each_map using each_fold_seen [of js ?step ?g "[]" s0] step js(2) by simp
  have Q: "F i + (\<Sum>j\<leftarrow>js. F j) = (\<Sum>j\<in>set qs. F j)" for F :: "party_index \<Rightarrow> 'g"
    using i by (simp add: sum_list_distinct_set [OF js(2)] js(3) sum.remove [of "set qs" i])
  have sums: "foldl ?g s0 js = \<lparr>expected_public_key = ?G (secret_of cs), total_instance_point = ?G k,
      first_sum_u_v = uk1_inversion_mask (uk i) + (\<Sum>j\<in>set qs - {i}. uk1_inversion_mask (uk j) - ?chi j i),
      second_sum_u = (\<Sum>j\<in>set qs - {i}. k2_c_u (K2 i j) + ?du j), second_sum_v = (\<Sum>j\<in>set qs - {i}. k2_c_v (K2 i j) + ?dv j)\<rparr>"
    unfolding foldl_sign_sums s0_def uk2 using Q [of "\<lambda>j. ?G (x j)"] Q [of "\<lambda>j. ?G (?ik j)"]
    by (simp add: ip [OF i] smul_sum_scalar [OF C, symmetric] key total(1) sum_list_distinct_set [OF js(2)] js(3))
  have len: "length rcv = length (counterparties (d i))" unfolding js(1) length_map using js(2,3) c(1,2) by (metis distinct_card)
  have R: "?G k \<noteq> 0" using C total(2) by (auto simp: smul_eq_zero_iff curve_ok_def)
  have hex: "reduce_hex_bytes S (hex_encode S (affine_x S (?G k))) = (Ok (reduce S (affine_x S (?G k))) :: (abort, 'f) outcome)"
    using suite_okD(2) [OF S] by (simp add: reduce_hex_bytes_eq_Ok_iff hex_decode_encode length_affine_x FIELD_BYTES_def)
  show ?thesis
    using run [unfolded sums, unfolded s0_def] unfolding sign_phase3_def Let_def len me
    by (simp add: R hex uk2 product_part_def reduce_hash_bytes_def h)
qed

section \<open>The whole protocol\<close>

text \<open>The additive key shares of phase 2 add up to the secret: sharing and zero shares together.\<close>

lemma key_shares_sum:
  assumes S: "suite_ok S" and g: "group_ok S cs prm sid cc qs pty" and q: "signers_ok prm qs d sign h"
    and f: "first_round S qs pty d uk keep tr K M"
  shows "(\<Sum>i\<in>set qs. share_of cs i * quorum_weight qs i + uk1_zeta (uk i)) = secret_of cs"
proof (cases "qs = []")
  case True
  then show ?thesis using g q by (auto simp: group_ok_def signers_ok_def)
next
  case False
  then obtain a where a: "a \<in> set qs" by (cases qs) auto
  have "shamir_quorum S cs (map as_u8 qs)"
    using g q inj_on_subset [OF inj_as_u8 subset_UNIV] by (simp add: shamir_quorum_def distinct_map group_ok_def signers_ok_def)
  then have quorum: "scalars_ok S \<and> shamir_quorum S cs (map as_u8 qs)" using suite_okD(3) [OF S] by blast
  have zeta: "uk1_zeta (uk i) = zero_share_compute S (zero_share_of (pty i)) (counterparties (d i)) (sign_zero_sid (pty a) (d a))"
    if "i \<in> set qs" for i
    using f that sign_mul_sid_agree(2) [OF g q that a] by (simp add: first_round_def)
  have "(\<Sum>i\<in>set qs. uk1_zeta (uk i)) =
      (\<Sum>i\<in>set qs. zero_share_compute S (zero_share_of (pty i)) (counterparties (d i)) (sign_zero_sid (pty a) (d a)))"
    by (rule sum.cong) (simp_all add: zeta)
  also have "\<dots> = 0"
    using g q signers_counterparties(2) [OF q] by (intro zero.share_sum) (auto simp: group_ok_def)
  finally show ?thesis by (rule group_shares.masked [OF quorum])
qed

text \<open>The last phase: any order of the broadcasts gives the signature with nonce \<open>k\<close>.\<close>

lemma sign_phase4_honest:
  fixes S :: "('f::field, 'g::ab_group_add) suite"
  assumes S: "suite_ok S" and p: "pk p = smul S (generator S) x" "message_hash d = h"
    and u: "(\<Sum>m\<leftarrow>ms. bc_u m) = k * phi" and w: "(\<Sum>m\<leftarrow>ms. bc_w m) = (reduce S h + r * x) * phi"
    and k: "k \<noteq> 0" "phi \<noteq> 0" "r \<noteq> 0" "reduce S h + r * x \<noteq> 0" and r: "from_repr S (affine_x S (smul S (generator S) k)) = Some r"
    and t: "t = (reduce S h + r * x) * inverse k" and s: "s = (if low_s \<and> is_high S t then - t else t)"
  shows "\<exists>rec_id. sign_phase4 S p d (hex_encode S (affine_x S (smul S (generator S) k))) ms low_s =
     Ok (hex_encode S (to_repr S s), rec_id)"
    and "verify_ecdsa_signature S h (pk p) (hex_encode S (affine_x S (smul S (generator S) k))) (hex_encode S (to_repr S s))"
proof -
  note C = suite_okD(1) [OF S] and E = suite_okD(2) [OF S]
  let ?X = "affine_x S (smul S (generator S) k)"
  have repr: "?X = to_repr S r" using to_from_repr [OF E r] by simp
  have valid: "ecdsa_valid S h (pk p) r t"
    unfolding p(1) by (rule ecdsa_sign_valid [OF C k(1,3) _ t k(4)]) (simp add: repr reduce_to_repr [OF E])
  then have valid': "ecdsa_valid S h (pk p) r s" using S by (simp add: s ecdsa_valid_minus)
  have x: "hex_decode S FIELD_BYTES (hex_encode S ?X) = Some (to_repr S r)"
    unfolding repr by (rule hex_decode_encode [OF E]) (simp add: length_to_repr [OF E] FIELD_BYTES_def)
  have st: "(\<Sum>m\<leftarrow>ms. bc_w m) * inverse (\<Sum>m\<leftarrow>ms. bc_u m) = t" using k(1,2) by (simp add: u w t)
  have ne: "enc_point S (ecdsa_point S (message_hash d) (pk p) r s) \<noteq> []"
    using length_enc_point [OF E, of "ecdsa_point S (message_hash d) (pk p) r s"] by auto
  have nz: "(\<Sum>m\<leftarrow>ms. bc_u m) \<noteq> 0" using u k by simp
  show "\<exists>rec_id. sign_phase4 S p d (hex_encode S ?X) ms low_s = Ok (hex_encode S (to_repr S s), rec_id)"
    unfolding sign_phase4_eq_Ok_iff [OF S] st
    by (intro exI [of _ "if hd (enc_point S (ecdsa_point S (message_hash d) (pk p) r s)) = 3 then 1 else 0"] exI [of _ r]
        exI [of _ s] exI [of _ t] conjI nz refl s x valid' [folded p(2)] ne)
  show "verify_ecdsa_signature S h (pk p) (hex_encode S ?X) (hex_encode S (to_repr S s))"
    unfolding verify_ecdsa_iff [OF S] parse_hex_encode [OF E] parse_hex_to_scalar_iff [OF E] using x valid' by blast
qed

lemma sum_list_mset_cong: "mset xs = mset (map g ys) \<Longrightarrow> distinct ys \<Longrightarrow> (\<Sum>x\<leftarrow>xs. f x) = (\<Sum>y\<in>set ys. f (g y))"
proof -
  assume "mset xs = mset (map g ys)" "distinct ys"
  then have "(\<Sum>x\<leftarrow>xs. f x) = (\<Sum>x\<leftarrow>map g ys. f x)" by (metis mset_map sum_mset_sum_list)
  then show ?thesis using \<open>distinct ys\<close> by (simp add: comp_def sum_list_distinct_set)
qed

lemma signing_completes:
  fixes S :: "('f::field, 'g::ab_group_add) suite"
  assumes S: "suite_ok S" and gps: "group_ok S cs prm sid cc ps pty" and sub: "set qs \<subseteq> set ps"
    and q: "signers_ok prm qs d sign h"
    and ph1: "\<And>i. i \<in> set qs \<Longrightarrow> sign_phase1 S oc (pty i) (d i) (r i) = Ok ((uk i, keep i, tr i), r' i)"
    and keys: "\<And>i. i \<in> set qs \<Longrightarrow> uk1_instance_key (uk i) \<noteq> 0"
    and k: "k = (\<Sum>i\<in>set qs. uk1_instance_key (uk i))" "k \<noteq> 0" and phi: "(\<Sum>i\<in>set qs. uk1_inversion_mask (uk i)) \<noteq> 0"
    and rx: "from_repr S (affine_x S (smul S (generator S) k)) = Some rx" "rx \<noteq> 0"
    and t: "t = (reduce S h + rx * secret_of cs) * inverse k" "t \<noteq> 0"
    and s: "s = (if low_s \<and> is_high S t then - t else t)"
    and rcv2: "\<And>i. i \<in> set qs \<Longrightarrow> mset (rcv2 i) = mset (addressed_to t1_parties qs tr i)"
  shows "\<exists>uk2 keep2 tr2 q2.
     (\<forall>i\<in>set qs. sign_phase2 S oc (pty i) (d i) (uk i) (keep i) (rcv2 i) (q1 i) = Ok ((uk2 i, keep2 i, tr2 i), q2 i)) \<and>
     (\<forall>rcv3. (\<forall>i\<in>set qs. mset (rcv3 i) = mset (addressed_to t2_parties qs tr2 i)) \<longrightarrow>
        (\<exists>x_coord bc. (\<forall>i\<in>set qs. sign_phase3 S (pty i) (d i) (uk2 i) (keep2 i) (rcv3 i) = Ok (x_coord, bc i)) \<and>
           (\<forall>ms. mset ms = mset (map bc qs) \<longrightarrow>
              (\<exists>rec_id. \<forall>i\<in>set qs. sign_phase4 S (pty i) (d i) x_coord ms low_s = Ok (hex_encode S (to_repr S s), rec_id))) \<and>
           verify_ecdsa_signature S h (smul S (generator S) (secret_of cs)) x_coord (hex_encode S (to_repr S s))))"
proof -
  have dq: "distinct qs" using q by (simp add: signers_ok_def)
  note g = group_ok_subset [OF gps sub dq]
  obtain K M where f: "first_round S qs pty d uk keep tr K M" using first_round_exists [OF g q ph1] by blast
  define x where "x = (\<lambda>i. share_of cs i * quorum_weight qs i + uk1_zeta (uk i))"
  have "\<exists>js. rcv2 i = map (\<lambda>j. M j i) js \<and> distinct js \<and> set js = set qs - {i}" if i: "i \<in> set qs" for i
    using signers_counterparties [OF q] f rcv2 [OF i]
    by (intro delivery [where cs = "\<lambda>j. counterparties (d j)" and parties = t1_parties and M = M, OF _ _ i dq]) (auto simp: first_round_def)
  then obtain J where J: "\<forall>i\<in>set qs. rcv2 i = map (\<lambda>j. M j i) (J i) \<and> distinct (J i) \<and> set (J i) = set qs - {i}" by metis
  define P where "P = (\<lambda>i uk2 keep2 tr2 r2 K2 M2. sign_phase2 S oc (pty i) (d i) (uk i) (keep i) (rcv2 i) (q1 i) = Ok ((uk2, keep2, tr2), r2) \<and>
     uk2 = \<lparr>uk2_instance_key = uk1_instance_key (uk i), uk2_instance_point = uk1_instance_point (uk i),
            uk2_inversion_mask = uk1_inversion_mask (uk i), uk2_key_share = x i, uk2_public_share = smul S (generator S) (x i)\<rparr> \<and>
     tr2 = map M2 (J i) \<and> (\<forall>j\<in>set (J i). btree_get keep2 j = Some (K2 j) \<and> second_link S pty d uk (x i) K M i j (K2 j) (M2 j)))"
  have "\<exists>uk2 keep2 tr2 r2 K2 M2. P i uk2 keep2 tr2 r2 K2 M2" if i: "i \<in> set qs" for i
    unfolding P_def using J i by (intro sign_phase2_honest [OF S g q f i]) (simp_all add: x_def)
  then obtain uk2 keep2 tr2 q2 K2 M2 where P: "\<forall>i\<in>set qs. P i (uk2 i) (keep2 i) (tr2 i) (q2 i) (K2 i) (M2 i)" by metis
  have links: "second_link S pty d uk (x a) K M a b (K2 a b) (M2 a b)" if "a \<in> set qs" "b \<in> set qs - {a}" for a b
    using P J that unfolding P_def by blast
  have parties2: "t2_parties (M2 j c) = \<lparr>sender = j, receiver = c\<rparr>" if "j \<in> set qs" "c \<in> set qs - {j}" for j c
    using links [OF that] by (simp add: second_link_def)
  have sec: "(\<Sum>i\<in>set qs. x i) = secret_of cs" unfolding x_def by (rule key_shares_sum [OF S g q f])
  let ?phi = "\<Sum>i\<in>set qs. uk1_inversion_mask (uk i)" and ?X = "hex_encode S (affine_x S (smul S (generator S) k))"
  have repr: "reduce S (affine_x S (smul S (generator S) k)) = rx"
    using to_from_repr [OF suite_okD(2) [OF S] rx(1)] reduce_to_repr [OF suite_okD(2) [OF S]] by metis
  define bc where "bc = (\<lambda>i. \<lparr>bc_u = product_part (set qs) (\<lambda>j. uk1_instance_key (uk j)) (\<lambda>j. uk1_inversion_mask (uk j)) (\<lambda>a b. k1_chi (K a b)) (\<lambda>a b. k2_c_u (K2 a b)) i,
      bc_w = reduce S h * uk1_inversion_mask (uk i) +
        product_part (set qs) x (\<lambda>j. uk1_inversion_mask (uk j)) (\<lambda>a b. k1_chi (K a b)) (\<lambda>a b. k2_c_v (K2 a b)) i * rx\<rparr>)"
  have ph3: "sign_phase3 S (pty i) (d i) (uk2 i) (keep2 i) (rcv3 i) = Ok (?X, bc i)"
    if rcv3: "\<forall>i\<in>set qs. mset (rcv3 i) = mset (addressed_to t2_parties qs tr2 i)" and i: "i \<in> set qs" for rcv3 i
  proof -
    have "\<exists>js. rcv3 i = map (\<lambda>j. M2 j i) js \<and> distinct js \<and> set js = set qs - {i}"
      using P J rcv3 i by (intro delivery [where cs = J and parties = t2_parties and M = M2, OF _ parties2 i dq]) (auto simp: P_def)
    then obtain js where js: "rcv3 i = map (\<lambda>j. M2 j i) js" "distinct js" "set js = set qs - {i}" by blast
    have "btree_get (keep2 i) b = Some (K2 i b)" if "b \<in> set qs - {i}" for b using P J i that unfolding P_def by blast
    from sign_phase3_honest [OF S g q f i links this _ js sec keys k, of "uk2 i"] show ?thesis
      using P i unfolding P_def bc_def repr by blast
  qed
  have bcu: "(\<Sum>i\<in>set qs. bc_u (bc i)) = k * ?phi" by (simp add: bc_def product_parts_sum k(1))
  have bcw: "(\<Sum>i\<in>set qs. bc_w (bc i)) = (reduce S h + rx * secret_of cs) * ?phi"
    by (simp add: bc_def sum.distrib sum_distrib_left [symmetric] sum_distrib_right [symmetric] product_parts_sum sec algebra_simps)
  have t': "reduce S h + rx * secret_of cs \<noteq> 0" using t by auto
  have pk: "pk (pty i) = smul S (generator S) (secret_of cs)" "message_hash (d i) = h" if "i \<in> set qs" for i
    using g q that by (auto simp: group_ok_def member_ok_def signers_ok_def)
  obtain a where a: "a \<in> set qs" using k by (metis ex_in_conv sum.empty)
  have ph4: "\<exists>rec_id. \<forall>i\<in>set qs. sign_phase4 S (pty i) (d i) ?X ms low_s = Ok (hex_encode S (to_repr S s), rec_id)"
    if ms: "mset ms = mset (map bc qs)" for ms
  proof -
    have sums: "(\<Sum>m\<leftarrow>ms. bc_u m) = k * ?phi" "(\<Sum>m\<leftarrow>ms. bc_w m) = (reduce S h + rx * secret_of cs) * ?phi"
      using sum_list_mset_cong [OF ms dq, of bc_u] sum_list_mset_cong [OF ms dq, of bc_w] bcu bcw by simp_all
    have same: "sign_phase4 S (pty i) (d i) ?X ms low_s = Ok res \<longleftrightarrow> sign_phase4 S (pty j) (d j) ?X ms low_s = Ok res"
      if "i \<in> set qs" "j \<in> set qs" for i j res
      using pk [OF that(1)] pk [OF that(2)] by (cases res) (simp add: sign_phase4_eq_Ok_iff [OF S])
    have ex: "\<exists>rec_id. sign_phase4 S (pty i) (d i) ?X ms low_s = Ok (hex_encode S (to_repr S s), rec_id)" if "i \<in> set qs" for i
      by (rule sign_phase4_honest(1) [OF S pk [OF that] sums k(2) phi rx(2) t' rx(1) t(1) s])
    obtain rec_id where "sign_phase4 S (pty a) (d a) ?X ms low_s = Ok (hex_encode S (to_repr S s), rec_id)"
      using ex [OF a] by blast
    then show ?thesis using same [OF _ a] by blast
  qed
  have "verify_ecdsa_signature S h (smul S (generator S) (secret_of cs)) ?X (hex_encode S (to_repr S s))"
  proof -
    have "(\<Sum>m\<leftarrow>map bc qs. bc_u m) = k * ?phi" "(\<Sum>m\<leftarrow>map bc qs. bc_w m) = (reduce S h + rx * secret_of cs) * ?phi"
      using sum_list_mset_cong [OF refl dq, of bc_u bc] sum_list_mset_cong [OF refl dq, of bc_w bc] bcu bcw by simp_all
    from sign_phase4_honest(2) [OF S pk [OF a] this k(2) phi rx(2) t' rx(1) t(1) s] show ?thesis by (simp add: pk [OF a])
  qed
  moreover have "\<forall>i\<in>set qs. sign_phase2 S oc (pty i) (d i) (uk i) (keep i) (rcv2 i) (q1 i) = Ok ((uk2 i, keep2 i, tr2 i), q2 i)"
    using P unfolding P_def by blast
  ultimately show ?thesis using ph3 ph4 by blast
qed

text \<open>
  C1: signing works. When a quorum of a group has run phase 1, phases 2, 3 and 4 succeed for
  every party whatever the order of delivery, and every party obtains the same signature of
  the message; it verifies under the group's public key and equals the ECDSA signature with
  the sum of the instance keys as nonce, brought to low form on request. The excluded events
  are the ones the code aborts on: a zero instance key or sum of them, a zero sum of the
  masks, an x-coordinate that is not a canonical nonzero scalar, and a zero signature.
\<close>

theorem signing_correct:
  fixes S :: "('f::field, 'g::ab_group_add) suite"
  assumes S: "suite_ok S" and gps: "group_ok S cs prm sid cc ps pty" and sub: "set qs \<subseteq> set ps"
    and q: "signers_ok prm qs d sign h"
    and ph1: "\<And>i. i \<in> set qs \<Longrightarrow> sign_phase1 S oc (pty i) (d i) (r i) = Ok ((uk i, keep i, tr i), r' i)"
    and keys: "\<And>i. i \<in> set qs \<Longrightarrow> uk1_instance_key (uk i) \<noteq> 0"
    and k: "k = (\<Sum>i\<in>set qs. uk1_instance_key (uk i))" "k \<noteq> 0" and phi: "(\<Sum>i\<in>set qs. uk1_inversion_mask (uk i)) \<noteq> 0"
    and rx: "from_repr S (affine_x S (smul S (generator S) k)) = Some rx" "rx \<noteq> 0"
    and t: "t = (reduce S h + rx * secret_of cs) * inverse k" "t \<noteq> 0"
    and s: "s = (if low_s \<and> is_high S t then - t else t)"
    and rcv2: "\<And>i. i \<in> set qs \<Longrightarrow> mset (rcv2 i) = mset (addressed_to t1_parties qs tr i)"
  shows "\<exists>uk2 keep2 tr2 q2.
     (\<forall>i\<in>set qs. sign_phase2 S oc (pty i) (d i) (uk i) (keep i) (rcv2 i) (q1 i) = Ok ((uk2 i, keep2 i, tr2 i), q2 i)) \<and>
     (\<forall>rcv3. (\<forall>i\<in>set qs. mset (rcv3 i) = mset (addressed_to t2_parties qs tr2 i)) \<longrightarrow>
        (\<exists>x_coord bc. (\<forall>i\<in>set qs. sign_phase3 S (pty i) (d i) (uk2 i) (keep2 i) (rcv3 i) = Ok (x_coord, bc i)) \<and>
           (\<forall>ms. mset ms = mset (map bc qs) \<longrightarrow>
              (\<exists>rec_id. \<forall>i\<in>set qs. sign_phase4 S (pty i) (d i) x_coord ms low_s = Ok (hex_encode S (to_repr S s), rec_id))) \<and>
           verify_ecdsa_signature S h (smul S (generator S) (secret_of cs)) x_coord (hex_encode S (to_repr S s))))"
  by (rule signing_completes [OF assms])

end
