(* ===== verification/DkgHonest.thy ===== *)
theory DkgHonest
  imports Dkg Group Rounds
begin

text \<open>
  Key generation among honest parties: when everyone's first three phases have produced their
  messages and these are delivered, in any order, phase 4 succeeds for every party and what
  the parties hold is a group in the sense of \<open>Group\<close>: shares of one polynomial, the key of
  its constant term, agreeing zero-share seeds and paired multiplication states.
\<close>

section \<open>The parties\<close>

definition all_parties :: "u8 \<Rightarrow> party_index list" where
  "all_parties n = map PartyIndex (u8_range_incl 1 n)"

definition others :: "u8 \<Rightarrow> party_index \<Rightarrow> party_index list" where
  "others n me = filter (\<lambda>j. j \<noteq> me) (all_parties n)"

lemma set_all_parties: "i \<in> set (all_parties n) \<longleftrightarrow> 1 \<le> unat (as_u8 i) \<and> unat (as_u8 i) \<le> unat n"
  by (cases i) (auto simp: all_parties_def u8_range_incl_eq)

lemma sorted_all_parties: "sorted_wrt (<) (all_parties n)"
proof -
  have "sorted_wrt (<) (map (of_nat :: nat \<Rightarrow> u8) [a..<b])" if "b \<le> 256" for a b
    unfolding sorted_wrt_map
  proof (rule sorted_wrt_mono_rel [OF _ sorted_wrt_upt])
    fix i j
    assume "i \<in> set [a..<b]" "j \<in> set [a..<b]" "i < j"
    then show "(of_nat i :: u8) < of_nat j" using that by (simp add: word_less_nat_alt unat_of_nat_u8)
  qed
  moreover have "Suc (unat n) \<le> 256" using unat_u8_bound [of n] by linarith
  ultimately show ?thesis
    unfolding all_parties_def u8_range_incl_def by (simp only: sorted_wrt_map less_party_index_def party_index.sel)
qed

lemma distinct_all_parties: "distinct (all_parties n)"
  using sorted_all_parties by (rule strict_sorted_distinct)

lemma others_simps: "set (others n me) = set (all_parties n) - {me}" "distinct (others n me)" "sorted_wrt (<) (others n me)"
  using distinct_all_parties sorted_all_parties by (auto simp: others_def sorted_wrt_filter)

text \<open>A map is determined by its keys and what it returns for them.\<close>

lemma btree_eq_map:
  assumes "btree_wf m" and "set (btree_keys m) = set js" and "sorted_wrt (<) js"
    and "\<And>j. j \<in> set js \<Longrightarrow> btree_get m j = Some (K j)"
  shows "m = map (\<lambda>j. (j, K j)) js"
proof -
  have keys: "map fst m = js"
    using assms(1-3) strict_sorted_equal [of "map fst m" js] by (simp add: btree_wf_def btree_keys_def)
  have "snd e = K (fst e)" if "e \<in> set m" for e
  proof -
    have "(fst e, snd e) \<in> set m" using that by simp
    then have "btree_get m (fst e) = Some (snd e)" using btree_get_Some_iff [OF assms(1)] by blast
    moreover have "fst e \<in> set js" using that keys by auto
    ultimately show ?thesis using assms(4) by simp
  qed
  then have "map (\<lambda>e. (fst e, K (fst e))) m = m" by (intro map_idI) (simp add: prod_eq_iff)
  then show ?thesis using keys by (simp add: comp_def keys [symmetric])
qed

text \<open>The loop of the second and third phases: one record and one message for each other party.\<close>

lemma others_loop:
  assumes run: "each f s (u8_range_incl 1 n) = Ok t" and start: "kp s = []" "tr s = []"
    and own: "\<And>s i. i \<in> set (u8_range_incl 1 n) \<Longrightarrow> PartyIndex i = me \<Longrightarrow> f s i = Ok s"
    and step: "\<And>s i t. i \<in> set (u8_range_incl 1 n) \<Longrightarrow> PartyIndex i \<noteq> me \<Longrightarrow> f s i = Ok t \<Longrightarrow>
      \<exists>k m. kp t = btree_insert (PartyIndex i) k (kp s) \<and> tr t = tr s @ [m] \<and> P (PartyIndex i) k m"
  shows "\<exists>K M. kp t = map (\<lambda>j. (j, K j)) (others n me) \<and> tr t = map M (others n me) \<and>
     (\<forall>j\<in>set (others n me). P j (K j) (M j))"
proof -
  let ?xs = "filter (\<lambda>i. PartyIndex i \<noteq> me) (u8_range_incl 1 n)"
  have xs: "map PartyIndex ?xs = others n me" by (simp add: others_def all_parties_def filter_map comp_def)
  have run': "each f s ?xs = Ok t" using run each_skip [of "u8_range_incl 1 n" "\<lambda>i. PartyIndex i \<noteq> me" f s] own by simp
  have d: "distinct (map PartyIndex ?xs)" unfolding xs by (rule others_simps)
  have wf: "btree_wf (kp s)" by (simp add: start)
  have r: "btree_wf (kp t) \<and> set (btree_keys (kp t)) = set (btree_keys (kp s)) \<union> PartyIndex ` set ?xs \<and>
     (\<exists>K M. tr t = tr s @ map M ?xs \<and> (\<forall>i\<in>set ?xs. btree_get (kp t) (PartyIndex i) = Some (K i) \<and> P (PartyIndex i) (K i) (M i)) \<and>
       (\<forall>j. j \<notin> PartyIndex ` set ?xs \<longrightarrow> btree_get (kp t) j = btree_get (kp s) j))"
    by (rule each_keep_transmit [where P = "\<lambda>i. P (PartyIndex i)" and kp = kp and tr = tr and key = PartyIndex, OF run' d wf]) (use step in auto)
  then obtain K M where KM: "tr t = map M ?xs" "\<forall>i\<in>set ?xs. btree_get (kp t) (PartyIndex i) = Some (K i) \<and> P (PartyIndex i) (K i) (M i)"
    by (auto simp: start)
  have keys: "set (btree_keys (kp t)) = set (others n me)"
    using r xs by (auto simp: start btree_keys_def simp flip: xs)
  have at: "btree_get (kp t) j = Some (K (as_u8 j)) \<and> P j (K (as_u8 j)) (M (as_u8 j))" if j: "j \<in> set (others n me)" for j
  proof -
    have "as_u8 j \<in> set ?xs" using j by (auto simp flip: xs)
    then show ?thesis using KM(2) by fastforce
  qed
  have "kp t = map (\<lambda>j. (j, K (as_u8 j))) (others n me)"
    using r keys others_simps(3) at by (intro btree_eq_map) auto
  moreover have "tr t = map (\<lambda>j. M (as_u8 j)) (others n me)" unfolding KM(1) xs [symmetric] by (simp add: comp_def)
  ultimately show ?thesis using at by (intro exI [of _ "\<lambda>j. K (as_u8 j)"] exI [of _ "\<lambda>j. M (as_u8 j)"]) blast
qed

section \<open>What a party sends\<close>

text \<open>
  What one party's messages are, in terms of what it drew: the committed proof of its share,
  the committed seeds, and the first messages of the multiplications with every other party.
  Refresh sends the same.
\<close>

definition proof_sent ::
  "('f::field, 'g::ab_group_add) suite \<Rightarrow> bytes \<Rightarrow> party_index \<Rightarrow> 'f \<Rightarrow> ('f, 'g) proof_commitment \<Rightarrow> bool" where
  "proof_sent S sid i share pc \<longleftrightarrow>
     pc_index pc = i \<and> (\<exists>ra rb. prove_commit S share sid ra = Ok ((pc_proof pc, pc_commitment pc), rb))"

definition seeds_sent ::
  "('f, 'g) suite \<Rightarrow> u8 \<Rightarrow> party_index \<Rightarrow> transmit_zero_2to4 list \<Rightarrow> (party_index, keep_zero_3to4) btree_map
   \<Rightarrow> transmit_zero_3to4 list \<Rightarrow> (party_index \<Rightarrow> bytes) \<Rightarrow> (party_index \<Rightarrow> transmit_zero_2to4)
   \<Rightarrow> (party_index \<Rightarrow> transmit_zero_3to4) \<Rightarrow> bool" where
  "seeds_sent S n i z2 zk z3 sd M2 M3 \<longleftrightarrow>
     z2 = map M2 (others n i) \<and> z3 = map M3 (others n i) \<and> zk = map (\<lambda>j. (j, \<lparr>kz3_seed = sd j\<rparr>)) (others n i) \<and>
     (\<forall>j\<in>set (others n i). z2_parties (M2 j) = \<lparr>sender = i, receiver = j\<rparr> \<and> z3_parties (M3 j) = \<lparr>sender = i, receiver = j\<rparr> \<and>
        z3_seed (M3 j) = sd j \<and> verify_seed S (z3_seed (M3 j)) (z2_commitment (M2 j)) (z3_salt (M3 j)))"

definition muls_sent ::
  "('f::field, 'g::ab_group_add) suite \<Rightarrow> u8 \<Rightarrow> bytes \<Rightarrow> party_index \<Rightarrow> (party_index, ('f, 'g) keep_mul_3to4) btree_map
   \<Rightarrow> ('f, 'g) transmit_mul_3to4 list \<Rightarrow> (party_index \<Rightarrow> ('f, 'g) keep_mul_3to4)
   \<Rightarrow> (party_index \<Rightarrow> ('f, 'g) transmit_mul_3to4) \<Rightarrow> bool" where
  "muls_sent S n sid i mk mt L N \<longleftrightarrow>
     mk = map (\<lambda>j. (j, L j)) (others n i) \<and> mt = map N (others n i) \<and>
     (\<forall>j\<in>set (others n i). tm_parties (N j) = \<lparr>sender = i, receiver = j\<rparr> \<and>
        tm_nonce (N j) = km_nonce (L j) \<and> tm_seed (N j) = ot_seed (km_ot_receiver (L j)) \<and>
        (\<exists>ra rb. mul_receiver_init_phase1 S (mul_sid i j sid) ra =
           (Ok ((km_ot_sender (L j), tm_dlog_proof (N j), km_nonce (L j)), rb) :: (abort, _) outcome)) \<and>
        (\<exists>ra rb. mul_sender_init_phase1 S (mul_sid j i sid) ra =
           (Ok ((km_ot_receiver (L j), km_correlation (L j), km_vec_r (L j), tm_enc_proofs (N j)), rb) :: (abort, _) outcome)))"

section \<open>What phases 2 and 3 produce\<close>

lemma dkg_phase2_loop:
  assumes loop: "each (dkg_phase2_step S me) (([], []), r) (u8_range_incl 1 n) = (Ok ((zk, z2), r') :: (abort, _) outcome)"
  shows "\<exists>K M. zk = map (\<lambda>j. (j, K j)) (others n me) \<and> z2 = map M (others n me) \<and>
     (\<forall>j\<in>set (others n me). z2_parties (M j) = \<lparr>sender = me, receiver = j\<rparr> \<and>
        verify_seed S (kz2_seed (K j)) (z2_commitment (M j)) (kz2_salt (K j)))"
proof -
  have "\<exists>K M. fst (fst ((zk, z2), r')) = map (\<lambda>j. (j, K j)) (others n me) \<and> snd (fst ((zk, z2), r')) = map M (others n me) \<and>
     (\<forall>j\<in>set (others n me). z2_parties (M j) = \<lparr>sender = me, receiver = j\<rparr> \<and>
           verify_seed S (kz2_seed (K j)) (z2_commitment (M j)) (kz2_salt (K j)))"
  proof (rule others_loop [where kp = "\<lambda>s. fst (fst s)" and tr = "\<lambda>s. snd (fst s)", OF loop])
    fix s :: "((party_index, keep_zero_2to3) btree_map \<times> transmit_zero_2to4 list) \<times> 'a rng" and i :: u8
    assume i: "i \<in> set (u8_range_incl 1 n)"
    then have nz: "i \<noteq> 0" by (auto simp: u8_range_incl_eq)
    then show "PartyIndex i = me \<Longrightarrow> dkg_phase2_step S me s i = (Ok s :: (abort, _) outcome)"
      by (auto simp: dkg_phase2_step_def split: prod.splits)
    fix t
    assume "PartyIndex i \<noteq> me" "dkg_phase2_step S me s i = (Ok t :: (abort, _) outcome)"
    then show "\<exists>k m. fst (fst t) = btree_insert (PartyIndex i) k (fst (fst s)) \<and> snd (fst t) = snd (fst s) @ [m] \<and>
       z2_parties m = \<lparr>sender = me, receiver = PartyIndex i\<rparr> \<and> verify_seed S (kz2_seed k) (z2_commitment m) (kz2_salt k)"
      using nz generated_seed_verifies by (fastforce simp: dkg_phase2_step_def Let_def split: prod.splits)
  qed simp_all
  then show ?thesis unfolding fst_conv snd_conv .
qed

lemma dkg_phase2_result:
  assumes ok: "dkg_phase2 S oc data frag r = (Ok ((pp, pc, zk, z2, dk, b2), r') :: (abort, _) outcome)"
  shows "pp = sum_list frag \<and> pc_index pc = sd_party_index data \<and>
     (\<exists>ra rb. prove_commit S pp (sd_session_id data) ra = Ok ((pc_proof pc, pc_commitment pc), rb)) \<and>
     b2_sender_index b2 = sd_party_index data \<and>
     verify_commitment S (kd_aux_chain_code dk) (b2_cc_commitment b2) (kd_cc_salt dk) \<and>
     (\<exists>K M. zk = map (\<lambda>j. (j, K j)) (others (share_count (sd_parameters data)) (sd_party_index data)) \<and>
        z2 = map M (others (share_count (sd_parameters data)) (sd_party_index data)) \<and>
        (\<forall>j\<in>set (others (share_count (sd_parameters data)) (sd_party_index data)).
           z2_parties (M j) = \<lparr>sender = sd_party_index data, receiver = j\<rparr> \<and>
           verify_seed S (kz2_seed (K j)) (z2_commitment (M j)) (kz2_salt (K j))))"
proof -
  let ?me = "sd_party_index data" and ?n = "share_count (sd_parameters data)"
  from ok obtain ra rb rc rd aux where
    s3: "prove_commit S pp (sd_session_id data) ra = Ok ((pc_proof pc, pc_commitment pc), rb)" "pp = sum_list frag" "pc_index pc = ?me"
    and loop: "each (dkg_phase2_step S ?me) (([], []), rb) (u8_range_incl 1 ?n) = (Ok ((zk, z2), rc) :: (abort, _) outcome)"
    and cc: "b2_cc_commitment b2 = fst (fst (commit S aux rd))" "kd_cc_salt dk = snd (fst (commit S aux rd))"
      "kd_aux_chain_code dk = aux" "b2_sender_index b2 = ?me"
    by (auto simp: dkg_phase2_def dkg_step3_def Let_def outcome_simps split_beta)
  have "verify_commitment S (kd_aux_chain_code dk) (b2_cc_commitment b2) (kd_cc_salt dk)"
    unfolding cc(1-3) by (rule bytes_commitment.opens)
  then show ?thesis using s3 cc(4) dkg_phase2_loop [OF loop] by blast
qed

lemma dkg_phase3_zero_step_pair:
  "dkg_phase3_zero_step me (keep, tr) (j, k) =
     (btree_insert j \<lparr>kz3_seed = kz2_seed k\<rparr> keep,
      tr @ [\<lparr>z3_parties = \<lparr>sender = me, receiver = j\<rparr>, z3_seed = kz2_seed k, z3_salt = kz2_salt k\<rparr>])"
  by (simp add: dkg_phase3_zero_step_def)

lemma dkg_phase3_zero_result:
  assumes "sorted_wrt (<) js"
  shows "foldl (dkg_phase3_zero_step me) ([], []) (map (\<lambda>j. (j, K j)) js) =
     (map (\<lambda>j. (j, \<lparr>kz3_seed = kz2_seed (K j)\<rparr>)) js,
      map (\<lambda>j. \<lparr>z3_parties = \<lparr>sender = me, receiver = j\<rparr>, z3_seed = kz2_seed (K j), z3_salt = kz2_salt (K j)\<rparr>) js)"
  using assms
proof (induction js rule: rev_induct)
  case Nil
  then show ?case by simp
next
  case (snoc j js)
  then have IH: "foldl (dkg_phase3_zero_step me) ([], []) (map (\<lambda>j. (j, K j)) js) =
     (map (\<lambda>j. (j, \<lparr>kz3_seed = kz2_seed (K j)\<rparr>)) js,
      map (\<lambda>j. \<lparr>z3_parties = \<lparr>sender = me, receiver = j\<rparr>, z3_seed = kz2_seed (K j), z3_salt = kz2_salt (K j)\<rparr>) js)"
    by (simp add: sorted_wrt_append)
  have "\<forall>k\<in>fst ` set (map (\<lambda>j. (j, \<lparr>kz3_seed = kz2_seed (K j)\<rparr>)) js). k < j"
    using snoc.prems by (auto simp: sorted_wrt_append)
  then show ?case by (simp add: IH dkg_phase3_zero_step_pair btree_insert_last)
qed

lemma dkg_phase3_mul_loop:
  fixes S :: "('f::field, 'g::ab_group_add) suite"
  assumes loop: "each (dkg_phase3_mul_step S me sid) (([], []), r) (u8_range_incl 1 n) = (Ok ((mk, mt), r') :: (abort, _) outcome)"
  shows "\<exists>L N. muls_sent S n sid me mk mt L N"
proof -
  let ?P = "\<lambda>j k m. tm_parties m = \<lparr>sender = me, receiver = j\<rparr> \<and> tm_nonce m = km_nonce k \<and>
           tm_seed m = ot_seed (km_ot_receiver k) \<and>
           (\<exists>ra rb. mul_receiver_init_phase1 S (mul_sid me j sid) ra =
              (Ok ((km_ot_sender k, tm_dlog_proof m, km_nonce k), rb) :: (abort, _) outcome)) \<and>
           (\<exists>ra rb. mul_sender_init_phase1 S (mul_sid j me sid) ra =
              (Ok ((km_ot_receiver k, km_correlation k, km_vec_r k, tm_enc_proofs m), rb) :: (abort, _) outcome))"
  have "\<exists>L N. fst (fst ((mk, mt), r')) = map (\<lambda>j. (j, L j)) (others n me) \<and> snd (fst ((mk, mt), r')) = map N (others n me) \<and>
     (\<forall>j\<in>set (others n me). ?P j (L j) (N j))"
  proof (rule others_loop [where kp = "\<lambda>s. fst (fst s)" and tr = "\<lambda>s. snd (fst s)", OF loop])
    fix s :: "((party_index, ('f, 'g) keep_mul_3to4) btree_map \<times> ('f, 'g) transmit_mul_3to4 list) \<times> 'f rng" and i :: u8
    assume i: "i \<in> set (u8_range_incl 1 n)"
    then have nz: "i \<noteq> 0" by (auto simp: u8_range_incl_eq)
    then show "PartyIndex i = me \<Longrightarrow> dkg_phase3_mul_step S me sid s i = (Ok s :: (abort, _) outcome)"
      by (auto simp: dkg_phase3_mul_step_def split: prod.splits)
    fix t
    assume neq: "PartyIndex i \<noteq> me" and ok: "dkg_phase3_mul_step S me sid s i = (Ok t :: (abort, _) outcome)"
    obtain keep tr r where s: "s = ((keep, tr), r)" by (metis prod.exhaust)
    from ok neq nz obtain sndr pf nonce r1 rcv co vr es r2 where
      a: "mul_receiver_init_phase1 S (mul_sid me (PartyIndex i) sid) r = (Ok ((sndr, pf, nonce), r1) :: (abort, _) outcome)"
      and b: "mul_sender_init_phase1 S (mul_sid (PartyIndex i) me sid) r1 = (Ok ((rcv, co, vr, es), r2) :: (abort, _) outcome)"
      and t: "t = ((btree_insert (PartyIndex i) \<lparr>km_ot_sender = sndr, km_nonce = nonce, km_ot_receiver = rcv,
              km_correlation = co, km_vec_r = vr\<rparr> keep,
           tr @ [\<lparr>tm_parties = \<lparr>sender = me, receiver = PartyIndex i\<rparr>, tm_dlog_proof = pf, tm_nonce = nonce,
              tm_enc_proofs = es, tm_seed = ot_seed rcv\<rparr>]), r2)"
      by (auto simp: dkg_phase3_mul_step_def s outcome_simps)
    have "?P (PartyIndex i) \<lparr>km_ot_sender = sndr, km_nonce = nonce, km_ot_receiver = rcv, km_correlation = co, km_vec_r = vr\<rparr>
       \<lparr>tm_parties = \<lparr>sender = me, receiver = PartyIndex i\<rparr>, tm_dlog_proof = pf, tm_nonce = nonce,
              tm_enc_proofs = es, tm_seed = ot_seed rcv\<rparr>"
      using a b by (simp only: keep_mul_3to4.simps transmit_mul_3to4.simps) blast
    then show "\<exists>k m. fst (fst t) = btree_insert (PartyIndex i) k (fst (fst s)) \<and> snd (fst t) = snd (fst s) @ [m] \<and> ?P (PartyIndex i) k m"
      unfolding t s fst_conv snd_conv by blast
  qed simp_all
  then show ?thesis unfolding muls_sent_def fst_conv snd_conv .
qed

lemma dkg_phase3_result:
  fixes S :: "('f::field, 'g::ab_group_add) suite"
  assumes ok: "dkg_phase3 S oc data (map (\<lambda>j. (j, K j)) (others (share_count (sd_parameters data)) (sd_party_index data))) dk r =
      (Ok ((zk, z3, mk, mt, b3), r') :: (abort, _) outcome)"
  shows "zk = map (\<lambda>j. (j, \<lparr>kz3_seed = kz2_seed (K j)\<rparr>)) (others (share_count (sd_parameters data)) (sd_party_index data)) \<and>
     z3 = map (\<lambda>j. \<lparr>z3_parties = \<lparr>sender = sd_party_index data, receiver = j\<rparr>, z3_seed = kz2_seed (K j), z3_salt = kz2_salt (K j)\<rparr>)
        (others (share_count (sd_parameters data)) (sd_party_index data)) \<and>
     b3_sender_index b3 = sd_party_index data \<and> b3_aux_chain_code b3 = kd_aux_chain_code dk \<and> b3_cc_salt b3 = kd_cc_salt dk \<and>
     (\<exists>L N. muls_sent S (share_count (sd_parameters data)) (sd_session_id data) (sd_party_index data) mk mt L N)"
proof -
  let ?me = "sd_party_index data" and ?n = "share_count (sd_parameters data)" and ?sid = "sd_session_id data"
  note zero = dkg_phase3_zero_result [OF others_simps(3), of ?me K ?n ?me]
  from ok obtain rc where
    z: "zk = map (\<lambda>j. (j, \<lparr>kz3_seed = kz2_seed (K j)\<rparr>)) (others ?n ?me)"
      "z3 = map (\<lambda>j. \<lparr>z3_parties = \<lparr>sender = ?me, receiver = j\<rparr>, z3_seed = kz2_seed (K j), z3_salt = kz2_salt (K j)\<rparr>) (others ?n ?me)"
    and b3: "b3 = \<lparr>b3_sender_index = ?me, b3_aux_chain_code = kd_aux_chain_code dk, b3_cc_salt = kd_cc_salt dk\<rparr>"
    and loop: "each (dkg_phase3_mul_step S ?me ?sid) (([], []), r) (u8_range_incl 1 ?n) = (Ok ((mk, mt), rc) :: (abort, _) outcome)"
    by (auto simp: dkg_phase3_def Let_def zero outcome_simps)
  show ?thesis using z b3 dkg_phase3_mul_loop [OF loop] by (simp only: broadcast_derivation_3to4.simps)
qed

section \<open>Phase 4\<close>

lemma file_by_sender_total:
  assumes "\<And>m. m \<in> set msgs \<Longrightarrow> receiver (parties m) = me \<and> btree_contains kept (sender (parties m))"
    and "distinct (map (sender \<circ> parties) msgs)"
  shows "\<exists>filed. file_by_sender me kept parties msgs = Ok filed"
proof -
  have "\<exists>filed. each (\<lambda>filed m.
        if receiver (parties m) \<noteq> me then Err (recoverable me (MisroutedMessage me (receiver (parties m))))
        else if \<not> btree_contains kept (sender (parties m)) then Err (recoverable me (UnexpectedSender (sender (parties m))))
        else if btree_get filed (sender (parties m)) \<noteq> None then Err (recoverable me (DuplicateSender (sender (parties m))))
        else Ok (btree_insert (sender (parties m)) m filed)) filed0 msgs = Ok filed"
    if "btree_wf filed0" "\<forall>m\<in>set msgs. btree_get filed0 (sender (parties m)) = None" for filed0
    using that assms
  proof (induction msgs arbitrary: filed0)
    case Nil
    then show ?case by simp
  next
    case (Cons m msgs)
    have "\<forall>x\<in>set msgs. btree_get (btree_insert (sender (parties m)) m filed0) (sender (parties x)) = None"
    proof
      fix x
      assume "x \<in> set msgs"
      then have "sender (parties x) \<noteq> sender (parties m)" "btree_get filed0 (sender (parties x)) = None"
        using Cons.prems(2,4) by (auto simp: rev_image_eqI)
      then show "btree_get (btree_insert (sender (parties m)) m filed0) (sender (parties x)) = None"
        by (simp add: btree_get_insert [OF Cons.prems(1)])
    qed
    then show ?case using Cons.prems Cons.IH [of "btree_insert (sender (parties m)) m filed0"] by auto
  qed
  from this [of "[]"] show ?thesis by (simp add: file_by_sender_def)
qed

lemma honest_filed:
  assumes js: "distinct js" "set js = set ks" and ks: "distinct ks"
    and parties: "\<And>j. j \<in> set ks \<Longrightarrow> parties (M j) = \<lparr>sender = j, receiver = me\<rparr>"
  shows "\<exists>filed. file_by_sender me (map (\<lambda>j. (j, K j)) ks) parties (map M js) = Ok filed \<and>
     check_count me (map (\<lambda>j. (j, K j)) ks) filed = Ok () \<and> (\<forall>j\<in>set ks. btree_get filed j = Some (M j))"
proof -
  have "map (sender \<circ> parties) (map M js) = js" unfolding map_map using parties js(2) by (intro map_idI) simp
  then have d: "distinct (map (sender \<circ> parties) (map M js))" using js(1) by simp
  have "receiver (parties m) = me \<and> btree_contains (map (\<lambda>j. (j, K j)) ks) (sender (parties m))" if "m \<in> set (map M js)" for m
    using that parties js(2) by (auto simp: btree_contains_def comp_def)
  from file_by_sender_total [OF this d]
  obtain filed where f: "file_by_sender me (map (\<lambda>j. (j, K j)) ks) parties (map M js) = Ok filed" by blast
  have "length js = length ks" using js ks by (metis distinct_card)
  then have "check_count me (map (\<lambda>j. (j, K j)) ks) filed = Ok ()"
    using file_by_sender_spec(5) [OF f] by (simp add: check_count_def btree_len_def)
  moreover have "btree_get filed j = Some (M j)" if "j \<in> set ks" for j
    using that parties js(2) by (auto simp: file_by_sender_spec(4) [OF f])
  ultimately show ?thesis using f by blast
qed

text \<open>The zero shares of phase 4 are those of an honest initialisation.\<close>

lemma dkg_zero_share_honest:
  assumes js: "distinct js2" "set js2 = set (others n me)" "distinct js3" "set js3 = set (others n me)"
    and p2: "\<And>j. j \<in> set (others n me) \<Longrightarrow> z2_parties (M2 j) = \<lparr>sender = j, receiver = me\<rparr>"
    and p3: "\<And>j. j \<in> set (others n me) \<Longrightarrow> z3_parties (M3 j) = \<lparr>sender = j, receiver = me\<rparr>"
    and ver: "\<And>j. j \<in> set (others n me) \<Longrightarrow> verify_seed S (z3_seed (M3 j)) (z2_commitment (M2 j)) (z3_salt (M3 j))"
  shows "dkg_zero_share S me (map (\<lambda>j. (j, \<lparr>kz3_seed = sd j\<rparr>)) (others n me)) (map M2 js2) (map M3 js3) =
     Ok (zero_share_initialize (map (\<lambda>j. generate_seed_pair me j (sd j) (z3_seed (M3 j))) (others n me)))"
proof -
  obtain f2 where f2: "file_by_sender me (map (\<lambda>j. (j, \<lparr>kz3_seed = sd j\<rparr>)) (others n me)) z2_parties (map M2 js2) = Ok f2"
    "check_count me (map (\<lambda>j. (j, \<lparr>kz3_seed = sd j\<rparr>)) (others n me)) f2 = Ok ()" "\<forall>j\<in>set (others n me). btree_get f2 j = Some (M2 j)"
    by (rule exE [OF honest_filed [OF js(1,2) others_simps(2), where parties = z2_parties and M = M2 and K = "\<lambda>j. \<lparr>kz3_seed = sd j\<rparr>"]]) (use p2 in blast)+
  obtain f3 where f3: "file_by_sender me (map (\<lambda>j. (j, \<lparr>kz3_seed = sd j\<rparr>)) (others n me)) z3_parties (map M3 js3) = Ok f3"
    "check_count me (map (\<lambda>j. (j, \<lparr>kz3_seed = sd j\<rparr>)) (others n me)) f3 = Ok ()" "\<forall>j\<in>set (others n me). btree_get f3 j = Some (M3 j)"
    by (rule exE [OF honest_filed [OF js(3,4) others_simps(2), where parties = z3_parties and M = M3 and K = "\<lambda>j. \<lparr>kz3_seed = sd j\<rparr>"]]) (use p3 in blast)+
  have "collect_try (dkg_seed_pair S me f2 f3) (map (\<lambda>j. (j, \<lparr>kz3_seed = sd j\<rparr>)) (others n me)) =
      Ok (map (\<lambda>e. generate_seed_pair me (fst e) (kz3_seed (snd e)) (z3_seed (M3 (fst e)))) (map (\<lambda>j. (j, \<lparr>kz3_seed = sd j\<rparr>)) (others n me)))"
    using f2(3) f3(3) ver by (intro collect_try_total) (auto simp: dkg_seed_pair_eq_Ok_iff)
  then show ?thesis by (simp add: dkg_zero_share_def f2(1,2) f3(1,2) comp_def)
qed

text \<open>The multiplications of phase 4 end with the states the two initialisations determine.\<close>

lemma dkg_mul_loop:
  assumes "\<And>j. j \<in> set js \<Longrightarrow> btree_get filed j = Some (N j) \<and>
      mul_receiver_init_phase2 S (km_ot_sender (L j)) (mul_sid me j sid) (tm_seed (N j)) (tm_enc_proofs (N j)) (km_nonce (L j)) = Ok (W j) \<and>
      mul_sender_init_phase2 S (mul_sid j me sid) (km_correlation (L j)) (km_vec_r (L j)) (tm_dlog_proof (N j)) (tm_nonce (N j)) = Ok (T j)"
    and "distinct js" and "btree_wf rs" "btree_wf ss"
  shows "\<exists>rs' ss'. each (dkg_mul_step S me sid filed) (rs, ss) (map (\<lambda>j. (j, L j)) js) = Ok (rs', ss') \<and> btree_wf rs' \<and> btree_wf ss' \<and>
     (\<forall>j. btree_get rs' j = (if j \<in> set js then Some (W j) else btree_get rs j)) \<and>
     (\<forall>j. btree_get ss' j = (if j \<in> set js then Some (T j) else btree_get ss j))"
  using assms
proof (induction js arbitrary: rs ss)
  case Nil
  then show ?case by simp
next
  case (Cons j js)
  have "dkg_mul_step S me sid filed (rs, ss) (j, L j) = Ok (btree_insert j (W j) rs, btree_insert j (T j) ss)"
    unfolding dkg_mul_step_eq_Ok_iff using Cons.prems(1) by simp
  moreover obtain rs' ss' where "each (dkg_mul_step S me sid filed) (btree_insert j (W j) rs, btree_insert j (T j) ss) (map (\<lambda>j. (j, L j)) js) = Ok (rs', ss')"
    "btree_wf rs'" "btree_wf ss'"
    "\<forall>k. btree_get rs' k = (if k \<in> set js then Some (W k) else btree_get (btree_insert j (W j) rs) k)"
    "\<forall>k. btree_get ss' k = (if k \<in> set js then Some (T k) else btree_get (btree_insert j (T j) ss) k)"
    using Cons.IH [of "btree_insert j (W j) rs" "btree_insert j (T j) ss"] Cons.prems by auto
  ultimately show ?case using Cons.prems(2-4) by (auto simp: btree_get_insert)
qed

lemma dkg_mul_honest:
  assumes js: "distinct js" "set js = set (others n me)"
    and p: "\<And>j. j \<in> set (others n me) \<Longrightarrow> tm_parties (N j) = \<lparr>sender = j, receiver = me\<rparr>"
    and init: "\<And>j. j \<in> set (others n me) \<Longrightarrow>
      mul_receiver_init_phase2 S (km_ot_sender (L j)) (mul_sid me j sid) (tm_seed (N j)) (tm_enc_proofs (N j)) (km_nonce (L j)) = Ok (W j) \<and>
      mul_sender_init_phase2 S (mul_sid j me sid) (km_correlation (L j)) (km_vec_r (L j)) (tm_dlog_proof (N j)) (tm_nonce (N j)) = Ok (T j)"
  shows "\<exists>rs ss. dkg_mul S me sid (map (\<lambda>j. (j, L j)) (others n me)) (map N js) = Ok (rs, ss) \<and> btree_wf rs \<and> btree_wf ss \<and>
     btree_keys ss = btree_keys rs \<and> (\<forall>j\<in>set (others n me). btree_get rs j = Some (W j) \<and> btree_get ss j = Some (T j))"
proof -
  obtain filed where f: "file_by_sender me (map (\<lambda>j. (j, L j)) (others n me)) tm_parties (map N js) = Ok filed"
    "check_count me (map (\<lambda>j. (j, L j)) (others n me)) filed = Ok ()" "\<forall>j\<in>set (others n me). btree_get filed j = Some (N j)"
    by (rule exE [OF honest_filed [OF js others_simps(2), where parties = tm_parties and M = N and K = "L"]]) (use p in blast)+
  obtain rs ss where r: "each (dkg_mul_step S me sid filed) ([], []) (map (\<lambda>j. (j, L j)) (others n me)) = Ok (rs, ss)" "btree_wf rs" "btree_wf ss"
     "\<forall>j. btree_get rs j = (if j \<in> set (others n me) then Some (W j) else None)"
     "\<forall>j. btree_get ss j = (if j \<in> set (others n me) then Some (T j) else None)"
    using dkg_mul_loop [of "others n me" filed N S L me sid W T "[]" "[]"] f(3) init others_simps(2) by auto
  have "btree_keys rs = btree_keys ss"
    using dkg_mul_maps [OF r(1)] by (simp add: btree_keys_Nil)
  then show ?thesis using f r by (auto simp: dkg_mul_def)
qed

text \<open>Everyone opens the same chain-code contributions, so everyone obtains the same chain code.\<close>

lemma dkg_chain_code_honest:
  assumes "\<And>j. j \<in> set (all_parties n) \<Longrightarrow> btree_get r2 j = Some (b2 j) \<and> btree_get r3 j = Some (b3 j) \<and>
      verify_commitment S (b3_aux_chain_code (b3 j)) (b2_cc_commitment (b2 j)) (b3_cc_salt (b3 j))"
  shows "dkg_chain_code S me n r2 r3 =
     Ok (foldl (\<lambda>cc j. xor_n CHAIN_CODE_LEN cc (b3_aux_chain_code (b3 j))) (replicate CHAIN_CODE_LEN 0) (all_parties n))"
proof -
  have "each (dkg_chain_code_step S me r2 r3) cc is =
      Ok (foldl (\<lambda>cc j. xor_n CHAIN_CODE_LEN cc (b3_aux_chain_code (b3 j))) cc (map PartyIndex is))"
    if "set is \<subseteq> set (u8_range_incl 1 n)" for cc "is"
    using that
  proof (induction "is" arbitrary: cc)
    case Nil
    then show ?case by simp
  next
    case (Cons i "is")
    have "i \<noteq> 0" "PartyIndex i \<in> set (all_parties n)" using Cons.prems by (auto simp: all_parties_def u8_range_incl_eq)
    then have "dkg_chain_code_step S me r2 r3 cc i = Ok (xor_n CHAIN_CODE_LEN cc (b3_aux_chain_code (b3 (PartyIndex i))))"
      using assms by (simp add: dkg_chain_code_step_def message_from_def)
    then show ?case using Cons by simp
  qed
  then show ?thesis by (simp add: dkg_chain_code_def all_parties_def)
qed

section \<open>The whole protocol\<close>

lemma nth_u8_range_incl: "1 \<le> unat i \<Longrightarrow> unat i \<le> unat n \<Longrightarrow> u8_range_incl 1 n ! (unat i - 1) = i"
  unfolding u8_range_incl_def by (subst nth_map) (simp_all add: nth_upt del: upt_Suc)

lemma horner_exponent:
  "curve_ok S \<Longrightarrow> horner (smul S) (map (smul S P) cs) x = smul S P (horner (*) cs x)"
  by (induction cs) (simp_all add: smul_distrib smul_smul)

text \<open>
  A run of the first three phases by all parties of a session: every party's polynomial
  fragments, committed proofs, seeds and initialisation messages, each computed from the
  previous phase's output and the fragments that are for it.
\<close>

definition dkg_rounds ::
  "('f::field, 'g::ab_group_add) suite \<Rightarrow> bool \<Rightarrow> parameters \<Rightarrow> bytes \<Rightarrow> (party_index \<Rightarrow> 'f rng)
   \<Rightarrow> (party_index \<Rightarrow> 'f \<times> ('f, 'g) proof_commitment \<times> transmit_zero_2to4 list \<times> broadcast_derivation_2to4)
   \<Rightarrow> (party_index \<Rightarrow> (party_index, keep_zero_3to4) btree_map \<times> transmit_zero_3to4 list
        \<times> (party_index, ('f, 'g) keep_mul_3to4) btree_map \<times> ('f, 'g) transmit_mul_3to4 list \<times> broadcast_derivation_3to4)
   \<Rightarrow> bool" where
  "dkg_rounds S oc prm sid r0 out2 out3 \<longleftrightarrow>
     (\<exists>frag r1. \<forall>i\<in>set (all_parties (share_count prm)).
        dkg_phase1 oc \<lparr>sd_parameters = prm, sd_party_index = i, sd_session_id = sid\<rparr> (r0 i) =
          (Ok (frag i, r1 i) :: (abort, _) outcome) \<and>
        (\<exists>received pp pc zk z2 dk b2 r2 r3.
           mset received = mset (map (\<lambda>j. frag j ! (unat (as_u8 i) - 1)) (all_parties (share_count prm))) \<and>
           dkg_phase2 S oc \<lparr>sd_parameters = prm, sd_party_index = i, sd_session_id = sid\<rparr> received (r1 i) =
             (Ok ((pp, pc, zk, z2, dk, b2), r2) :: (abort, _) outcome) \<and>
           out2 i = (pp, pc, z2, b2) \<and>
           dkg_phase3 S oc \<lparr>sd_parameters = prm, sd_party_index = i, sd_session_id = sid\<rparr> zk dk r2 =
             (Ok (out3 i, r3) :: (abort, _) outcome)))"

text \<open>The parts of the outputs of phases 2 and 3.\<close>

abbreviation (input) "share_out o2 \<equiv> fst o2"
abbreviation (input) "proof_out o2 \<equiv> fst (snd o2)"
abbreviation (input) "seeds2_out o2 \<equiv> fst (snd (snd o2))"
abbreviation (input) "chain2_out o2 \<equiv> snd (snd (snd o2))"
abbreviation (input) "zero_kept o3 \<equiv> fst o3"
abbreviation (input) "seeds3_out o3 \<equiv> fst (snd o3)"
abbreviation (input) "mul_kept o3 \<equiv> fst (snd (snd o3))"
abbreviation (input) "mul_out o3 \<equiv> fst (snd (snd (snd o3)))"
abbreviation (input) "chain3_out o3 \<equiv> snd (snd (snd (snd o3)))"

text \<open>All messages of one party of a key generation.\<close>

definition dkg_sent ::
  "('f::field, 'g::ab_group_add) suite \<Rightarrow> parameters \<Rightarrow> bytes \<Rightarrow> party_index
   \<Rightarrow> 'f \<times> ('f, 'g) proof_commitment \<times> transmit_zero_2to4 list \<times> broadcast_derivation_2to4
   \<Rightarrow> (party_index, keep_zero_3to4) btree_map \<times> transmit_zero_3to4 list
        \<times> (party_index, ('f, 'g) keep_mul_3to4) btree_map \<times> ('f, 'g) transmit_mul_3to4 list \<times> broadcast_derivation_3to4
   \<Rightarrow> (party_index \<Rightarrow> bytes) \<Rightarrow> (party_index \<Rightarrow> transmit_zero_2to4) \<Rightarrow> (party_index \<Rightarrow> transmit_zero_3to4)
   \<Rightarrow> (party_index \<Rightarrow> ('f, 'g) keep_mul_3to4) \<Rightarrow> (party_index \<Rightarrow> ('f, 'g) transmit_mul_3to4) \<Rightarrow> bool" where
  "dkg_sent S prm sid i o2 o3 sd M2 M3 L N \<longleftrightarrow>
     proof_sent S sid i (share_out o2) (proof_out o2) \<and>
     seeds_sent S (share_count prm) i (seeds2_out o2) (zero_kept o3) (seeds3_out o3) sd M2 M3 \<and>
     muls_sent S (share_count prm) sid i (mul_kept o3) (mul_out o3) L N \<and>
     verify_commitment S (b3_aux_chain_code (chain3_out o3)) (b2_cc_commitment (chain2_out o2)) (b3_cc_salt (chain3_out o3))"

text \<open>Phases 2 and 3 together: the committed seeds are the ones revealed.\<close>

lemma seeds_sent_phases:
  assumes "z2 = map M (others n i)"
    and "\<forall>j\<in>set (others n i). z2_parties (M j) = \<lparr>sender = i, receiver = j\<rparr> \<and>
        verify_seed S (kz2_seed (K j)) (z2_commitment (M j)) (kz2_salt (K j))"
    and "zk = map (\<lambda>j. (j, \<lparr>kz3_seed = kz2_seed (K j)\<rparr>)) (others n i)"
    and "z3 = map (\<lambda>j. \<lparr>z3_parties = \<lparr>sender = i, receiver = j\<rparr>, z3_seed = kz2_seed (K j), z3_salt = kz2_salt (K j)\<rparr>) (others n i)"
  shows "seeds_sent S n i z2 zk z3 (\<lambda>j. kz2_seed (K j)) M
     (\<lambda>j. \<lparr>z3_parties = \<lparr>sender = i, receiver = j\<rparr>, z3_seed = kz2_seed (K j), z3_salt = kz2_salt (K j)\<rparr>)"
  using assms by (simp add: seeds_sent_def)

lemma dkg_rounds_sent:
  assumes "dkg_rounds S oc prm sid r0 out2 out3" and i: "i \<in> set (all_parties (share_count prm))"
  shows "\<exists>sd M2 M3 L N. dkg_sent S prm sid i (out2 i) (out3 i) sd M2 M3 L N"
proof -
  let ?data = "\<lparr>sd_parameters = prm, sd_party_index = i, sd_session_id = sid\<rparr>"
  from assms obtain frag r1 pp pc zk z2 dk b2 r2 r3 where
    p2: "dkg_phase2 S oc ?data frag r1 = (Ok ((pp, pc, zk, z2, dk, b2), r2) :: (abort, _) outcome)" "out2 i = (pp, pc, z2, b2)"
    and p3: "dkg_phase3 S oc ?data zk dk r2 = (Ok (out3 i, r3) :: (abort, _) outcome)"
    unfolding dkg_rounds_def by metis
  obtain zk3 z3 mk mt b3 where o3: "out3 i = (zk3, z3, mk, mt, b3)" by (metis prod.exhaust)
  note r2 = dkg_phase2_result [OF p2(1), unfolded session_data.simps]
  then obtain K M where KM: "zk = map (\<lambda>j. (j, K j)) (others (share_count prm) i)" "z2 = map M (others (share_count prm) i)"
    "\<forall>j\<in>set (others (share_count prm) i). z2_parties (M j) = \<lparr>sender = i, receiver = j\<rparr> \<and>
           verify_seed S (kz2_seed (K j)) (z2_commitment (M j)) (kz2_salt (K j))" by blast
  have "dkg_phase3 S oc ?data (map (\<lambda>j. (j, K j)) (others (share_count (sd_parameters ?data)) (sd_party_index ?data))) dk r2 =
      (Ok ((zk3, z3, mk, mt, b3), r3) :: (abort, _) outcome)"
    using p3 unfolding KM(1) o3 by simp
  note r3 = dkg_phase3_result [OF this, unfolded session_data.simps]
  then obtain L N where "muls_sent S (share_count prm) sid i mk mt L N" by blast
  moreover have "seeds_sent S (share_count prm) i z2 zk3 z3 (\<lambda>j. kz2_seed (K j)) M
     (\<lambda>j. \<lparr>z3_parties = \<lparr>sender = i, receiver = j\<rparr>, z3_seed = kz2_seed (K j), z3_salt = kz2_salt (K j)\<rparr>)"
    using r3 KM(2,3) by (intro seeds_sent_phases) simp_all
  moreover have "proof_sent S sid i pp pc" using r2 unfolding proof_sent_def by blast
  moreover have "verify_commitment S (b3_aux_chain_code b3) (b2_cc_commitment b2) (b3_cc_salt b3)" using r2 r3 by simp
  ultimately show ?thesis unfolding dkg_sent_def p2(2) o3 fst_conv snd_conv by blast
qed

text \<open>
  Everything party \<open>i\<close> receives of the others' outputs: the committed proofs of all parties,
  its zero-share and multiplication messages in any order, and everyone's chain-code broadcasts.
\<close>

definition dkg_delivered ::
  "parameters
   \<Rightarrow> (party_index \<Rightarrow> 'f \<times> ('f, 'g) proof_commitment \<times> transmit_zero_2to4 list \<times> broadcast_derivation_2to4)
   \<Rightarrow> (party_index \<Rightarrow> (party_index, keep_zero_3to4) btree_map \<times> transmit_zero_3to4 list
        \<times> (party_index, ('f, 'g) keep_mul_3to4) btree_map \<times> ('f, 'g) transmit_mul_3to4 list \<times> broadcast_derivation_3to4)
   \<Rightarrow> party_index \<Rightarrow> ('f, 'g) proof_commitment list \<Rightarrow> transmit_zero_2to4 list \<Rightarrow> transmit_zero_3to4 list
   \<Rightarrow> ('f, 'g) transmit_mul_3to4 list \<Rightarrow> (party_index, broadcast_derivation_2to4) btree_map
   \<Rightarrow> (party_index, broadcast_derivation_3to4) btree_map \<Rightarrow> bool" where
  "dkg_delivered prm out2 out3 i pcs z2 z3 mr b2 b3 \<longleftrightarrow>
     (let ps = all_parties (share_count prm) in
      mset pcs = mset (map (\<lambda>j. proof_out (out2 j)) ps) \<and>
      mset z2 = mset (addressed_to z2_parties ps (\<lambda>j. seeds2_out (out2 j)) i) \<and>
      mset z3 = mset (addressed_to z3_parties ps (\<lambda>j. seeds3_out (out3 j)) i) \<and>
      mset mr = mset (addressed_to tm_parties ps (\<lambda>j. mul_out (out3 j)) i) \<and>
      (\<forall>j\<in>set ps. btree_get b2 j = Some (chain2_out (out2 j)) \<and> btree_get b3 j = Some (chain3_out (out3 j))))"

section \<open>Honest exchanges\<close>

text \<open>The values of the sum of everyone's polynomial, from the fragments as they arrive.\<close>

lemma dealt_polynomial:
  fixes f :: "party_index \<Rightarrow> 'f::field list"
  assumes ps: "ps = all_parties n" and len: "\<And>j. j \<in> set ps \<Longrightarrow> length (f j) = t"
    and frag: "\<And>j. j \<in> set ps \<Longrightarrow> frag j = map (\<lambda>k. horner (*) (f j) (scalar_of_u8 k)) (u8_range_incl 1 n)"
    and rcv: "\<And>i. i \<in> set ps \<Longrightarrow> mset (received i) = mset (map (\<lambda>j. frag j ! (unat (as_u8 i) - 1)) ps)"
  shows "\<exists>F. length F = t \<and> secret_of F = (\<Sum>j\<in>set ps. secret_of (f j)) \<and>
     (\<forall>i. share_of F i = (\<Sum>j\<in>set ps. share_of (f j) i)) \<and> (\<forall>i\<in>set ps. sum_list (received i) = share_of F i)"
proof -
  have "poly_fun (*) t (\<lambda>x. \<Sum>j\<in>set ps. horner (*) (f j) x)"
    by (rule poly_fun_sum [OF action_ok_times]) (metis len poly_fun_horner)
  then obtain F where F: "length F = t" "\<And>x. (\<Sum>j\<in>set ps. horner (*) (f j) x) = horner (*) F x"
    by (auto simp: poly_fun_def)
  have "sum_list (received i) = share_of F i" if i: "i \<in> set ps" for i
  proof -
    have b: "1 \<le> unat (as_u8 i)" "unat (as_u8 i) \<le> unat n" using i by (simp_all add: ps set_all_parties)
    have "sum_list (received i) = (\<Sum>j\<leftarrow>ps. frag j ! (unat (as_u8 i) - 1))" using rcv [OF i] by (metis sum_mset_sum_list)
    also have "\<dots> = (\<Sum>j\<leftarrow>ps. horner (*) (f j) (scalar_of_u8 (as_u8 i)))"
    proof (intro arg_cong [where f = sum_list] map_cong refl)
      fix j
      assume "j \<in> set ps"
      moreover have "unat (as_u8 i) - 1 < length (u8_range_incl 1 n)" using b by (auto simp: u8_range_incl_def)
      ultimately show "frag j ! (unat (as_u8 i) - 1) = horner (*) (f j) (scalar_of_u8 (as_u8 i))"
        using nth_u8_range_incl [OF b] by (simp add: frag)
    qed
    finally show ?thesis by (simp add: ps sum_list_distinct_conv_sum_set [OF distinct_all_parties] share_of_def F(2) [symmetric])
  qed
  moreover have "secret_of F = (\<Sum>j\<in>set ps. secret_of (f j))" by (simp add: secret_of_def F(2))
  moreover have "share_of F i = (\<Sum>j\<in>set ps. share_of (f j) i)" for i by (simp add: share_of_def F(2))
  ultimately show ?thesis using F(1) by blast
qed

text \<open>Step 5 accepts everyone's committed proofs and returns the key of the shared polynomial.\<close>

lemma honest_step5:
  fixes S :: "('f::field, 'g::ab_group_add) suite"
  assumes S: "suite_ok S" and p: "valid_parameters prm" "unat (share_count prm) < 255"
    and ps: "ps = all_parties (share_count prm)" and F: "length F = unat (threshold prm)"
    and sent: "\<And>j. j \<in> set ps \<Longrightarrow> proof_sent S sid j (share_of F j) (pc j)"
    and d: "\<And>j. j \<in> set ps \<Longrightarrow> distinct (rand_commitments (pc_proof (pc j)))"
    and pcs: "mset pcs = mset (map pc ps)"
  shows "\<exists>points. dkg_step5 S oc prm me sid pcs = Ok (smul S (generator S) (secret_of F), points) \<and>
     (\<forall>j\<in>set ps. btree_get points j = Some (smul S (generator S) (share_of F j)))"
proof -
  let ?G = "smul S (generator S)" and ?cs = "map (smul S (generator S)) F"
  note C = suite_okD(1) [OF S]
  have pcset: "set pcs = pc ` set ps" using mset_eq_setD [OF pcs] by simp
  have pf: "pc_index (pc j) = j" "decommit_verify S (pc_proof (pc j)) (pc_commitment (pc j)) sid"
    "dlog_point (pc_proof (pc j)) = ?G (share_of F j)" if j: "j \<in> set ps" for j
  proof -
    obtain ra rb where "prove_commit S (share_of F j) sid ra = Ok ((pc_proof (pc j), pc_commitment (pc j)), rb)"
      using sent [OF j] unfolding proof_sent_def by blast
    from prove_commit_verifies [OF S this d [OF j]] show "decommit_verify S (pc_proof (pc j)) (pc_commitment (pc j)) sid"
      "dlog_point (pc_proof (pc j)) = ?G (share_of F j)" by simp_all
    show "pc_index (pc j) = j" using sent [OF j] unfolding proof_sent_def by blast
  qed
  have "\<exists>points. dkg_step5 S oc prm me sid pcs = Ok (horner (smul S) ?cs 0, points) \<and> btree_wf points \<and>
     (\<forall>k. btree_contains points k \<longleftrightarrow> k \<in> pc_index ` set pcs) \<and>
     (\<forall>k P. btree_get points k = Some P \<longrightarrow> P = horner (smul S) ?cs (scalar_of_u8 (as_u8 k)))"
  proof (rule dkg_step5_complete [OF S p])
    fix j :: u8
    assume "1 \<le> unat j" "unat j \<le> unat (share_count prm)"
    then have "PartyIndex j \<in> set ps" by (simp add: ps set_all_parties)
    then show "PartyIndex j \<in> pc_index ` set pcs" using pf(1) unfolding pcset by (metis imageI)
  next
    fix c
    assume "c \<in> set pcs"
    then obtain j where j: "j \<in> set ps" "c = pc j" unfolding pcset by blast
    then show "dlog_point (pc_proof c) = horner (smul S) ?cs (scalar_of_u8 (as_u8 (pc_index c)))"
      and "decommit_verify S (pc_proof c) (pc_commitment c) sid"
      using pf [OF j(1)] by (simp_all add: horner_exponent [OF C] share_of_def)
  qed (simp add: F)
  then obtain points where st5: "dkg_step5 S oc prm me sid pcs = Ok (?G (secret_of F), points)"
    and cont: "\<And>k. btree_contains points k \<longleftrightarrow> k \<in> pc_index ` set pcs"
    and at: "\<And>k P. btree_get points k = Some P \<Longrightarrow> P = ?G (share_of F k)"
    by (auto simp: horner_exponent [OF C] secret_of_def share_of_def)
  have "btree_get points j = Some (?G (share_of F j))" if "j \<in> set ps" for j
  proof -
    have "btree_contains points j" unfolding cont pcset using pf(1) [OF that] that by (metis imageI)
    then show ?thesis using at by (auto simp: btree_contains_iff)
  qed
  with st5 show ?thesis by blast
qed

text \<open>Delivered messages, when everyone has sent one to every other party.\<close>

lemma others_delivery:
  assumes ps: "ps = all_parties n" and i: "i \<in> set ps" and m: "mset rcv = mset (addressed_to parties ps out i)"
    and o: "\<And>j. j \<in> set ps \<Longrightarrow> out j = map (M j) (others n j)"
    and pt: "\<And>j c. j \<in> set ps \<Longrightarrow> c \<in> set (others n j) \<Longrightarrow> parties (M j c) = \<lparr>sender = j, receiver = c\<rparr>"
  shows "\<exists>js. rcv = map (\<lambda>j. M j i) js \<and> distinct js \<and> set js = set (others n i)"
  using delivery [where cs = "others n" and M = M and sent = out and qs = ps and parties = parties, OF _ _ i _ m] o pt
  by (auto simp: others_simps ps distinct_all_parties)

lemma others_swap: "i \<in> set (all_parties n) \<Longrightarrow> j \<in> set (others n i) \<Longrightarrow> j \<in> set (all_parties n) \<and> i \<in> set (others n j) \<and> j \<noteq> i"
  by (auto simp: others_simps)

lemma honest_seeds:
  assumes ps: "ps = all_parties n" and i: "i \<in> set ps"
    and sent: "\<And>j. j \<in> set ps \<Longrightarrow> seeds_sent S n j (z2 j) (zk j) (z3 j) (sd j) (M2 j) (M3 j)"
    and m2: "mset rcv2 = mset (addressed_to z2_parties ps z2 i)" and m3: "mset rcv3 = mset (addressed_to z3_parties ps z3 i)"
  shows "dkg_zero_share S i (zk i) rcv2 rcv3 = Ok (honest_zero_share ps sd i)"
proof -
  have msg: "z2_parties (M2 j c) = \<lparr>sender = j, receiver = c\<rparr>" "z3_parties (M3 j c) = \<lparr>sender = j, receiver = c\<rparr>"
    "z3_seed (M3 j c) = sd j c" "verify_seed S (z3_seed (M3 j c)) (z2_commitment (M2 j c)) (z3_salt (M3 j c))"
    if "j \<in> set ps" "c \<in> set (others n j)" for j c
    using sent [OF that(1)] that(2) unfolding seeds_sent_def by blast+
  have outs: "z2 j = map (M2 j) (others n j)" "z3 j = map (M3 j) (others n j)" "zk j = map (\<lambda>c. (c, \<lparr>kz3_seed = sd j c\<rparr>)) (others n j)"
    if "j \<in> set ps" for j using sent [OF that] unfolding seeds_sent_def by blast+
  obtain j2 where j2: "rcv2 = map (\<lambda>j. M2 j i) j2" "distinct j2" "set j2 = set (others n i)"
    using others_delivery [OF ps i m2 outs(1) msg(1)] by blast
  obtain j3 where j3: "rcv3 = map (\<lambda>j. M3 j i) j3" "distinct j3" "set j3 = set (others n i)"
    using others_delivery [OF ps i m3 outs(2) msg(2)] by blast
  note swap = others_swap [OF i [unfolded ps]]
  have e: "map (\<lambda>j. generate_seed_pair i j (sd i j) (z3_seed (M3 j i))) (others n i) =
      map (\<lambda>j. generate_seed_pair i j (sd i j) (sd j i)) (filter (\<lambda>j. j \<noteq> i) ps)"
    unfolding ps others_def [symmetric] using msg(3) swap by (intro map_cong refl) (simp add: ps)
  show ?thesis unfolding outs(3) [OF i] j2(1) j3(1) honest_zero_share_def e [symmetric]
    by (rule dkg_zero_share_honest [OF j2(2,3) j3(2,3)]) (use msg swap in \<open>simp_all add: ps\<close>)
qed

text \<open>Both ends of every multiplication finish their initialisation with paired states.\<close>

lemma muls_sent_paired:
  assumes S: "suite_ok S" and ij: "i \<in> set (all_parties n)" "j \<in> set (others n i)"
    and si: "muls_sent S n sid i mki mti Li Ni" and sj: "muls_sent S n sid j mkj mtj Lj Nj"
    and d: "distinct (rand_commitments (tm_dlog_proof (Ni j)))"
  shows "\<exists>s w. mul_sender_init_phase2 S (mul_sid i j sid) (km_correlation (Lj i)) (km_vec_r (Lj i)) (tm_dlog_proof (Ni j)) (tm_nonce (Ni j)) = Ok s \<and>
     mul_receiver_init_phase2 S (km_ot_sender (Li j)) (mul_sid i j sid) (tm_seed (Nj i)) (tm_enc_proofs (Nj i)) (km_nonce (Li j)) = Ok w \<and>
     mul_paired s w"
proof -
  have in_j: "i \<in> set (others n j)" using others_swap [OF ij] by blast
  obtain ra rb where recv: "mul_receiver_init_phase1 S (mul_sid i j sid) ra =
      (Ok ((km_ot_sender (Li j), tm_dlog_proof (Ni j), km_nonce (Li j)), rb) :: (abort, _) outcome)" and n: "tm_nonce (Ni j) = km_nonce (Li j)"
    using si ij(2) unfolding muls_sent_def by blast
  obtain rc rd where send: "mul_sender_init_phase1 S (mul_sid i j sid) rc =
      (Ok ((km_ot_receiver (Lj i), km_correlation (Lj i), km_vec_r (Lj i), tm_enc_proofs (Nj i)), rd) :: (abort, _) outcome)"
    and sd: "tm_seed (Nj i) = ot_seed (km_ot_receiver (Lj i))"
    using sj in_j unfolding muls_sent_def by blast
  show ?thesis using mul_init_paired [OF S recv d send] unfolding n sd .
qed

lemma honest_muls:
  fixes S :: "('f::field, 'g::ab_group_add) suite"
  assumes S: "suite_ok S" and ps: "ps = all_parties n"
    and sent: "\<And>j. j \<in> set ps \<Longrightarrow> muls_sent S n sid j (mk j) (mt j) (L j) (N j)"
    and d: "\<And>j m. j \<in> set ps \<Longrightarrow> m \<in> set (mt j) \<Longrightarrow> distinct (rand_commitments (tm_dlog_proof m))"
    and m: "\<And>i. i \<in> set ps \<Longrightarrow> mset (rcv i) = mset (addressed_to tm_parties ps mt i)"
  shows "\<exists>rs ss. (\<forall>i\<in>set ps. dkg_mul S i sid (mk i) (rcv i) = Ok (rs i, ss i) \<and> btree_wf (rs i) \<and> btree_wf (ss i) \<and>
        btree_keys (ss i) = btree_keys (rs i)) \<and>
     (\<forall>i\<in>set ps. \<forall>j\<in>set ps. i \<noteq> j \<longrightarrow> (\<exists>s w. btree_get (ss i) j = Some s \<and> btree_get (rs j) i = Some w \<and> mul_paired s w))"
proof -
  have oth: "j \<in> set (others n i) \<longleftrightarrow> j \<in> set ps \<and> j \<noteq> i" for i j by (auto simp: others_simps(1) ps)
  have msg: "tm_parties (N j c) = \<lparr>sender = j, receiver = c\<rparr>" if "j \<in> set ps" "c \<in> set (others n j)" for j c
    using sent [OF that(1)] that(2) unfolding muls_sent_def by blast
  have outs: "mt j = map (N j) (others n j)" "mk j = map (\<lambda>c. (c, L j c)) (others n j)" if "j \<in> set ps" for j
    using sent [OF that] unfolding muls_sent_def by blast+
  define T where "T = (\<lambda>i j s w. mul_sender_init_phase2 S (mul_sid i j sid) (km_correlation (L j i)) (km_vec_r (L j i))
        (tm_dlog_proof (N i j)) (tm_nonce (N i j)) = Ok s \<and>
     mul_receiver_init_phase2 S (km_ot_sender (L i j)) (mul_sid i j sid) (tm_seed (N j i)) (tm_enc_proofs (N j i)) (km_nonce (L i j)) = Ok w \<and>
     mul_paired s w)"
  have "\<exists>s w. T i j s w" if "i \<in> set ps" "j \<in> set ps" "j \<noteq> i" for i j
    unfolding T_def using that d [OF that(1)]
    by (intro muls_sent_paired [OF S _ _ sent sent]) (auto simp: ps [symmetric] oth outs(1))
  then obtain s w where T: "\<And>i j. i \<in> set ps \<Longrightarrow> j \<in> set ps \<Longrightarrow> j \<noteq> i \<Longrightarrow> T i j (s i j) (w i j)" by metis
  have "\<exists>rs ss. dkg_mul S i sid (mk i) (rcv i) = Ok (rs, ss) \<and> btree_wf rs \<and> btree_wf ss \<and> btree_keys ss = btree_keys rs \<and>
      (\<forall>j\<in>set (others n i). btree_get rs j = Some (w i j) \<and> btree_get ss j = Some (s j i))" if i: "i \<in> set ps" for i
  proof -
    obtain jm where jm: "rcv i = map (\<lambda>j. N j i) jm" "distinct jm" "set jm = set (others n i)"
      using others_delivery [OF ps i m [OF i] outs(1) msg] by blast
    show ?thesis unfolding outs(2) [OF i] jm(1)
    proof (rule dkg_mul_honest [OF jm(2,3)])
      fix j
      assume "j \<in> set (others n i)"
      then have j: "j \<in> set ps" "j \<noteq> i" by (simp_all add: oth)
      then show "tm_parties (N j i) = \<lparr>sender = j, receiver = i\<rparr>" using msg i by (simp add: oth)
      show "mul_receiver_init_phase2 S (km_ot_sender (L i j)) (mul_sid i j sid) (tm_seed (N j i)) (tm_enc_proofs (N j i)) (km_nonce (L i j)) = Ok (w i j) \<and>
        mul_sender_init_phase2 S (mul_sid j i sid) (km_correlation (L i j)) (km_vec_r (L i j)) (tm_dlog_proof (N j i)) (tm_nonce (N j i)) = Ok (s j i)"
        using T [OF i j] T [OF j(1) i] j(2) unfolding T_def by auto
    qed
  qed
  then obtain rs ss where R: "\<And>i. i \<in> set ps \<Longrightarrow> dkg_mul S i sid (mk i) (rcv i) = Ok (rs i, ss i) \<and> btree_wf (rs i) \<and> btree_wf (ss i) \<and>
      btree_keys (ss i) = btree_keys (rs i) \<and> (\<forall>j\<in>set (others n i). btree_get (rs i) j = Some (w i j) \<and> btree_get (ss i) j = Some (s j i))"
    by metis
  have "\<exists>s w. btree_get (ss i) j = Some s \<and> btree_get (rs j) i = Some w \<and> mul_paired s w"
    if "i \<in> set ps" "j \<in> set ps" "i \<noteq> j" for i j
    using R [OF that(1)] R [OF that(2)] T [OF that(2,1)] that by (auto simp: oth T_def)
  with R show ?thesis by (intro exI [of _ rs] exI [of _ ss]) blast
qed

section \<open>Key generation\<close>

text \<open>The parties' shares are the values of the sum of their polynomials.\<close>

lemma dkg_rounds_polynomial:
  fixes S :: "('f::field, 'g::ab_group_add) suite"
  assumes p: "valid_parameters prm" and rounds: "dkg_rounds S oc prm sid r0 out2 out3"
  shows "\<exists>F. length F = unat (threshold prm) \<and>
     secret_of F = (\<Sum>j\<in>set (all_parties (share_count prm)). secret_of (fst (dkg_step1 prm (r0 j)))) \<and>
     (\<forall>i. share_of F i = (\<Sum>j\<in>set (all_parties (share_count prm)). share_of (fst (dkg_step1 prm (r0 j))) i)) \<and>
     (\<forall>i\<in>set (all_parties (share_count prm)). share_out (out2 i) = share_of F i)"
proof -
  let ?ps = "all_parties (share_count prm)" and ?f = "\<lambda>i. fst (dkg_step1 prm (r0 i))"
  have t: "threshold prm \<noteq> 0" using p by (auto simp: valid_parameters_def)
  have len: "length (?f i) = unat (threshold prm)" for i
    using draw_list_length [of "\<lambda>_. random_scalar" "[0..<unat (threshold prm)]" "r0 i"] by (simp add: dkg_step1_def)
  from rounds obtain frag r1 where fr: "\<forall>i\<in>set ?ps. dkg_phase1 oc \<lparr>sd_parameters = prm, sd_party_index = i, sd_session_id = sid\<rparr> (r0 i) =
          (Ok (frag i, r1 i) :: (abort, _) outcome)"
    and ph2: "\<forall>i\<in>set ?ps. \<exists>received pp pc zk z2 dk b2 r2.
           mset received = mset (map (\<lambda>j. frag j ! (unat (as_u8 i) - 1)) ?ps) \<and>
           dkg_phase2 S oc \<lparr>sd_parameters = prm, sd_party_index = i, sd_session_id = sid\<rparr> received (r1 i) =
             (Ok ((pp, pc, zk, z2, dk, b2), r2) :: (abort, _) outcome) \<and> out2 i = (pp, pc, z2, b2)"
    unfolding dkg_rounds_def by metis
  have frag: "frag j = map (\<lambda>k. horner (*) (?f j) (scalar_of_u8 k)) (u8_range_incl 1 (share_count prm))" if "j \<in> set ?ps" for j
    using dkg_phase1_eq [where 'e = abort, of "\<lparr>sd_parameters = prm, sd_party_index = j, sd_session_id = sid\<rparr>" "r0 j" oc] t fr that by auto
  have "\<forall>i\<in>set ?ps. \<exists>received. mset received = mset (map (\<lambda>j. frag j ! (unat (as_u8 i) - 1)) ?ps) \<and> share_out (out2 i) = sum_list received"
    using ph2 by (force dest!: dkg_phase2_result)
  then obtain received where rcv: "\<And>i. i \<in> set ?ps \<Longrightarrow> mset (received i) = mset (map (\<lambda>j. frag j ! (unat (as_u8 i) - 1)) ?ps)"
    "\<And>i. i \<in> set ?ps \<Longrightarrow> share_out (out2 i) = sum_list (received i)" by metis
  show ?thesis using dealt_polynomial [OF refl len frag rcv(1)] rcv(2) by simp
qed

lemma dkg_forms_group:
  fixes S :: "('f::field, 'g::ab_group_add) suite"
  assumes S: "suite_ok S" and p: "valid_parameters prm" "unat (share_count prm) < 255"
    and rounds: "dkg_rounds S oc prm sid r0 out2 out3" and ps: "ps = all_parties (share_count prm)"
    and dp: "\<And>i. i \<in> set ps \<Longrightarrow> distinct (rand_commitments (pc_proof (proof_out (out2 i))))"
    and dm: "\<And>i m. i \<in> set ps \<Longrightarrow> m \<in> set (mul_out (out3 i)) \<Longrightarrow> distinct (rand_commitments (tm_dlog_proof m))"
    and X: "X = (\<Sum>j\<in>set ps. secret_of (fst (dkg_step1 prm (r0 j))))" "X \<noteq> 0" "X \<noteq> 1"
    and shares: "\<And>i. i \<in> set ps \<Longrightarrow> share_out (out2 i) \<noteq> 0 \<and> share_out (out2 i) \<noteq> 1"
    and delivered: "\<And>i. i \<in> set ps \<Longrightarrow> dkg_delivered prm out2 out3 i (pcs i) (z2 i) (z3 i) (mr i) (b2 i) (b3 i)"
  shows "\<exists>F cc pty pkg. secret_of F = X \<and>
     (\<forall>i\<in>set ps. dkg_phase4 S oc \<lparr>sd_parameters = prm, sd_party_index = i, sd_session_id = sid\<rparr> (share_out (out2 i))
        (pcs i) (zero_kept (out3 i)) (z2 i) (z3 i) (mul_kept (out3 i)) (mr i) (b2 i) (b3 i) address_fn = Ok (pty i, pkg i)) \<and>
     group_ok S F prm sid cc ps pty \<and>
     (\<forall>i\<in>set ps. verifying_key (pkg i) = smul S (generator S) X \<and>
        (\<forall>j\<in>set ps. verifying_share (pkg i) j = Some (smul S (generator S) (share_of F j))))"
proof -
  note C = suite_okD(1) [OF S]
  let ?n = "share_count prm" and ?G = "smul S (generator S)"
  obtain F where F: "length F = unat (threshold prm)" "secret_of F = X" "\<And>i. i \<in> set ps \<Longrightarrow> share_out (out2 i) = share_of F i"
    using dkg_rounds_polynomial [OF p(1) rounds] unfolding X ps by blast
  have "\<forall>i\<in>set ps. \<exists>sd M2 M3 L N. dkg_sent S prm sid i (out2 i) (out3 i) sd M2 M3 L N"
    unfolding ps using dkg_rounds_sent [OF rounds] by blast
  then obtain sd M2 M3 L N where sent: "\<And>i. i \<in> set ps \<Longrightarrow> dkg_sent S prm sid i (out2 i) (out3 i) (sd i) (M2 i) (M3 i) (L i) (N i)"
    by metis
  note del = delivered [unfolded dkg_delivered_def Let_def ps [symmetric]]
  have pf: "proof_sent S sid i (share_of F i) (proof_out (out2 i))"
    and se: "seeds_sent S ?n i (seeds2_out (out2 i)) (zero_kept (out3 i)) (seeds3_out (out3 i)) (sd i) (M2 i) (M3 i)"
    and mu: "muls_sent S ?n sid i (mul_kept (out3 i)) (mul_out (out3 i)) (L i) (N i)"
    and op: "verify_commitment S (b3_aux_chain_code (chain3_out (out3 i))) (b2_cc_commitment (chain2_out (out2 i))) (b3_cc_salt (chain3_out (out3 i)))"
    if "i \<in> set ps" for i
    using sent [OF that] F(3) [OF that] unfolding dkg_sent_def by simp_all
  have zero: "dkg_zero_share S i (zero_kept (out3 i)) (z2 i) (z3 i) = Ok (honest_zero_share ps sd i)" if "i \<in> set ps" for i
    using honest_seeds [OF ps that se] del [OF that] by blast
  have "\<exists>rs ss. (\<forall>i\<in>set ps. dkg_mul S i sid (mul_kept (out3 i)) (mr i) = Ok (rs i, ss i) \<and> btree_wf (rs i) \<and>
        btree_wf (ss i) \<and> btree_keys (ss i) = btree_keys (rs i)) \<and>
     (\<forall>i\<in>set ps. \<forall>j\<in>set ps. i \<noteq> j \<longrightarrow> (\<exists>s w. btree_get (ss i) j = Some s \<and> btree_get (rs j) i = Some w \<and> mul_paired s w))"
    by (rule honest_muls [OF S ps, where mt = "\<lambda>i. mul_out (out3 i)" and L = L and N = N]) (use mu dm del in blast)+
  then obtain rs ss where R: "\<And>i. i \<in> set ps \<Longrightarrow> dkg_mul S i sid (mul_kept (out3 i)) (mr i) = Ok (rs i, ss i) \<and> btree_wf (rs i) \<and>
        btree_wf (ss i) \<and> btree_keys (ss i) = btree_keys (rs i)"
    and paired: "\<forall>i\<in>set ps. \<forall>j\<in>set ps. i \<noteq> j \<longrightarrow> (\<exists>s w. btree_get (ss i) j = Some s \<and> btree_get (rs j) i = Some w \<and> mul_paired s w)" by blast
  let ?cc = "foldl (\<lambda>cc j. xor_n CHAIN_CODE_LEN cc (b3_aux_chain_code (chain3_out (out3 j)))) (replicate CHAIN_CODE_LEN 0) ps"
  have cc: "dkg_chain_code S i ?n (b2 i) (b3 i) = Ok ?cc" if "i \<in> set ps" for i
    unfolding ps
    by (rule dkg_chain_code_honest [where ?b2.0 = "\<lambda>j. chain2_out (out2 j)" and ?b3.0 = "\<lambda>j. chain3_out (out3 j)"])
      (use del [OF that] op in \<open>simp add: ps\<close>)
  have "\<forall>i\<in>set ps. \<exists>points. dkg_step5 S oc prm i sid (pcs i) = Ok (?G X, points) \<and>
      (\<forall>j\<in>set ps. btree_get points j = Some (?G (share_of F j)))"
    using honest_step5 [OF S p ps F(1) pf dp] del unfolding F(2) by blast
  then obtain points where st5: "\<And>i. i \<in> set ps \<Longrightarrow> dkg_step5 S oc prm i sid (pcs i) = Ok (?G X, points i)"
    and gets: "\<And>i j. i \<in> set ps \<Longrightarrow> j \<in> set ps \<Longrightarrow> btree_get (points i) j = Some (?G (share_of F j))" by metis
  define pty where "pty = (\<lambda>i. \<lparr>party_parameters = prm, party_index_of = i, party_session_id = sid, poly_point = share_of F i,
            pk = ?G X, zero_share_of = honest_zero_share ps sd i, mul_senders = ss i, mul_receivers = rs i,
            derivation_data = \<lparr>depth = 0, child_number = 0, parent_fingerprint = replicate 4 0,
              dd_poly_point = share_of F i, dd_pk = ?G X, chain_code = ?cc\<rparr>, address = address_fn (?G X)\<rparr>)"
  have "?G X \<noteq> 0" "?G X \<noteq> generator S"
    using X(2,3) C smul_generator_inject [OF C, of X 1] by (auto simp: smul_eq_zero_iff curve_ok_def)
  then have run: "dkg_phase4 S oc \<lparr>sd_parameters = prm, sd_party_index = i, sd_session_id = sid\<rparr> (share_out (out2 i))
        (pcs i) (zero_kept (out3 i)) (z2 i) (z3 i) (mul_kept (out3 i)) (mr i) (b2 i) (b3 i) address_fn =
      Ok (pty i, public_key_package_new (?G X) (points i) prm)" if "i \<in> set ps" for i
    using shares [OF that] F(3) [OF that] R [OF that]
    by (simp add: pty_def dkg_phase4_def st5 [OF that] zero [OF that] cc [OF that])
  have mem: "member_ok S F prm sid ?cc i (pty i)" if "i \<in> set ps" for i
  proof -
    have "as_u8 i \<noteq> 0" "as_u8 i \<le> ?n" using that by (auto simp: ps set_all_parties word_le_nat_alt)
    then show ?thesis using R [OF that] F(2) by (simp add: member_ok_def pty_def party_ok_def)
  qed
  have "group_ok S F prm sid ?cc ps pty"
    unfolding group_ok_def
  proof (intro conjI ballI)
    show "length F = unat (threshold prm)" "distinct ps" by (rule F(1), simp add: ps distinct_all_parties)
    show "F \<noteq> []" using F(1) p(1) by (auto simp: valid_parameters_def)
    show "zero_shares_agree ps (\<lambda>i. zero_share_of (pty i))"
      using honest_zero_shares_agree [OF distinct_all_parties] by (simp add: pty_def ps)
    show "mul_states_paired ps pty" using paired by (simp add: mul_states_paired_def pty_def)
  qed (rule mem)
  moreover have "\<forall>i\<in>set ps. verifying_key (public_key_package_new (?G X) (points i) prm) = ?G X \<and>
        (\<forall>j\<in>set ps. verifying_share (public_key_package_new (?G X) (points i) prm) j = Some (?G (share_of F j)))"
    using gets by (simp add: public_key_package_new_def verifying_share_def)
  ultimately show ?thesis using run F(2)
    by (intro exI [of _ F] exI [of _ ?cc] exI [of _ pty] exI [of _ "\<lambda>i. public_key_package_new (?G X) (points i) prm"]) simp
qed

text \<open>
  C2: key generation works. Whatever the order in which the messages of three honest rounds
  are delivered, phase 4 succeeds for every party, and the parties then form a group whose
  secret is the sum of all parties' secrets; every party's package holds the public key and
  everyone's verifying share. The excluded events are the ones the code aborts on (a trivial
  key or share) and repetitions among the random commitments of a proof.
\<close>

theorem dkg_correct:
  fixes S :: "('f::field, 'g::ab_group_add) suite"
  assumes S: "suite_ok S" and p: "valid_parameters prm" "unat (share_count prm) < 255"
    and rounds: "dkg_rounds S oc prm sid r0 out2 out3" and ps: "ps = all_parties (share_count prm)"
    and dp: "\<And>i. i \<in> set ps \<Longrightarrow> distinct (rand_commitments (pc_proof (proof_out (out2 i))))"
    and dm: "\<And>i m. i \<in> set ps \<Longrightarrow> m \<in> set (mul_out (out3 i)) \<Longrightarrow> distinct (rand_commitments (tm_dlog_proof m))"
    and X: "X = (\<Sum>j\<in>set ps. secret_of (fst (dkg_step1 prm (r0 j))))" "X \<noteq> 0" "X \<noteq> 1"
    and shares: "\<And>i. i \<in> set ps \<Longrightarrow> share_out (out2 i) \<noteq> 0 \<and> share_out (out2 i) \<noteq> 1"
    and delivered: "\<And>i. i \<in> set ps \<Longrightarrow> dkg_delivered prm out2 out3 i (pcs i) (z2 i) (z3 i) (mr i) (b2 i) (b3 i)"
  shows "\<exists>F cc pty pkg. secret_of F = X \<and>
     (\<forall>i\<in>set ps. dkg_phase4 S oc \<lparr>sd_parameters = prm, sd_party_index = i, sd_session_id = sid\<rparr> (share_out (out2 i))
        (pcs i) (zero_kept (out3 i)) (z2 i) (z3 i) (mul_kept (out3 i)) (mr i) (b2 i) (b3 i) address_fn = Ok (pty i, pkg i)) \<and>
     group_ok S F prm sid cc ps pty \<and>
     (\<forall>i\<in>set ps. verifying_key (pkg i) = smul S (generator S) X \<and>
        (\<forall>j\<in>set ps. verifying_share (pkg i) j = Some (smul S (generator S) (share_of F j))))"
  using dkg_forms_group [OF assms] .

end
