(* ===== verification/Concrete.thy ===== *)
theory Concrete
  imports Suite
begin

text \<open>
  A concrete suite that satisfies \<open>suite_ok\<close>, so that every hypothesis about the
  third-party curve has an instance: the prime field with 257 elements, its additive
  group as the curve, 32-byte big-endian encodings and a 32-byte checksum for SHA-256.
\<close>

section \<open>The field with 257 elements\<close>

typedef gf = "{0..<257::int}"
  morphisms rep_gf abs_gf
  by (rule exI [of _ 0]) simp

setup_lifting type_definition_gf

text \<open>The inverse modulo 257, by the recursion \<open>1/n = - (257 div n) / (257 mod n)\<close>.\<close>

function inv257 :: "int \<Rightarrow> int" where
  "inv257 n = (if n \<le> 1 then n mod 257 else ((257 - 257 div n) * inv257 (257 mod n)) mod 257)"
  by pat_completeness auto
termination
proof (relation "measure nat")
  fix n :: int
  assume "\<not> n \<le> 1"
  then have "257 mod n < n" "0 < n" by (simp_all add: pos_mod_bound)
  then show "(257 mod n, n) \<in> measure nat" by simp
qed simp

declare inv257.simps [simp del]

lemma inv257_bound: "inv257 n \<in> {0..<257}"
  by (subst inv257.simps) simp

lemma prime257: "list_all (\<lambda>n. 257 mod n \<noteq> (0 :: int)) [2..256]"
  by code_simp

lemma mod257_pos: "1 < n \<Longrightarrow> n < 257 \<Longrightarrow> 257 mod (n :: int) \<noteq> 0"
proof -
  assume "1 < n" "n < 257"
  then have "n \<in> set [2..256]" unfolding set_upto by simp
  with prime257 [unfolded list_all_iff] show ?thesis by (rule bspec)
qed

lemma inv257_mult: "n \<noteq> 0 \<Longrightarrow> n \<in> {0..<257} \<Longrightarrow> inv257 n * n mod 257 = 1"
proof (induction n rule: inv257.induct)
  case (1 n)
  show ?case
  proof (cases "n \<le> 1")
    case True
    with 1 have "n = 1" by simp
    then show ?thesis by (subst inv257.simps) simp
  next
    case False
    let ?r = "257 mod n" and ?q = "257 div n"
    have r: "?r \<noteq> 0" "?r \<in> {0..<257}"
      using mod257_pos [of n] False 1(3) pos_mod_bound [of n 257] pos_mod_sign [of n 257]
      by (auto simp del: pos_mod_bound pos_mod_sign)
    have "inv257 n * n mod 257 = ((257 - ?q) * inv257 ?r * n) mod 257"
      using False by (subst inv257.simps) (simp only: if_False mod_mult_left_eq)
    also have "(257 - ?q) * inv257 ?r * n = inv257 ?r * ?r + 257 * (inv257 ?r * (n - 1))"
    proof -
      have "?r = 257 - ?q * n" by (simp add: minus_div_mult_eq_mod)
      then show ?thesis by (simp only:) (simp only: algebra_simps)
    qed
    also have "\<dots> mod 257 = inv257 ?r * ?r mod 257" by (rule mod_mult_self2)
    also have "\<dots> = 1" using False r by (intro "1.IH") auto
    finally show ?thesis .
  qed
qed

lemma inv257_zero: "inv257 0 = 0"
  by (subst inv257.simps) simp

lemma mod257_in: "n mod 257 \<in> {0..<257 :: int}"
  by simp

lemma mod257_id: "n \<in> {0..<257} \<Longrightarrow> n mod 257 = (n :: int)"
  by simp

instantiation gf :: field
begin

lift_definition zero_gf :: gf is 0 by simp
lift_definition one_gf :: gf is 1 by simp
lift_definition plus_gf :: "gf \<Rightarrow> gf \<Rightarrow> gf" is "\<lambda>a b. (a + b) mod 257" by (rule mod257_in)
lift_definition times_gf :: "gf \<Rightarrow> gf \<Rightarrow> gf" is "\<lambda>a b. a * b mod 257" by (rule mod257_in)
lift_definition uminus_gf :: "gf \<Rightarrow> gf" is "\<lambda>a. (- a) mod 257" by (rule mod257_in)
lift_definition minus_gf :: "gf \<Rightarrow> gf \<Rightarrow> gf" is "\<lambda>a b. (a - b) mod 257" by (rule mod257_in)
lift_definition inverse_gf :: "gf \<Rightarrow> gf" is inv257 by (rule inv257_bound)
definition divide_gf :: "gf \<Rightarrow> gf \<Rightarrow> gf" where
  "divide_gf a b = a * inverse b"

instance
proof
  fix a b c :: gf
  show "a + b + c = a + (b + c)" by transfer (simp only: mod_add_left_eq mod_add_right_eq add.assoc)
  show "a + b = b + a" by transfer (simp only: add.commute)
  show "0 + a = a" by transfer (simp only: add_0_left mod257_id)
  show "- a + a = 0" by transfer (simp only: mod_add_left_eq add.left_inverse mod_0)
  show "a - b = a + - b" by transfer (simp only: mod_add_right_eq diff_conv_add_uminus)
  show "a * b * c = a * (b * c)" by transfer (simp only: mod_mult_left_eq mod_mult_right_eq mult.assoc)
  show "a * b = b * a" by transfer (simp only: mult.commute)
  show "1 * a = a" by transfer (simp only: mult_1_left mod257_id)
  show "(a + b) * c = a * c + b * c" by transfer (simp only: mod_mult_left_eq mod_add_eq distrib_right)
  show "(0 :: gf) \<noteq> 1" by transfer simp
  show "a \<noteq> 0 \<Longrightarrow> inverse a * a = 1" by transfer (rule inv257_mult)
  show "a div b = a * inverse b" by (rule divide_gf_def)
  show "inverse (0 :: gf) = 0" by transfer (rule inv257_zero)
qed

end

instantiation gf :: equal
begin

lift_definition equal_gf :: "gf \<Rightarrow> gf \<Rightarrow> bool" is "(=)" .

instance by standard (transfer, simp)

end

lemma rep_of_nat_gf: "rep_gf (of_nat n) = int n mod 257"
proof (induction n)
  case 0
  show ?case by (simp add: zero_gf.rep_eq)
next
  case (Suc n)
  have "rep_gf (of_nat (Suc n)) = (1 + int n mod 257) mod 257"
    by (simp only: of_nat_Suc plus_gf.rep_eq one_gf.rep_eq Suc.IH)
  also have "\<dots> = int (Suc n) mod 257"
    by (simp only: mod_add_right_eq of_nat_Suc add.commute)
  finally show ?case .
qed

lemma rep_gf_range: "0 \<le> rep_gf a" "rep_gf a < 257"
  using rep_gf [of a] by simp_all

lemma rep_of_int_gf: "0 \<le> k \<Longrightarrow> rep_gf (of_int k) = k mod 257"
  using rep_of_nat_gf [of "nat k"] by simp

lemma of_int_rep_gf: "of_int (rep_gf a) = a"
  by (rule rep_gf_inject [THEN iffD1])
    (simp only: rep_of_int_gf [OF rep_gf_range(1)] mod257_id [OF rep_gf])

section \<open>The suite\<close>

text \<open>Thirty zero bytes and the two big-endian bytes of a number below 257.\<close>

definition gf_repr :: "gf \<Rightarrow> bytes" where
  "gf_repr a = replicate 30 0 @ [of_int (rep_gf a div 256), of_int (rep_gf a mod 256)]"

definition gf_value :: "bytes \<Rightarrow> int" where
  "gf_value b = foldl (\<lambda>n x. 256 * n + uint x) 0 b"

definition gf_from_repr :: "bytes \<Rightarrow> gf option" where
  "gf_from_repr b = (if length b = 32 \<and> gf_value b < 257 then Some (of_int (gf_value b)) else None)"

definition gf_x :: "gf \<Rightarrow> bytes" where
  "gf_x a = gf_repr (of_int (min (rep_gf a) (rep_gf (- a))))"

definition gf_point :: "gf \<Rightarrow> bytes" where
  "gf_point a = (if rep_gf a \<le> 128 then 2 else 3) # gf_repr a"

definition gf_hash :: "bytes \<Rightarrow> bytes" where
  "gf_hash b = replicate 31 0 @ [sum_list b]"

text \<open>Hexadecimal strings, lower case when written, either case when read.\<close>

definition nibble_char :: "nat \<Rightarrow> char" where
  "nibble_char n = (if n < 10 then char_of (48 + n) else char_of (87 + n))"

definition nibble_value :: "char \<Rightarrow> nat option" where
  "nibble_value c =
     (let n = of_char c in
      if 48 \<le> n \<and> n \<le> 57 then Some (n - 48) else if 97 \<le> n \<and> n \<le> 102 then Some (n - 87)
      else if 65 \<le> n \<and> n \<le> 70 then Some (n - 55) else None)"

definition hex_string :: "bytes \<Rightarrow> string" where
  "hex_string b = concat (map (\<lambda>x. [nibble_char (unat x div 16), nibble_char (unat x mod 16)]) b)"

fun unhex :: "string \<Rightarrow> bytes option" where
  "unhex [] = Some []"
| "unhex [c] = None"
| "unhex (c # d # s) =
     (case (nibble_value c, nibble_value d, unhex s) of
        (Some x, Some y, Some b) \<Rightarrow> Some (of_nat (16 * x + y) # b) | _ \<Rightarrow> None)"

definition hex_bytes :: "nat \<Rightarrow> string \<Rightarrow> bytes option" where
  "hex_bytes n s = (if length s = 2 * n then unhex s else None)"

lemma nibble_value_char: "n < 16 \<Longrightarrow> nibble_value (nibble_char n) = Some n"
  by (simp add: nibble_value_def nibble_char_def Let_def of_char_of)

lemma hex_bytes_string: "hex_bytes (length b) (hex_string b) = Some b"
proof -
  have "length (hex_string b) = 2 * length b" by (induction b) (simp_all add: hex_string_def)
  moreover have "unhex (hex_string b) = Some b"
  proof (induction b)
    case Nil
    then show ?case by (simp add: hex_string_def)
  next
    case (Cons x b)
    have "unat x div 16 < 16" "unat x mod 16 < 16" using unat_u8_bound [of x] by linarith+
    moreover have "(of_nat (16 * (unat x div 16) + unat x mod 16) :: u8) = x" by (simp only: mult_div_mod_eq of_nat_unat_u8)
    ultimately show ?case using Cons by (simp add: hex_string_def nibble_value_char)
  qed
  ultimately show ?thesis by (simp add: hex_bytes_def)
qed

definition gf_suite :: "(gf, gf) suite" where
  "gf_suite = \<lparr>generator = 1, smul = (\<lambda>P a. P * a), to_repr = gf_repr,
     reduce = (\<lambda>b. of_int (gf_value b)), from_repr = gf_from_repr,
     is_high = (\<lambda>a. 128 < rep_gf a), enc_point = gf_point, affine_x = gf_x,
     sha256 = gf_hash, hmac_sha512 = (\<lambda>k b. replicate 63 0 @ [sum_list b]),
     ripemd160 = (\<lambda>b. replicate 20 0), hex_encode = hex_string, hex_decode = hex_bytes\<rparr>"

lemma gf_value_append: "gf_value (a @ b) = foldl (\<lambda>n x. 256 * n + uint x) (gf_value a) b"
  by (simp only: gf_value_def foldl_append)

lemma gf_value_nonneg: "0 \<le> gf_value b"
proof -
  have "0 \<le> k \<Longrightarrow> 0 \<le> foldl (\<lambda>n x. 256 * n + uint x) k b" for k
    by (induction b arbitrary: k) simp_all
  then show ?thesis by (simp add: gf_value_def)
qed

lemma gf_value_zeros: "gf_value (replicate n 0) = 0"
  by (induction n) (simp_all add: gf_value_def)

lemma uint_of_int_u8: "0 \<le> k \<Longrightarrow> k < 256 \<Longrightarrow> uint (of_int k :: u8) = k"
  by (simp add: unsigned_of_int take_bit_int_eq_self)

lemma gf_value_repr: "gf_value (gf_repr a) = rep_gf a"
proof -
  have "uint (of_int (rep_gf a div 256) :: u8) = rep_gf a div 256"
    using rep_gf_range [of a] by (intro uint_of_int_u8) simp_all
  moreover have "uint (of_int (rep_gf a mod 256) :: u8) = rep_gf a mod 256"
    by (intro uint_of_int_u8) simp_all
  ultimately show ?thesis
    unfolding gf_repr_def gf_value_append gf_value_zeros foldl.simps
    by (simp only: mult_zero_right add_0_left mult_div_mod_eq)
qed

lemma length_gf_repr [simp]: "length (gf_repr a) = 32"
  by (simp add: gf_repr_def)

lemma uint_u8_range: "0 \<le> uint (x :: u8)" "uint (x :: u8) < 256"
  using uint_lt2p [of x] by simp_all

lemma base256_inject:
  fixes a b x y :: int
  assumes "256 * a + x = 256 * b + y" and "0 \<le> x" "x < 256" "0 \<le> y" "y < 256"
  shows "x = y" and "a = b"
proof -
  show "a = b" using assms by linarith
  with assms(1) show "x = y" by simp
qed

lemma gf_value_inject:
  "length b = length c \<Longrightarrow> foldl (\<lambda>n x. 256 * n + uint x) k b = foldl (\<lambda>n x. 256 * n + uint x) l c
     \<Longrightarrow> k = l \<and> b = (c :: bytes)"
proof (induction b arbitrary: c k l rule: rev_induct)
  case Nil
  then show ?case by simp
next
  case (snoc x b)
  from snoc.prems(1) obtain c' y where c: "c = c' @ [y]" and len: "length b = length c'"
    by (cases c rule: rev_cases) auto
  let ?f = "\<lambda>n (x :: u8). 256 * n + uint x"
  have eq: "256 * foldl ?f k b + uint x = 256 * foldl ?f l c' + uint y"
    using snoc.prems(2) unfolding c foldl_append foldl.simps .
  have "uint x = uint y" "foldl ?f k b = foldl ?f l c'"
    by (rule base256_inject [OF eq uint_u8_range [of x] uint_u8_range [of y]])+
  moreover have "k = l \<and> b = c'" using len calculation(2) by (rule snoc.IH)
  ultimately show ?case by (simp add: c word_uint_eq_iff)
qed

lemma gf_repr_from: "gf_from_repr b = Some a \<Longrightarrow> gf_repr a = b"
proof -
  assume "gf_from_repr b = Some a"
  then have b: "length b = 32" "gf_value b < 257" "a = of_int (gf_value b)"
    by (auto simp only: gf_from_repr_def split: if_splits)
  then have "gf_value (gf_repr a) = gf_value b"
    by (simp only: gf_value_repr rep_of_int_gf [OF gf_value_nonneg]) (simp add: gf_value_nonneg)
  then show ?thesis using gf_value_inject [of "gf_repr a" b 0 0] b(1)
    unfolding gf_value_def by simp
qed

lemma gf_point_inj: "inj gf_point"
proof (rule injI)
  fix a b
  assume "gf_point a = gf_point b"
  then have "gf_value (gf_repr a) = gf_value (gf_repr b)" by (simp add: gf_point_def)
  then show "a = b" by (simp add: gf_value_repr rep_gf_inject)
qed

lemma gf_curve_ok: "curve_ok gf_suite"
  unfolding curve_ok_def gf_suite_def suite.simps
  by (intro conjI allI) (simp_all only: distrib_left distrib_right mult.assoc mult_1_right one_neq_zero not_False_eq_True)

lemma gf_encodings_ok: "encodings_ok gf_suite"
  unfolding encodings_ok_def gf_suite_def suite.simps
proof (intro conjI allI impI)
  fix s :: gf and b P m
  show "gf_from_repr (gf_repr s) = Some s"
    by (simp add: gf_from_repr_def gf_value_repr of_int_rep_gf rep_gf_range)
  show "gf_repr s = b" if "gf_from_repr b = Some s"
    using that by (rule gf_repr_from)
  show "of_int (gf_value (gf_repr s)) = s"
    by (simp only: gf_value_repr of_int_rep_gf)
  show "length (gf_x P) = 32" by (simp add: gf_x_def)
  show "gf_x (- P) = gf_x P" by (simp add: gf_x_def min.commute)
  show "inj gf_point" by (rule gf_point_inj)
  show "length (gf_point P) = 33" by (simp add: gf_point_def)
  show "\<not> 128 < rep_gf (- s)" if "128 < rep_gf s"
  proof -
    have "(- rep_gf s) mod 257 = (257 - rep_gf s) mod 257" by (simp add: mod_diff_left_eq [symmetric])
    also have "\<dots> = 257 - rep_gf s" using that rep_gf_range [of s] by (intro mod_pos_pos_trivial) simp_all
    finally show ?thesis using that by (simp add: uminus_gf.rep_eq)
  qed
  show "hex_bytes (length b) (hex_string b) = Some b" for b by (rule hex_bytes_string)
  show "length (gf_hash m) = 32" by (simp add: gf_hash_def)
qed simp

lemma gf_scalars_ok: "scalars_ok gf_suite"
  unfolding scalars_ok_def
proof (rule inj_onI)
  fix m n :: nat
  assume mn: "m \<in> {..<256}" "n \<in> {..<256}" "(of_nat m :: gf) = of_nat n"
  from mn(3) have "int m mod 257 = int n mod 257"
    by (simp only: rep_of_nat_gf [symmetric])
  with mn(1,2) show "m = n" by simp
qed

lemma gf_suite_ok: "suite_ok gf_suite"
  by (simp add: suite_ok_def gf_curve_ok gf_encodings_ok gf_scalars_ok)

text \<open>A random source: the scalars count up from 1, bytes and bits alternate.\<close>

definition gf_rng :: "gf rng" where
  "gf_rng = \<lparr>rng_scalars = (\<lambda>i. of_nat (i mod 256 + 1)), rng_bytes = (\<lambda>i. of_nat i), rng_bits = even\<rparr>"

lemma of_nat_gf_nonzero: "0 < n \<Longrightarrow> n < 257 \<Longrightarrow> (of_nat n :: gf) \<noteq> 0"
proof
  assume "0 < n" "n < 257" "(of_nat n :: gf) = 0"
  then show False using rep_of_nat_gf [of n] by (simp add: zero_gf.rep_eq)
qed

lemma gf_rng_live: "rng_live gf_rng"
proof -
  have "rng_scalars gf_rng i \<noteq> 0" for i
  proof -
    have "(of_nat (i mod 256 + 1) :: gf) \<noteq> 0"
    proof (rule of_nat_gf_nonzero)
      show "i mod 256 + 1 < 257" using mod_less_divisor [of 256 i] by linarith
    qed simp
    then show ?thesis unfolding gf_rng_def rng.simps .
  qed
  then show ?thesis unfolding rng_live_def by blast
qed

end
