(* ===== verification/ConcreteRuns.thy ===== *)
theory ConcreteRuns
  imports Multiplication Concrete
begin

text \<open>
  Runs of the randomised provers on concrete data. With the hash of \<open>flat_suite\<close>, which is
  constant (a hash is only required to have the right length), Fischlin's search succeeds at
  its first attempt, so proofs, transfers and initialisations can be produced for examples.
\<close>

section \<open>A suite with a constant hash\<close>

definition flat_hash :: bytes where
  "flat_hash = replicate 31 0 @ [1]"

definition flat_suite :: "(gf, gf) suite" where
  "flat_suite = gf_suite\<lparr>sha256 := (\<lambda>_. flat_hash)\<rparr>"

lemma flat_suite_simps [simp]:
  "generator flat_suite = 1" "smul flat_suite = (\<lambda>P a. P * a)" "sha256 flat_suite = (\<lambda>_. flat_hash)"
  by (simp_all add: flat_suite_def gf_suite_def)

lemma flat_suite_ok: "suite_ok flat_suite"
  using gf_curve_ok gf_encodings_ok gf_scalars_ok
  by (simp add: suite_ok_def curve_ok_def encodings_ok_def scalars_ok_def flat_suite_def flat_hash_def)

lemma flat_tagged_hash: "tagged_hash flat_suite t cs = flat_hash"
  by (simp add: tagged_hash_def)

section \<open>A random source that never shows zero\<close>

definition rng_cycle :: "gf rng \<Rightarrow> bool" where
  "rng_cycle r \<longleftrightarrow> (\<exists>k. rng_scalars r = (\<lambda>i. of_nat ((i + k) mod 256 + 1)))"

lemma rng_cycle_gf_rng: "rng_cycle gf_rng"
  unfolding rng_cycle_def by (intro exI [of _ 0]) (simp add: gf_rng_def)

lemma rng_cycle_nonzero: "rng_cycle r \<Longrightarrow> rng_scalars r i \<noteq> 0"
proof -
  assume "rng_cycle r"
  then obtain k where k: "rng_scalars r i = of_nat ((i + k) mod 256 + 1)" unfolding rng_cycle_def by metis
  have "(i + k) mod 256 + 1 < 257" using mod_less_divisor [of 256 "i + k"] by linarith
  then show ?thesis unfolding k by (intro of_nat_gf_nonzero) simp_all
qed

lemma rng_cycle_live: "rng_cycle r \<Longrightarrow> rng_live r"
  unfolding rng_live_def using rng_cycle_nonzero by blast

lemma rng_cycle_shift: "rng_cycle r \<Longrightarrow> rng_cycle (r\<lparr>rng_scalars := (\<lambda>i. rng_scalars r (i + n))\<rparr>)"
  unfolding rng_cycle_def by (auto simp: add.assoc)

lemma rng_cycle_draws [simp]:
  "rng_cycle r \<Longrightarrow> rng_cycle (snd (random_scalar r))"
  "rng_cycle (snd (random_bytes n r)) \<longleftrightarrow> rng_cycle r"
  "rng_cycle (snd (random_bool r)) \<longleftrightarrow> rng_cycle r"
  using rng_cycle_shift [of r 1] by (simp_all add: random_scalar_def random_bytes_def random_bool_def rng_cycle_def)

lemma rng_cycle_nonzero_scalar:
  "rng_cycle r \<Longrightarrow> nonzero_scalar r = Ok (rng_scalars r 0, snd (random_scalar r))"
  using rng_cycle_nonzero [of r 0]
  by (simp add: nonzero_scalar_def random_nonzero.simps [of r] random_scalar_def)

section \<open>Proofs\<close>

lemma collect_step1:
  assumes "rng_cycle r"
  shows "\<exists>r'. collect_st (\<lambda>_. dlog_prove_step1 flat_suite) xs r =
      (Ok (map (\<lambda>i. (rng_scalars r i, rng_scalars r i)) [0..<length xs], r') :: ('e, _) outcome) \<and> rng_cycle r'"
  using assms
proof (induction xs arbitrary: r)
  case Nil
  then show ?case by simp
next
  case (Cons x xs)
  let ?r = "snd (random_scalar r)"
  have step: "dlog_prove_step1 flat_suite r = (Ok ((rng_scalars r 0, rng_scalars r 0), ?r) :: ('e, _) outcome)"
    by (simp add: dlog_prove_step1_def rng_cycle_nonzero_scalar [OF Cons.prems])
  have "rng_cycle ?r" using Cons.prems by simp
  from Cons.IH [OF this] obtain r' where IH: "collect_st (\<lambda>_. dlog_prove_step1 flat_suite) xs ?r =
      (Ok (map (\<lambda>i. (rng_scalars ?r i, rng_scalars ?r i)) [0..<length xs], r') :: ('e, _) outcome)" "rng_cycle r'"
    by blast
  have "map (\<lambda>i. (rng_scalars r i, rng_scalars r i)) [0..<length (x # xs)] =
      (rng_scalars r 0, rng_scalars r 0) # map (\<lambda>i. (rng_scalars ?r i, rng_scalars ?r i)) [0..<length xs]"
    by (simp add: random_scalar_def map_upt_Suc del: upt_Suc)
  then show ?case using IH by (simp add: step)
qed

lemma flat_first_search:
  assumes "rng_cycle r"
  shows "\<exists>p q r'. first_search flat_suite s k l sid rc i (Suc n) r = Ok ((p, q), r') \<and> rng_cycle r'"
proof -
  obtain c r1 where c: "random_bytes (fischlin_T div 8) r = (c, r1)" by fastforce
  obtain d r2 where d: "random_bytes (fischlin_T div 8) r1 = (d, r2)" by fastforce
  have "rng_cycle r1" using rng_cycle_draws(2) [of "fischlin_T div 8" r] c assms by simp
  then have r2: "rng_cycle r2" using rng_cycle_draws(2) [of "fischlin_T div 8" r1] d by simp
  have "length c = 4" "length d = 4"
    using c d by (auto simp: fischlin_T_def random_bytes_def)
  then obtain p q where p: "dlog_prove_step2 flat_suite s k c = (Ok p :: (proof_search_exhausted, _) outcome)"
    and q: "dlog_prove_step2 flat_suite s l d = (Ok q :: (proof_search_exhausted, _) outcome)"
    by (simp add: dlog_prove_step2_Ok)
  have u: "u16_MAX = Suc 65534" by (simp add: u16_MAX_def)
  have "second_search flat_suite s l sid rc (i + fischlin_R div 2) (fischlin_hash flat_suite sid rc i p) u16_MAX r1 =
      (Ok (Some q, r2) :: (proof_search_exhausted, _) outcome)"
    unfolding u second_search.simps Let_def d prod.case q and_then.simps fischlin_hash_def flat_tagged_hash
    by (simp only: if_True refl)
  then show ?thesis using r2 by (simp add: c p)
qed

lemma collect_st_cycle:
  assumes "rng_cycle r" and "\<And>x r. rng_cycle r \<Longrightarrow> \<exists>y r'. f x r = Ok (y, r') \<and> rng_cycle r'"
  shows "\<exists>ys r'. collect_st f xs r = Ok (ys, r') \<and> rng_cycle r'"
  using assms(1)
proof (induction xs arbitrary: r)
  case Nil
  then show ?case by simp
next
  case (Cons x xs)
  obtain y r1 where "f x r = Ok (y, r1)" "rng_cycle r1" using assms(2) Cons.prems by blast
  moreover obtain ys r2 where "collect_st f xs r1 = Ok (ys, r2)" "rng_cycle r2"
    using Cons.IH calculation(2) by blast
  ultimately show ?case by simp
qed

lemma of_nat_gf_inject: "m < 257 \<Longrightarrow> n < 257 \<Longrightarrow> (of_nat m :: gf) = of_nat n \<longleftrightarrow> m = n"
  by (simp add: rep_gf_inject [symmetric] rep_of_nat_gf)

lemma rng_cycle_distinct:
  assumes "rng_cycle r"
  shows "distinct (map (rng_scalars r) [0..<64])"
proof -
  obtain k where k: "rng_scalars r = (\<lambda>i. of_nat ((i + k) mod 256 + 1))" using assms unfolding rng_cycle_def by blast
  have "i = j" if "i < 64" "j < 64" "rng_scalars r i = rng_scalars r j" for i j
  proof -
    have "(i + k) mod 256 + 1 < 257" "(j + k) mod 256 + 1 < 257"
      using mod_less_divisor [of 256 "i + k"] mod_less_divisor [of 256 "j + k"] by linarith+
    then have "(i + k) mod 256 = (j + k) mod 256"
      using that(3) of_nat_gf_inject [of "(i + k) mod 256 + 1" "(j + k) mod 256 + 1"] by (simp add: k)
    then have "(int i + int k) mod 256 = (int j + int k) mod 256"
      by (metis of_nat_add of_nat_mod of_nat_numeral)
    then have "(int i - int j) mod 256 = 0" by (simp add: mod_eq_dvd_iff mod_0_imp_dvd)
    then obtain q where "int i - int j = 256 * q" by (auto simp: zmod_eq_0_iff)
    then have "q = 0" using that(1,2) by linarith
    with \<open>int i - int j = 256 * q\<close> show ?thesis by simp
  qed
  then show ?thesis by (auto simp: distinct_map inj_on_def)
qed

lemma flat_dlog_prove:
  assumes "rng_cycle r"
  shows "\<exists>pf r'. dlog_prove flat_suite s sid r = Ok (pf, r') \<and> distinct (rand_commitments pf) \<and> rng_cycle r'"
proof -
  obtain r1 where step1: "collect_st (\<lambda>_. dlog_prove_step1 flat_suite) [0..<fischlin_R] r =
      (Ok (map (\<lambda>i. (rng_scalars r i, rng_scalars r i)) [0..<64], r1) :: (proof_search_exhausted, _) outcome)"
    and r1: "rng_cycle r1"
    using collect_step1 [OF assms, of "[0..<fischlin_R]"] by (auto simp: fischlin_R_def)
  have "u16_MAX = Suc 65534" by (simp add: u16_MAX_def)
  note search = flat_first_search [where n = 65534, folded this]
  let ?st = "map fst (map (\<lambda>i. (rng_scalars r i, rng_scalars r i)) [0..<64])"
  let ?rc = "concat (map (point_to_bytes flat_suite) (map snd (map (\<lambda>i. (rng_scalars r i, rng_scalars r i)) [0..<64])))"
  obtain pairs r2 where pairs: "collect_st (\<lambda>i. first_search flat_suite s (?st ! i) (?st ! (i + fischlin_R div 2))
       sid ?rc i u16_MAX) [0..<fischlin_R div 2] r1 = Ok (pairs, r2)" and r2: "rng_cycle r2"
    using collect_st_cycle [OF r1, of "\<lambda>i. first_search flat_suite s (?st ! i) (?st ! (i + fischlin_R div 2)) sid ?rc i u16_MAX"]
      search by fastforce
  have "dlog_prove flat_suite s sid r = Ok (\<lparr>dlog_point = s, rand_commitments = map (rng_scalars r) [0..<64],
      dlog_proofs = map fst pairs @ map snd pairs\<rparr>, r2)"
    unfolding dlog_prove_def step1 and_then.simps prod.case Let_def pairs by (simp add: comp_def)
  then show ?thesis using r2 rng_cycle_distinct [OF assms] by simp
qed

section \<open>Transfers and initialisations\<close>

lemma flat_enc_prove:
  assumes "rng_cycle r"
  shows "\<exists>e r'. enc_prove flat_suite sid h k b r = (Ok (e, r') :: ('e, _) outcome) \<and> rng_cycle r'"
proof -
  have c: "nonzero_scalar r = (Ok (rng_scalars r 0, snd (random_scalar r)) :: ('e, _) outcome)"
    by (rule rng_cycle_nonzero_scalar [OF assms])
  let ?v = "if b then smul flat_suite (generator flat_suite) k + h else smul flat_suite (generator flat_suite) k - h"
  have "\<exists>x. enc_prove flat_suite sid h k b r =
      (Ok (x, snd (cp_simulate flat_suite (generator flat_suite) h ?v (smul flat_suite h k) (snd (random_scalar r)))) :: ('e, _) outcome)"
    by (cases b) (simp_all add: enc_prove_def cp_prove_step1_def c Let_def split_def)
  moreover have "rng_cycle (snd (cp_simulate S g h u v q))" if "rng_cycle q" for S :: "(gf, gf) suite" and g h u v q
    using that by (simp add: cp_simulate_def Let_def split_def)
  ultimately show ?thesis using rng_cycle_draws(1) [OF assms] by blast
qed

lemma flat_ot_receiver_phase1:
  assumes "rng_cycle r"
  shows "\<exists>x r'. ot_receiver_run_phase1 flat_suite w sid b r = (Ok (x, r') :: ('e, _) outcome) \<and> rng_cycle r'"
proof -
  have "rng_cycle (snd (random_scalar r))" using assms by simp
  then obtain e r' where "enc_prove flat_suite sid (ot_base_h flat_suite sid (ot_seed w)) (fst (random_scalar r)) b
      (snd (random_scalar r)) = (Ok (e, r') :: ('e, _) outcome)" "rng_cycle r'"
    using flat_enc_prove by blast
  then show ?thesis by (simp add: ot_receiver_run_phase1_def split_def Let_def)
qed

lemma flat_ot_receiver_batch:
  assumes "rng_cycle r" and "length bits \<le> u16_MAX"
  shows "\<exists>ks es r'. ot_receiver_run_phase1_batch flat_suite w sid bits r = Ok ((ks, es), r') \<and> rng_cycle r'"
proof -
  obtain ys r' where "collect_st (\<lambda>i. ot_receiver_run_phase1 flat_suite w (current_sid i sid) (bits ! i))
      [0..<length bits] r = (Ok (ys, r') :: (error_ot, _) outcome)" "rng_cycle r'"
    using collect_st_cycle [OF assms(1), of "\<lambda>i. ot_receiver_run_phase1 flat_suite w (current_sid i sid) (bits ! i)"]
      flat_ot_receiver_phase1 by blast
  then show ?thesis using assms(2) by (simp add: ot_receiver_run_phase1_batch_def ot_batch_size_def)
qed

lemma flat_ot_sender_init:
  assumes "rng_cycle r"
  shows "\<exists>s r'. ot_sender_init flat_suite sid r = (Ok (s, r') :: ('e, _) outcome) \<and>
     distinct (rand_commitments (ot_proof s)) \<and> rng_cycle r'"
proof -
  have c: "nonzero_scalar r = (Ok (rng_scalars r 0, snd (random_scalar r)) :: ('e, _) outcome)"
    by (rule rng_cycle_nonzero_scalar [OF assms])
  obtain pf r' where "dlog_prove flat_suite (rng_scalars r 0) sid (snd (random_scalar r)) = Ok (pf, r')"
    "distinct (rand_commitments pf)" "rng_cycle r'"
    using flat_dlog_prove rng_cycle_draws(1) [OF assms] by blast
  then show ?thesis by (simp add: ot_sender_init_def c)
qed

lemma draw_list_cycle: "rng_cycle r \<Longrightarrow> rng_cycle (snd (draw_list (\<lambda>_. random_bool) xs r))"
proof (induction xs arbitrary: r)
  case (Cons x xs)
  then show ?case using Cons.IH [of "snd (random_bool r)"] by (simp add: split_def Let_def)
qed simp

lemma flat_mul_receiver_init:
  assumes "rng_cycle r"
  shows "\<exists>s pf nonce r'. mul_receiver_init_phase1 flat_suite sid r = (Ok ((s, pf, nonce), r') :: ('e, _) outcome) \<and>
     distinct (rand_commitments pf) \<and> rng_cycle r'"
proof -
  obtain s r' where "ot_sender_init flat_suite sid r = (Ok (s, r') :: ('e, _) outcome)"
    "distinct (rand_commitments (ot_proof s))" "rng_cycle r'"
    using flat_ot_sender_init [OF assms] by blast
  then show ?thesis
    using rng_cycle_draws(1) [of r']
    by (simp add: mul_receiver_init_phase1_def ote_receiver_init_phase1_def ot_sender_run_phase1_def split_def Let_def)
qed

lemma flat_mul_sender_init:
  assumes "rng_cycle r"
  shows "\<exists>rcv correlation vec_r es r'. mul_sender_init_phase1 flat_suite sid r =
     (Ok ((rcv, correlation, vec_r, es), r') :: ('e, _) outcome) \<and> rng_cycle r'"
proof -
  obtain rcv r1 where rcv: "ot_receiver_init r = (rcv, r1)" by fastforce
  have r1: "rng_cycle r1" using rcv rng_cycle_draws(2) [of 32 r] assms by (auto simp: ot_receiver_init_def split_def Let_def)
  obtain c r2 where c: "draw_list (\<lambda>_. random_bool) [0..<KAPPA] r1 = (c, r2)" by fastforce
  have r2: "rng_cycle r2" using draw_list_cycle [OF r1, of "[0..<KAPPA]"] by (simp add: c)
  have "length c = KAPPA" using draw_bits_length [OF c] by simp
  then have "length c \<le> u16_MAX" by (simp add: KAPPA_def u16_MAX_def)
  then obtain ks es r' where "ot_receiver_run_phase1_batch flat_suite rcv sid c r2 = Ok ((ks, es), r')" "rng_cycle r'"
    using flat_ot_receiver_batch [OF r2] by blast
  then show ?thesis by (simp add: mul_sender_init_phase1_def ote_sender_init_phase1_def rcv c)
qed

end
