(* ===== verification/Witnesses.thy ===== *)
theory Witnesses
  imports ConcreteRuns Dkg
begin

text \<open>
  Instances: every property with hypotheses is applied here to concrete data that meets them.
\<close>

section \<open>Zero shares\<close>

lemma honest_shares_sum_zero_witness:
  "(\<Sum>p\<in>set [PartyIndex 1, PartyIndex 3]. zero_share_compute gf_suite
      (honest_zero_share [PartyIndex 1, PartyIndex 2, PartyIndex 3] (\<lambda>i j. replicate 32 (as_u8 i + as_u8 j)) p)
      (filter (\<lambda>q. q \<noteq> p) [PartyIndex 1, PartyIndex 3]) [7]) = 0"
  by (rule honest_shares_sum_zero) simp_all

section \<open>Proofs\<close>

lemma gf_reduce_short: "reduce gf_suite (extended_challenge [c]) = of_int (uint c)"
proof -
  have "extended_challenge [c] = replicate 31 0 @ [c]" by (simp add: extended_challenge_def)
  then show ?thesis by (simp add: gf_suite_def gf_value_append gf_value_zeros)
qed

lemma of_int_gf_inject:
  "0 \<le> a \<Longrightarrow> a < 257 \<Longrightarrow> 0 \<le> b \<Longrightarrow> b < 257 \<Longrightarrow> (of_int a :: gf) = of_int b \<longleftrightarrow> a = b"
  by (simp only: rep_gf_inject [symmetric] rep_of_int_gf mod_pos_pos_trivial)

lemma interactive_special_sound_witness:
  "\<exists>p q :: gf interactive_dlog_proof. interactive_verify gf_suite p 5 9 \<and> interactive_verify gf_suite q 5 9 \<and>
     challenge p = [1] \<and> challenge q = [2] \<and> (5 :: gf) = smul gf_suite (generator gf_suite)
     ((challenge_response p - challenge_response q) /
      (reduce gf_suite (extended_challenge (challenge q)) - reduce gf_suite (extended_challenge (challenge p))))"
proof -
  obtain p q where p: "dlog_prove_step2 gf_suite 5 9 [1] = (Ok p :: (unit, gf interactive_dlog_proof) outcome)"
    and q: "dlog_prove_step2 gf_suite 5 9 [2] = (Ok q :: (unit, gf interactive_dlog_proof) outcome)"
    by (simp add: dlog_prove_step2_Ok)
  have g: "smul gf_suite (generator gf_suite) a = a" for a by (simp add: gf_suite_def)
  have v: "interactive_verify gf_suite p 5 9" "interactive_verify gf_suite q 5 9"
    using interactive_complete [OF gf_curve_ok p] interactive_complete [OF gf_curve_ok q] by (simp_all add: g)
  have c: "challenge p = [1]" "challenge q = [2]" using p q by (simp_all add: dlog_prove_step2_Ok)
  have "reduce gf_suite (extended_challenge (challenge p)) \<noteq> reduce gf_suite (extended_challenge (challenge q))"
    unfolding c gf_reduce_short by (subst of_int_gf_inject) simp_all
  from interactive_special_sound [OF gf_curve_ok v this] show ?thesis using v c by blast
qed

lemma dlog_prove_ends_witness:
  "dlog_prove gf_suite 5 [1] gf_rng = Err ProofSearchExhausted \<or> (\<exists>pf r'. dlog_prove gf_suite 5 [1] gf_rng = Ok (pf, r'))"
  by (rule dlog_prove_ends [OF gf_rng_live])

lemma prove_commit_complete_witness:
  "\<exists>pf c r'. prove_commit flat_suite 5 [1] gf_rng = Ok ((pf, c), r') \<and> decommit_verify flat_suite pf c [1] \<and>
     dlog_point pf = 5"
proof -
  obtain pf r' where pf: "dlog_prove flat_suite 5 [1] gf_rng = Ok (pf, r')" "distinct (rand_commitments pf)"
    using flat_dlog_prove [OF rng_cycle_gf_rng] by blast
  then have pc: "prove_commit flat_suite 5 [1] gf_rng = Ok ((pf, dlog_commitment flat_suite pf [1]), r')"
    by (simp add: prove_commit_def)
  show ?thesis using pc prove_commit_complete [OF flat_suite_ok pc pf(2)] by simp
qed

lemma enc_proof_complete_witness:
  "\<exists>e r'. enc_prove gf_suite [1] 3 5 True gf_rng = (Ok (e, r') :: (unit, _) outcome) \<and> enc_verify gf_suite e [1] \<and>
     get_u_and_v e = (smul gf_suite 3 5, smul gf_suite (generator gf_suite) 5 + 3)"
proof -
  obtain e r' where e: "enc_prove gf_suite [1] 3 5 True gf_rng = (Ok (e, r') :: (unit, _) outcome)"
    using enc_prove_total [OF gf_rng_live] by blast
  from enc_proof_complete [OF gf_suite_ok e] e show ?thesis by simp
qed

text \<open>
  Two accepting encryption proofs over one statement: with \<open>h = 0\<close> both branches have the
  witness 5, so both can be answered for any split of the challenge.
\<close>

definition enc_example :: "bytes \<Rightarrow> (gf, gf) enc_proof" where
  "enc_example sid =
     (let rc = \<lparr>rc_g = 9, rc_h = 0\<rparr>; ch = enc_challenge gf_suite sid 1 0 0 5 rc rc in
      \<lparr>proof0 = cp_prove_step2 gf_suite 1 0 5 9 ch, proof1 = cp_prove_step2 gf_suite 1 0 5 9 0,
       commitments0 = rc, commitments1 = rc, challenge0 = ch, challenge1 = 0\<rparr>)"

lemma enc_example_verifies: "enc_verify gf_suite (enc_example sid) sid"
  by (simp add: enc_example_def enc_verify_def Let_def cp_prove_step2_def cp_verify_def gf_suite_def algebra_simps)

lemma enc_example_challenges: "challenge0 (enc_example [0]) + challenge1 (enc_example [0]) \<noteq>
    challenge0 (enc_example [1]) + challenge1 (enc_example [1])"
proof -
  let ?rc = "\<lparr>rc_g = 9, rc_h = 0\<rparr> :: gf random_commitments"
  obtain m where m: "\<And>sid. enc_challenge gf_suite sid 1 0 0 5 ?rc ?rc = tagged_hash_as_scalar gf_suite TAG_ENCPROOF_FS [sid, m]"
    by (auto simp: enc_challenge_def)
  have h: "tagged_hash_as_scalar gf_suite t cs = of_int (uint (sum_list (tagged_encoding t cs)))" for t cs
    by (simp add: tagged_hash_as_scalar_def tagged_hash_def gf_suite_def gf_hash_def gf_value_append gf_value_zeros)
  define k where "k = sum_list (tagged_encoding TAG_ENCPROOF_FS [[0], m])"
  have "sum_list (tagged_encoding TAG_ENCPROOF_FS [[1], m]) = k + 1"
    by (simp add: k_def tagged_encoding_concat)
  moreover have "(of_int (uint k) :: gf) \<noteq> of_int (uint (k + 1))"
  proof -
    have "uint k \<noteq> uint (k + 1)" by (simp add: word_uint_eq_iff [symmetric])
    moreover have "uint k < 257" "uint (k + 1) < 257" using uint_u8_range(2) [of k] uint_u8_range(2) [of "k + 1"] by linarith+
    ultimately show ?thesis by (simp only: of_int_gf_inject uint_u8_range not_False_eq_True)
  qed
  ultimately show ?thesis by (simp add: enc_example_def Let_def m h k_def)
qed

lemma enc_proof_special_sound_witness:
  "\<exists>w. fst (get_u_and_v (enc_example [0])) = smul gf_suite (base_h (proof0 (enc_example [0]))) w \<and>
     (snd (get_u_and_v (enc_example [0])) = smul gf_suite (generator gf_suite) w \<or>
      snd (get_u_and_v (enc_example [0])) - base_h (proof0 (enc_example [0])) = smul gf_suite (generator gf_suite) w)"
  by (rule enc_proof_special_sound [OF gf_curve_ok enc_example_verifies [of "[0]"] enc_example_verifies [of "[1]"]
        _ _ _ _ enc_example_challenges])
    (simp_all add: enc_example_def Let_def cp_prove_step2_def get_u_and_v_def)

section \<open>Transfers and multiplication\<close>

lemma base_ot_correct_witness:
  "\<exists>s (w :: ot_receiver) ks es m0s m1s ms. ot_sender_run_phase2_batch flat_suite s [1] (ot_seed w) es = Ok (m0s, m1s) \<and>
     ot_receiver_run_phase2_batch flat_suite [1] ks (ot_sender_run_phase1 s) = Ok ms \<and> ms = [m1s ! 0, m0s ! 1]"
proof -
  obtain s r' where s: "ot_sender_init flat_suite [1] gf_rng = (Ok (s, r') :: (error_ot, _) outcome)"
    "distinct (rand_commitments (ot_proof s))"
    using flat_ot_sender_init [OF rng_cycle_gf_rng] by blast
  obtain ks es r2 where r: "ot_receiver_run_phase1_batch flat_suite \<lparr>ot_seed = [3]\<rparr> [1] [True, False] gf_rng = Ok ((ks, es), r2)"
    using flat_ot_receiver_batch [OF rng_cycle_gf_rng, of "[True, False]" "\<lparr>ot_seed = [3]\<rparr>" "[1]"]
    unfolding u16_MAX_def by auto
  from base_ot_correct [OF flat_suite_ok s r] obtain m0s m1s ms :: "bytes list" where
    m: "ot_sender_run_phase2_batch flat_suite s [1] (ot_seed \<lparr>ot_seed = [3]\<rparr>) es = Ok (m0s, m1s)"
    "ot_receiver_run_phase2_batch flat_suite [1] ks (ot_sender_run_phase1 s) = Ok ms"
    and len: "length ms = 2" and at: "\<forall>i<2. ms ! i = (if [True, False] ! i then m1s ! i else m0s ! i)"
    by auto
  have "ms = [ms ! 0, ms ! 1]" using len by (cases ms; cases "tl ms") auto
  also have "\<dots> = [m1s ! 0, m0s ! 1]" using at by simp
  finally have "ms = [m1s ! 0, m0s ! 1]" .
  with m show ?thesis
    by (intro exI [of _ s] exI [of _ "\<lparr>ot_seed = [3]\<rparr>"] exI [of _ ks] exI [of _ es] exI [of _ m0s]
        exI [of _ m1s] exI [of _ ms] conjI)
qed

lemma cut_and_transpose_correct_witness:
  "\<exists>out. cut_and_transpose (replicate 256 (replicate 78 3)) = Ok out \<and> length out = 416 \<and>
     bit (out ! 9 ! 0) 5 = bit (replicate 256 (replicate 78 (3 :: u8)) ! 5 ! 1) 1"
proof -
  from cut_and_transpose_correct [of "replicate 256 (replicate 78 3)"] obtain out where
    out: "cut_and_transpose (replicate 256 (replicate 78 3)) = Ok out" "length out = 416"
    and at: "\<forall>j<416. length (out ! j) = 32 \<and> (\<forall>i<256. bit (out ! j ! (i div 8)) (i mod 8) =
       bit (replicate 256 (replicate 78 (3 :: u8)) ! i ! (j div 8)) (j mod 8))" by auto
  have "bit (out ! 9 ! (5 div 8)) (5 mod 8) = bit (replicate 256 (replicate 78 (3 :: u8)) ! 5 ! (9 div 8)) (9 mod 8)"
    by (rule at [rule_format, THEN conjunct2, rule_format]) simp_all
  then show ?thesis using out by (intro exI [of _ out]) simp
qed

definition example_ote_sender :: ote_sender where
  "example_ote_sender = \<lparr>ote_correlation = replicate 256 True, ote_seeds = replicate 256 [2]\<rparr>"

definition example_ote_receiver :: ote_receiver where
  "example_ote_receiver = \<lparr>seeds0 = replicate 256 [1], seeds1 = replicate 256 [2]\<rparr>"

lemma example_ote_paired: "ote_paired example_ote_sender example_ote_receiver"
  by (simp add: ote_paired_def example_ote_sender_def example_ote_receiver_def KAPPA_def)

lemma example_ote_phase1:
  "\<exists>x d r'. ote_receiver_run_phase1 gf_suite example_ote_receiver [1] (replicate BATCH_SIZE True) gf_rng = Ok ((x, d), r')"
  using ote.total [OF conjI [OF gf_encodings_ok example_ote_paired]] by simp

lemma ote_correct_witness:
  "\<exists>d v0 tau tb x. ote_sender_run gf_suite example_ote_sender [1] 1 [replicate BATCH_SIZE (7 :: gf)] d = Ok (v0, tau) \<and>
     ote_receiver_run_phase2 gf_suite [1] 1 (replicate BATCH_SIZE True) x tau = Ok tb \<and>
     (\<forall>j<BATCH_SIZE. tb ! 0 ! j + v0 ! 0 ! j = 7)"
proof -
  obtain x d r' where r: "ote_receiver_run_phase1 gf_suite example_ote_receiver [1] (replicate BATCH_SIZE True) gf_rng = Ok ((x, d), r')"
    using example_ote_phase1 by blast
  have "length [replicate BATCH_SIZE (7 :: gf)] = unat (1 :: u8)" "\<forall>c\<in>set [replicate BATCH_SIZE (7 :: gf)]. length c = BATCH_SIZE"
    by simp_all
  from ote_correct [OF gf_suite_ok example_ote_paired r length_replicate this] obtain v0 tau tb where
    o: "ote_sender_run gf_suite example_ote_sender [1] 1 [replicate BATCH_SIZE (7 :: gf)] d = Ok (v0, tau)"
    "ote_receiver_run_phase2 gf_suite [1] 1 (replicate BATCH_SIZE True) x tau = Ok tb"
    and at: "\<And>k j. k < unat (1 :: u8) \<Longrightarrow> j < BATCH_SIZE \<Longrightarrow> tb ! k ! j + v0 ! k ! j =
       (if replicate BATCH_SIZE True ! j then [replicate BATCH_SIZE (7 :: gf)] ! k ! j else 0)" by blast
  have "\<forall>j<BATCH_SIZE. tb ! 0 ! j + v0 ! 0 ! j = 7" using at [of 0] by simp
  with o show ?thesis by (intro exI conjI)
qed

lemma ote_sender_accepts_witness:
  "\<exists>d out. ote_sender_run gf_suite example_ote_sender [1] 1 [replicate BATCH_SIZE (7 :: gf)] d = Ok out \<and>
     length (ote_u d) = KAPPA \<and> length (verify_t d) = KAPPA"
proof -
  obtain x d r' where r: "ote_receiver_run_phase1 gf_suite example_ote_receiver [1] (replicate BATCH_SIZE True) gf_rng = Ok ((x, d), r')"
    using example_ote_phase1 by blast
  have "length [replicate BATCH_SIZE (7 :: gf)] = unat (1 :: u8)" "\<forall>c\<in>set [replicate BATCH_SIZE (7 :: gf)]. length c = BATCH_SIZE"
    by simp_all
  from ote.correlated [OF conjI [OF gf_encodings_ok example_ote_paired] r length_replicate this]
  obtain out where out: "ote_sender_run gf_suite example_ote_sender [1] 1 [replicate BATCH_SIZE (7 :: gf)] d = Ok out" by blast
  from ote_sender_accepts [OF out] out show ?thesis by blast
qed

definition example_mul_sender :: "gf mul_sender" where
  "example_mul_sender = \<lparr>sender_gadget = public_gadget gf_suite [1] 5, mul_ote_sender = example_ote_sender\<rparr>"

definition example_mul_receiver :: "gf mul_receiver" where
  "example_mul_receiver = \<lparr>receiver_gadget = public_gadget gf_suite [1] 5, mul_ote_receiver = example_ote_receiver\<rparr>"

lemma example_mul_paired: "mul_paired example_mul_sender example_mul_receiver"
  by (simp add: mul_paired_def example_mul_sender_def example_mul_receiver_def length_public_gadget example_ote_paired)

lemma example_mul_phase1:
  "\<exists>b k d r'. mul_receiver_run_phase1 gf_suite example_mul_receiver [1] gf_rng = Ok ((b, k, d), r')"
  by (rule mul_receiver_phase1_total [OF gf_encodings_ok example_mul_paired])

lemma multiplication_correct_witness:
  "\<exists>b k d out m q' res. mul_sender_run gf_suite example_mul_sender [1] [3, 4] d gf_rng = Ok ((out, m), q') \<and>
     mul_receiver_run_phase2 gf_suite example_mul_receiver [1] k m = Ok res \<and>
     out ! 0 + res ! 0 = 3 * b \<and> out ! 1 + res ! 1 = 4 * b"
proof -
  obtain b k d r' where r: "mul_receiver_run_phase1 gf_suite example_mul_receiver [1] gf_rng = Ok ((b, k, d), r')"
    using example_mul_phase1 by blast
  have "length [3, 4 :: gf] = mul_L" by (simp add: mul_L_def)
  from multiplication_correct [OF gf_suite_ok example_mul_paired r this, of gf_rng] obtain out m q' res where
    o: "mul_sender_run gf_suite example_mul_sender [1] [3, 4] d gf_rng = Ok ((out, m), q')"
    "mul_receiver_run_phase2 gf_suite example_mul_receiver [1] k m = Ok res"
    and at: "\<And>i. i < mul_L \<Longrightarrow> out ! i + res ! i = [3, 4] ! i * b" by blast
  have "out ! 0 + res ! 0 = 3 * b" "out ! 1 + res ! 1 = 4 * b" using at [of 0] at [of 1] by (simp_all add: mul_L_def)
  with o show ?thesis by blast
qed

lemma mul_init_correct_witness:
  "\<exists>s w. mul_paired s (w :: gf mul_receiver)"
proof -
  obtain sndr pf nonce r1 where r: "mul_receiver_init_phase1 flat_suite [1] gf_rng = (Ok ((sndr, pf, nonce), r1) :: (error_ot, _) outcome)"
    "distinct (rand_commitments pf)"
    using flat_mul_receiver_init [OF rng_cycle_gf_rng] by blast
  obtain rcv correlation vec_r es r2 where s: "mul_sender_init_phase1 flat_suite [1] gf_rng =
      (Ok ((rcv, correlation, vec_r, es), r2) :: (error_ot, _) outcome)"
    using flat_mul_sender_init [OF rng_cycle_gf_rng] by blast
  from mul_init_correct [OF flat_suite_ok r s] show ?thesis by blast
qed

lemma mul_receiver_accepts_witness:
  "\<exists>k m res. mul_receiver_run_phase2 gf_suite example_mul_receiver [1] k m = Ok res \<and> length (verify_u m) = mul_L"
proof -
  obtain b k d r' where r: "mul_receiver_run_phase1 gf_suite example_mul_receiver [1] gf_rng = Ok ((b, k, d), r')"
    using example_mul_phase1 by blast
  have "length [3, 4 :: gf] = mul_L" by (simp add: mul_L_def)
  from mul_run [OF gf_encodings_ok example_mul_paired r this, of gf_rng] obtain m res where
    m: "mul_receiver_run_phase2 gf_suite example_mul_receiver [1] k m = Ok res" by blast
  from mul_receiver_accepts [OF m] m show ?thesis by blast
qed

section \<open>Derivation\<close>

definition example_party :: "(gf, gf) party" where
  "example_party =
     \<lparr>party_parameters = \<lparr>threshold = 2, share_count = 2\<rparr>, party_index_of = PartyIndex 1, party_session_id = [1],
      poly_point = 5, pk = 3, zero_share_of = \<lparr>seeds = []\<rparr>, mul_senders = [], mul_receivers = [],
      derivation_data = \<lparr>depth = 0, child_number = 0, parent_fingerprint = [0, 0, 0, 0], dd_poly_point = 5,
        dd_pk = 3, chain_code = replicate 32 0\<rparr>, address = ''''\<rparr>"

lemma gf_zero_bytes: "gf_value (replicate 32 0) = 0" "gf_repr 0 = replicate 32 0"
proof -
  have "replicate 30 (0 :: u8) @ [0, 0] = replicate 32 0" by (simp add: replicate_app_Cons_same eval_nat_numeral)
  then show "gf_repr 0 = replicate 32 0" by (simp add: gf_repr_def zero_gf.rep_eq)
qed (rule gf_value_zeros)

lemma gf_tweak: "bip32_tweak gf_suite (bip32_hmac gf_suite cc P n) = Ok 0"
proof -
  have "take CHAIN_CODE_LEN (bip32_hmac gf_suite cc P n) = replicate 32 0"
    by (simp add: bip32_hmac_def gf_suite_def CHAIN_CODE_LEN_def)
  then show ?thesis unfolding bip32_tweak_def Let_def by (simp add: gf_suite_def gf_zero_bytes)
qed

lemma gf_derive_child:
  assumes "depth d \<noteq> MAX_DEPTH" and "n \<le> MAX_CHILD_NUMBER" and "dd_pk d \<noteq> 0"
  shows "\<exists>d'. derive_child gf_suite d n = Ok d' \<and> depth d' = depth d + 1 \<and> dd_pk d' = dd_pk d"
proof -
  have "smul gf_suite (generator gf_suite) 0 = 0" by (simp add: gf_suite_def)
  then show ?thesis using assms gf_tweak by (auto simp: derive_child_Ok)
qed

lemma gf3: "(3 :: gf) \<noteq> 0"
  using of_nat_gf_nonzero [of 3] by simp

lemma derivation_consistent_witness:
  "\<exists>p'. party_derive_child gf_suite (\<lambda>_. '''') example_party 7 = Ok p' \<and>
     (\<exists>tweak. poly_point p' = 5 + tweak \<and> pk p' = smul gf_suite (generator gf_suite) tweak + 3)"
proof -
  have "\<exists>d'. derive_child gf_suite (derivation_data example_party) 7 = Ok d'"
    using gf_derive_child [of "derivation_data example_party" 7] gf3
    by (auto simp: example_party_def MAX_DEPTH_def MAX_CHILD_NUMBER_def)
  then obtain p' where p': "party_derive_child gf_suite (\<lambda>_. '''') example_party 7 = Ok p'"
    by (auto simp: party_derive_child_def)
  have ok: "party_ok example_party" by (simp add: party_ok_def example_party_def btree_keys_def)
  have key: "verifying_key \<lparr>verifying_key = 3, verifying_shares = [(PartyIndex 1, 5)], pkp_parameters = \<lparr>threshold = 2, share_count = 2\<rparr>\<rparr>
      = pk example_party" by (simp add: example_party_def)
  have match: "shares_match gf_suite (\<lambda>_. 5) \<lparr>verifying_key = 3, verifying_shares = [(PartyIndex 1, 5)], pkp_parameters = \<lparr>threshold = 2, share_count = 2\<rparr>\<rparr>"
    by (simp add: shares_match_def gf_suite_def)
  from derivation_consistent [OF gf_suite_ok ok p' key match] p' show ?thesis
    by (auto simp: example_party_def)
qed

lemma derive_child_bounds_witness:
  "derive_child gf_suite \<lparr>depth = 255, child_number = 0, parent_fingerprint = [], dd_poly_point = 5, dd_pk = 3,
     chain_code = []\<rparr> 7 = Err (ErrorDeriv ''We are already at maximum depth!'')"
  using derive_child_bounds [of "\<lparr>depth = 255, child_number = 0, parent_fingerprint = [], dd_poly_point = 5, dd_pk = 3,
     chain_code = []\<rparr>" gf_suite 7] by (simp add: MAX_DEPTH_def)

lemma parse_path_round_trip_witness: "parse_path (show_path [44, 0, 2147483647]) = Ok [44, 0, 2147483647]"
  using parse_path_round_trip [of "[44, 0, 2147483647]" "''''" "[]"] by (simp add: MAX_CHILD_NUMBER_def)

lemma derive_path_tweak_witness:
  "\<exists>d'. each (derive_child gf_suite) (derivation_data example_party) [1, 2] = Ok d' \<and> unat (depth d') = 2"
proof -
  obtain d1 where d1: "derive_child gf_suite (derivation_data example_party) 1 = Ok d1" "depth d1 = 1" "dd_pk d1 = 3"
    using gf_derive_child [of "derivation_data example_party" 1] gf3
    by (auto simp: example_party_def MAX_DEPTH_def MAX_CHILD_NUMBER_def)
  obtain d2 where d2: "derive_child gf_suite d1 2 = Ok d2"
    using gf_derive_child [of d1 2] gf3 d1 by (auto simp: MAX_DEPTH_def MAX_CHILD_NUMBER_def)
  have run: "each (derive_child gf_suite) (derivation_data example_party) [1, 2] = Ok d2" by (simp add: d1 d2)
  from derive_path_tweak [OF gf_suite_ok run] run show ?thesis by (auto simp: example_party_def)
qed

section \<open>Key generation\<close>

lemma dkg_step5_sound_witness:
  "\<exists>pcs points. dkg_step5 flat_suite True \<lparr>threshold = 2, share_count = 2\<rparr> (PartyIndex 1) [1] pcs = Ok (3, points) \<and>
     (\<forall>pc\<in>set pcs. pc_index pc \<noteq> PartyIndex 1 \<longrightarrow> decommit_verify flat_suite (pc_proof pc) (pc_commitment pc) [1])"
proof -
  let ?p = "\<lparr>threshold = 2, share_count = 2\<rparr>"
  obtain pf1 r1 where pf1: "dlog_prove flat_suite 8 [1] gf_rng = Ok (pf1, r1)" "distinct (rand_commitments pf1)"
    using flat_dlog_prove [OF rng_cycle_gf_rng] by blast
  obtain pf2 r2 where pf2: "dlog_prove flat_suite 13 [1] gf_rng = Ok (pf2, r2)" "distinct (rand_commitments pf2)"
    using flat_dlog_prove [OF rng_cycle_gf_rng] by blast
  let ?pcs = "[\<lparr>pc_index = PartyIndex 1, pc_proof = pf1, pc_commitment = dlog_commitment flat_suite pf1 [1]\<rparr>,
     \<lparr>pc_index = PartyIndex 2, pc_proof = pf2, pc_commitment = dlog_commitment flat_suite pf2 [1]\<rparr>]"
  have valid: "valid_parameters ?p" "unat (share_count ?p) < 255" by (simp_all add: valid_parameters_def)
  have pt: "dlog_point pf1 = 8" "dlog_point pf2 = 13"
    using dlog_complete(2) [OF flat_suite_ok pf1] dlog_complete(2) [OF flat_suite_ok pf2] by simp_all
  have "\<exists>points. dkg_step5 flat_suite True ?p (PartyIndex 1) [1] ?pcs = Ok (horner (smul flat_suite) [3, 5] 0, points) \<and>
     btree_wf points \<and> (\<forall>k. btree_contains points k \<longleftrightarrow> k \<in> pc_index ` set ?pcs) \<and>
     (\<forall>k P. btree_get points k = Some P \<longrightarrow> P = horner (smul flat_suite) [3, 5] (scalar_of_u8 (as_u8 k)))"
  proof (rule dkg_step5_complete [OF flat_suite_ok valid])
    fix j :: u8
    assume "1 \<le> unat j" "unat j \<le> unat (share_count ?p)"
    then have "unat j = 1 \<or> unat j = 2" by auto
    then have "j = 1 \<or> j = 2" using word_unat_eq_iff [of j 1] word_unat_eq_iff [of j 2] by simp
    then show "PartyIndex j \<in> pc_index ` set ?pcs" by auto
  next
    fix pc
    assume "pc \<in> set ?pcs" "pc_index pc \<noteq> PartyIndex 1"
    then show "decommit_verify flat_suite (pc_proof pc) (pc_commitment pc) [1]"
      using dlog_complete(1) [OF flat_suite_ok pf2] by (auto simp: decommit_verify_def)
  next
    fix pc
    assume "pc \<in> set ?pcs"
    then show "dlog_point (pc_proof pc) = horner (smul flat_suite) [3, 5] (scalar_of_u8 (as_u8 (pc_index pc)))"
      by (auto simp: pt scalar_of_u8_def)
  qed simp
  then obtain points where ok: "dkg_step5 flat_suite True ?p (PartyIndex 1) [1] ?pcs = Ok (3, points)" by auto
  from dkg_step5_sound [OF flat_suite_ok valid ok] ok show ?thesis by blast
qed

lemma dkg_255_parties_never_finish_witness:
  "\<forall>oc pcs zk z2 z3 mk mr b2 b3 res. dkg_phase4 gf_suite oc \<lparr>sd_parameters = \<lparr>threshold = 2, share_count = 255\<rparr>, sd_party_index = PartyIndex 1,
     sd_session_id = []\<rparr> 5 pcs zk z2 z3 mk mr b2 b3 (\<lambda>_. '''') \<noteq> Ok res"
  by (intro allI dkg_255_parties_never_finish) (simp_all add: valid_parameters_def)

end
