(* ===== verification/ProtocolRuns.thy ===== *)
theory ProtocolRuns
  imports ConcreteRuns DkgHonest SigningHonest
begin

text \<open>
  Concrete runs of the protocols: key generation with \<open>flat_suite\<close> always gets through its
  first three rounds, and a two-party group over the field of 257 elements.
\<close>

section \<open>Rounds of key generation\<close>

lemma rng_cycle_generate_seed: "rng_cycle (snd (generate_seed_with_commitment S r)) \<longleftrightarrow> rng_cycle r"
  by (simp add: generate_seed_with_commitment_def commit_def split_def Let_def)

lemma rng_cycle_commit: "rng_cycle (snd (commit S m r)) \<longleftrightarrow> rng_cycle r"
  by (simp add: commit_def split_def Let_def)

lemma flat_phase1:
  assumes "rng_cycle r" and "threshold (sd_parameters data) \<noteq> 0"
  shows "\<exists>frag r'. dkg_phase1 oc data r = (Ok (frag, r') :: (abort, _) outcome) \<and> rng_cycle r'"
proof -
  have "rng_cycle (snd (draw_list (\<lambda>_. random_scalar) xs r))" for xs :: "nat list"
    using assms(1)
  proof (induction xs arbitrary: r)
    case (Cons x xs)
    then show ?case using Cons.IH [of "snd (random_scalar r)"] by (simp add: split_def Let_def)
  qed simp
  then have "rng_cycle (snd (dkg_step1 (sd_parameters data) r))" by (simp add: dkg_step1_def)
  then show ?thesis using dkg_phase1_eq [OF assms(2), where 'e = abort, of r oc] by (metis snd_conv)
qed

lemma flat_step3:
  assumes "rng_cycle r"
  shows "\<exists>pp pc r'. dkg_step3 flat_suite me sid frag r = (Ok ((pp, pc), r') :: (abort, _) outcome) \<and>
     distinct (rand_commitments (pc_proof pc)) \<and> rng_cycle r'"
proof -
  obtain pf r1 where "dlog_prove flat_suite (sum_list frag) sid r = Ok (pf, r1)" "distinct (rand_commitments pf)" "rng_cycle r1"
    using flat_dlog_prove [OF assms] by blast
  then show ?thesis by (simp add: rng_cycle_commit dkg_step3_def prove_commit_def split_def Let_def)
qed

lemma flat_seed_loop:
  assumes "rng_cycle r"
  shows "\<exists>zk z2 r'. each (dkg_phase2_step flat_suite me) (([], []), r) (u8_range_incl 1 n) = (Ok ((zk, z2), r') :: (abort, _) outcome) \<and> rng_cycle r'"
proof -
  have "\<exists>t. each (dkg_phase2_step flat_suite me) (([], []), r) (u8_range_incl 1 n) = (Ok t :: (abort, _) outcome) \<and> rng_cycle (snd t)"
  proof (rule each_total)
    fix s :: "((party_index, keep_zero_2to3) btree_map \<times> transmit_zero_2to4 list) \<times> gf rng" and i :: u8
    assume "i \<in> set (u8_range_incl 1 n)" and r: "rng_cycle (snd s)"
    then have nz: "i \<noteq> 0" by (auto simp: u8_range_incl_eq)
    obtain keep tr q where s: "s = ((keep, tr), q)" by (metis prod.exhaust)
    then show "\<exists>t. dkg_phase2_step flat_suite me s i = (Ok t :: (abort, _) outcome) \<and> rng_cycle (snd t)"
      using r nz rng_cycle_generate_seed [of flat_suite q] by (auto simp: dkg_phase2_step_def split_def Let_def)
  qed (simp add: assms)
  then show ?thesis by (metis prod.exhaust snd_conv)
qed

lemma count_minus_one: "n \<noteq> 0 \<Longrightarrow> u8_sub oc n 1 = (Ok (n - 1) :: (abort, _) outcome)"
  by (intro u8_sub_exact) (simp add: Suc_le_eq unat_gt_0)

lemma flat_phase2:
  assumes "rng_cycle r" and "share_count (sd_parameters data) \<noteq> 0"
  shows "\<exists>pp pc zk z2 dk b2 r'. dkg_phase2 flat_suite oc data frag r = (Ok ((pp, pc, zk, z2, dk, b2), r') :: (abort, _) outcome) \<and>
     distinct (rand_commitments (pc_proof pc)) \<and> rng_cycle r'"
proof -
  obtain pp pc r1 where s3: "dkg_step3 flat_suite (sd_party_index data) (sd_session_id data) frag r = (Ok ((pp, pc), r1) :: (abort, _) outcome)"
    "distinct (rand_commitments (pc_proof pc))" "rng_cycle r1"
    using flat_step3 [OF assms(1)] by blast
  obtain zk z2 r2 where loop: "each (dkg_phase2_step flat_suite (sd_party_index data)) (([], []), r1)
      (u8_range_incl 1 (share_count (sd_parameters data))) = (Ok ((zk, z2), r2) :: (abort, _) outcome)" "rng_cycle r2"
    using flat_seed_loop [OF s3(3)] by blast
  show ?thesis
    using s3 loop(2) by (simp add: rng_cycle_commit dkg_phase2_def count_minus_one [OF assms(2)] loop(1) split_def Let_def)
qed

lemma flat_mul_loop:
  assumes "rng_cycle r"
  shows "\<exists>mk mt r'. each (dkg_phase3_mul_step flat_suite me sid) (([], []), r) (u8_range_incl 1 n) = (Ok ((mk, mt), r') :: (abort, _) outcome) \<and>
     (\<forall>m\<in>set mt. distinct (rand_commitments (tm_dlog_proof m)))"
proof -
  let ?I = "\<lambda>t :: ((party_index, (gf, gf) keep_mul_3to4) btree_map \<times> (gf, gf) transmit_mul_3to4 list) \<times> gf rng.
      rng_cycle (snd t) \<and> (\<forall>m\<in>set (snd (fst t)). distinct (rand_commitments (tm_dlog_proof m)))"
  have "\<exists>t. each (dkg_phase3_mul_step flat_suite me sid) (([], []), r) (u8_range_incl 1 n) = (Ok t :: (abort, _) outcome) \<and> ?I t"
  proof (rule each_total [where I = ?I])
    fix s :: "((party_index, (gf, gf) keep_mul_3to4) btree_map \<times> (gf, gf) transmit_mul_3to4 list) \<times> gf rng" and i :: u8
    assume "i \<in> set (u8_range_incl 1 n)" and I: "?I s"
    then have nz: "i \<noteq> 0" by (auto simp: u8_range_incl_eq)
    obtain keep tr q where s: "s = ((keep, tr), q)" by (metis prod.exhaust)
    have "rng_cycle q" using I by (simp add: s)
    from flat_mul_receiver_init [OF this, where 'e = abort] obtain sndr pf nonce q1 where
      a: "mul_receiver_init_phase1 flat_suite (mul_sid me (PartyIndex i) sid) q = (Ok ((sndr, pf, nonce), q1) :: (abort, _) outcome)"
      "distinct (rand_commitments pf)" "rng_cycle q1" by blast
    from flat_mul_sender_init [OF a(3), where 'e = abort] obtain rcv co vr es q2 where
      b: "mul_sender_init_phase1 flat_suite (mul_sid (PartyIndex i) me sid) q1 = (Ok ((rcv, co, vr, es), q2) :: (abort, _) outcome)"
      "rng_cycle q2" by blast
    show "\<exists>t. dkg_phase3_mul_step flat_suite me sid s i = (Ok t :: (abort, _) outcome) \<and> ?I t"
      using I a b nz by (cases "PartyIndex i = me") (auto simp: s dkg_phase3_mul_step_def)
  qed (simp add: assms)
  then show ?thesis by (metis prod.exhaust fst_conv snd_conv)
qed

lemma flat_phase3:
  assumes "rng_cycle r" and "share_count (sd_parameters data) \<noteq> 0"
  shows "\<exists>out r'. dkg_phase3 flat_suite oc data zk dk r = (Ok (out, r') :: (abort, _) outcome) \<and>
     (\<forall>m\<in>set (mul_out out). distinct (rand_commitments (tm_dlog_proof m)))"
proof -
  obtain mk mt q where "each (dkg_phase3_mul_step flat_suite (sd_party_index data) (sd_session_id data)) (([], []), r)
      (u8_range_incl 1 (share_count (sd_parameters data))) = (Ok ((mk, mt), q) :: (abort, _) outcome)"
    "\<forall>m\<in>set mt. distinct (rand_commitments (tm_dlog_proof m))" using flat_mul_loop [OF assms(1)] by blast
  then show ?thesis by (simp add: dkg_phase3_def count_minus_one [OF assms(2)] Let_def split_def)
qed

lemma flat_dkg_rounds:
  assumes r0: "\<And>i. rng_cycle (r0 i)" and p: "threshold prm \<noteq> 0" "share_count prm \<noteq> 0"
  shows "\<exists>out2 out3. dkg_rounds flat_suite oc prm sid r0 out2 out3 \<and>
     (\<forall>i\<in>set (all_parties (share_count prm)). distinct (rand_commitments (pc_proof (proof_out (out2 i)))) \<and>
        (\<forall>m\<in>set (mul_out (out3 i)). distinct (rand_commitments (tm_dlog_proof m))))"
proof -
  let ?d = "\<lambda>i. \<lparr>sd_parameters = prm, sd_party_index = i, sd_session_id = sid\<rparr>"
  have "\<forall>i. \<exists>frag r1. dkg_phase1 oc (?d i) (r0 i) = (Ok (frag, r1) :: (abort, _) outcome) \<and> rng_cycle r1"
    using flat_phase1 [OF r0] p(1) by simp
  then obtain frag r1 where f: "\<And>i. dkg_phase1 oc (?d i) (r0 i) = (Ok (frag i, r1 i) :: (abort, _) outcome)" "\<And>i. rng_cycle (r1 i)"
    by metis
  let ?rcv = "\<lambda>i. map (\<lambda>j. frag j ! (unat (as_u8 i) - 1)) (all_parties (share_count prm))"
  have "\<forall>i. \<exists>pp pc zk z2 dk b2 r2. dkg_phase2 flat_suite oc (?d i) (?rcv i) (r1 i) = (Ok ((pp, pc, zk, z2, dk, b2), r2) :: (abort, _) outcome) \<and>
     distinct (rand_commitments (pc_proof pc)) \<and> rng_cycle r2"
    using flat_phase2 [OF f(2)] p(2) by simp
  then obtain pp pc zk z2 dk b2 r2 where ph2: "\<And>i. dkg_phase2 flat_suite oc (?d i) (?rcv i) (r1 i) =
      (Ok ((pp i, pc i, zk i, z2 i, dk i, b2 i), r2 i) :: (abort, _) outcome)" "\<And>i. distinct (rand_commitments (pc_proof (pc i)))"
    "\<And>i. rng_cycle (r2 i)" by metis
  have "\<forall>i. \<exists>out r3. dkg_phase3 flat_suite oc (?d i) (zk i) (dk i) (r2 i) = (Ok (out, r3) :: (abort, _) outcome) \<and>
     (\<forall>m\<in>set (mul_out out). distinct (rand_commitments (tm_dlog_proof m)))"
    using flat_phase3 [OF ph2(3)] p(2) by simp
  then obtain out3 r3 where ph3: "\<And>i. dkg_phase3 flat_suite oc (?d i) (zk i) (dk i) (r2 i) = (Ok (out3 i, r3 i) :: (abort, _) outcome)"
    "\<And>i. \<forall>m\<in>set (mul_out (out3 i)). distinct (rand_commitments (tm_dlog_proof m))" by metis
  have "dkg_rounds flat_suite oc prm sid r0 (\<lambda>i. (pp i, pc i, z2 i, b2 i)) out3"
    unfolding dkg_rounds_def
  proof (intro exI ballI conjI)
    show "dkg_phase1 oc (?d i) (r0 i) = (Ok (frag i, r1 i) :: (abort, _) outcome)" for i by (rule f)
    show "dkg_phase2 flat_suite oc (?d i) (?rcv i) (r1 i) = (Ok ((pp i, pc i, zk i, z2 i, dk i, b2 i), r2 i) :: (abort, _) outcome)" for i
      by (rule ph2)
    show "dkg_phase3 flat_suite oc (?d i) (zk i) (dk i) (r2 i) = (Ok (out3 i, r3 i) :: (abort, _) outcome)" for i by (rule ph3)
  qed simp_all
  then show ?thesis using ph2(2) ph3(2) by (intro exI [of _ "\<lambda>i. (pp i, pc i, z2 i, b2 i)"] exI [of _ out3]) simp
qed

text \<open>The deliveries in the order the messages were made.\<close>

lemma dkg_delivered_in_order:
  "dkg_delivered prm out2 out3 i (map (\<lambda>j. proof_out (out2 j)) (all_parties (share_count prm)))
     (addressed_to z2_parties (all_parties (share_count prm)) (\<lambda>j. seeds2_out (out2 j)) i)
     (addressed_to z3_parties (all_parties (share_count prm)) (\<lambda>j. seeds3_out (out3 j)) i)
     (addressed_to tm_parties (all_parties (share_count prm)) (\<lambda>j. mul_out (out3 j)) i)
     (map (\<lambda>j. (j, chain2_out (out2 j))) (all_parties (share_count prm)))
     (map (\<lambda>j. (j, chain3_out (out3 j))) (all_parties (share_count prm)))"
  by (auto simp: dkg_delivered_def Let_def btree_get_def map_of_map_restrict)

section \<open>Two parties\<close>

definition two_of_two :: parameters where
  "two_of_two = \<lparr>threshold = 2, share_count = 2\<rparr>"

lemma two_parties: "all_parties 2 = [PartyIndex 1, PartyIndex 2]"
proof -
  have "u8_range_incl 1 2 = [1, 2 :: u8]" by code_simp
  then show ?thesis by (simp add: all_parties_def)
qed

lemma gf_nonzero: "(2 :: gf) \<noteq> 0" "(4 :: gf) \<noteq> 0" "(6 :: gf) \<noteq> 0" "(10 :: gf) \<noteq> 0" "(2 :: gf) \<noteq> 1" "(6 :: gf) \<noteq> 1" "(10 :: gf) \<noteq> 1"
  using of_nat_gf_inject [of 2 0] of_nat_gf_inject [of 4 0] of_nat_gf_inject [of 6 0] of_nat_gf_inject [of 10 0]
    of_nat_gf_inject [of 2 1] of_nat_gf_inject [of 6 1] of_nat_gf_inject [of 10 1] by simp_all

lemma gf_step1: "fst (dkg_step1 two_of_two gf_rng) = [1, 2]"
proof -
  have "[0..<2] = [0, 1 :: nat]" by (simp add: upt_rec)
  then show ?thesis by (simp add: dkg_step1_def two_of_two_def random_scalar_def gf_rng_def)
qed

end
