(* ===== verification/WitnessesProtocols.thy ===== *)
theory WitnessesProtocols
  imports Witnesses ProtocolRuns
begin

text \<open>
  Instances of the protocol properties: a group of two parties over the field of 257 elements
  signs and derives, and \<open>flat_suite\<close> runs key generation.
\<close>

section \<open>A commitment opened twice\<close>

lemma commitment_binding_witness:
  "tagged_encoding TAG_COMMITMENT [[0], [1]] \<noteq> tagged_encoding TAG_COMMITMENT [[0], [2]] \<and>
     sha256 flat_suite (tagged_encoding TAG_COMMITMENT [[0], [1]]) = sha256 flat_suite (tagged_encoding TAG_COMMITMENT [[0], [2]])"
  by (rule commitment_binding [where m = "[1]" and m' = "[2]" and c = flat_hash and d = "[0]" and d' = "[0]"])
    (simp_all add: verify_commitment_def flat_tagged_hash small_bytes_def)

section \<open>A group of two parties\<close>

lemma btree_wf_one: "btree_wf [(k, v)]"
  by (simp add: btree_wf_def)

lemma gf_mult_generator: "smul gf_suite (generator gf_suite) a = a"
  by (simp add: gf_suite_def)

definition other_party :: "party_index \<Rightarrow> party_index" where
  "other_party i = (if i = PartyIndex 1 then PartyIndex 2 else PartyIndex 1)"

definition pair_member :: "party_index \<Rightarrow> (gf, gf) party" where
  "pair_member i =
     \<lparr>party_parameters = two_of_two, party_index_of = i, party_session_id = [1],
      poly_point = share_of [3, 1] i, pk = 3,
      zero_share_of = honest_zero_share [PartyIndex 1, PartyIndex 2] (\<lambda>_ _. replicate 32 0) i,
      mul_senders = [(other_party i, example_mul_sender)], mul_receivers = [(other_party i, example_mul_receiver)],
      derivation_data = \<lparr>depth = 0, child_number = 0, parent_fingerprint = [0, 0, 0, 0],
        dd_poly_point = share_of [3, 1] i, dd_pk = 3, chain_code = replicate 32 0\<rparr>, address = ''''\<rparr>"

definition pair_data :: "party_index \<Rightarrow> sign_data" where
  "pair_data i = \<lparr>sign_id = [9], counterparties = [other_party i], message_hash = replicate 32 0\<rparr>"

lemma pair_group: "group_ok gf_suite [3, 1] two_of_two [1] (replicate 32 0) [PartyIndex 1, PartyIndex 2] pair_member"
proof -
  have "zero_shares_agree [PartyIndex 1, PartyIndex 2] (\<lambda>i. zero_share_of (pair_member i))"
    unfolding pair_member_def party.simps by (rule honest_zero_shares_agree) simp
  moreover have "member_ok gf_suite [3, 1] two_of_two [1] (replicate 32 0) i (pair_member i)"
    if "i \<in> set [PartyIndex 1, PartyIndex 2]" for i
    using that by (auto simp: member_ok_def pair_member_def two_of_two_def party_ok_def btree_keys_def secret_of_def gf_mult_generator btree_wf_one)
  moreover have "mul_states_paired [PartyIndex 1, PartyIndex 2] pair_member"
    using example_mul_paired by (auto simp: mul_states_paired_def pair_member_def other_party_def btree_get_def)
  ultimately show ?thesis by (simp add: group_ok_def two_of_two_def)
qed

lemma pair_signers: "signers_ok two_of_two [PartyIndex 1, PartyIndex 2] pair_data [9] (replicate 32 0)"
  by (auto simp: signers_ok_def pair_data_def two_of_two_def other_party_def)

lemma derivation_keeps_group_witness:
  "\<exists>tweak cc' pty'. (\<forall>j\<in>{PartyIndex 1, PartyIndex 2}. party_derive_child gf_suite (\<lambda>_. '''') (pair_member j) 7 = Ok (pty' j)) \<and>
     group_ok gf_suite [3 + tweak, 1] two_of_two [1] cc' [PartyIndex 1, PartyIndex 2] pty'"
proof -
  have "\<exists>d'. derive_child gf_suite (derivation_data (pair_member (PartyIndex 1))) 7 = Ok d'"
    using gf_derive_child [of "derivation_data (pair_member (PartyIndex 1))" 7] gf3
    by (auto simp: pair_member_def MAX_DEPTH_def MAX_CHILD_NUMBER_def)
  then obtain p' where p': "party_derive_child gf_suite (\<lambda>_. '''') (pair_member (PartyIndex 1)) 7 = Ok p'"
    by (auto simp: party_derive_child_def)
  have deep: "depth (derivation_data (pair_member j)) \<noteq> MAX_DEPTH" for j by (simp add: pair_member_def MAX_DEPTH_def)
  have "PartyIndex 1 \<in> set [PartyIndex 1, PartyIndex 2]" by simp
  from derivation_keeps_group [OF gf_suite_ok pair_group this p' deep] show ?thesis by auto
qed

section \<open>Signing\<close>

lemma verify_ecdsa_correct_witness:
  "verify_ecdsa_signature gf_suite [0] 3 (hex_encode gf_suite (to_repr gf_suite 2)) (hex_encode gf_suite (to_repr gf_suite 3)) \<longleftrightarrow>
     ecdsa_valid gf_suite [0] 3 2 3"
proof -
  have "hex_decode gf_suite FIELD_BYTES (hex_encode gf_suite (to_repr gf_suite a)) = Some (to_repr gf_suite a)" for a
    by (rule hex_decode_encode [OF gf_encodings_ok]) (simp add: length_to_repr [OF gf_encodings_ok] FIELD_BYTES_def)
  moreover have "to_repr gf_suite a = to_repr gf_suite b \<longleftrightarrow> a = b" for a b
    using from_to_repr [OF gf_encodings_ok, of a] from_to_repr [OF gf_encodings_ok, of b] by (metis option.inject)
  ultimately show ?thesis by (simp add: verify_ecdsa_correct [OF gf_suite_ok])
qed

lemma gf_x_two: "from_repr gf_suite (affine_x gf_suite (smul gf_suite (generator gf_suite) 2)) = Some 2"
proof -
  have "rep_gf 2 = 2" "rep_gf (- 2) = 255" using rep_of_nat_gf [of 2] by (simp_all add: uminus_gf.rep_eq)
  then have "gf_x 2 = gf_repr 2" by (simp add: gf_x_def)
  then show ?thesis using from_to_repr [OF gf_encodings_ok, of 2] by (simp add: gf_suite_def)
qed

lemma gf_reduce_zero: "reduce gf_suite (replicate 32 0) = 0"
  by (simp add: gf_suite_def gf_value_zeros)

text \<open>Nonce 2 and secret 3 sign the zero hash with \<open>s = 6 / 2\<close>.\<close>

lemma gf_half: "(6 :: gf) * inverse 2 = 3"
  using gf_nonzero(1) by (simp add: field_simps)

lemma pair_phase4:
  "\<exists>rec_id. sign_phase4 gf_suite (pair_member (PartyIndex 1)) (pair_data (PartyIndex 1))
       (hex_encode gf_suite (affine_x gf_suite (smul gf_suite (generator gf_suite) 2)))
       [\<lparr>bc_u = 2, bc_w = 6\<rparr>] False = Ok (hex_encode gf_suite (to_repr gf_suite 3), rec_id)"
  by (rule sign_phase4_honest(1) [OF gf_suite_ok, where x = 3 and h = "replicate 32 0" and k = 2 and phi = 1 and r = 2 and t = 3])
    (simp_all add: gf_x_two [unfolded gf_mult_generator] gf_half gf_nonzero gf_reduce_zero pair_member_def pair_data_def gf_mult_generator)

lemma sign_phase4_sound_witness:
  "\<exists>x_coord sig rec_id. sign_phase4 gf_suite (pair_member (PartyIndex 1)) (pair_data (PartyIndex 1)) x_coord
       [\<lparr>bc_u = 2, bc_w = 6\<rparr>] False = Ok (sig, rec_id) \<and>
     verify_ecdsa_signature gf_suite (replicate 32 0) 3 x_coord sig"
proof -
  let ?x = "hex_encode gf_suite (affine_x gf_suite (smul gf_suite (generator gf_suite) 2))"
  obtain rec_id where ok: "sign_phase4 gf_suite (pair_member (PartyIndex 1)) (pair_data (PartyIndex 1)) ?x
       [\<lparr>bc_u = 2, bc_w = 6\<rparr>] False = Ok (hex_encode gf_suite (to_repr gf_suite 3), rec_id)"
    using pair_phase4 by blast
  from sign_phase4_sound [OF gf_suite_ok ok] ok show ?thesis by (auto simp: pair_member_def pair_data_def)
qed

lemma sign_phase1_keys:
  assumes "sign_phase1 S oc p d r = Ok ((uk, keep, tr), r')"
  shows "uk1_instance_key uk = fst (random_scalar r)" "uk1_inversion_mask uk = fst (random_scalar (snd (random_scalar r)))"
  using assms by (auto simp: sign_phase1_def Let_def outcome_simps split: if_splits prod.splits)

lemma gf_rng_keys: "fst (random_scalar gf_rng) = 1" "fst (random_scalar (snd (random_scalar gf_rng))) = 2"
  by (simp_all add: random_scalar_def gf_rng_def)

text \<open>Phase 1 of both parties, and what \<open>signing_correct\<close> asks of its results.\<close>

lemma pair_phase1:
  "\<exists>uk keep tr r'. \<forall>i\<in>{PartyIndex 1, PartyIndex 2}.
     sign_phase1 gf_suite True (pair_member i) (pair_data i) gf_rng = Ok ((uk i, keep i, tr i), r' i) \<and>
     uk1_instance_key (uk i) = 1 \<and> uk1_inversion_mask (uk i) = 2"
proof -
  define P where "P = (\<lambda>i uk keep tr r'. sign_phase1 gf_suite True (pair_member i) (pair_data i) gf_rng = Ok ((uk, keep, tr), r') \<and>
     uk1_instance_key uk = 1 \<and> uk1_inversion_mask uk = 2)"
  have "\<exists>uk keep tr r'. P i uk keep tr r'" if i: "i \<in> set [PartyIndex 1, PartyIndex 2]" for i
  proof -
    obtain uk keep tr r' where ok: "sign_phase1 gf_suite True (pair_member i) (pair_data i) gf_rng = Ok ((uk, keep, tr), r')"
      using sign_phase1_total [OF gf_suite_ok pair_group pair_signers i] by (metis prod.exhaust)
    with sign_phase1_keys [OF ok] show ?thesis by (auto simp: P_def gf_rng_keys)
  qed
  then obtain uk keep tr r' where "\<forall>i\<in>set [PartyIndex 1, PartyIndex 2]. P i (uk i) (keep i) (tr i) (r' i)" by metis
  then show ?thesis unfolding P_def by auto
qed

text \<open>The rest of the run, for a proof of it from the results of the first phase.\<close>

abbreviation (input) "pair_qs \<equiv> [PartyIndex 1, PartyIndex 2]"

definition pair_signed ::
  "(party_index \<Rightarrow> (gf, gf) unique_keep_1to2) \<Rightarrow> (party_index \<Rightarrow> (party_index, gf keep_phase_1to2) btree_map)
   \<Rightarrow> (party_index \<Rightarrow> transmit_phase_1to2 list) \<Rightarrow> bool" where
  "pair_signed uk keep tr \<longleftrightarrow> (\<exists>uk2 keep2 tr2 q2.
     (\<forall>i\<in>set pair_qs. sign_phase2 gf_suite True (pair_member i) (pair_data i) (uk i) (keep i) (addressed_to t1_parties pair_qs tr i) gf_rng =
        Ok ((uk2 i, keep2 i, tr2 i), q2 i)) \<and>
     (\<forall>rcv3. (\<forall>i\<in>set pair_qs. mset (rcv3 i) = mset (addressed_to t2_parties pair_qs tr2 i)) \<longrightarrow>
        (\<exists>x_coord bc. (\<forall>i\<in>set pair_qs. sign_phase3 gf_suite (pair_member i) (pair_data i) (uk2 i) (keep2 i) (rcv3 i) = Ok (x_coord, bc i)) \<and>
           (\<forall>ms. mset ms = mset (map bc pair_qs) \<longrightarrow>
              (\<exists>rec_id. \<forall>i\<in>set pair_qs. sign_phase4 gf_suite (pair_member i) (pair_data i) x_coord ms False =
                 Ok (hex_encode gf_suite (to_repr gf_suite 3), rec_id))) \<and>
           verify_ecdsa_signature gf_suite (replicate 32 0) (smul gf_suite (generator gf_suite) (secret_of [3, 1])) x_coord
             (hex_encode gf_suite (to_repr gf_suite 3)))))"

lemma pair_secret: "secret_of [3, 1 :: gf] = 3"
  by (simp add: secret_of_def)

lemma pair_signed_run:
  assumes "pair_signed uk keep tr"
  shows "\<exists>uk2 keep2 rcv3 x_coord bc ms rec_id. \<forall>i\<in>set pair_qs.
     sign_phase3 gf_suite (pair_member i) (pair_data i) (uk2 i) (keep2 i) (rcv3 i) = Ok (x_coord, bc i) \<and>
     sign_phase4 gf_suite (pair_member i) (pair_data i) x_coord ms False = Ok (hex_encode gf_suite (to_repr gf_suite 3), rec_id) \<and>
     verify_ecdsa_signature gf_suite (replicate 32 0) 3 x_coord (hex_encode gf_suite (to_repr gf_suite 3))"
proof -
  obtain uk2 keep2 tr2 x_coord bc where
    p3: "\<forall>i\<in>set pair_qs. sign_phase3 gf_suite (pair_member i) (pair_data i) (uk2 i) (keep2 i) (addressed_to t2_parties pair_qs tr2 i) = Ok (x_coord, bc i)"
    and p4: "\<forall>ms. mset ms = mset (map bc pair_qs) \<longrightarrow>
              (\<exists>rec_id. \<forall>i\<in>set pair_qs. sign_phase4 gf_suite (pair_member i) (pair_data i) x_coord ms False =
                 Ok (hex_encode gf_suite (to_repr gf_suite 3), rec_id))"
    and v: "verify_ecdsa_signature gf_suite (replicate 32 0) 3 x_coord (hex_encode gf_suite (to_repr gf_suite 3))"
    using assms unfolding pair_signed_def pair_secret gf_mult_generator by blast
  from p4 obtain rec_id where "\<forall>i\<in>set pair_qs. sign_phase4 gf_suite (pair_member i) (pair_data i) x_coord (map bc pair_qs) False =
                 Ok (hex_encode gf_suite (to_repr gf_suite 3), rec_id)" by blast
  with p3 v show ?thesis
    by (intro exI [of _ x_coord] exI [of _ uk2] exI [of _ keep2] exI [of _ "addressed_to t2_parties pair_qs tr2"] exI [of _ bc]
        exI [of _ "map bc pair_qs"] exI [of _ rec_id]) simp
qed

lemma signing_correct_witness:
  "\<exists>uk2 keep2 rcv3 x_coord bc ms rec_id. \<forall>i\<in>set pair_qs.
     sign_phase3 gf_suite (pair_member i) (pair_data i) (uk2 i) (keep2 i) (rcv3 i) = Ok (x_coord, bc i) \<and>
     sign_phase4 gf_suite (pair_member i) (pair_data i) x_coord ms False = Ok (hex_encode gf_suite (to_repr gf_suite 3), rec_id) \<and>
     verify_ecdsa_signature gf_suite (replicate 32 0) 3 x_coord (hex_encode gf_suite (to_repr gf_suite 3))"
proof -
  obtain uk keep tr r' where "\<forall>i\<in>{PartyIndex 1, PartyIndex 2}.
     sign_phase1 gf_suite True (pair_member i) (pair_data i) gf_rng = Ok ((uk i, keep i, tr i), r' i) \<and>
     uk1_instance_key (uk i) = 1 \<and> uk1_inversion_mask (uk i) = 2" using pair_phase1 by blast
  then have ph1: "\<And>i. i \<in> set pair_qs \<Longrightarrow> sign_phase1 gf_suite True (pair_member i) (pair_data i) gf_rng = Ok ((uk i, keep i, tr i), r' i)"
    and keys: "\<And>i. i \<in> set pair_qs \<Longrightarrow> uk1_instance_key (uk i) = 1" "\<And>i. i \<in> set pair_qs \<Longrightarrow> uk1_inversion_mask (uk i) = 2"
    by auto
  have "pair_signed uk keep tr"
    unfolding pair_signed_def
    by (rule signing_correct [OF gf_suite_ok pair_group _ pair_signers ph1, where k = 2 and rx = 2 and t = 3])
      (simp_all add: keys gf_x_two gf_reduce_zero pair_secret gf_half gf_nonzero gf3)
  then show ?thesis by (rule pair_signed_run)
qed

lemma sign_phase3_sound_witness:
  "\<exists>uk2 keep2 received x_coord bc.
     sign_phase3 gf_suite (pair_member (PartyIndex 1)) (pair_data (PartyIndex 1)) uk2 keep2 received = Ok (x_coord, bc) \<and>
     length received = 1 \<and> 3 = uk2_public_share uk2 + (\<Sum>m\<leftarrow>received. t2_public_share m)"
proof -
  obtain uk keep tr r' where "\<forall>i\<in>{PartyIndex 1, PartyIndex 2}.
     sign_phase1 gf_suite True (pair_member i) (pair_data i) gf_rng = Ok ((uk i, keep i, tr i), r' i) \<and>
     uk1_instance_key (uk i) = 1 \<and> uk1_inversion_mask (uk i) = 2" using pair_phase1 by blast
  then have ph1: "\<And>i. i \<in> set pair_qs \<Longrightarrow> sign_phase1 gf_suite True (pair_member i) (pair_data i) gf_rng = Ok ((uk i, keep i, tr i), r' i)"
    and keys: "\<And>i. i \<in> set pair_qs \<Longrightarrow> uk1_instance_key (uk i) = 1" "\<And>i. i \<in> set pair_qs \<Longrightarrow> uk1_inversion_mask (uk i) = 2"
    by auto
  have "pair_signed uk keep tr"
    unfolding pair_signed_def
    by (rule signing_completes [OF gf_suite_ok pair_group _ pair_signers ph1, where k = 2 and rx = 2 and t = 3])
      (simp_all add: keys gf_x_two gf_reduce_zero pair_secret gf_half gf_nonzero gf3)
  then obtain uk2 keep2 rcv3 x_coord bc where
    ok: "sign_phase3 gf_suite (pair_member (PartyIndex 1)) (pair_data (PartyIndex 1)) uk2 keep2 rcv3 = Ok (x_coord, bc)"
    using pair_signed_run by (metis list.set_intros(1))
  from sign_phase3_sound [OF ok] ok show ?thesis
    by (intro exI [of _ uk2] exI [of _ keep2] exI [of _ rcv3] exI [of _ x_coord] exI [of _ bc])
      (simp add: pair_member_def pair_data_def)
qed

text \<open>A first-round message of the wrong shape bans its sender.\<close>

definition garbage_round1 :: transmit_phase_1to2 where
  "garbage_round1 = \<lparr>t1_parties = \<lparr>sender = PartyIndex 2, receiver = PartyIndex 1\<rparr>, t1_commitment = [],
     t1_mul_transmit = \<lparr>ote_u = [], verify_x = [], verify_t = []\<rparr>\<rparr>"

lemma example_sender_refuses:
  "\<exists>e. mul_sender_run gf_suite example_mul_sender sid inp \<lparr>ote_u = [], verify_x = [], verify_t = []\<rparr> r = Err e"
  by (simp add: mul_sender_run_def ote_sender_run_def KAPPA_def split_def Let_def)

lemma sign_abort_blame_witness:
  "\<forall>uk k. \<exists>a why q ks. sign_phase2 gf_suite True (pair_member (PartyIndex 1)) (pair_data (PartyIndex 1)) uk
       [(PartyIndex 2, k)] [garbage_round1] gf_rng = Err a \<and>
     index_of a = PartyIndex 1 \<and> a = ban (PartyIndex 1) (PartyIndex 2) why \<and>
     sign_caught_early gf_suite (pair_member (PartyIndex 1)) (pair_data (PartyIndex 1)) uk [(PartyIndex 2, k)] ks q garbage_round1 why"
proof (intro allI)
  fix uk :: "(gf, gf) unique_keep_1to2" and k :: "gf keep_phase_1to2"
  let ?p = "pair_member (PartyIndex 1)" and ?d = "pair_data (PartyIndex 1)"
  let ?E' = "\<lambda>e. ban (PartyIndex 1) (PartyIndex 2) (MultiplicationVerificationFailed (PartyIndex 2) (mul_detail e))"
  let ?E = "\<lambda>e. Err (?E' e)"
  have o: "other_party (PartyIndex 1) = PartyIndex 2" by (simp add: other_party_def)
  have "\<exists>e. sign_phase2_step gf_suite ?p ?d uk [(PartyIndex 2, k)] ks ps (([], [], []), r) garbage_round1 = ?E e" for ks ps r
    using example_sender_refuses [of "sign_mul_sid ?p ?d (PartyIndex 2) (PartyIndex 1)" "[uk1_instance_key uk, ks]" r] o
    by (auto simp: sign_phase2_step_def sign_check_header_def sign_check_fresh_def garbage_round1_def Let_def
        pair_member_def pair_data_def btree_get_def)
  then obtain e where step: "\<And>ks ps r. sign_phase2_step gf_suite ?p ?d uk [(PartyIndex 2, k)] ks ps (([], [], []), r) garbage_round1 =
      ?E (e ks ps r)" by metis
  have "sign_lagrange (map as_u8 (counterparties ?d)) (as_u8 (party_index_of ?p)) = (2, 1 :: gf)"
    by (simp add: sign_lagrange_def pair_data_def pair_member_def other_party_def scalar_of_u8_def)
  moreover have "u8_sub True (threshold (party_parameters ?p)) 1 = (Ok 1 :: (abort, u8) outcome)"
    by (simp add: u8_sub_def pair_member_def two_of_two_def)
  moreover have "length (counterparties ?d) = 1" "party_index_of ?p = PartyIndex 1"
    by (simp_all add: pair_data_def pair_member_def)
  ultimately have "\<exists>e. sign_phase2 gf_suite True ?p ?d uk [(PartyIndex 2, k)] [garbage_round1] gf_rng = ?E e"
    using step by (auto simp: sign_phase2_def invert_def Let_def)
  then obtain e' where err: "sign_phase2 gf_suite True ?p ?d uk [(PartyIndex 2, k)] [garbage_round1] gf_rng = ?E e'" by blast
  moreover have "kind (ban (PartyIndex 1) (PartyIndex 2) (MultiplicationVerificationFailed (PartyIndex 2) (mul_detail e'))) =
      BanCounterparty (PartyIndex 2)" by (simp add: ban_def)
  moreover note blame = sign_abort_blame [where S = gf_suite and oc = True and p = ?p and d = ?d and ?uk1.0 = uk
      and ?kept1.0 = "[(PartyIndex 2, k)]" and ?received1.0 = "[garbage_round1]" and r = gf_rng and c = "PartyIndex 2"]
  ultimately obtain ks m ms ms' q why where "[garbage_round1] = ms @ m # ms'" "sign_caught_early gf_suite ?p ?d uk [(PartyIndex 2, k)] ks q m why"
      "?E' e' = ban (party_index_of ?p) (PartyIndex 2) why" by metis
  moreover from this have "m = garbage_round1" by (auto simp: Cons_eq_append_conv)
  moreover have "party_index_of ?p = PartyIndex 1" by (simp add: pair_member_def)
  ultimately show "\<exists>a why q ks. sign_phase2 gf_suite True ?p ?d uk [(PartyIndex 2, k)] [garbage_round1] gf_rng = Err a \<and>
     index_of a = PartyIndex 1 \<and> a = ban (PartyIndex 1) (PartyIndex 2) why \<and>
     sign_caught_early gf_suite ?p ?d uk [(PartyIndex 2, k)] ks q garbage_round1 why"
    using err by (metis ban_simps(1))
qed

section \<open>Key generation\<close>

lemma pair_dkg_shares:
  assumes "dkg_rounds flat_suite oc two_of_two sid (\<lambda>_. gf_rng) out2 out3" and i: "i \<in> set (all_parties (share_count two_of_two))"
  shows "share_out (out2 i) \<noteq> 0 \<and> share_out (out2 i) \<noteq> 1"
proof -
  have two: "share_count two_of_two = 2" "threshold two_of_two = 2" by (simp_all add: two_of_two_def)
  have "valid_parameters two_of_two" by (simp add: valid_parameters_def two)
  from dkg_rounds_polynomial [OF this assms(1)] obtain F where
    F: "\<forall>i. share_of F i = (\<Sum>j\<in>set (all_parties 2). share_of [1, 2] i)" "\<forall>i\<in>set (all_parties 2). share_out (out2 i) = share_of F i"
    by (auto simp: gf_step1 two)
  have "share_of [1, 2] (PartyIndex 1) = (3 :: gf)" "share_of [1, 2] (PartyIndex 2) = (5 :: gf)"
    by (simp_all add: share_of_def scalar_of_u8_def)
  then have "share_of F (PartyIndex 1) = 6" "share_of F (PartyIndex 2) = 10" using F(1) by (simp_all add: two_parties)
  then show ?thesis using F(2) i gf_nonzero by (auto simp: two_parties two)
qed

lemma pair_dkg:
  "\<exists>out2 out3. dkg_rounds flat_suite oc two_of_two sid (\<lambda>_. gf_rng) out2 out3 \<and>
     (\<forall>i\<in>set (all_parties 2). distinct (rand_commitments (pc_proof (proof_out (out2 i)))) \<and>
        (\<forall>m\<in>set (mul_out (out3 i)). distinct (rand_commitments (tm_dlog_proof m))) \<and>
        share_out (out2 i) \<noteq> 0 \<and> share_out (out2 i) \<noteq> 1)"
proof -
  have two: "share_count two_of_two = 2" "threshold two_of_two = 2" by (simp_all add: two_of_two_def)
  obtain out2 out3 where r: "dkg_rounds flat_suite oc two_of_two sid (\<lambda>_. gf_rng) out2 out3"
    and d: "\<forall>i\<in>set (all_parties 2). distinct (rand_commitments (pc_proof (proof_out (out2 i)))) \<and>
        (\<forall>m\<in>set (mul_out (out3 i)). distinct (rand_commitments (tm_dlog_proof m)))"
    using flat_dkg_rounds [OF rng_cycle_gf_rng, of two_of_two oc sid] by (auto simp: two)
  have "\<forall>i\<in>set (all_parties 2). share_out (out2 i) \<noteq> 0 \<and> share_out (out2 i) \<noteq> 1"
    using pair_dkg_shares [OF r] by (simp add: two)
  with r d show ?thesis by blast
qed

lemma pair_dkg_secret: "(\<Sum>j\<in>set (all_parties 2). secret_of (fst (dkg_step1 two_of_two gf_rng))) = (2 :: gf)"
  by (simp add: gf_step1 two_parties secret_of_def)

text \<open>What phase 4 says of the run, for a proof of it from the first three phases.\<close>

abbreviation (input) "two_all \<equiv> all_parties (share_count two_of_two)"

definition pair_formed ::
  "(party_index \<Rightarrow> gf \<times> (gf, gf) proof_commitment \<times> transmit_zero_2to4 list \<times> broadcast_derivation_2to4)
   \<Rightarrow> (party_index \<Rightarrow> (party_index, keep_zero_3to4) btree_map \<times> transmit_zero_3to4 list
        \<times> (party_index, (gf, gf) keep_mul_3to4) btree_map \<times> (gf, gf) transmit_mul_3to4 list \<times> broadcast_derivation_3to4)
   \<Rightarrow> bool" where
  "pair_formed out2 out3 \<longleftrightarrow> (\<exists>F cc pty pkg. secret_of F = (2 :: gf) \<and>
     (\<forall>i\<in>set two_all. dkg_phase4 flat_suite True \<lparr>sd_parameters = two_of_two, sd_party_index = i, sd_session_id = [1]\<rparr> (share_out (out2 i))
        (map (\<lambda>j. proof_out (out2 j)) two_all) (zero_kept (out3 i))
        (addressed_to z2_parties two_all (\<lambda>j. seeds2_out (out2 j)) i)
        (addressed_to z3_parties two_all (\<lambda>j. seeds3_out (out3 j)) i) (mul_kept (out3 i))
        (addressed_to tm_parties two_all (\<lambda>j. mul_out (out3 j)) i)
        (map (\<lambda>j. (j, chain2_out (out2 j))) two_all)
        (map (\<lambda>j. (j, chain3_out (out3 j))) two_all) (\<lambda>_. '''') = Ok (pty i, pkg i)) \<and>
     group_ok flat_suite F two_of_two [1] cc two_all pty \<and>
     (\<forall>i\<in>set two_all. verifying_key (pkg i) = smul flat_suite (generator flat_suite) 2 \<and>
        (\<forall>j\<in>set two_all. verifying_share (pkg i) j = Some (smul flat_suite (generator flat_suite) (share_of F j)))))"

lemma pair_run:
  "\<exists>out2 out3. dkg_rounds flat_suite True two_of_two [1] (\<lambda>_. gf_rng) out2 out3 \<and> pair_formed out2 out3"
proof -
  obtain out2 out3 where r: "dkg_rounds flat_suite True two_of_two [1] (\<lambda>_. gf_rng) out2 out3"
    and d: "\<forall>i\<in>set two_all. distinct (rand_commitments (pc_proof (proof_out (out2 i)))) \<and>
        (\<forall>m\<in>set (mul_out (out3 i)). distinct (rand_commitments (tm_dlog_proof m))) \<and>
        share_out (out2 i) \<noteq> 0 \<and> share_out (out2 i) \<noteq> 1"
    using pair_dkg [of True "[1]"] by (auto simp: two_of_two_def)
  have "pair_formed out2 out3"
    unfolding pair_formed_def
    by (rule dkg_forms_group [OF flat_suite_ok _ _ r refl _ _ _ _ _ _ dkg_delivered_in_order])
      (use d gf_nonzero pair_dkg_secret in \<open>simp_all add: valid_parameters_def two_of_two_def\<close>)
  with r show ?thesis by blast
qed

lemma dkg_correct_witness:
  "\<exists>F cc pty. secret_of F = (2 :: gf) \<and> group_ok flat_suite F two_of_two [1] cc (all_parties (share_count two_of_two)) pty"
proof -
  obtain out2 out3 where r: "dkg_rounds flat_suite True two_of_two [1] (\<lambda>_. gf_rng) out2 out3"
    and d: "\<forall>i\<in>set two_all. distinct (rand_commitments (pc_proof (proof_out (out2 i)))) \<and>
        (\<forall>m\<in>set (mul_out (out3 i)). distinct (rand_commitments (tm_dlog_proof m))) \<and>
        share_out (out2 i) \<noteq> 0 \<and> share_out (out2 i) \<noteq> 1"
    using pair_dkg [of True "[1]"] by (auto simp: two_of_two_def)
  have "pair_formed out2 out3"
    unfolding pair_formed_def
    by (rule dkg_correct [OF flat_suite_ok _ _ r refl _ _ _ _ _ _ dkg_delivered_in_order])
      (use d gf_nonzero pair_dkg_secret in \<open>simp_all add: valid_parameters_def two_of_two_def\<close>)
  then show ?thesis unfolding pair_formed_def by blast
qed

lemma dkg_phase4_sound_witness:
  "\<exists>data pp pcs zk z2 z3 mk mr b2 b3 pty pkg.
     dkg_phase4 flat_suite True data pp pcs zk z2 z3 mk mr b2 b3 (\<lambda>_. '''') = Ok (pty, pkg) \<and> party_ok pty \<and> pp \<noteq> 0"
proof -
  obtain out2 out3 where r: "dkg_rounds flat_suite True two_of_two [1] (\<lambda>_. gf_rng) out2 out3" and "pair_formed out2 out3"
    using pair_run by blast
  moreover have one: "PartyIndex 1 \<in> set two_all" by (simp add: two_of_two_def two_parties)
  moreover obtain sd M2 M3 L N where "dkg_sent flat_suite two_of_two [1] (PartyIndex 1) (out2 (PartyIndex 1)) (out3 (PartyIndex 1)) sd M2 M3 L N"
    using dkg_rounds_sent [OF r one] by blast
  then have "mul_kept (out3 (PartyIndex 1)) = map (\<lambda>j. (j, L j)) (others (share_count two_of_two) (PartyIndex 1))"
    by (simp add: dkg_sent_def muls_sent_def)
  then have wf: "btree_wf (mul_kept (out3 (PartyIndex 1)))"
    using others_simps(3) by (simp add: btree_wf_def comp_def)
  ultimately obtain pty pkg data pp pcs zk z2 z3 mr b2 b3 where
    ok: "dkg_phase4 flat_suite True data pp pcs zk z2 z3 (mul_kept (out3 (PartyIndex 1))) mr b2 b3 (\<lambda>_. '''') = Ok (pty, pkg)"
    unfolding pair_formed_def by blast
  from dkg_phase4_sound [OF ok wf] ok show ?thesis by blast
qed

end
