(* ===== verification/Sessions.thy ===== *)
theory Sessions
  imports Prelude
begin

text \<open>
  What the two session types promise, apart from any protocol: the phases of a session
  succeed in order, each at most once. \<open>runs\<close> are sequences of calls with their results;
  the locale states the contract of one call and concludes what holds of whole runs.
\<close>

text \<open>
  The \<open>?\<close> of a method with \<open>&mut self\<close>: on success the rest computes the result and the new
  session; otherwise the session stays as it is at this point.
\<close>

fun then_store :: "('e, 'a) outcome \<Rightarrow> 's \<Rightarrow> ('a \<Rightarrow> 'b \<times> 's) \<Rightarrow> ('e, 'b) outcome \<times> 's" where
  "then_store (Ok a) s f = (let (b, s') = f a in (Ok b, s'))"
| "then_store (Err e) s f = (Err e, s)"
| "then_store Panic s f = (Panic, s)"
| "then_store Diverge s f = (Diverge, s)"

fun is_ok :: "('e, 'a) outcome \<Rightarrow> bool" where
  "is_ok (Ok _) = True"
| "is_ok _ = False"

lemma is_ok_iff: "is_ok x \<longleftrightarrow> (\<exists>a. x = Ok a)"
  by (cases x) simp_all

lemma then_store_eq:
  "then_store x s f = (Ok b, s') \<longleftrightarrow> (\<exists>a. x = Ok a \<and> f a = (b, s'))"
  "\<not> is_ok x \<Longrightarrow> snd (then_store x s f) = s \<and> \<not> is_ok (fst (then_store x s f))"
  by (cases x; simp add: split_def Let_def prod_eq_iff)+

inductive runs :: "('s \<Rightarrow> 'c \<Rightarrow> bool \<Rightarrow> 's \<Rightarrow> bool) \<Rightarrow> 's \<Rightarrow> ('c \<times> bool) list \<Rightarrow> 's \<Rightarrow> bool"
  for step where
  stop: "runs step s [] s"
| call: "runs step s trace s' \<Longrightarrow> step s' c ok s'' \<Longrightarrow> runs step s (trace @ [(c, ok)]) s''"

inductive_cases runs_emptyE: "runs step s [] s'"
inductive_simps runs_snoc_iff: "runs step s (trace @ [x]) s'"

lemma runs_one: "step s c ok s' \<Longrightarrow> runs step s [(c, ok)] s'"
  using runs.call [OF runs.stop, of step s c ok s'] by simp

lemma runs_two: "step s c ok s' \<Longrightarrow> step s' c' ok' s'' \<Longrightarrow> runs step s [(c, ok), (c', ok')] s''"
  using runs.call [OF runs_one, of step s c ok s' c' ok' s''] by simp

text \<open>The calls of a run that succeeded.\<close>

definition successes :: "('c \<times> bool) list \<Rightarrow> 'c list" where
  "successes trace = map fst (filter snd trace)"

lemma successes_simps [simp]:
  "successes [] = []" "successes (trace @ [(c, True)]) = successes trace @ [c]"
  "successes (trace @ [(c, False)]) = successes trace"
  by (simp_all add: successes_def)

locale one_shot_phases =
  fixes step :: "'s \<Rightarrow> 'c \<Rightarrow> bool \<Rightarrow> 's \<Rightarrow> bool"
    and phase :: "'c \<Rightarrow> nat"
    and expected :: "'s \<Rightarrow> nat"
    and inv :: "'s \<Rightarrow> bool"
  assumes kept: "inv s \<Longrightarrow> step s c ok s' \<Longrightarrow> inv s'"
    and success: "inv s \<Longrightarrow> step s c True s' \<Longrightarrow> expected s = phase c \<and> expected s' = Suc (phase c)"
    and failure: "inv s \<Longrightarrow> step s c False s' \<Longrightarrow> expected s' = expected s \<or> (\<forall>c'. phase c' \<noteq> expected s')"
begin

lemma run_inv: "runs step s trace s' \<Longrightarrow> inv s \<Longrightarrow> inv s'"
  by (induction rule: runs.induct) (auto intro: kept)

text \<open>
  The phases that succeed are consecutive, from the expected one on; afterwards the next one
  is expected, or the session will never succeed again.
\<close>

lemma in_order:
  "runs step s trace s' \<Longrightarrow> inv s \<Longrightarrow>
     map phase (successes trace) = [expected s..<expected s + length (successes trace)] \<and>
     (expected s' = expected s + length (successes trace) \<or> (\<forall>c. phase c \<noteq> expected s'))"
proof (induction rule: runs.induct)
  case (stop s)
  then show ?case by simp
next
  case (call s trace s' c ok s'')
  note IH = call.IH [OF call.prems] and inv = run_inv [OF call.hyps(1) call.prems]
  show ?case
  proof (cases ok)
    case True
    with success [OF inv] call.hyps(2) have "expected s' = phase c" "expected s'' = Suc (phase c)" by simp_all
    with IH True show ?thesis by auto
  next
    case False
    with failure [OF inv] call.hyps(2) have "expected s'' = expected s' \<or> (\<forall>c. phase c \<noteq> expected s'')" by simp
    with IH False show ?thesis by auto
  qed
qed

lemma at_most_once:
  assumes "runs step s trace s'" and "inv s"
  shows "distinct (map phase (successes trace))"
  using conjunct1 [OF in_order [OF assms]] by (metis distinct_upt)

end

end
