(* ===== verification/DkgSession.thy ===== *)
theory DkgSession
  imports DkgHonest Sessions
begin

text \<open>
  The key-generation session (\<open>protocols/dkg_session.rs\<close>): a mutable record that keeps the
  state between the phases of \<open>Dkg\<close> and refuses phases out of order. Shown here: the phases
  succeed in order and at most once, a refused call changes nothing, a session computes what
  the phases compute, wiping leaves nothing, and honest sessions form a group.
\<close>

record ('f, 'g) dkg_session =
  ds_data :: session_data
  ds_poly_point :: "'f option"
  ds_proof_commitment :: "('f, 'g) proof_commitment option"
  ds_zero_kept_2to3 :: "(party_index, keep_zero_2to3) btree_map option"
  ds_bip_kept_2to3 :: "keep_derivation_2to3 option"
  ds_zero_kept_3to4 :: "(party_index, keep_zero_3to4) btree_map option"
  ds_mul_kept_3to4 :: "(party_index, ('f, 'g) keep_mul_3to4) btree_map option"

definition dkg_session_new :: "parameters \<Rightarrow> party_index \<Rightarrow> bytes \<Rightarrow> ('f, 'g) dkg_session" where
  "dkg_session_new p i session_id =
     \<lparr>ds_data = \<lparr>sd_parameters = p, sd_party_index = i, sd_session_id = session_id\<rparr>,
      ds_poly_point = None, ds_proof_commitment = None, ds_zero_kept_2to3 = None, ds_bip_kept_2to3 = None,
      ds_zero_kept_3to4 = None, ds_mul_kept_3to4 = None\<rparr>"

text \<open>The call succeeds without touching the session.\<close>

definition dkg_session_phase1 ::
  "bool \<Rightarrow> ('f::field, 'g) dkg_session \<Rightarrow> 'f rng \<Rightarrow> ('e, 'f list \<times> 'f rng) outcome" where
  "dkg_session_phase1 oc s r = dkg_phase1 oc (ds_data s) r"

definition out_of_order :: "('f, 'g) dkg_session \<Rightarrow> string \<Rightarrow> abort" where
  "out_of_order s msg = recoverable (sd_party_index (ds_data s)) (PhaseCalledOutOfOrder msg)"

text \<open>
  A method with \<open>&mut self\<close> returns its result and the session as it is afterwards, also when
  the result is an error or a panic.
\<close>

definition dkg_session_phase2 ::
  "('f::field, 'g) suite \<Rightarrow> bool \<Rightarrow> ('f, 'g) dkg_session \<Rightarrow> 'f list \<Rightarrow> 'f rng
   \<Rightarrow> (abort, (('f, 'g) proof_commitment \<times> transmit_zero_2to4 list \<times> broadcast_derivation_2to4) \<times> 'f rng) outcome
      \<times> ('f, 'g) dkg_session" where
  "dkg_session_phase2 S oc s poly_fragments r =
     (if ds_poly_point s \<noteq> None then (Err (out_of_order s ''phase2 already called on this session''), s)
      else then_store (dkg_phase2 S oc (ds_data s) poly_fragments r) s
        (\<lambda>((pp, pc, zero_keep, zero_transmit, bip_keep, bip_broadcast), r').
          (((pc, zero_transmit, bip_broadcast), r'),
           s\<lparr>ds_poly_point := Some pp, ds_proof_commitment := Some pc, ds_zero_kept_2to3 := Some zero_keep,
             ds_bip_kept_2to3 := Some bip_keep\<rparr>)))"

definition dkg_session_phase3 ::
  "('f::field, 'g::ab_group_add) suite \<Rightarrow> bool \<Rightarrow> ('f, 'g) dkg_session \<Rightarrow> 'f rng
   \<Rightarrow> (abort, (transmit_zero_3to4 list \<times> ('f, 'g) transmit_mul_3to4 list \<times> broadcast_derivation_3to4) \<times> 'f rng) outcome
      \<times> ('f, 'g) dkg_session" where
  "dkg_session_phase3 S oc s r =
     (case ds_zero_kept_2to3 s of None \<Rightarrow> (Err (out_of_order s ''phase3 called before phase2''), s)
      | Some zero_kept_2 \<Rightarrow>
     (case ds_bip_kept_2to3 s of None \<Rightarrow> (Err (out_of_order s ''phase3 called before phase2''), s)
      | Some bip_kept \<Rightarrow>
     then_store (dkg_phase3 S oc (ds_data s) zero_kept_2 bip_kept r) s
       (\<lambda>((zero_keep, zero_transmit, mul_keep, mul_transmit, bip_broadcast), r').
         (((zero_transmit, mul_transmit, bip_broadcast), r'),
          s\<lparr>ds_zero_kept_2to3 := None, ds_bip_kept_2to3 := None, ds_zero_kept_3to4 := Some zero_keep,
            ds_mul_kept_3to4 := Some mul_keep\<rparr>))))"

text \<open>The last phase consumes the session.\<close>

definition dkg_session_phase4 ::
  "('f::field, 'g::ab_group_add) suite \<Rightarrow> bool \<Rightarrow> ('f, 'g) dkg_session \<Rightarrow> ('f, 'g) proof_commitment list
   \<Rightarrow> transmit_zero_2to4 list \<Rightarrow> transmit_zero_3to4 list \<Rightarrow> ('f, 'g) transmit_mul_3to4 list
   \<Rightarrow> (party_index, broadcast_derivation_2to4) btree_map \<Rightarrow> (party_index, broadcast_derivation_3to4) btree_map
   \<Rightarrow> ('g \<Rightarrow> string) \<Rightarrow> (abort, ('f, 'g) party \<times> 'g public_key_package) outcome" where
  "dkg_session_phase4 S oc s proofs_commitments zero_received_2 zero_received_3 mul_received bip_received_2
     bip_received_3 address_fn =
     and_then (ok_or (out_of_order s ''phase4 called before phase2'') (ds_poly_point s)) (\<lambda>pp.
     and_then (ok_or (out_of_order s ''phase4 called before phase3'') (ds_zero_kept_3to4 s)) (\<lambda>zero_kept_3.
     and_then (ok_or (out_of_order s ''phase4 called before phase3'') (ds_mul_kept_3to4 s)) (\<lambda>mul_kept_3.
     dkg_phase4 S oc (ds_data s) pp proofs_commitments zero_kept_3 zero_received_2 zero_received_3 mul_kept_3
       mul_received bip_received_2 bip_received_3 address_fn)))"

text \<open>The state as the \<open>Debug\<close> output names it.\<close>

datatype dkg_stage = Initialized | Phase2Complete | Phase3Complete

definition dkg_session_stage :: "('f, 'g) dkg_session \<Rightarrow> dkg_stage" where
  "dkg_session_stage s =
     (if ds_mul_kept_3to4 s \<noteq> None then Phase3Complete
      else if ds_poly_point s \<noteq> None then Phase2Complete
      else Initialized)"

text \<open>Wiping: every kept field is overwritten and dropped, and the session id emptied.\<close>

definition dkg_session_zeroize :: "('f, 'g) dkg_session \<Rightarrow> ('f, 'g) dkg_session" where
  "dkg_session_zeroize s =
     s\<lparr>ds_data := (ds_data s)\<lparr>sd_session_id := []\<rparr>, ds_poly_point := None, ds_proof_commitment := None,
       ds_zero_kept_2to3 := None, ds_bip_kept_2to3 := None, ds_zero_kept_3to4 := None, ds_mul_kept_3to4 := None\<rparr>"

section \<open>Calls\<close>

datatype 'f dkg_call = Phase2 "'f list" "'f rng" | Phase3 "'f rng"

fun dkg_call_phase :: "'f dkg_call \<Rightarrow> nat" where
  "dkg_call_phase (Phase2 _ _) = 2"
| "dkg_call_phase (Phase3 _) = 3"

inductive dkg_session_step ::
  "('f::field, 'g::ab_group_add) suite \<Rightarrow> bool \<Rightarrow> ('f, 'g) dkg_session \<Rightarrow> 'f dkg_call \<Rightarrow> bool \<Rightarrow> ('f, 'g) dkg_session \<Rightarrow> bool"
  for S oc where
  phase2: "dkg_session_phase2 S oc s poly_fragments r = (res, s') \<Longrightarrow>
     dkg_session_step S oc s (Phase2 poly_fragments r) (is_ok res) s'"
| phase3: "dkg_session_phase3 S oc s r = (res, s') \<Longrightarrow> dkg_session_step S oc s (Phase3 r) (is_ok res) s'"

inductive_simps dkg_session_step_simps:
  "dkg_session_step S oc s (Phase2 poly_fragments r) ok s'"
  "dkg_session_step S oc s (Phase3 r) ok s'"

text \<open>The three shapes a session can have, one for each stage.\<close>

definition dkg_session_inv :: "('f, 'g) dkg_session \<Rightarrow> bool" where
  "dkg_session_inv s \<longleftrightarrow>
     (case dkg_session_stage s of
        Initialized \<Rightarrow> ds_poly_point s = None \<and> ds_proof_commitment s = None \<and> ds_zero_kept_2to3 s = None \<and>
          ds_bip_kept_2to3 s = None \<and> ds_zero_kept_3to4 s = None
      | Phase2Complete \<Rightarrow> ds_poly_point s \<noteq> None \<and> ds_proof_commitment s \<noteq> None \<and> ds_zero_kept_2to3 s \<noteq> None \<and>
          ds_bip_kept_2to3 s \<noteq> None \<and> ds_zero_kept_3to4 s = None
      | Phase3Complete \<Rightarrow> ds_poly_point s \<noteq> None \<and> ds_proof_commitment s \<noteq> None \<and> ds_zero_kept_2to3 s = None \<and>
          ds_bip_kept_2to3 s = None \<and> ds_zero_kept_3to4 s \<noteq> None)"

fun dkg_expected :: "dkg_stage \<Rightarrow> nat" where
  "dkg_expected Initialized = 2"
| "dkg_expected Phase2Complete = 3"
| "dkg_expected Phase3Complete = 4"

lemma dkg_session_new_inv: "dkg_session_inv (dkg_session_new p i sid)" "dkg_session_stage (dkg_session_new p i sid) = Initialized"
  by (simp_all add: dkg_session_inv_def dkg_session_stage_def dkg_session_new_def)

text \<open>What one call does, stage by stage.\<close>

lemma dkg_session_fresh:
  assumes "dkg_session_inv s" and "ds_poly_point s = None"
  shows "ds_proof_commitment s = None" "ds_zero_kept_2to3 s = None" "ds_bip_kept_2to3 s = None"
    "ds_zero_kept_3to4 s = None" "ds_mul_kept_3to4 s = None" "dkg_session_stage s = Initialized"
  using assms by (auto simp: dkg_session_inv_def dkg_session_stage_def split: if_splits)

lemma dkg_session_phase2_cases:
  assumes inv: "dkg_session_inv s" and ph: "dkg_session_phase2 S oc s poly_fragments r = (res, s')"
  shows "(is_ok res \<longrightarrow> dkg_session_stage s = Initialized \<and> dkg_session_stage s' = Phase2Complete) \<and>
     (\<not> is_ok res \<longrightarrow> s' = s) \<and> dkg_session_inv s' \<and> ds_data s' = ds_data s"
proof (cases "ds_poly_point s")
  case None
  note fresh = dkg_session_fresh [OF inv None]
  show ?thesis
  proof (cases "dkg_phase2 S oc (ds_data s) poly_fragments r :: (abort, _) outcome")
    case (Ok x)
    obtain pp pc z t b bb r' where x: "x = ((pp, pc, z, t, b, bb), r')" by (metis prod.exhaust)
    show ?thesis using ph None Ok fresh by (auto simp: x dkg_session_phase2_def dkg_session_inv_def dkg_session_stage_def)
  qed (use ph None inv in \<open>auto simp: dkg_session_phase2_def\<close>)
next
  case (Some pp)
  then show ?thesis using ph inv by (auto simp: dkg_session_phase2_def)
qed

lemma dkg_session_phase3_cases:
  assumes "dkg_session_inv s" and "dkg_session_phase3 S oc s r = (res, s')"
  shows "(is_ok res \<longrightarrow> dkg_session_stage s = Phase2Complete \<and> dkg_session_stage s' = Phase3Complete) \<and>
     (\<not> is_ok res \<longrightarrow> s' = s) \<and> dkg_session_inv s' \<and> ds_data s' = ds_data s"
proof (cases "ds_zero_kept_2to3 s = None \<or> ds_bip_kept_2to3 s = None")
  case True
  then show ?thesis using assms by (auto simp: dkg_session_phase3_def split: option.splits)
next
  case False
  then obtain z b where zb: "ds_zero_kept_2to3 s = Some z" "ds_bip_kept_2to3 s = Some b" by auto
  then have "dkg_session_stage s = Phase2Complete"
    using assms(1) by (auto simp: dkg_session_inv_def split: dkg_stage.splits)
  then have kept: "ds_poly_point s \<noteq> None" "ds_proof_commitment s \<noteq> None" "dkg_session_stage s = Phase2Complete"
    using assms(1) by (simp_all add: dkg_session_inv_def)
  show ?thesis
  proof (cases "dkg_phase3 S oc (ds_data s) z b r :: (abort, _) outcome")
    case (Ok x)
    obtain zk zt mk mt bb r' where x: "x = ((zk, zt, mk, mt, bb), r')" by (metis prod.exhaust)
    show ?thesis using assms(2) zb Ok kept by (auto simp: x dkg_session_phase3_def dkg_session_inv_def dkg_session_stage_def)
  qed (use assms zb in \<open>auto simp: dkg_session_phase3_def\<close>)
qed

lemma dkg_session_step_cases:
  assumes "dkg_session_inv s" and "dkg_session_step S oc s c ok s'"
  shows "(ok \<longrightarrow> dkg_expected (dkg_session_stage s) = dkg_call_phase c \<and>
       dkg_expected (dkg_session_stage s') = Suc (dkg_call_phase c)) \<and>
     (\<not> ok \<longrightarrow> s' = s) \<and> dkg_session_inv s' \<and> ds_data s' = ds_data s"
  using assms(2)
proof cases
  case (phase2 poly_fragments r res)
  then show ?thesis using dkg_session_phase2_cases [OF assms(1) phase2(3)] by auto
next
  case (phase3 r res)
  then show ?thesis using dkg_session_phase3_cases [OF assms(1) phase3(3)] by auto
qed

interpretation dkg_calls: one_shot_phases
  where step = "dkg_session_step S oc" and phase = dkg_call_phase
    and expected = "\<lambda>s. dkg_expected (dkg_session_stage s)" and inv = dkg_session_inv
  for S :: "('f::field, 'g::ab_group_add) suite" and oc
proof unfold_locales
  show "dkg_session_inv s'" if "dkg_session_inv s" "dkg_session_step S oc s c ok s'" for s c ok s'
    using dkg_session_step_cases [OF that] by simp
  show "dkg_expected (dkg_session_stage s) = dkg_call_phase c \<and> dkg_expected (dkg_session_stage s') = Suc (dkg_call_phase c)"
    if "dkg_session_inv s" "dkg_session_step S oc s c True s'" for s c s'
    using dkg_session_step_cases [OF that] by simp
  show "dkg_expected (dkg_session_stage s') = dkg_expected (dkg_session_stage s) \<or>
     (\<forall>c' :: 'f dkg_call. dkg_call_phase c' \<noteq> dkg_expected (dkg_session_stage s'))"
    if "dkg_session_inv s" "dkg_session_step S oc s c False s'" for s c s'
    using dkg_session_step_cases [OF that] by simp
qed

lemma dkg_session_run:
  "runs (dkg_session_step S oc) s trace s' \<Longrightarrow> dkg_session_inv s \<Longrightarrow>
     dkg_expected (dkg_session_stage s') = dkg_expected (dkg_session_stage s) + length (successes trace) \<and> ds_data s' = ds_data s"
proof (induction rule: runs.induct)
  case (call s trace s' c ok s'')
  have "dkg_session_inv s'" using dkg_calls.run_inv [OF call.hyps(1) call.prems] .
  from dkg_session_step_cases [OF this call.hyps(2)] call.IH [OF call.prems] show ?case by (cases ok) auto
qed simp

text \<open>
  C27: the phases of a session succeed in order and each at most once. Whatever calls are made
  on a new session, the successful ones are the first so many of phase 2, phase 3; the stage
  says how many, the session data never change, and the stored fields are those of the stage.
\<close>

theorem dkg_session_one_shot:
  assumes "runs (dkg_session_step S oc) (dkg_session_new p i sid) trace s"
  shows "map dkg_call_phase (successes trace) = [2..<dkg_expected (dkg_session_stage s)] \<and>
     dkg_session_inv s \<and> ds_data s = \<lparr>sd_parameters = p, sd_party_index = i, sd_session_id = sid\<rparr>"
proof -
  have "map dkg_call_phase (successes trace) = [2..<2 + length (successes trace)]"
    and e: "dkg_expected (dkg_session_stage s) = 2 + length (successes trace) \<or>
       (\<forall>c :: 'a dkg_call. dkg_call_phase c \<noteq> dkg_expected (dkg_session_stage s))"
    using dkg_calls.in_order [OF assms dkg_session_new_inv(1)] unfolding dkg_session_new_inv dkg_expected.simps by blast+
  moreover have "dkg_expected (dkg_session_stage s) = 2 + length (successes trace) \<and>
      ds_data s = \<lparr>sd_parameters = p, sd_party_index = i, sd_session_id = sid\<rparr>"
    using dkg_session_run [OF assms dkg_session_new_inv(1)] unfolding dkg_session_new_inv dkg_expected.simps
    by (simp add: dkg_session_new_def)
  moreover have "dkg_session_inv s" using dkg_calls.run_inv [OF assms dkg_session_new_inv(1)] .
  ultimately show ?thesis by simp
qed

text \<open>
  A call out of order is refused: it returns the recoverable abort with the message of the
  source and leaves the session as it was, so that the protocol can go on.
\<close>

theorem dkg_session_out_of_order:
  assumes "dkg_session_inv s"
  shows "(dkg_session_stage s \<noteq> Initialized \<longrightarrow>
       dkg_session_phase2 S oc s poly_fragments r = (Err (out_of_order s ''phase2 already called on this session''), s)) \<and>
     (dkg_session_stage s \<noteq> Phase2Complete \<longrightarrow>
       dkg_session_phase3 S oc s r = (Err (out_of_order s ''phase3 called before phase2''), s)) \<and>
     (dkg_session_stage s = Initialized \<longrightarrow>
       dkg_session_phase4 S oc s pcs z2 z3 mr b2 b3 address_fn = Err (out_of_order s ''phase4 called before phase2'')) \<and>
     (dkg_session_stage s = Phase2Complete \<longrightarrow>
       dkg_session_phase4 S oc s pcs z2 z3 mr b2 b3 address_fn = Err (out_of_order s ''phase4 called before phase3''))"
proof (intro conjI impI)
  note inv = assms [unfolded dkg_session_inv_def]
  show "dkg_session_phase2 S oc s poly_fragments r = (Err (out_of_order s ''phase2 already called on this session''), s)"
    if "dkg_session_stage s \<noteq> Initialized"
  proof -
    have "ds_poly_point s \<noteq> None" using that inv by (cases "dkg_session_stage s") simp_all
    then show ?thesis by (simp only: dkg_session_phase2_def if_True not_False_eq_True)
  qed
  show "dkg_session_phase3 S oc s r = (Err (out_of_order s ''phase3 called before phase2''), s)"
    if "dkg_session_stage s \<noteq> Phase2Complete"
  proof -
    have "ds_zero_kept_2to3 s = None" using that inv by (cases "dkg_session_stage s") simp_all
    then show ?thesis by (simp only: dkg_session_phase3_def option.case)
  qed
  show "dkg_session_phase4 S oc s pcs z2 z3 mr b2 b3 address_fn = Err (out_of_order s ''phase4 called before phase2'')"
    if "dkg_session_stage s = Initialized"
  proof -
    have "ds_poly_point s = None" using that inv by simp
    then show ?thesis by (simp only: dkg_session_phase4_def ok_or.simps and_then.simps)
  qed
  show "dkg_session_phase4 S oc s pcs z2 z3 mr b2 b3 address_fn = Err (out_of_order s ''phase4 called before phase3'')"
    if st: "dkg_session_stage s = Phase2Complete"
  proof -
    obtain pp where "ds_poly_point s = Some pp" "ds_zero_kept_3to4 s = None" using inv by (auto simp: st)
    then show ?thesis by (simp only: dkg_session_phase4_def ok_or.simps and_then.simps)
  qed
qed

section \<open>A session computes what the phases compute\<close>

lemma dkg_session_phases:
  assumes "dkg_session_phase2 S oc (dkg_session_new p i sid) poly_fragments r = (Ok ((pc, z2, b2), r1), s1)"
    and "dkg_session_phase3 S oc s1 r2 = (Ok ((z3, m3, b3), r3), s2)"
  shows "\<exists>pp zk bk zk3 mk. dkg_phase2 S oc \<lparr>sd_parameters = p, sd_party_index = i, sd_session_id = sid\<rparr> poly_fragments r =
       (Ok ((pp, pc, zk, z2, bk, b2), r1) :: (abort, _) outcome) \<and>
     dkg_phase3 S oc \<lparr>sd_parameters = p, sd_party_index = i, sd_session_id = sid\<rparr> zk bk r2 =
       (Ok ((zk3, z3, mk, m3, b3), r3) :: (abort, _) outcome) \<and>
     s2 = (dkg_session_new p i sid)\<lparr>ds_poly_point := Some pp, ds_proof_commitment := Some pc,
       ds_zero_kept_3to4 := Some zk3, ds_mul_kept_3to4 := Some mk\<rparr>"
proof -
  let ?d = "\<lparr>sd_parameters = p, sd_party_index = i, sd_session_id = sid\<rparr>"
  obtain x where x: "dkg_phase2 S oc ?d poly_fragments r = (Ok x :: (abort, _) outcome)"
    "(case x of ((pp, pc, zk, z2, bk, b2), r') \<Rightarrow> (((pc, z2, b2), r'),
        (dkg_session_new p i sid)\<lparr>ds_poly_point := Some pp, ds_proof_commitment := Some pc, ds_zero_kept_2to3 := Some zk,
          ds_bip_kept_2to3 := Some bk\<rparr>)) = (((pc, z2, b2), r1), s1)"
    using assms(1) by (auto simp: dkg_session_phase2_def dkg_session_new_def then_store_eq)
  then obtain pp zk bk where p2: "x = ((pp, pc, zk, z2, bk, b2), r1)"
    and s1: "s1 = (dkg_session_new p i sid)\<lparr>ds_poly_point := Some pp, ds_proof_commitment := Some pc, ds_zero_kept_2to3 := Some zk,
          ds_bip_kept_2to3 := Some bk\<rparr>" by (auto split: prod.splits)
  obtain y where y: "dkg_phase3 S oc ?d zk bk r2 = (Ok y :: (abort, _) outcome)"
    "(case y of ((zk3, z3, mk, m3, b3), r') \<Rightarrow> (((z3, m3, b3), r'),
        s1\<lparr>ds_zero_kept_2to3 := None, ds_bip_kept_2to3 := None, ds_zero_kept_3to4 := Some zk3, ds_mul_kept_3to4 := Some mk\<rparr>)) =
      (((z3, m3, b3), r3), s2)"
    using assms(2) by (auto simp: dkg_session_phase3_def s1 dkg_session_new_def then_store_eq)
  then obtain zk3 mk where "y = ((zk3, z3, mk, m3, b3), r3)"
    "s2 = s1\<lparr>ds_zero_kept_2to3 := None, ds_bip_kept_2to3 := None, ds_zero_kept_3to4 := Some zk3, ds_mul_kept_3to4 := Some mk\<rparr>"
    by (auto split: prod.splits)
  then show ?thesis using x(1) p2 y(1) by (auto simp: s1 dkg_session_new_def)
qed

text \<open>A wiped session is the new session of the same party with an empty session id: nothing is left.\<close>

lemma dkg_session_zeroize_new:
  "dkg_session_zeroize s =
     dkg_session_new (sd_parameters (ds_data s)) (sd_party_index (ds_data s)) []"
  by (cases s; cases "ds_data s") (simp add: dkg_session_zeroize_def dkg_session_new_def)

section \<open>Sessions of honest parties\<close>

text \<open>Every party runs its session through the first three phases; \<open>o2\<close> and \<open>o3\<close> are what it hands out.\<close>

definition dkg_session_rounds ::
  "('f::field, 'g::ab_group_add) suite \<Rightarrow> bool \<Rightarrow> parameters \<Rightarrow> bytes \<Rightarrow> (party_index \<Rightarrow> 'f rng)
   \<Rightarrow> (party_index \<Rightarrow> ('f, 'g) proof_commitment \<times> transmit_zero_2to4 list \<times> broadcast_derivation_2to4)
   \<Rightarrow> (party_index \<Rightarrow> transmit_zero_3to4 list \<times> ('f, 'g) transmit_mul_3to4 list \<times> broadcast_derivation_3to4)
   \<Rightarrow> (party_index \<Rightarrow> ('f, 'g) dkg_session) \<Rightarrow> bool" where
  "dkg_session_rounds S oc prm sid r0 o2 o3 sess \<longleftrightarrow>
     (\<exists>frag r1. \<forall>i\<in>set (all_parties (share_count prm)).
        dkg_session_phase1 oc (dkg_session_new prm i sid :: ('f, 'g) dkg_session) (r0 i) = (Ok (frag i, r1 i) :: (abort, _) outcome) \<and>
        (\<exists>received r2 r3 s1.
           mset received = mset (map (\<lambda>j. frag j ! (unat (as_u8 i) - 1)) (all_parties (share_count prm))) \<and>
           dkg_session_phase2 S oc (dkg_session_new prm i sid) received (r1 i) = (Ok (o2 i, r2), s1) \<and>
           dkg_session_phase3 S oc s1 r2 = (Ok (o3 i, r3), sess i)))"

definition dkg_session_delivered ::
  "parameters
   \<Rightarrow> (party_index \<Rightarrow> ('f, 'g) proof_commitment \<times> transmit_zero_2to4 list \<times> broadcast_derivation_2to4)
   \<Rightarrow> (party_index \<Rightarrow> transmit_zero_3to4 list \<times> ('f, 'g) transmit_mul_3to4 list \<times> broadcast_derivation_3to4)
   \<Rightarrow> party_index \<Rightarrow> ('f, 'g) proof_commitment list \<Rightarrow> transmit_zero_2to4 list \<Rightarrow> transmit_zero_3to4 list
   \<Rightarrow> ('f, 'g) transmit_mul_3to4 list \<Rightarrow> (party_index, broadcast_derivation_2to4) btree_map
   \<Rightarrow> (party_index, broadcast_derivation_3to4) btree_map \<Rightarrow> bool" where
  "dkg_session_delivered prm o2 o3 i pcs z2 z3 mr b2 b3 \<longleftrightarrow>
     (let ps = all_parties (share_count prm) in
      mset pcs = mset (map (\<lambda>j. fst (o2 j)) ps) \<and>
      mset z2 = mset (addressed_to z2_parties ps (\<lambda>j. fst (snd (o2 j))) i) \<and>
      mset z3 = mset (addressed_to z3_parties ps (\<lambda>j. fst (o3 j)) i) \<and>
      mset mr = mset (addressed_to tm_parties ps (\<lambda>j. fst (snd (o3 j))) i) \<and>
      (\<forall>j\<in>set ps. btree_get b2 j = Some (snd (snd (o2 j))) \<and> btree_get b3 j = Some (snd (snd (o3 j)))))"

lemma dkg_session_rounds_rounds:
  assumes "dkg_session_rounds S oc prm sid r0 o2 o3 sess"
  shows "\<exists>pp zk mk. dkg_rounds S oc prm sid r0 (\<lambda>i. (pp i, o2 i)) (\<lambda>i. (zk i, fst (o3 i), mk i, snd (o3 i))) \<and>
     (\<forall>i\<in>set (all_parties (share_count prm)). ds_poly_point (sess i) = Some (pp i) \<and> ds_zero_kept_3to4 (sess i) = Some (zk i) \<and>
        ds_mul_kept_3to4 (sess i) = Some (mk i) \<and> ds_data (sess i) = \<lparr>sd_parameters = prm, sd_party_index = i, sd_session_id = sid\<rparr>)"
proof -
  let ?d = "\<lambda>i. \<lparr>sd_parameters = prm, sd_party_index = i, sd_session_id = sid\<rparr>"
  obtain frag r1 where f: "\<And>i. i \<in> set (all_parties (share_count prm)) \<Longrightarrow>
        dkg_session_phase1 oc (dkg_session_new prm i sid :: ('a, 'b) dkg_session) (r0 i) = (Ok (frag i, r1 i) :: (abort, _) outcome) \<and>
        (\<exists>received r2 r3 s1.
           mset received = mset (map (\<lambda>j. frag j ! (unat (as_u8 i) - 1)) (all_parties (share_count prm))) \<and>
           dkg_session_phase2 S oc (dkg_session_new prm i sid) received (r1 i) = (Ok (o2 i, r2), s1) \<and>
           dkg_session_phase3 S oc s1 r2 = (Ok (o3 i, r3), sess i))"
    using assms unfolding dkg_session_rounds_def by blast
  define P where "P = (\<lambda>i pp zk mk. ds_poly_point (sess i) = Some pp \<and> ds_zero_kept_3to4 (sess i) = Some zk \<and>
        ds_mul_kept_3to4 (sess i) = Some mk \<and> ds_data (sess i) = ?d i \<and>
        (\<exists>received zk2 bk r2 r3. mset received = mset (map (\<lambda>j. frag j ! (unat (as_u8 i) - 1)) (all_parties (share_count prm))) \<and>
           dkg_phase2 S oc (?d i) received (r1 i) = (Ok ((pp, fst (o2 i), zk2, fst (snd (o2 i)), bk, snd (snd (o2 i))), r2) :: (abort, _) outcome) \<and>
           dkg_phase3 S oc (?d i) zk2 bk r2 = (Ok ((zk, fst (o3 i), mk, fst (snd (o3 i)), snd (snd (o3 i))), r3) :: (abort, _) outcome)))"
  have "\<exists>pp zk mk. P i pp zk mk" if i: "i \<in> set (all_parties (share_count prm))" for i
  proof -
    from f [OF i] obtain received r2 r3 s1 where
      m: "mset received = mset (map (\<lambda>j. frag j ! (unat (as_u8 i) - 1)) (all_parties (share_count prm)))"
      and p2: "dkg_session_phase2 S oc (dkg_session_new prm i sid) received (r1 i) =
        (Ok ((fst (o2 i), fst (snd (o2 i)), snd (snd (o2 i))), r2), s1)"
      and p3: "dkg_session_phase3 S oc s1 r2 = (Ok ((fst (o3 i), fst (snd (o3 i)), snd (snd (o3 i))), r3), sess i)"
      unfolding prod.collapse by blast
    from dkg_session_phases [OF p2 p3] obtain pp zk2 bk zk mk where
      q2: "dkg_phase2 S oc (?d i) received (r1 i) =
        (Ok ((pp, fst (o2 i), zk2, fst (snd (o2 i)), bk, snd (snd (o2 i))), r2) :: (abort, _) outcome)"
      and q3: "dkg_phase3 S oc (?d i) zk2 bk r2 = (Ok ((zk, fst (o3 i), mk, fst (snd (o3 i)), snd (snd (o3 i))), r3) :: (abort, _) outcome)"
      and s: "sess i = (dkg_session_new prm i sid)\<lparr>ds_poly_point := Some pp, ds_proof_commitment := Some (fst (o2 i)),
        ds_zero_kept_3to4 := Some zk, ds_mul_kept_3to4 := Some mk\<rparr>" by blast
    have "ds_poly_point (sess i) = Some pp \<and> ds_zero_kept_3to4 (sess i) = Some zk \<and>
        ds_mul_kept_3to4 (sess i) = Some mk \<and> ds_data (sess i) = ?d i"
      by (simp add: s dkg_session_new_def)
    then show ?thesis unfolding P_def using m q2 q3 by blast
  qed
  then obtain pp zk mk where P: "\<And>i. i \<in> set (all_parties (share_count prm)) \<Longrightarrow> P i (pp i) (zk i) (mk i)" by metis
  have "dkg_rounds S oc prm sid r0 (\<lambda>i. (pp i, o2 i)) (\<lambda>i. (zk i, fst (o3 i), mk i, snd (o3 i)))"
    unfolding dkg_rounds_def
  proof (intro exI [of _ frag] exI [of _ r1] ballI)
    fix i assume i: "i \<in> set (all_parties (share_count prm))"
    have one: "dkg_phase1 oc (?d i) (r0 i) = (Ok (frag i, r1 i) :: (abort, _) outcome)"
      using f [OF i] by (simp add: dkg_session_phase1_def dkg_session_new_def)
    from P [OF i] obtain received zk2 bk r2 r3 where
      "mset received = mset (map (\<lambda>j. frag j ! (unat (as_u8 i) - 1)) (all_parties (share_count prm)))"
      "dkg_phase2 S oc (?d i) received (r1 i) =
         (Ok ((pp i, fst (o2 i), zk2, fst (snd (o2 i)), bk, snd (snd (o2 i))), r2) :: (abort, _) outcome)"
      "dkg_phase3 S oc (?d i) zk2 bk r2 = (Ok ((zk i, fst (o3 i), mk i, fst (snd (o3 i)), snd (snd (o3 i))), r3) :: (abort, _) outcome)"
      unfolding P_def by blast
    then show "dkg_phase1 oc (?d i) (r0 i) = (Ok (frag i, r1 i) :: (abort, _) outcome) \<and>
        (\<exists>received pp' pc zk' z2 dk b2 r2 r3.
           mset received = mset (map (\<lambda>j. frag j ! (unat (as_u8 i) - 1)) (all_parties (share_count prm))) \<and>
           dkg_phase2 S oc (?d i) received (r1 i) = (Ok ((pp', pc, zk', z2, dk, b2), r2) :: (abort, _) outcome) \<and>
           (pp i, o2 i) = (pp', pc, z2, b2) \<and>
           dkg_phase3 S oc (?d i) zk' dk r2 = (Ok ((zk i, fst (o3 i), mk i, snd (o3 i)), r3) :: (abort, _) outcome))"
      using one by (simp only: prod.collapse) (metis prod.collapse)
  qed
  then show ?thesis using P unfolding P_def by blast
qed

text \<open>
  Sessions work. When every party has run its session through the first three phases,
  with the messages delivered in any order, the fourth phase of every session succeeds and
  the parties it returns form a group for the sum of the secrets drawn in phase 1.
\<close>

theorem dkg_sessions_correct:
  fixes S :: "('f::field, 'g::ab_group_add) suite"
  assumes S: "suite_ok S" and p: "valid_parameters prm" "unat (share_count prm) < 255"
    and rounds: "dkg_session_rounds S oc prm sid r0 o2 o3 sess" and ps: "ps = all_parties (share_count prm)"
    and dp: "\<And>i. i \<in> set ps \<Longrightarrow> distinct (rand_commitments (pc_proof (fst (o2 i))))"
    and dm: "\<And>i m. i \<in> set ps \<Longrightarrow> m \<in> set (fst (snd (o3 i))) \<Longrightarrow> distinct (rand_commitments (tm_dlog_proof m))"
    and X: "X = (\<Sum>j\<in>set ps. secret_of (fst (dkg_step1 prm (r0 j))))" "X \<noteq> 0" "X \<noteq> 1"
    and shares: "\<And>i. i \<in> set ps \<Longrightarrow> ds_poly_point (sess i) \<noteq> Some 0 \<and> ds_poly_point (sess i) \<noteq> Some 1"
    and delivered: "\<And>i. i \<in> set ps \<Longrightarrow> dkg_session_delivered prm o2 o3 i (pcs i) (z2 i) (z3 i) (mr i) (b2 i) (b3 i)"
  shows "\<exists>F cc pty pkg. secret_of F = X \<and>
     (\<forall>i\<in>set ps. dkg_session_phase4 S oc (sess i) (pcs i) (z2 i) (z3 i) (mr i) (b2 i) (b3 i) address_fn = Ok (pty i, pkg i)) \<and>
     group_ok S F prm sid cc ps pty"
proof -
  obtain pp zk mk where r: "dkg_rounds S oc prm sid r0 (\<lambda>i. (pp i, o2 i)) (\<lambda>i. (zk i, fst (o3 i), mk i, snd (o3 i)))"
    and sess: "\<And>i. i \<in> set ps \<Longrightarrow> ds_poly_point (sess i) = Some (pp i) \<and> ds_zero_kept_3to4 (sess i) = Some (zk i) \<and>
        ds_mul_kept_3to4 (sess i) = Some (mk i) \<and> ds_data (sess i) = \<lparr>sd_parameters = prm, sd_party_index = i, sd_session_id = sid\<rparr>"
    using dkg_session_rounds_rounds [OF rounds] unfolding ps by blast
  have "\<exists>F cc pty pkg. secret_of F = X \<and>
     (\<forall>i\<in>set ps. dkg_phase4 S oc \<lparr>sd_parameters = prm, sd_party_index = i, sd_session_id = sid\<rparr> (share_out ((\<lambda>i. (pp i, o2 i)) i))
        (pcs i) (zero_kept ((\<lambda>i. (zk i, fst (o3 i), mk i, snd (o3 i))) i)) (z2 i) (z3 i)
        (mul_kept ((\<lambda>i. (zk i, fst (o3 i), mk i, snd (o3 i))) i)) (mr i) (b2 i) (b3 i) address_fn = Ok (pty i, pkg i)) \<and>
     group_ok S F prm sid cc ps pty \<and>
     (\<forall>i\<in>set ps. verifying_key (pkg i) = smul S (generator S) X \<and>
        (\<forall>j\<in>set ps. verifying_share (pkg i) j = Some (smul S (generator S) (share_of F j))))"
  proof (rule dkg_forms_group [OF S p r ps _ _ X])
    show "dkg_delivered prm (\<lambda>i. (pp i, o2 i)) (\<lambda>i. (zk i, fst (o3 i), mk i, snd (o3 i))) i (pcs i) (z2 i) (z3 i) (mr i) (b2 i) (b3 i)"
      if "i \<in> set ps" for i
      using delivered [OF that] by (simp only: dkg_delivered_def dkg_session_delivered_def fst_conv snd_conv)
  qed (use dp dm shares sess in auto)
  then obtain F cc pty pkg where F: "secret_of F = X" "group_ok S F prm sid cc ps pty"
    and ph4: "\<And>i. i \<in> set ps \<Longrightarrow> dkg_phase4 S oc \<lparr>sd_parameters = prm, sd_party_index = i, sd_session_id = sid\<rparr> (pp i) (pcs i) (zk i)
        (z2 i) (z3 i) (mk i) (mr i) (b2 i) (b3 i) address_fn = Ok (pty i, pkg i)"
    unfolding fst_conv snd_conv by blast
  then have "\<forall>i\<in>set ps. dkg_session_phase4 S oc (sess i) (pcs i) (z2 i) (z3 i) (mr i) (b2 i) (b3 i) address_fn = Ok (pty i, pkg i)"
    using sess by (simp add: dkg_session_phase4_def)
  with F show ?thesis by blast
qed

end
