(* ===== verification/Signature.thy ===== *)
theory Signature
  imports Prelude
begin

text \<open>
  The signature type (\<open>protocols/signature.rs\<close>) and its two fixed-size encodings.
\<close>

record ecdsa_signature =
  sig_r :: bytes
  sig_s :: bytes
  recovery_id :: u8

text \<open>\<open>out[i..].copy_from_slice(src)\<close> into a buffer that is long enough.\<close>

definition copy_into :: "bytes \<Rightarrow> nat \<Rightarrow> bytes \<Rightarrow> bytes" where
  "copy_into buf i src = take i buf @ src @ drop (i + length src) buf"

definition signature_to_bytes :: "ecdsa_signature \<Rightarrow> bytes" where
  "signature_to_bytes sig = copy_into (copy_into (replicate 64 0) 0 (sig_r sig)) 32 (sig_s sig)"

definition signature_to_bytes_with_recovery :: "ecdsa_signature \<Rightarrow> bytes" where
  "signature_to_bytes_with_recovery sig =
     (copy_into (copy_into (replicate 65 0) 0 (sig_r sig)) 32 (sig_s sig))[64 := recovery_id sig]"

text \<open>The arrays of the type have 32 bytes.\<close>

definition signature_ok :: "ecdsa_signature \<Rightarrow> bool" where
  "signature_ok sig \<longleftrightarrow> length (sig_r sig) = 32 \<and> length (sig_s sig) = 32"

lemma copy_halves:
  "length r = 32 \<Longrightarrow> length s = 32 \<Longrightarrow> copy_into (copy_into (replicate (64 + n) 0) 0 r) 32 s = r @ s @ replicate n 0"
  by (simp add: copy_into_def)

lemma signature_to_bytes_eq: "signature_ok sig \<Longrightarrow> signature_to_bytes sig = sig_r sig @ sig_s sig"
  using copy_halves [of "sig_r sig" "sig_s sig" 0] by (simp add: signature_to_bytes_def signature_ok_def)

lemma signature_to_bytes_with_recovery_eq:
  assumes "signature_ok sig"
  shows "signature_to_bytes_with_recovery sig = sig_r sig @ sig_s sig @ [recovery_id sig]"
proof -
  have "copy_into (copy_into (replicate 65 0) 0 (sig_r sig)) 32 (sig_s sig) = (sig_r sig @ sig_s sig) @ [0]"
    using copy_halves [of "sig_r sig" "sig_s sig" 1] assms by (simp add: signature_ok_def)
  then show ?thesis
    using assms unfolding signature_to_bytes_with_recovery_def by (simp add: list_update_append signature_ok_def)
qed

text \<open>
  The encodings are 64 and 65 bytes, the longer one extends the shorter by the recovery id,
  and two signatures with the same long encoding are the same.
\<close>

theorem signature_encodings:
  assumes "signature_ok sig" and "signature_ok sig'"
  shows "length (signature_to_bytes sig) = 64 \<and>
     signature_to_bytes_with_recovery sig = signature_to_bytes sig @ [recovery_id sig] \<and>
     (signature_to_bytes_with_recovery sig = signature_to_bytes_with_recovery sig' \<longrightarrow> sig = sig')"
  using assms
  by (cases sig; cases sig')
    (auto simp: signature_to_bytes_eq signature_to_bytes_with_recovery_eq signature_ok_def)

end
