(* ===== verification/SignSession.thy ===== *)
theory SignSession
  imports SigningHonest Sessions Signature
begin

text \<open>
  The signing session (\<open>protocols/sign_session.rs\<close>): it borrows a party, keeps the state
  between the phases of \<open>Signing\<close>, and takes that state out before it runs a phase. Shown
  here: the phases succeed in order and at most once, the nonce of phase 1 is used by one run
  of phase 2 even when that run fails, what a returned signature is, and that sessions of an
  honest quorum all return the same one.
\<close>

record ('f, 'g) sign_session =
  ss_party :: "('f, 'g) party"
  ss_data :: sign_data
  ss_phase1_to_2 :: "(('f, 'g) unique_keep_1to2 \<times> (party_index, 'f keep_phase_1to2) btree_map) option"
  ss_phase2_to_3 :: "(('f, 'g) unique_keep_2to3 \<times> (party_index, 'f keep_phase_2to3) btree_map) option"
  ss_x_coord :: "string option"

definition sign_session_new ::
  "('f::field, 'g::ab_group_add) suite \<Rightarrow> bool \<Rightarrow> ('f, 'g) party \<Rightarrow> sign_data \<Rightarrow> 'f rng
   \<Rightarrow> (abort, (('f, 'g) sign_session \<times> transmit_phase_1to2 list) \<times> 'f rng) outcome" where
  "sign_session_new S oc p d r =
     and_then (sign_phase1 S oc p d r) (\<lambda>((unique_kept, kept, transmit), r').
     Ok ((\<lparr>ss_party = p, ss_data = d, ss_phase1_to_2 = Some (unique_kept, kept), ss_phase2_to_3 = None,
           ss_x_coord = None\<rparr>, transmit), r'))"

definition sign_out_of_order :: "('f, 'g) sign_session \<Rightarrow> string \<Rightarrow> abort" where
  "sign_out_of_order s msg = recoverable (party_index_of (ss_party s)) (PhaseCalledOutOfOrder msg)"

definition sign_session_phase2 ::
  "('f::field, 'g::ab_group_add) suite \<Rightarrow> bool \<Rightarrow> ('f, 'g) sign_session \<Rightarrow> transmit_phase_1to2 list \<Rightarrow> 'f rng
   \<Rightarrow> (abort, ('f, 'g) transmit_phase_2to3 list \<times> 'f rng) outcome \<times> ('f, 'g) sign_session" where
  "sign_session_phase2 S oc s received r =
     (case ss_phase1_to_2 s of
        None \<Rightarrow> (Err (sign_out_of_order s ''phase2 called out of order''), s)
      | Some (unique_kept, kept) \<Rightarrow>
          let s = s\<lparr>ss_phase1_to_2 := None\<rparr> in
          then_store (sign_phase2 S oc (ss_party s) (ss_data s) unique_kept kept received r) s
            (\<lambda>((new_unique, new_kept, transmit), r').
              ((transmit, r'), s\<lparr>ss_phase2_to_3 := Some (new_unique, new_kept)\<rparr>)))"

definition sign_session_phase3 ::
  "('f::field, 'g::ab_group_add) suite \<Rightarrow> ('f, 'g) sign_session \<Rightarrow> ('f, 'g) transmit_phase_2to3 list
   \<Rightarrow> (abort, 'f broadcast_3to4) outcome \<times> ('f, 'g) sign_session" where
  "sign_session_phase3 S s received =
     (case ss_phase2_to_3 s of
        None \<Rightarrow> (Err (sign_out_of_order s ''phase3 called out of order''), s)
      | Some (unique_kept, kept) \<Rightarrow>
          let s = s\<lparr>ss_phase2_to_3 := None\<rparr> in
          then_store (sign_phase3 S (ss_party s) (ss_data s) unique_kept kept received) s
            (\<lambda>(x_coord, broadcast). (broadcast, s\<lparr>ss_x_coord := Some x_coord\<rparr>)))"

text \<open>
  The last phase consumes the session. \<open>hex_error\<close> is the text of the decoding error of the
  \<open>hex\<close> crate.
\<close>

definition sign_session_phase4 ::
  "('f::field, 'g::ab_group_add) suite \<Rightarrow> (string \<Rightarrow> string) \<Rightarrow> ('f, 'g) sign_session \<Rightarrow> 'f broadcast_3to4 list \<Rightarrow> bool
   \<Rightarrow> (abort, ecdsa_signature) outcome" where
  "sign_session_phase4 S hex_error s received low_s =
     and_then (ok_or (sign_out_of_order s ''phase4 called out of order'') (ss_x_coord s)) (\<lambda>x_coord.
     and_then (sign_phase4 S (ss_party s) (ss_data s) x_coord received low_s) (\<lambda>(s_hex, rec_id).
     and_then (ok_or (recoverable (party_index_of (ss_party s)) (InvalidHex (''invalid r hex: '' @ hex_error x_coord)))
       (hex_decode S 32 x_coord)) (\<lambda>r_bytes.
     and_then (ok_or (recoverable (party_index_of (ss_party s)) (InvalidHex (''invalid s hex: '' @ hex_error s_hex)))
       (hex_decode S 32 s_hex)) (\<lambda>s_bytes.
     Ok \<lparr>sig_r = r_bytes, sig_s = s_bytes, recovery_id = rec_id\<rparr>))))"

section \<open>Calls\<close>

datatype ('f, 'g) sign_call = SignPhase2 "transmit_phase_1to2 list" "'f rng" | SignPhase3 "('f, 'g) transmit_phase_2to3 list"

fun sign_call_phase :: "('f, 'g) sign_call \<Rightarrow> nat" where
  "sign_call_phase (SignPhase2 _ _) = 2"
| "sign_call_phase (SignPhase3 _) = 3"

inductive sign_session_step ::
  "('f::field, 'g::ab_group_add) suite \<Rightarrow> bool \<Rightarrow> ('f, 'g) sign_session \<Rightarrow> ('f, 'g) sign_call \<Rightarrow> bool
   \<Rightarrow> ('f, 'g) sign_session \<Rightarrow> bool"
  for S oc where
  phase2: "sign_session_phase2 S oc s received r = (res, s') \<Longrightarrow>
     sign_session_step S oc s (SignPhase2 received r) (is_ok res) s'"
| phase3: "sign_session_phase3 S s received = (res, s') \<Longrightarrow>
     sign_session_step S oc s (SignPhase3 received) (is_ok res) s'"

inductive_simps sign_session_step_simps:
  "sign_session_step S oc s (SignPhase2 received r) ok s'"
  "sign_session_step S oc s (SignPhase3 received) ok s'"

text \<open>
  The phase that is expected next; a session whose state has been taken by a call that then
  failed expects none, which is the number 5.
\<close>

definition sign_expected :: "('f, 'g) sign_session \<Rightarrow> nat" where
  "sign_expected s =
     (if ss_phase1_to_2 s \<noteq> None then 2 else if ss_phase2_to_3 s \<noteq> None then 3 else if ss_x_coord s \<noteq> None then 4 else 5)"

text \<open>At most one of the three optional fields is set.\<close>

definition sign_session_inv :: "('f, 'g) sign_session \<Rightarrow> bool" where
  "sign_session_inv s \<longleftrightarrow>
     (ss_phase1_to_2 s \<noteq> None \<longrightarrow> ss_phase2_to_3 s = None) \<and> (ss_phase1_to_2 s \<noteq> None \<longrightarrow> ss_x_coord s = None) \<and>
     (ss_phase2_to_3 s \<noteq> None \<longrightarrow> ss_x_coord s = None)"

lemma sign_session_new_inv:
  assumes "sign_session_new S oc p d r = Ok ((s, transmit), r')"
  shows "sign_session_inv s" "sign_expected s = 2" "ss_party s = p" "ss_data s = d"
  using assms by (auto simp: sign_session_new_def outcome_simps sign_session_inv_def sign_expected_def)

lemma sign_session_phase2_cases:
  assumes inv: "sign_session_inv s" and ph: "sign_session_phase2 S oc s received r = (res, s')"
  shows "(is_ok res \<longrightarrow> sign_expected s = 2 \<and> sign_expected s' = 3) \<and>
     (\<not> is_ok res \<longrightarrow> s' = s \<and> sign_expected s \<noteq> 2 \<or> sign_expected s = 2 \<and> sign_expected s' = 5) \<and>
     sign_session_inv s' \<and> ss_phase1_to_2 s' = None \<and> ss_party s' = ss_party s \<and> ss_data s' = ss_data s"
proof (cases "ss_phase1_to_2 s")
  case None
  then show ?thesis using ph inv by (auto simp: sign_session_phase2_def sign_expected_def)
next
  case (Some k)
  obtain uk kept where k: "k = (uk, kept)" by fastforce
  have other: "ss_phase2_to_3 s = None" "ss_x_coord s = None" using inv Some by (simp_all add: sign_session_inv_def)
  show ?thesis
  proof (cases "sign_phase2 S oc (ss_party s) (ss_data s) uk kept received r")
    case (Ok x)
    obtain nu nk t q where x: "x = ((nu, nk, t), q)" by (metis prod.exhaust)
    show ?thesis using ph Some k other Ok
      by (auto simp: x sign_session_phase2_def sign_expected_def sign_session_inv_def)
  qed (use ph Some k other in \<open>auto simp: sign_session_phase2_def sign_expected_def sign_session_inv_def\<close>)
qed

lemma sign_session_phase3_cases:
  assumes inv: "sign_session_inv s" and ph: "sign_session_phase3 S s received = (res, s')"
  shows "(is_ok res \<longrightarrow> sign_expected s = 3 \<and> sign_expected s' = 4) \<and>
     (\<not> is_ok res \<longrightarrow> s' = s \<and> sign_expected s \<noteq> 3 \<or> sign_expected s = 3 \<and> sign_expected s' = 5) \<and>
     sign_session_inv s' \<and> ss_phase1_to_2 s' = ss_phase1_to_2 s \<and> ss_party s' = ss_party s \<and> ss_data s' = ss_data s"
proof (cases "ss_phase2_to_3 s")
  case None
  then show ?thesis using ph inv by (auto simp: sign_session_phase3_def sign_expected_def)
next
  case (Some k)
  obtain uk kept where k: "k = (uk, kept)" by fastforce
  have other: "ss_phase1_to_2 s = None" "ss_x_coord s = None"
    using inv Some by (cases "ss_phase1_to_2 s"; simp add: sign_session_inv_def)+
  show ?thesis
  proof (cases "sign_phase3 S (ss_party s) (ss_data s) uk kept received")
    case (Ok x)
    then show ?thesis using ph Some k other
      by (cases x) (auto simp: sign_session_phase3_def sign_expected_def sign_session_inv_def)
  qed (use ph Some k other in \<open>auto simp: sign_session_phase3_def sign_expected_def sign_session_inv_def\<close>)
qed

lemma sign_session_step_cases:
  assumes inv: "sign_session_inv s" and st: "sign_session_step S oc s c ok s'"
  shows "(ok \<longrightarrow> sign_expected s = sign_call_phase c \<and> sign_expected s' = Suc (sign_call_phase c)) \<and>
     (\<not> ok \<longrightarrow> s' = s \<and> sign_expected s \<noteq> sign_call_phase c \<or> sign_expected s = sign_call_phase c \<and> sign_expected s' = 5) \<and>
     sign_session_inv s' \<and> (ss_phase1_to_2 s' = None \<or> ss_phase1_to_2 s' = ss_phase1_to_2 s) \<and>
     (sign_call_phase c = 2 \<longrightarrow> ss_phase1_to_2 s' = None)"
  using st
proof cases
  case (phase2 received r res)
  then show ?thesis using sign_session_phase2_cases [OF inv phase2(3)] by auto
next
  case (phase3 received res)
  then show ?thesis using sign_session_phase3_cases [OF inv phase3(3)] by auto
qed

interpretation sign_calls: one_shot_phases
  where step = "sign_session_step S oc" and phase = sign_call_phase and expected = sign_expected and inv = sign_session_inv
  for S :: "('f::field, 'g::ab_group_add) suite" and oc
proof unfold_locales
  show "sign_session_inv s'" if "sign_session_inv s" "sign_session_step S oc s c ok s'" for s c ok s'
    using sign_session_step_cases [OF that] by simp
  show "sign_expected s = sign_call_phase c \<and> sign_expected s' = Suc (sign_call_phase c)"
    if "sign_session_inv s" "sign_session_step S oc s c True s'" for s c s'
    using sign_session_step_cases [OF that] by simp
  have "sign_call_phase c \<noteq> 5" for c :: "('f, 'g) sign_call" by (cases c) simp_all
  then show "sign_expected s' = sign_expected s \<or> (\<forall>c' :: ('f, 'g) sign_call. sign_call_phase c' \<noteq> sign_expected s')"
    if "sign_session_inv s" "sign_session_step S oc s c False s'" for s c s'
    using sign_session_step_cases [OF that] by auto
qed

lemma sign_session_run:
  "runs (sign_session_step S oc) s trace s' \<Longrightarrow> sign_session_inv s \<Longrightarrow>
     sign_expected s' = sign_expected s + length (successes trace) \<or> sign_expected s' = 5"
proof (induction rule: runs.induct)
  case (call s trace s' c ok s'')
  have inv: "sign_session_inv s'" using sign_calls.run_inv [OF call.hyps(1) call.prems] .
  have "sign_call_phase c \<noteq> 5" by (cases c) simp_all
  with sign_session_step_cases [OF inv call.hyps(2)] call.IH [OF call.prems] show ?case by (cases ok) auto
qed simp

lemma sign_session_spent:
  "runs (sign_session_step S oc) s trace s' \<Longrightarrow> sign_session_inv s \<Longrightarrow>
     2 \<in> set (map (sign_call_phase \<circ> fst) trace) \<Longrightarrow> ss_phase1_to_2 s' = None"
proof (induction rule: runs.induct)
  case (call s trace s' c ok s'')
  have inv: "sign_session_inv s'" using sign_calls.run_inv [OF call.hyps(1) call.prems(1)] .
  note st = sign_session_step_cases [OF inv call.hyps(2)]
  show ?case
  proof (cases "sign_call_phase c = 2")
    case True
    then show ?thesis using st by simp
  next
    case False
    then have "2 \<in> set (map (sign_call_phase \<circ> fst) trace)" using call.prems(2) by auto
    then have "ss_phase1_to_2 s' = None" by (rule call.IH [OF call.prems(1)])
    then show ?thesis using st by auto
  qed
qed simp

section \<open>The session as a state machine\<close>

text \<open>
  C26: in whatever order a session is called, phase 2 succeeds at most once and phase 3 at most
  once, after phase 2. Once phase 2 has been called, successfully or not, phase 1's secrets are
  gone: every later call of phase 2 is refused and changes nothing, so that the instance key
  never enters two runs of the multiplications.
\<close>

theorem sign_session_one_shot:
  assumes "sign_session_new S oc p d r = Ok ((s0, transmit), r')" and "runs (sign_session_step S oc) s0 trace s"
  shows "(\<exists>n. map sign_call_phase (successes trace) = [2..<2 + n] \<and> (sign_expected s = 2 + n \<or> sign_expected s = 5)) \<and>
     distinct (map sign_call_phase (successes trace)) \<and>
     (2 \<in> set (map (sign_call_phase \<circ> fst) trace) \<longrightarrow>
        (\<forall>received q. sign_session_phase2 S oc s received q = (Err (sign_out_of_order s ''phase2 called out of order''), s)))"
proof (intro conjI impI allI)
  note new = sign_session_new_inv [OF assms(1)]
  have dead: "(\<forall>c :: ('a, 'b) sign_call. sign_call_phase c \<noteq> n) \<Longrightarrow> n \<noteq> 2 \<and> n \<noteq> 3" for n
    using sign_call_phase.simps by metis
  have "map sign_call_phase (successes trace) = [2..<2 + length (successes trace)]"
    and e: "sign_expected s = 2 + length (successes trace) \<or> (\<forall>c :: ('a, 'b) sign_call. sign_call_phase c \<noteq> sign_expected s)"
    using sign_calls.in_order [OF assms(2) new(1)] unfolding new(2) by blast+
  moreover have "sign_expected s = 2 + length (successes trace) \<or> sign_expected s = 5"
    using sign_session_run [OF assms(2) new(1)] unfolding new(2) by blast
  ultimately show "\<exists>n. map sign_call_phase (successes trace) = [2..<2 + n] \<and> (sign_expected s = 2 + n \<or> sign_expected s = 5)"
    by blast
  show "distinct (map sign_call_phase (successes trace))"
    by (rule sign_calls.at_most_once [OF assms(2) new(1)])
  show "sign_session_phase2 S oc s received q = (Err (sign_out_of_order s ''phase2 called out of order''), s)"
    if "2 \<in> set (map (sign_call_phase \<circ> fst) trace)" for received q
  proof -
    have "ss_phase1_to_2 s = None" using sign_session_spent [OF assms(2) new(1)] that by auto
    then show ?thesis by (simp only: sign_session_phase2_def option.case)
  qed
qed

section \<open>What a session returns\<close>

lemma sign_session_phase4_eq_Ok_iff:
  assumes S: "suite_ok S"
  shows "sign_session_phase4 S hex_error s ms low_s = Ok sig \<longleftrightarrow>
     (\<exists>x_coord s_hex rec_id r t. ss_x_coord s = Some x_coord \<and>
        sign_phase4 S (ss_party s) (ss_data s) x_coord ms low_s = Ok (s_hex, rec_id) \<and>
        hex_decode S FIELD_BYTES x_coord = Some (to_repr S r) \<and> s_hex = hex_encode S (to_repr S t) \<and>
        sig = \<lparr>sig_r = to_repr S r, sig_s = to_repr S t, recovery_id = rec_id\<rparr>)"
proof -
  have decode: "hex_decode S 32 (hex_encode S (to_repr S t)) = Some (to_repr S t)" for t
    using hex_decode_encode [OF suite_okD(2) [OF S], of "to_repr S t" 32] length_to_repr [OF suite_okD(2) [OF S]] by simp
  have "\<exists>r t. hex_decode S 32 x_coord = Some (to_repr S r) \<and> s_hex = hex_encode S (to_repr S t)"
    if "sign_phase4 S (ss_party s) (ss_data s) x_coord ms low_s = Ok (s_hex, rec_id)" for x_coord s_hex rec_id
    using that unfolding sign_phase4_eq_Ok_iff [OF S] FIELD_BYTES_def by blast
  then show ?thesis
    by (fastforce simp: sign_session_phase4_def outcome_simps FIELD_BYTES_def decode)
qed

lemma sign_session_phase4_total:
  assumes "suite_ok S" and "ss_x_coord s = Some x_coord"
    and "sign_phase4 S (ss_party s) (ss_data s) x_coord ms low_s = Ok res"
  shows "\<exists>sig. sign_session_phase4 S hex_error s ms low_s = Ok sig"
proof -
  obtain s_hex rec_id where res: "res = (s_hex, rec_id)" by fastforce
  from assms(3) obtain r t where "hex_decode S FIELD_BYTES x_coord = Some (to_repr S r)" "s_hex = hex_encode S (to_repr S t)"
    unfolding res sign_phase4_eq_Ok_iff [OF assms(1)] by blast
  then show ?thesis
    unfolding sign_session_phase4_eq_Ok_iff [OF assms(1)] using assms(2,3) res by blast
qed

text \<open>
  A signature a session returns has 32-byte halves that encode scalars \<open>r\<close> and \<open>s\<close> valid
  for the message under the party's key, \<open>s\<close> low if that was asked for, and a recovery id of
  0 or 1; and the session never fails with \<open>InvalidHex\<close>.
\<close>

theorem sign_session_signature:
  assumes S: "suite_ok S"
  shows "(sign_session_phase4 S hex_error s ms low_s = Ok sig \<longrightarrow> signature_ok sig \<and>
       (\<exists>r t. sig_r sig = to_repr S r \<and> sig_s sig = to_repr S t \<and> (low_s \<longrightarrow> \<not> is_high S t) \<and>
          ecdsa_valid S (message_hash (ss_data s)) (pk (ss_party s)) r t) \<and> recovery_id sig \<in> {0, 1}) \<and>
     (sign_session_phase4 S hex_error s ms low_s = Err a \<longrightarrow> (\<forall>detail. reason a \<noteq> InvalidHex detail))"
proof (intro conjI impI)
  assume "sign_session_phase4 S hex_error s ms low_s = Ok sig"
  then obtain x_coord s_hex rec_id r t where x: "hex_decode S FIELD_BYTES x_coord = Some (to_repr S r)"
    "s_hex = hex_encode S (to_repr S t)" "sig = \<lparr>sig_r = to_repr S r, sig_s = to_repr S t, recovery_id = rec_id\<rparr>"
    and ok: "sign_phase4 S (ss_party s) (ss_data s) x_coord ms low_s = Ok (s_hex, rec_id)"
    unfolding sign_session_phase4_eq_Ok_iff [OF S] by blast
  note E = suite_okD(2) [OF S]
  have inj: "to_repr S a = to_repr S b \<Longrightarrow> a = b" for a b using E by (metis reduce_to_repr)
  from ok obtain r' t' u where s: "hex_decode S FIELD_BYTES x_coord = Some (to_repr S r')" "s_hex = hex_encode S (to_repr S t')"
    "ecdsa_valid S (message_hash (ss_data s)) (pk (ss_party s)) r' t'" "t' = (if low_s \<and> is_high S u then - u else u)"
    "rec_id \<in> {0, 1}"
    unfolding sign_phase4_eq_Ok_iff [OF S] by auto
  have "parse_hex_to_scalar S s_hex = Some t" unfolding x(2) by (rule parse_hex_encode [OF E])
  moreover have "parse_hex_to_scalar S s_hex = Some t'" unfolding s(2) by (rule parse_hex_encode [OF E])
  ultimately have "t' = t" "r' = r" using x(1) s(1) inj by auto
  moreover have "low_s \<longrightarrow> \<not> is_high S t'" using s(4) is_high_minus [OF E] by auto
  ultimately show "signature_ok sig"
    "\<exists>r t. sig_r sig = to_repr S r \<and> sig_s sig = to_repr S t \<and> (low_s \<longrightarrow> \<not> is_high S t) \<and>
          ecdsa_valid S (message_hash (ss_data s)) (pk (ss_party s)) r t" "recovery_id sig \<in> {0, 1}"
    using s(3,5) x(3) length_to_repr [OF E] by (auto simp: signature_ok_def)
next
  assume err: "sign_session_phase4 S hex_error s ms low_s = Err a"
  show "\<forall>detail. reason a \<noteq> InvalidHex detail"
  proof (cases "ss_x_coord s")
    case None
    then show ?thesis using err by (auto simp: sign_session_phase4_def sign_out_of_order_def)
  next
    case (Some x_coord)
    show ?thesis
    proof (cases "sign_phase4 S (ss_party s) (ss_data s) x_coord ms low_s")
      case (Ok y)
      from sign_session_phase4_total [OF S Some this] have "\<exists>sig. sign_session_phase4 S hex_error s ms low_s = Ok sig" .
      then show ?thesis using err by simp
    next
      case (Err b)
      have "reason b \<noteq> InvalidHex detail" for detail
        using Err by (auto simp: sign_phase4_def sign_finish_def outcome_simps Let_def split: prod.splits if_splits)
      then show ?thesis using err Some Err by (auto simp: sign_session_phase4_def)
    qed (use err Some in \<open>simp_all add: sign_session_phase4_def\<close>)
  qed
qed

text \<open>
  C24: sessions of an honest quorum work: when every signer of a group has opened its session,
  all later calls succeed for any order of delivery, and every session returns the same
  signature, whose second half encodes \<open>s\<close>.
\<close>

theorem sign_sessions_correct:
  fixes S :: "('f::field, 'g::ab_group_add) suite"
  assumes S: "suite_ok S" and gps: "group_ok S cs prm sid cc ps pty" and sub: "set qs \<subseteq> set ps"
    and q: "signers_ok prm qs d sign h"
    and new: "\<And>i. i \<in> set qs \<Longrightarrow> sign_session_new S oc (pty i) (d i) (r i) = Ok ((s1 i, tr i), r' i)"
    and uk: "\<And>i. i \<in> set qs \<Longrightarrow> map_option fst (ss_phase1_to_2 (s1 i)) = Some (uk i)"
    and keys: "\<And>i. i \<in> set qs \<Longrightarrow> uk1_instance_key (uk i) \<noteq> 0"
    and k: "k = (\<Sum>i\<in>set qs. uk1_instance_key (uk i))" "k \<noteq> 0" and phi: "(\<Sum>i\<in>set qs. uk1_inversion_mask (uk i)) \<noteq> 0"
    and rx: "from_repr S (affine_x S (smul S (generator S) k)) = Some rx" "rx \<noteq> 0"
    and t: "t = (reduce S h + rx * secret_of cs) * inverse k" "t \<noteq> 0"
    and s: "s = (if low_s \<and> is_high S t then - t else t)"
    and rcv2: "\<And>i. i \<in> set qs \<Longrightarrow> mset (rcv2 i) = mset (addressed_to t1_parties qs tr i)"
  shows "\<exists>s2 tr2 q2.
     (\<forall>i\<in>set qs. sign_session_phase2 S oc (s1 i) (rcv2 i) (q1 i) = (Ok (tr2 i, q2 i), s2 i)) \<and>
     (\<forall>rcv3. (\<forall>i\<in>set qs. mset (rcv3 i) = mset (addressed_to t2_parties qs tr2 i)) \<longrightarrow>
        (\<exists>s3 bc. (\<forall>i\<in>set qs. sign_session_phase3 S (s2 i) (rcv3 i) = (Ok (bc i), s3 i)) \<and>
           (\<forall>ms. mset ms = mset (map bc qs) \<longrightarrow>
              (\<exists>sig. sig_s sig = to_repr S s \<and>
                 (\<forall>i\<in>set qs. sign_session_phase4 S hex_error (s3 i) ms low_s = Ok sig)))))"
proof -
  define keep where "keep = (\<lambda>i. snd (the (ss_phase1_to_2 (s1 i))))"
  have ph1: "sign_phase1 S oc (pty i) (d i) (r i) = Ok ((uk i, keep i, tr i), r' i) \<and>
      s1 i = \<lparr>ss_party = pty i, ss_data = d i, ss_phase1_to_2 = Some (uk i, keep i), ss_phase2_to_3 = None, ss_x_coord = None\<rparr>"
    if "i \<in> set qs" for i
  proof -
    from new [OF that] obtain a kp where one: "sign_phase1 S oc (pty i) (d i) (r i) = Ok ((a, kp, tr i), r' i)"
      and st: "s1 i = \<lparr>ss_party = pty i, ss_data = d i, ss_phase1_to_2 = Some (a, kp), ss_phase2_to_3 = None, ss_x_coord = None\<rparr>"
      by (auto simp: sign_session_new_def outcome_simps)
    have "a = uk i" "kp = keep i" using uk [OF that] by (simp_all add: st keep_def)
    then show ?thesis using one st by simp
  qed
  obtain uk2 keep2 tr2 q2 where
    p2: "\<And>i. i \<in> set qs \<Longrightarrow> sign_phase2 S oc (pty i) (d i) (uk i) (keep i) (rcv2 i) (q1 i) = Ok ((uk2 i, keep2 i, tr2 i), q2 i)"
    and rest: "\<And>rcv3. (\<forall>i\<in>set qs. mset (rcv3 i) = mset (addressed_to t2_parties qs tr2 i)) \<Longrightarrow>
        (\<exists>x_coord bc. (\<forall>i\<in>set qs. sign_phase3 S (pty i) (d i) (uk2 i) (keep2 i) (rcv3 i) = Ok (x_coord, bc i)) \<and>
           (\<forall>ms. mset ms = mset (map bc qs) \<longrightarrow>
              (\<exists>rec_id. \<forall>i\<in>set qs. sign_phase4 S (pty i) (d i) x_coord ms low_s = Ok (hex_encode S (to_repr S s), rec_id))))"
    using signing_completes [OF S gps sub q conjunct1 [OF ph1] keys k phi rx t s rcv2, of q1] by metis
  define s2 where "s2 = (\<lambda>i. \<lparr>ss_party = pty i, ss_data = d i, ss_phase1_to_2 = None,
      ss_phase2_to_3 = Some (uk2 i, keep2 i), ss_x_coord = None\<rparr>)"
  have "\<forall>i\<in>set qs. sign_session_phase2 S oc (s1 i) (rcv2 i) (q1 i) = (Ok (tr2 i, q2 i), s2 i)"
    using ph1 p2 by (simp add: sign_session_phase2_def s2_def)
  moreover have "\<exists>s3 bc. (\<forall>i\<in>set qs. sign_session_phase3 S (s2 i) (rcv3 i) = (Ok (bc i), s3 i)) \<and>
           (\<forall>ms. mset ms = mset (map bc qs) \<longrightarrow>
              (\<exists>sig. sig_s sig = to_repr S s \<and> (\<forall>i\<in>set qs. sign_session_phase4 S hex_error (s3 i) ms low_s = Ok sig)))"
    if deliv: "\<forall>i\<in>set qs. mset (rcv3 i) = mset (addressed_to t2_parties qs tr2 i)" for rcv3
  proof -
    obtain x_coord bc where p3: "\<forall>i\<in>set qs. sign_phase3 S (pty i) (d i) (uk2 i) (keep2 i) (rcv3 i) = Ok (x_coord, bc i)"
      and p4: "\<forall>ms. mset ms = mset (map bc qs) \<longrightarrow>
              (\<exists>rec_id. \<forall>i\<in>set qs. sign_phase4 S (pty i) (d i) x_coord ms low_s = Ok (hex_encode S (to_repr S s), rec_id))"
      using rest [OF deliv] by blast
    define s3 where "s3 = (\<lambda>i. \<lparr>ss_party = pty i, ss_data = d i, ss_phase1_to_2 = None,
        ss_phase2_to_3 = None, ss_x_coord = Some x_coord\<rparr> :: ('f, 'g) sign_session)"
    have "\<forall>i\<in>set qs. sign_session_phase3 S (s2 i) (rcv3 i) = (Ok (bc i), s3 i)"
      using p3 by (simp add: sign_session_phase3_def s2_def s3_def)
    moreover have "\<exists>sig. sig_s sig = to_repr S s \<and> (\<forall>i\<in>set qs. sign_session_phase4 S hex_error (s3 i) ms low_s = Ok sig)"
      if ms: "mset ms = mset (map bc qs)" for ms
    proof -
      obtain rec_id where p4: "\<forall>i\<in>set qs. sign_phase4 S (pty i) (d i) x_coord ms low_s = Ok (hex_encode S (to_repr S s), rec_id)"
        using p4 ms by blast
      have dec: "hex_decode S 32 (hex_encode S (to_repr S s)) = Some (to_repr S s)"
        using hex_decode_encode [OF suite_okD(2) [OF S], of "to_repr S s" 32] length_to_repr [OF suite_okD(2) [OF S]] by simp
      have "\<forall>i\<in>set qs. \<exists>rb. hex_decode S 32 x_coord = Some rb \<and>
         sign_session_phase4 S hex_error (s3 i) ms low_s = Ok \<lparr>sig_r = rb, sig_s = to_repr S s, recovery_id = rec_id\<rparr>"
      proof (intro ballI)
        fix i assume "i \<in> set qs"
        with p4 have ok: "sign_phase4 S (pty i) (d i) x_coord ms low_s = Ok (hex_encode S (to_repr S s), rec_id)" by blast
        then obtain x where "hex_decode S 32 x_coord = Some (to_repr S x)"
          unfolding sign_phase4_eq_Ok_iff [OF S] FIELD_BYTES_def by blast
        with ok show "\<exists>rb. hex_decode S 32 x_coord = Some rb \<and>
            sign_session_phase4 S hex_error (s3 i) ms low_s = Ok \<lparr>sig_r = rb, sig_s = to_repr S s, recovery_id = rec_id\<rparr>"
          using dec by (simp add: sign_session_phase4_def s3_def)
      qed
      then show ?thesis
        by (intro exI [of _ "\<lparr>sig_r = the (hex_decode S 32 x_coord), sig_s = to_repr S s, recovery_id = rec_id\<rparr>"])
          fastforce
    qed
    ultimately show ?thesis by blast
  qed
  ultimately show ?thesis by blast
qed

end
