(* ===== verification/Messages.thy ===== *)
theory Messages
  imports Prelude BTreeMap
begin

text \<open>
  Message framing (\<open>protocols/messages.rs\<close>): tagged, length-prefixed frames, the outgoing and
  incoming sides of a phase, and the search for a message in a byte stream. The encoding of a
  message type by \<open>bincode\<close> is a parameter. Shown here: what the search finds in any stream,
  that it always returns, and that a message put into a stream is read back from it.
\<close>

section \<open>Types\<close>

text \<open>\<open>MessageTag\<close>: the tag of a message type, with its serialisation; the errors are texts.\<close>

record 'm message_type =
  msg_tag :: u8
  serialize :: "'m \<Rightarrow> (string, bytes) outcome"
  deserialize :: "nat \<Rightarrow> bytes \<Rightarrow> (string, 'm) outcome"

datatype message_error =
    Serialization string
  | Deserialization string
  | TagMismatch u8 u8
  | NotFound u8
  | InvalidFrame string

record phase_output =
  out_broadcasts :: "bytes list"
  out_p2p :: "(u8, bytes) btree_map"

record phase_input =
  in_broadcasts :: "(u8, bytes) btree_map"
  in_p2p :: "(u8, bytes) btree_map"

definition FRAME_HEADER_LEN :: nat where "FRAME_HEADER_LEN = 5"

text \<open>\<open>u32::from_be_bytes\<close>; \<open>u32::to_be_bytes\<close> is \<open>u32_be\<close>.\<close>

definition u32_from_be :: "u8 \<Rightarrow> u8 \<Rightarrow> u8 \<Rightarrow> u8 \<Rightarrow> u32" where
  "u32_from_be a b c d =
     (push_bit 24 (ucast a) OR push_bit 16 (ucast b)) OR (push_bit 8 (ucast c) OR ucast d)"

section \<open>Frames\<close>

definition encode_frame :: "'m message_type \<Rightarrow> 'm \<Rightarrow> (message_error, bytes) outcome" where
  "encode_frame T message =
     and_then (map_err Serialization (serialize T message)) (\<lambda>payload.
     if 2 ^ 32 \<le> length payload then Err (Serialization ''payload exceeds u32::MAX'')
     else Ok (msg_tag T # u32_be (of_nat (length payload)) @ payload))"

text \<open>
  The loop of the search, from an offset. The sums of \<open>usize\<close> cannot overflow on a 64-bit
  target: a stream is shorter than \<open>2 ^ 63\<close> bytes and a length less than \<open>2 ^ 32\<close>.
\<close>

function find_from :: "'m message_type \<Rightarrow> bytes \<Rightarrow> nat \<Rightarrow> (message_error, 'm) outcome" where
  "find_from T stream offset =
     (if length stream \<le> offset then Err (NotFound 0)
      else if length stream < offset + FRAME_HEADER_LEN then Err (InvalidFrame ''truncated header'')
      else
      and_then (index stream offset) (\<lambda>tag.
      and_then (index stream (offset + 1)) (\<lambda>l3.
      and_then (index stream (offset + 2)) (\<lambda>l2.
      and_then (index stream (offset + 3)) (\<lambda>l1.
      and_then (index stream (offset + 4)) (\<lambda>l0.
      let len = unat (u32_from_be l3 l2 l1 l0); start = offset + FRAME_HEADER_LEN in
      if length stream < start + len then Err (InvalidFrame ''truncated payload'')
      else if tag = msg_tag T
      then map_err Deserialization (deserialize T len (take len (drop start stream)))
      else find_from T stream (start + len)))))))"
  by pat_completeness auto

termination
  by (relation "measure (\<lambda>(T, stream, offset). length stream - offset)") (auto simp: FRAME_HEADER_LEN_def)

declare find_from.simps [simp del]

definition find_in_stream :: "'m message_type \<Rightarrow> bytes \<Rightarrow> (message_error, 'm) outcome" where
  "find_in_stream T stream = find_from T stream 0"

section \<open>The two sides of a phase\<close>

definition phase_output_new :: phase_output where
  "phase_output_new = \<lparr>out_broadcasts = [], out_p2p = []\<rparr>"

definition add_broadcast ::
  "'m message_type \<Rightarrow> phase_output \<Rightarrow> 'm \<Rightarrow> (message_error, unit) outcome \<times> phase_output" where
  "add_broadcast T out message =
     (case encode_frame T message of
        Ok frame \<Rightarrow> (Ok (), out\<lparr>out_broadcasts := out_broadcasts out @ [frame]\<rparr>)
      | Err e \<Rightarrow> (Err e, out)
      | Panic \<Rightarrow> (Panic, out)
      | Diverge \<Rightarrow> (Diverge, out))"

text \<open>
  The entry of the receiver is created before the message is encoded: when that fails, an
  empty stream stays behind.
\<close>

definition add_p2p ::
  "'m message_type \<Rightarrow> phase_output \<Rightarrow> u8 \<Rightarrow> 'm \<Rightarrow> (message_error, unit) outcome \<times> phase_output" where
  "add_p2p T out to message =
     (let stream = (case btree_get (out_p2p out) to of None \<Rightarrow> [] | Some stream \<Rightarrow> stream);
          store = (\<lambda>s. out\<lparr>out_p2p := btree_insert to s (out_p2p out)\<rparr>) in
      case encode_frame T message of
        Ok frame \<Rightarrow> (Ok (), store (stream @ frame))
      | Err e \<Rightarrow> (Err e, store stream)
      | Panic \<Rightarrow> (Panic, store stream)
      | Diverge \<Rightarrow> (Diverge, store stream))"

fun named_not_found :: "u8 \<Rightarrow> message_error \<Rightarrow> message_error" where
  "named_not_found who (NotFound _) = NotFound who"
| "named_not_found who e = e"

definition get_broadcast :: "'m message_type \<Rightarrow> phase_input \<Rightarrow> u8 \<Rightarrow> (message_error, 'm) outcome" where
  "get_broadcast T inp who =
     and_then (ok_or (NotFound who) (btree_get (in_broadcasts inp) who)) (\<lambda>stream.
     map_err (named_not_found who) (find_in_stream T stream))"

definition get_p2p :: "'m message_type \<Rightarrow> phase_input \<Rightarrow> u8 \<Rightarrow> (message_error, 'm) outcome" where
  "get_p2p T inp who =
     and_then (ok_or (NotFound who) (btree_get (in_p2p inp) who)) (\<lambda>stream.
     map_err (named_not_found who) (find_in_stream T stream))"

section \<open>Lengths\<close>

lemma bit_u32_byte: "bit (w :: u32) n \<Longrightarrow> n < 32"
  using bit_imp_le_length [of w n] by simp

lemma u32_from_be_round_trip:
  "u32_from_be (ucast (drop_bit 24 n)) (ucast (drop_bit 16 n)) (ucast (drop_bit 8 n)) (ucast n) = (n :: u32)"
proof (rule bit_word_eqI)
  fix i assume "i < LENGTH(32)"
  then have "i < 32" by simp
  consider "i < 8" | "8 \<le> i" "i < 16" | "16 \<le> i" "i < 24" | "24 \<le> i" by linarith
  then show "bit (u32_from_be (ucast (drop_bit 24 n)) (ucast (drop_bit 16 n)) (ucast (drop_bit 8 n)) (ucast n)) i = bit n i"
    using \<open>i < 32\<close> by cases (auto simp: u32_from_be_def bit_simps)
qed

lemma u32_be_from_be: "u32_be (u32_from_be a b c d) = [a, b, c, d]"
proof -
  have "\<not> bit (w :: u8) (8 + n)" "\<not> bit (w :: u8) (16 + n)" "\<not> bit (w :: u8) (24 + n)" for w n
    using bit_imp_le_length [of w "8 + n"] bit_imp_le_length [of w "16 + n"] bit_imp_le_length [of w "24 + n"] by auto
  then show ?thesis by (auto simp: u32_be_def u32_from_be_def bit_simps intro!: bit_word_eqI)
qed

section \<open>Streams of frames\<close>

definition frame :: "u8 \<times> bytes \<Rightarrow> bytes" where
  "frame f = fst f # u32_be (of_nat (length (snd f))) @ snd f"

definition frame_ok :: "u8 \<times> bytes \<Rightarrow> bool" where
  "frame_ok f \<longleftrightarrow> length (snd f) < 2 ^ 32"

text \<open>What is left of a stream when no complete frame follows.\<close>

definition truncated :: "bytes \<Rightarrow> bool" where
  "truncated b \<longleftrightarrow> b \<noteq> [] \<and> (length b < FRAME_HEADER_LEN \<or>
     length b < FRAME_HEADER_LEN + unat (u32_from_be (b ! 1) (b ! 2) (b ! 3) (b ! 4)))"

definition truncation_error :: "bytes \<Rightarrow> message_error" where
  "truncation_error b = InvalidFrame (if length b < FRAME_HEADER_LEN then ''truncated header'' else ''truncated payload'')"

lemma length_frame: "length (frame f) = FRAME_HEADER_LEN + length (snd f)"
  by (simp add: frame_def FRAME_HEADER_LEN_def)

lemma unat_of_nat_u32: "n < 2 ^ 32 \<Longrightarrow> unat (of_nat n :: u32) = n"
  by (simp add: unat_of_nat take_bit_nat_eq_self)

lemma encode_frame_Ok_iff:
  "encode_frame T m = Ok b \<longleftrightarrow> (\<exists>p. serialize T m = Ok p \<and> length p < 2 ^ 32 \<and> b = frame (msg_tag T, p))"
proof (cases "serialize T m")
  case (Ok p)
  then show ?thesis by (auto simp: encode_frame_def frame_def)
qed (simp_all add: encode_frame_def)

text \<open>The header and the payload at an offset, read through \<open>drop\<close>.\<close>

lemma find_from_drop:
  assumes d: "drop n stream = b"
  shows "find_from T stream n =
     (if b = [] then Err (NotFound 0)
      else if truncated b then Err (truncation_error b)
      else let len = unat (u32_from_be (b ! 1) (b ! 2) (b ! 3) (b ! 4)) in
        if b ! 0 = msg_tag T then map_err Deserialization (deserialize T len (take len (drop FRAME_HEADER_LEN b)))
        else find_from T stream (n + FRAME_HEADER_LEN + len))"
proof (cases "length stream \<le> n")
  case True
  then show ?thesis using d by (simp add: find_from.simps [of T stream n])
next
  case False
  then have n: "n + length b = length stream" "b \<noteq> []" using d by auto
  have at: "stream ! (n + i) = b ! i" if "i < length b" for i using d that n by auto
  have ix: "index stream (n + i) = (Ok (b ! i) :: (message_error, u8) outcome)" if "i < length b" for i
    using at [OF that] that n by simp
  show ?thesis
  proof (cases "length b < FRAME_HEADER_LEN")
    case True
    then show ?thesis using n False by (simp add: find_from.simps [of T stream n] truncated_def truncation_error_def)
  next
    case False
    then have l: "4 < length b" by (simp add: FRAME_HEADER_LEN_def)
    have ix': "index stream n = (Ok (b ! 0) :: (message_error, u8) outcome)"
      "index stream (n + 1) = (Ok (b ! 1) :: (message_error, u8) outcome)" "index stream (n + 2) = (Ok (b ! 2) :: (message_error, u8) outcome)"
      "index stream (n + 3) = (Ok (b ! 3) :: (message_error, u8) outcome)" "index stream (n + 4) = (Ok (b ! 4) :: (message_error, u8) outcome)"
      using ix [of 0] ix [of 1] ix [of 2] ix [of 3] ix [of 4] l n(2) by simp_all
    have "0 < length b" using n(2) by simp
    then have "\<not> length stream \<le> n" "\<not> length stream < n + FRAME_HEADER_LEN" using n(1) False by linarith+
    moreover have "drop (n + FRAME_HEADER_LEN) stream = drop FRAME_HEADER_LEN b" unfolding d [symmetric] by (simp add: add.commute)
    moreover have "length stream < n + FRAME_HEADER_LEN + k \<longleftrightarrow> length b < FRAME_HEADER_LEN + k" for k using n(1) by linarith
    ultimately show ?thesis
      unfolding find_from.simps [of T stream n] ix' and_then.simps Let_def truncated_def truncation_error_def
      using n(2) False by simp
  qed
qed

lemma frame_header:
  assumes "frame_ok (t, p)" and "b = frame (t, p) @ rest"
  shows "b ! 0 = t" "unat (u32_from_be (b ! 1) (b ! 2) (b ! 3) (b ! 4)) = length p" "\<not> truncated b"
    "take (length p) (drop FRAME_HEADER_LEN b) = p" "drop (FRAME_HEADER_LEN + length p) b = rest"
proof -
  have b: "b = t # u32_be (of_nat (length p)) @ p @ rest" using assms(2) by (simp add: frame_def)
  show "b ! 0 = t" by (simp add: b)
  have "u32_from_be (b ! 1) (b ! 2) (b ! 3) (b ! 4) = of_nat (length p)"
    unfolding b u32_be_def by (simp add: u32_from_be_round_trip)
  then show len: "unat (u32_from_be (b ! 1) (b ! 2) (b ! 3) (b ! 4)) = length p"
    using assms(1) by (simp add: frame_ok_def unat_of_nat_u32)
  show "\<not> truncated b" unfolding truncated_def len by (simp add: b FRAME_HEADER_LEN_def)
  show "take (length p) (drop FRAME_HEADER_LEN b) = p" by (simp add: b u32_be_def FRAME_HEADER_LEN_def)
  show "drop (FRAME_HEADER_LEN + length p) b = rest"
    using length_frame [of "(t, p)"] by (simp add: assms(2))
qed

text \<open>What the search makes of a stream that is cut into frames and a rest.\<close>

definition found ::
  "'m message_type \<Rightarrow> (u8 \<times> bytes) list \<Rightarrow> bytes \<Rightarrow> (message_error, 'm) outcome" where
  "found T fs rest =
     (case List.find (\<lambda>f. fst f = msg_tag T) fs of
        Some (_, p) \<Rightarrow> map_err Deserialization (deserialize T (length p) p)
      | None \<Rightarrow> Err (if rest = [] then NotFound 0 else truncation_error rest))"

lemma find_from_frames:
  assumes "list_all frame_ok fs" and "rest = [] \<or> truncated rest"
    and "drop n stream = concat (map frame fs) @ rest"
  shows "find_from T stream n = found T fs rest"
  using assms
proof (induction fs arbitrary: n)
  case Nil
  then show ?case using find_from_drop [of n stream rest T] by (auto simp: found_def)
next
  case (Cons f fs)
  obtain t p where f: "f = (t, p)" by fastforce
  have ok: "frame_ok (t, p)" using Cons.prems(1) by (simp add: f)
  have b: "drop n stream = frame (t, p) @ concat (map frame fs) @ rest" using Cons.prems(3) by (simp add: f)
  note h = frame_header [OF ok b]
  have "drop n stream \<noteq> []" by (simp add: b frame_def)
  moreover have "drop (n + FRAME_HEADER_LEN + length p) stream = concat (map frame fs) @ rest"
    using h(5) by (simp add: add.commute add.left_commute)
  then have "find_from T stream (n + FRAME_HEADER_LEN + length p) = found T fs rest"
    using Cons.IH Cons.prems(1,2) by simp
  ultimately show ?case
    using h(1-4) by (auto simp: find_from_drop [OF refl, of T stream n] Let_def found_def f)
qed

text \<open>Every stream can be cut, and in one way only.\<close>

lemma stream_cut: "\<exists>fs rest. list_all frame_ok fs \<and> (rest = [] \<or> truncated rest) \<and> stream = concat (map frame fs) @ rest"
proof (induction "length stream" arbitrary: stream rule: less_induct)
  case less
  show ?case
  proof (cases "stream = [] \<or> truncated stream")
    case True
    then show ?thesis by (intro exI [of _ "[]"] exI [of _ stream]) simp
  next
    case False
    let ?n = "unat (u32_from_be (stream ! 1) (stream ! 2) (stream ! 3) (stream ! 4))"
    let ?p = "take ?n (drop FRAME_HEADER_LEN stream)" and ?r = "drop (FRAME_HEADER_LEN + ?n) stream"
    have l: "5 \<le> length stream" "5 + ?n \<le> length stream"
      using False by (auto simp: truncated_def FRAME_HEADER_LEN_def)
    have "?n < 2 ^ 32" using unsigned_less [of "u32_from_be (stream ! 1) (stream ! 2) (stream ! 3) (stream ! 4)"] by simp
    moreover have p: "length ?p = ?n" using l by (simp add: FRAME_HEADER_LEN_def)
    ultimately have ok: "frame_ok (stream ! 0, ?p)" by (simp add: frame_ok_def)
    obtain a b c d e tl where s: "stream = a # b # c # d # e # tl"
      using l(1) by (auto simp: Suc_le_length_iff numeral_eq_Suc)
    have w: "of_nat (unat n) = n" for n :: u32 by simp
    have "frame (stream ! 0, ?p) @ ?r = stream"
      unfolding frame_def snd_conv fst_conv p w u32_be_from_be
      by (simp add: s FRAME_HEADER_LEN_def numeral_eq_Suc)
    moreover have "length ?r < length stream" using l by (simp add: FRAME_HEADER_LEN_def)
    from less [OF this] obtain fs rest where "list_all frame_ok fs" "rest = [] \<or> truncated rest" "?r = concat (map frame fs) @ rest"
      by blast
    ultimately show ?thesis using ok
      by (intro exI [of _ "(stream ! 0, ?p) # fs"] exI [of _ rest]) simp
  qed
qed

text \<open>
  C33: the search implements the grammar of streams. Any stream of bytes is a sequence of frames
  followed by nothing or by an incomplete frame; the search returns the decoded payload of the
  first frame with the tag, and without one an error that says which of the two it is. In
  particular it always ends and never reads past the stream.
\<close>

theorem find_in_stream_spec:
  "\<exists>fs rest. stream = concat (map frame fs) @ rest \<and> list_all frame_ok fs \<and> (rest = [] \<or> truncated rest) \<and>
     find_in_stream T stream = found T fs rest"
proof -
  obtain fs rest where c: "list_all frame_ok fs" "rest = [] \<or> truncated rest" "stream = concat (map frame fs) @ rest"
    using stream_cut by blast
  from find_from_frames [OF c(1,2), of 0 stream T] c(3) have "find_in_stream T stream = found T fs rest"
    by (simp add: find_in_stream_def)
  with c show ?thesis by blast
qed

section \<open>Round trips\<close>

text \<open>Messages of several types, for several receivers, in the order they are added.\<close>

definition send_each :: "(u8 \<times> 'm message_type \<times> 'm) list \<Rightarrow> phase_output \<Rightarrow> phase_output" where
  "send_each ms out = fold (\<lambda>(to, T, m) out. snd (add_p2p T out to m)) ms out"

text \<open>What the code relies on: the message fits a frame and can be read back.\<close>

definition can_send :: "'m message_type \<Rightarrow> 'm \<Rightarrow> bool" where
  "can_send T m \<longleftrightarrow> (case serialize T m of Ok b \<Rightarrow> length b < 2 ^ 32 \<and> deserialize T (length b) b = Ok m | _ \<Rightarrow> False)"

fun payload_of :: "(string, bytes) outcome \<Rightarrow> bytes" where
  "payload_of (Ok b) = b"
| "payload_of _ = []"

lemma can_send_payload:
  "can_send T m \<Longrightarrow> encode_frame T m = Ok (frame (msg_tag T, payload_of (serialize T m))) \<and>
     frame_ok (msg_tag T, payload_of (serialize T m)) \<and>
     deserialize T (length (payload_of (serialize T m))) (payload_of (serialize T m)) = Ok m"
  by (cases "serialize T m") (auto simp: can_send_def encode_frame_Ok_iff frame_ok_def)

definition addressed_frames :: "u8 \<Rightarrow> (u8 \<times> 'm message_type \<times> 'm) list \<Rightarrow> (u8 \<times> bytes) list" where
  "addressed_frames to ms = map (\<lambda>(_, T, m). (msg_tag T, payload_of (serialize T m))) (filter (\<lambda>x. fst x = to) ms)"

lemma add_p2p_Ok:
  assumes "can_send T m"
  shows "snd (add_p2p T out i m) = out\<lparr>out_p2p := btree_insert i
     ((case btree_get (out_p2p out) i of None \<Rightarrow> [] | Some b \<Rightarrow> b) @ frame (msg_tag T, payload_of (serialize T m))) (out_p2p out)\<rparr>"
  using can_send_payload [OF assms] by (simp add: add_p2p_def Let_def)

lemma send_each_stream:
  assumes "\<forall>(i, T, m)\<in>set ms. can_send T m" and "btree_wf (out_p2p out)"
  shows "btree_get (out_p2p (send_each ms out)) to =
     (if addressed_frames to ms = [] then btree_get (out_p2p out) to
      else Some ((case btree_get (out_p2p out) to of None \<Rightarrow> [] | Some b \<Rightarrow> b) @ concat (map frame (addressed_frames to ms))))"
  using assms
proof (induction ms arbitrary: out)
  case (Cons x ms)
  obtain i T m where x: "x = (i, T, m)" by (cases x) auto
  have "can_send T m" using Cons.prems(1) by (simp add: x)
  note step = add_p2p_Ok [OF this, of out i]
  let ?old = "case btree_get (out_p2p out) i of None \<Rightarrow> [] | Some b \<Rightarrow> b"
  let ?f = "(msg_tag T, payload_of (serialize T m))"
  let ?out = "out\<lparr>out_p2p := btree_insert i (?old @ frame ?f) (out_p2p out)\<rparr>"
  have "btree_wf (out_p2p ?out)" using Cons.prems(2) by auto
  note IH = Cons.IH [OF _ this]
  have get: "btree_get (out_p2p ?out) to = (if to = i then Some (?old @ frame ?f) else btree_get (out_p2p out) to)"
    using Cons.prems(2) by (simp add: btree_get_insert)
  have send: "send_each (x # ms) out = send_each ms ?out" by (simp add: send_each_def x step)
  have frames: "addressed_frames to (x # ms) = (if to = i then [?f] else []) @ addressed_frames to ms"
    by (simp add: addressed_frames_def x)
  have "\<forall>(i, T, m)\<in>set ms. can_send T m" using Cons.prems(1) by simp
  from IH [OF this] show ?case unfolding send get frames by simp
qed (simp add: send_each_def addressed_frames_def)

lemma addressed_frames_ok:
  "\<forall>(i, T, m)\<in>set ms. can_send T m \<Longrightarrow> list_all frame_ok (addressed_frames to ms)"
  using can_send_payload by (fastforce simp: list_all_iff addressed_frames_def)

text \<open>A stream made of frames only, as a receiver reads it.\<close>

lemma find_in_frames: "list_all frame_ok fs \<Longrightarrow> find_in_stream T (concat (map frame fs)) = found T fs []"
  unfolding find_in_stream_def by (intro find_from_frames) simp_all

lemma get_p2p_found:
  assumes "\<forall>(i, T, m)\<in>set ms. can_send T m"
    and "btree_get (in_p2p inp) who = btree_get (out_p2p (send_each ms phase_output_new)) to"
  shows "get_p2p T inp who = map_err (named_not_found who) (found T (addressed_frames to ms) [])"
proof -
  have "btree_wf (out_p2p phase_output_new)" by (simp add: phase_output_new_def)
  from send_each_stream [OF assms(1) this, where to = to] have stream: "btree_get (in_p2p inp) who =
      (if addressed_frames to ms = [] then None else Some (concat (map frame (addressed_frames to ms))))"
    using assms(2) by (simp add: phase_output_new_def)
  show ?thesis
  proof (cases "addressed_frames to ms = []")
    case True
    then show ?thesis using stream by (simp add: get_p2p_def found_def)
  next
    case False
    have "find_in_stream T (concat (map frame (addressed_frames to ms))) = found T (addressed_frames to ms) []"
      by (rule find_in_frames [OF addressed_frames_ok [OF assms(1)]])
    then show ?thesis using stream False by (simp add: get_p2p_def)
  qed
qed

lemma find_mem: "List.find P xs = Some x \<Longrightarrow> x \<in> set xs \<and> P x"
  by (induction xs) (auto split: if_splits)

text \<open>The first of the messages for a receiver that has a tag.\<close>

definition first_for :: "u8 \<Rightarrow> u8 \<Rightarrow> (u8 \<times> 'm message_type \<times> 'm) list \<Rightarrow> (u8 \<times> 'm message_type \<times> 'm) option" where
  "first_for to t ms = List.find (\<lambda>(i, T, m). i = to \<and> msg_tag T = t) ms"

lemma found_addressed:
  assumes ok: "\<forall>(i, T, m)\<in>set ms. can_send T m"
  shows "first_for to (msg_tag T) ms = Some (to, T, m) \<Longrightarrow> found T (addressed_frames to ms) [] = Ok m"
    and "first_for to (msg_tag T) ms = None \<Longrightarrow> found T (addressed_frames to ms) [] = Err (NotFound 0)"
proof -
  have find: "List.find (\<lambda>f. fst f = msg_tag T) (addressed_frames to ms) =
      map_option (\<lambda>(i, T', m). (msg_tag T', payload_of (serialize T' m))) (first_for to (msg_tag T) ms)"
    by (induction ms) (auto simp: addressed_frames_def first_for_def)
  show "found T (addressed_frames to ms) [] = Ok m"
    if hit: "first_for to (msg_tag T) ms = Some (to, T, m)"
  proof -
    have "(to, T, m) \<in> set ms" using find_mem [OF hit [unfolded first_for_def]] by simp
    then have "can_send T m" using ok by blast
    from can_send_payload [OF this] show ?thesis by (simp add: found_def find hit)
  qed
  show "found T (addressed_frames to ms) [] = Err (NotFound 0)"
    if "first_for to (msg_tag T) ms = None"
    using that by (simp add: found_def find)
qed

text \<open>
  C34: messages arrive. If messages, all small enough and decodable, are added for several receivers in
  any order, and a receiver is handed the stream for it as that of the sender, then it reads
  back the first message of each tag addressed to it as it was, and is told that there is none
  of a tag, under the sender's index, exactly if none with that tag is addressed to it.
\<close>

theorem p2p_round_trip:
  assumes "\<forall>(i, T, m)\<in>set ms. can_send T m"
    and "btree_get (in_p2p inp) who = btree_get (out_p2p (send_each ms phase_output_new)) to"
  shows "(first_for to (msg_tag T) ms = Some (to, T, m) \<longrightarrow> get_p2p T inp who = Ok m) \<and>
     (first_for to (msg_tag T) ms = None \<longrightarrow> get_p2p T inp who = Err (NotFound who))"
  using found_addressed [OF assms(1)] unfolding get_p2p_found [OF assms] by auto

section \<open>Broadcasts\<close>

text \<open>What a sender broadcasts, and a receiver that is handed all of it as one stream.\<close>

definition broadcast_each :: "('m message_type \<times> 'm) list \<Rightarrow> phase_output \<Rightarrow> phase_output" where
  "broadcast_each ms out = fold (\<lambda>(T, m) out. snd (add_broadcast T out m)) ms out"

lemma broadcast_each_stream:
  assumes "\<forall>(T, m)\<in>set ms. can_send T m"
  shows "out_broadcasts (broadcast_each ms out) =
      out_broadcasts out @ map frame (addressed_frames to (map (\<lambda>x. (to, x)) ms)) \<and> out_p2p (broadcast_each ms out) = out_p2p out"
  using assms
proof (induction ms arbitrary: out)
  case (Cons x ms)
  obtain T m where x: "x = (T, m)" by fastforce
  have "can_send T m" using Cons.prems by (simp add: x)
  then have "snd (add_broadcast T out m) = out\<lparr>out_broadcasts := out_broadcasts out @ [frame (msg_tag T, payload_of (serialize T m))]\<rparr>"
    using can_send_payload [of T m] by (simp add: add_broadcast_def)
  then show ?case using Cons.IH Cons.prems by (simp add: broadcast_each_def x addressed_frames_def)
qed (simp add: broadcast_each_def addressed_frames_def)

lemma get_broadcast_found:
  assumes ok: "\<forall>(T, m)\<in>set ms. can_send T m"
    and "btree_get (in_broadcasts inp) who = Some (concat (out_broadcasts (broadcast_each ms phase_output_new)))"
  shows "get_broadcast T inp who = map_err (named_not_found who) (found T (addressed_frames to (map (\<lambda>x. (to, x)) ms)) [])"
proof -
  have "out_broadcasts (broadcast_each ms phase_output_new) = map frame (addressed_frames to (map (\<lambda>x. (to, x)) ms))"
    using broadcast_each_stream [OF ok, of phase_output_new to] by (simp add: phase_output_new_def)
  moreover have "list_all frame_ok (addressed_frames to (map (\<lambda>x. (to, x)) ms))"
    by (rule addressed_frames_ok) (use ok in auto)
  ultimately show ?thesis using assms(2) by (simp add: get_broadcast_def find_in_frames)
qed

end
