(* ===== verification/ReKey.thy ===== *)
theory ReKey
  imports DkgHonest
begin

text \<open>
  Re-keying (\<open>protocols/re_key.rs\<close>): a trusted dealer that has the secret key makes the data of
  all parties locally. The definitions follow the sections of the function: polynomial,
  zero-share seeds, multiplication states, chain code, parties. Shown here: it always
  succeeds, and what it makes is a group with the given secret.
\<close>

section \<open>The dealer\<close>

definition re_key_polynomial :: "u8 \<Rightarrow> 'f \<Rightarrow> 'f rng \<Rightarrow> 'f list \<times> 'f rng" where
  "re_key_polynomial t secret_key r =
     (let (cs, r1) = draw_list (\<lambda>_. random_scalar) (u8_range 1 t) r in (secret_key # cs, r1))"

text \<open>Row \<open>lower_index - 1\<close> holds the seeds of the pairs with the higher indices.\<close>

definition re_key_common_seeds :: "u8 \<Rightarrow> 'f rng \<Rightarrow> bytes list list \<times> 'f rng" where
  "re_key_common_seeds n r =
     draw_list (\<lambda>lower_index. draw_list (\<lambda>_. random_bytes 32) (u8_range_incl (lower_index + 1) n)) (u8_range 1 n) r"

definition re_key_seed :: "bytes list list \<Rightarrow> u8 \<Rightarrow> u8 \<Rightarrow> ('e, bytes) outcome" where
  "re_key_seed common_seeds lower higher =
     and_then (index common_seeds (unat (lower - 1))) (\<lambda>row. index row (unat (higher - lower - 1)))"

definition re_key_zero_share :: "u8 \<Rightarrow> bytes list list \<Rightarrow> u8 \<Rightarrow> ('e, zero_share) outcome" where
  "re_key_zero_share n common_seeds me =
     and_then (if 1 < me then collect_try (\<lambda>c.
         and_then (party_index_unwrap c) (\<lambda>idx.
         and_then (re_key_seed common_seeds c me) (\<lambda>sd.
         Ok \<lparr>lowest_index = False, index_counterparty = idx, seed = sd\<rparr>))) (u8_range 1 me) else Ok []) (\<lambda>highest.
     and_then (if me < n then collect_try (\<lambda>c.
         and_then (party_index_unwrap c) (\<lambda>idx.
         and_then (re_key_seed common_seeds me c) (\<lambda>sd.
         Ok \<lparr>lowest_index = True, index_counterparty = idx, seed = sd\<rparr>))) (u8_range_incl (me + 1) n) else Ok []) (\<lambda>lowest.
     Ok (zero_share_initialize (highest @ lowest))))"

definition re_key_seed_pair :: "'f rng \<Rightarrow> (bytes \<times> bytes) \<times> 'f rng" where
  "re_key_seed_pair r = (let (a, r1) = random_bytes 32 r; (b, r2) = random_bytes 32 r1 in ((a, b), r2))"

text \<open>The states of one multiplication: seeds, correlation with the chosen seeds, gadget.\<close>

definition re_key_mul_pair :: "'f rng \<Rightarrow> ('f mul_receiver \<times> 'f mul_sender) \<times> 'f rng" where
  "re_key_mul_pair r =
     (let (pairs, r1) = draw_list (\<lambda>_. re_key_seed_pair) [0..<KAPPA] r;
          (correlation, r2) = draw_list (\<lambda>_. random_bool) [0..<KAPPA] r1;
          chosen = map (\<lambda>(bit, pair). if bit then snd pair else fst pair) (zip correlation pairs);
          (gadget, r3) = draw_list (\<lambda>_. random_scalar) [0..<BATCH_SIZE] r2 in
      ((\<lparr>receiver_gadget = gadget, mul_ote_receiver = \<lparr>seeds0 = map fst pairs, seeds1 = map snd pairs\<rparr>\<rparr>,
        \<lparr>sender_gadget = gadget, mul_ote_sender = \<lparr>ote_correlation = correlation, ote_seeds = chosen\<rparr>\<rparr>), r3))"

text \<open>\<open>maps[i].insert(k, v)\<close>\<close>

definition insert_at :: "('k::linorder, 'v) btree_map list \<Rightarrow> nat \<Rightarrow> 'k \<Rightarrow> 'v \<Rightarrow> ('e, ('k, 'v) btree_map list) outcome" where
  "insert_at maps i k v = and_then (index maps i) (\<lambda>m. Ok (maps[i := btree_insert k v m]))"

definition re_key_mul_step ::
  "((party_index, 'f mul_receiver) btree_map list \<times> (party_index, 'f mul_sender) btree_map list) \<times> 'f rng
   \<Rightarrow> u8 \<times> u8
   \<Rightarrow> ('e, ((party_index, 'f mul_receiver) btree_map list \<times> (party_index, 'f mul_sender) btree_map list) \<times> 'f rng) outcome" where
  "re_key_mul_step st pair =
     (let ((receivers, senders), r) = st; (rcv, snd_idx) = pair in
      if snd_idx = rcv then Ok ((receivers, senders), r)
      else let ((mul_receiver, mul_sender), r1) = re_key_mul_pair r in
        and_then (party_index_unwrap snd_idx) (\<lambda>s_idx.
        and_then (insert_at receivers (unat (rcv - 1)) s_idx mul_receiver) (\<lambda>receivers'.
        and_then (party_index_unwrap rcv) (\<lambda>r_idx.
        and_then (insert_at senders (unat (snd_idx - 1)) r_idx mul_sender) (\<lambda>senders'.
        Ok ((receivers', senders'), r1))))))"

text \<open>The two nested loops visit the pairs \<open>(receiver, sender)\<close> row by row.\<close>

definition re_key_mul ::
  "u8 \<Rightarrow> 'f rng \<Rightarrow> ('e, ((party_index, 'f mul_receiver) btree_map list \<times> (party_index, 'f mul_sender) btree_map list) \<times> 'f rng) outcome" where
  "re_key_mul n r =
     each (\<lambda>st rcv. each (\<lambda>st snd_idx. re_key_mul_step st (rcv, snd_idx)) st (u8_range_incl 1 n))
       ((replicate (unat n) [], replicate (unat n) []), r) (u8_range_incl 1 n)"

definition re_key_chain_code :: "bytes option \<Rightarrow> 'f rng \<Rightarrow> bytes \<times> 'f rng" where
  "re_key_chain_code option_chain_code r =
     (case option_chain_code of Some cc \<Rightarrow> (cc, r) | None \<Rightarrow> random_bytes CHAIN_CODE_LEN r)"

text \<open>The value of the polynomial, with a running power of the index.\<close>

definition re_key_poly_point :: "u8 \<Rightarrow> 'f::field list \<Rightarrow> u8 \<Rightarrow> ('e, 'f) outcome" where
  "re_key_poly_point t polynomial idx =
     and_then (each (\<lambda>(acc, power) i.
         and_then (index polynomial (unat i)) (\<lambda>c. Ok (acc + c * power, power * scalar_of_u8 idx))) (0, 1) (u8_range 0 t))
       (\<lambda>(acc, power). Ok acc)"

definition re_key_party ::
  "parameters \<Rightarrow> bytes \<Rightarrow> 'f::field list \<Rightarrow> 'g \<Rightarrow> zero_share list \<Rightarrow> (party_index, 'f mul_receiver) btree_map list
   \<Rightarrow> (party_index, 'f mul_sender) btree_map list \<Rightarrow> bytes \<Rightarrow> ('g \<Rightarrow> string) \<Rightarrow> u8 \<Rightarrow> ('e, ('f, 'g) party) outcome" where
  "re_key_party p session_id polynomial key zero_shares receivers senders cc address_fn idx =
     and_then (re_key_poly_point (threshold p) polynomial idx) (\<lambda>pp.
     and_then (party_index_unwrap idx) (\<lambda>i.
     and_then (index zero_shares (unat (idx - 1))) (\<lambda>zs.
     and_then (index senders (unat (idx - 1))) (\<lambda>ss.
     and_then (index receivers (unat (idx - 1))) (\<lambda>rs.
     Ok \<lparr>party_parameters = p, party_index_of = i, party_session_id = session_id, poly_point = pp, pk = key,
         zero_share_of = zs, mul_senders = ss, mul_receivers = rs,
         derivation_data = \<lparr>depth = 0, child_number = 0, parent_fingerprint = replicate 4 0, dd_poly_point = pp,
           dd_pk = key, chain_code = cc\<rparr>,
         address = address_fn key\<rparr>)))))"

definition re_key ::
  "('f::field, 'g::ab_group_add) suite \<Rightarrow> bool \<Rightarrow> parameters \<Rightarrow> bytes \<Rightarrow> 'f \<Rightarrow> bytes option \<Rightarrow> ('g \<Rightarrow> string) \<Rightarrow> 'f rng
   \<Rightarrow> ('e, (('f, 'g) party list \<times> 'g public_key_package) \<times> 'f rng) outcome" where
  "re_key S oc p session_id secret_key option_chain_code address_fn r =
     (let n = share_count p; key = smul S (generator S) secret_key;
          (polynomial, r1) = re_key_polynomial (threshold p) secret_key r in
      and_then (u8_sub oc n 1) (\<lambda>_.
      let (common_seeds, r2) = re_key_common_seeds n r1 in
      and_then (collect_try (re_key_zero_share n common_seeds) (u8_range_incl 1 n)) (\<lambda>zero_shares.
      and_then (re_key_mul n r2) (\<lambda>((receivers, senders), r3).
      let (cc, r4) = re_key_chain_code option_chain_code r3 in
      and_then (collect_try (re_key_party p session_id polynomial key zero_shares receivers senders cc address_fn)
        (u8_range_incl 1 n)) (\<lambda>parties.
      let shares = fold (\<lambda>q. btree_insert (party_index_of q) (smul S (generator S) (poly_point q))) parties [] in
      Ok ((parties, public_key_package_new key shares p), r4))))))"

section \<open>The seeds\<close>

declare length_u8_range [simp]

lemma length_u8_range_incl [simp]: "length (u8_range_incl a b) = Suc (unat b) - unat a"
  by (auto simp: u8_range_incl_def Suc_diff_le)

lemma u8_succ_less: "unat a < unat b \<Longrightarrow> unat (a + 1 :: u8) = unat a + 1" for b :: u8
proof -
  assume "unat a < unat b"
  then have "unat a + 1 < 256" using unat_u8_bound [of b] by linarith
  then show ?thesis by (simp add: unat_u8_plus)
qed

lemma nth_u8_range: "i < unat b - unat a \<Longrightarrow> u8_range a b ! i = of_nat (unat a + i)"
  by (simp add: u8_range_def)

lemma unat_u8_minus: "unat b \<le> unat a \<Longrightarrow> unat (a - b :: u8) = unat a - unat b"
  by (simp add: unat_sub word_le_nat_alt)

text \<open>The seed of a pair, in either order.\<close>

definition pair_seed :: "bytes list list \<Rightarrow> u8 \<Rightarrow> u8 \<Rightarrow> bytes" where
  "pair_seed common_seeds i j =
     (let lower = min (unat i) (unat j); higher = max (unat i) (unat j) in
      common_seeds ! (lower - 1) ! (higher - lower - 1))"

lemma pair_seed_commute: "pair_seed cs i j = pair_seed cs j i"
  by (simp add: pair_seed_def min.commute max.commute)

lemma re_key_seed_Ok:
  fixes r :: "'f rng"
  assumes r: "re_key_common_seeds n r = (common_seeds, r')" and "1 \<le> unat lower" "unat lower < unat higher" "unat higher \<le> unat n"
  shows "re_key_seed common_seeds lower higher = (Ok (pair_seed common_seeds lower higher) :: ('e, bytes) outcome)"
proof -
  have one: "unat (1 :: u8) = 1" by simp
  have len: "length common_seeds = unat n - 1"
    using draw_list_length [of "\<lambda>lower_index. draw_list (\<lambda>_. random_bytes 32) (u8_range_incl (lower_index + 1) n)" "u8_range 1 n" r] r
    by (simp add: re_key_common_seeds_def)
  have i: "unat (lower - 1) = unat lower - 1" using assms(2) by (simp add: unat_u8_minus)
  let ?F = "\<lambda>lower_index. draw_list (\<lambda>_. random_bytes 32 :: 'f rng \<Rightarrow> _) (u8_range_incl (lower_index + 1) n)"
  have lt: "unat lower - 1 < length (u8_range 1 n)" using assms(2-4) by simp
  have common: "fst (draw_list ?F (u8_range 1 n) r) = common_seeds" using r by (simp add: re_key_common_seeds_def)
  have at: "u8_range 1 n ! (unat lower - 1) = lower" using assms(2-4) by (simp add: nth_u8_range)
  from draw_list_nth [OF lt, of ?F r] obtain a :: "'f rng" where
    "common_seeds ! (unat lower - 1) = fst (draw_list (\<lambda>_. random_bytes 32) (u8_range_incl (lower + 1) n) a)"
    unfolding common at by blast
  moreover have "unat (lower + 1) = unat lower + 1" using assms(3) by (rule u8_succ_less)
  ultimately have row: "length (common_seeds ! (unat lower - 1)) = unat n - unat lower"
    by (simp add: draw_list_length)
  have j: "unat (higher - lower - 1) = unat higher - unat lower - 1" using assms(2,3) by (simp add: unat_u8_minus)
  have "index common_seeds (unat (lower - 1)) = (Ok (common_seeds ! (unat lower - 1)) :: ('e, _) outcome)"
    unfolding i using assms(2-4) by (intro index_in_range) (simp add: len)
  moreover have "index (common_seeds ! (unat lower - 1)) (unat (higher - lower - 1)) =
      (Ok (common_seeds ! (unat lower - 1) ! (unat higher - unat lower - 1)) :: ('e, _) outcome)"
    unfolding j using assms(2-4) row by (intro index_in_range) simp
  ultimately show ?thesis using assms(3) by (simp add: re_key_seed_def pair_seed_def min_def max_def Let_def)
qed

definition re_key_entry :: "bytes list list \<Rightarrow> u8 \<Rightarrow> u8 \<Rightarrow> seed_pair" where
  "re_key_entry common_seeds me c =
     \<lparr>lowest_index = (me < c), index_counterparty = PartyIndex c, seed = pair_seed common_seeds me c\<rparr>"

lemma re_key_zero_share_Ok:
  assumes r: "re_key_common_seeds n r = (common_seeds, r')" and me: "1 \<le> unat me" "unat me \<le> unat n"
  shows "re_key_zero_share n common_seeds me =
     (Ok (zero_share_initialize (map (re_key_entry common_seeds me) (u8_range 1 me @ (if me < n then u8_range_incl (me + 1) n else [])))) :: ('e, _) outcome)"
proof -
  have low: "collect_try (\<lambda>c. and_then (party_index_unwrap c) (\<lambda>idx. and_then (re_key_seed common_seeds c me) (\<lambda>sd.
      Ok \<lparr>lowest_index = False, index_counterparty = idx, seed = sd\<rparr>))) (u8_range 1 me) =
      (Ok (map (re_key_entry common_seeds me) (u8_range 1 me)) :: ('e, _) outcome)"
  proof (rule collect_try_total)
    fix c assume "c \<in> set (u8_range 1 me)"
    then have c: "1 \<le> unat c" "unat c < unat me" by (auto simp: set_u8_range)
    then have "c \<noteq> 0" "\<not> me < c" by (auto simp: word_less_nat_alt)
    then show "and_then (party_index_unwrap c) (\<lambda>idx. and_then (re_key_seed common_seeds c me) (\<lambda>sd.
      Ok \<lparr>lowest_index = False, index_counterparty = idx, seed = sd\<rparr>)) = (Ok (re_key_entry common_seeds me c) :: ('e, _) outcome)"
      by (simp add: re_key_seed_Ok [OF r c me(2)] re_key_entry_def pair_seed_commute [of common_seeds me])
  qed
  have high: "collect_try (\<lambda>c. and_then (party_index_unwrap c) (\<lambda>idx. and_then (re_key_seed common_seeds me c) (\<lambda>sd.
      Ok \<lparr>lowest_index = True, index_counterparty = idx, seed = sd\<rparr>))) (u8_range_incl (me + 1) n) =
      (Ok (map (re_key_entry common_seeds me) (u8_range_incl (me + 1) n)) :: ('e, _) outcome)" if "me < n"
  proof (rule collect_try_total)
    fix c assume "c \<in> set (u8_range_incl (me + 1) n)"
    moreover have "unat (me + 1) = unat me + 1"
      using that by (intro u8_succ_less [of me n]) (simp add: word_less_nat_alt)
    ultimately have c: "unat me < unat c" "unat c \<le> unat n" by (auto simp: u8_range_incl_eq)
    then have "c \<noteq> 0" "me < c" by (auto simp: word_less_nat_alt)
    then show "and_then (party_index_unwrap c) (\<lambda>idx. and_then (re_key_seed common_seeds me c) (\<lambda>sd.
      Ok \<lparr>lowest_index = True, index_counterparty = idx, seed = sd\<rparr>)) = (Ok (re_key_entry common_seeds me c) :: ('e, _) outcome)"
      by (simp add: re_key_seed_Ok [OF r me(1) c] re_key_entry_def)
  qed
  have one: "\<not> 1 < me \<Longrightarrow> u8_range 1 me = []" by (auto simp: u8_range_def word_less_nat_alt)
  show ?thesis
    unfolding re_key_zero_share_def low using high one by (cases "1 < me"; cases "me < n") simp_all
qed

lemma find_entry:
  "c \<in> set xs \<Longrightarrow> List.find (\<lambda>sp. index_counterparty sp = PartyIndex c) (map (re_key_entry cs me) xs) = Some (re_key_entry cs me c)"
  by (induction xs) (auto simp: re_key_entry_def)

text \<open>The zero-share seeds agree.\<close>

lemma re_key_zero_shares_agree:
  assumes r: "re_key_common_seeds n r = (common_seeds, r')"
    and zs: "\<And>i. i \<in> set (all_parties n) \<Longrightarrow> re_key_zero_share n common_seeds (as_u8 i) = (Ok (zs i) :: ('e, _) outcome)"
  shows "zero_shares_agree (all_parties n) zs"
proof -
  define cp where "cp = (\<lambda>me. u8_range 1 me @ (if me < n then u8_range_incl (me + 1) n else []))"
  have eq: "zs i = zero_share_initialize (map (re_key_entry common_seeds (as_u8 i)) (cp (as_u8 i)))" if "i \<in> set (all_parties n)" for i
    using re_key_zero_share_Ok [OF r, of "as_u8 i", where 'e = 'e] zs [OF that] that unfolding cp_def set_all_parties by simp
  have succ: "unat (me + 1) = unat me + 1" if "me < n" for me
    using that by (intro u8_succ_less [of me n]) (simp add: word_less_nat_alt)
  have d: "distinct (cp me)" for me
  proof -
    have "distinct (u8_range 1 me)" unfolding u8_range_def
      using unat_u8_bound [of me] by (intro distinct_u8_map) (auto intro: less_trans)
    then show ?thesis using distinct_u8_range_incl succ by (auto simp: cp_def set_u8_range u8_range_incl_eq)
  qed
  have cp: "as_u8 j \<in> set (cp (as_u8 i))" if "i \<in> set (all_parties n)" "j \<in> set (all_parties n)" "j \<noteq> i" for i j
  proof -
    have "unat (as_u8 j) \<noteq> unat (as_u8 i)" using that(3) by (simp add: party_index_neq_iff word_unat_eq_iff)
    then show ?thesis using that succ by (auto simp: cp_def set_all_parties set_u8_range u8_range_incl_eq word_less_nat_alt)
  qed
  have sf: "seed_for (zs i) j = Some (re_key_entry common_seeds (as_u8 i) (as_u8 j))"
    if "i \<in> set (all_parties n)" "j \<in> set (all_parties n)" "j \<noteq> i" for i j
    using find_entry [OF cp [OF that], of common_seeds "as_u8 i"] by (simp add: seed_for_def eq [OF that(1)] zero_share_initialize_def)
  have "distinct (map index_counterparty (seeds (zs i)))" if "i \<in> set (all_parties n)" for i
    using d by (auto simp: eq [OF that] zero_share_initialize_def comp_def re_key_entry_def distinct_map inj_on_def)
  then show ?thesis
    unfolding zero_shares_agree_def
    using sf by (auto simp: re_key_entry_def pair_seed_commute less_eq_party_index_def party_index_neq_iff less_le)
qed

section \<open>The multiplications\<close>

lemma re_key_mul_pair_paired:
  assumes "re_key_mul_pair r = ((w, s), r')"
  shows "mul_paired s w"
proof -
  obtain pairs r1 where p: "draw_list (\<lambda>_. re_key_seed_pair) [0..<KAPPA] r = (pairs, r1)"
    by fastforce
  obtain correlation r2 where c: "draw_list (\<lambda>_. random_bool) [0..<KAPPA] r1 = (correlation, r2)" by fastforce
  obtain gadget r3 where g: "draw_list (\<lambda>_. random_scalar) [0..<BATCH_SIZE] r2 = (gadget, r3)" by fastforce
  have len: "length pairs = KAPPA" "length correlation = KAPPA" "length gadget = BATCH_SIZE"
    using draw_list_length [of "\<lambda>_. re_key_seed_pair" "[0..<KAPPA]" r]
      draw_list_length [of "\<lambda>_. random_bool" "[0..<KAPPA]" r1] draw_list_length [of "\<lambda>_. random_scalar" "[0..<BATCH_SIZE]" r2]
    by (simp_all add: p c g)
  show ?thesis
    using assms len by (auto simp: re_key_mul_pair_def p c g mul_paired_def ote_paired_def)
qed

text \<open>A loop that keeps an invariant over what it has visited.\<close>

lemma each_visited:
  assumes "\<And>D s x. x \<in> set xs \<Longrightarrow> I D s \<Longrightarrow> \<exists>t. f s x = Ok t \<and> I (insert x D) t" and "I D s"
  shows "\<exists>t. each f s xs = Ok t \<and> I (D \<union> set xs) t"
  using assms
proof (induction xs arbitrary: D s)
  case (Cons x xs)
  then obtain t where t: "f s x = Ok t" "I (insert x D) t" by (metis list.set_intros(1))
  have "\<exists>u. each f t xs = Ok u \<and> I (insert x D \<union> set xs) u" using Cons.prems(1) t(2) by (intro Cons.IH) auto
  with t show ?case by simp
qed simp

lemma each_product:
  "each (\<lambda>st x. each (\<lambda>st y. f st (x, y)) st ys) s xs = each f s (List.product xs ys)"
proof (induction xs arbitrary: s)
  case (Cons x xs)
  have "each (\<lambda>st y. f st (x, y)) s ys = each f s (map (Pair x) ys)" for s by (simp add: each_map)
  then show ?case using Cons by (simp add: each_append)
qed simp

definition re_key_entries :: "(u8 \<times> u8) set \<Rightarrow> u8 \<Rightarrow> u8 \<Rightarrow> 'f mul_receiver option \<Rightarrow> 'f mul_sender option \<Rightarrow> bool" where
  "re_key_entries D a b w s \<longleftrightarrow>
     (case (w, s) of
        (Some w, Some s) \<Rightarrow> (a, b) \<in> D \<and> a \<noteq> b \<and> mul_paired s w
      | (None, None) \<Rightarrow> (a, b) \<notin> D \<or> a = b
      | _ \<Rightarrow> False)"

lemma re_key_entries_insert:
  "re_key_entries D x y w s \<Longrightarrow> (x, y) \<noteq> (a, b) \<or> a = b \<Longrightarrow> re_key_entries (insert (a, b) D) x y w s"
  by (auto simp: re_key_entries_def split: option.splits)

text \<open>After the pairs \<open>D\<close> the maps have an entry, and paired ones, exactly for them.\<close>

definition re_key_paired ::
  "u8 \<Rightarrow> (u8 \<times> u8) set \<Rightarrow> (party_index, 'f mul_receiver) btree_map list \<Rightarrow> (party_index, 'f mul_sender) btree_map list \<Rightarrow> bool" where
  "re_key_paired n D receivers senders \<longleftrightarrow>
     length receivers = unat n \<and> length senders = unat n \<and> list_all btree_wf receivers \<and> list_all btree_wf senders \<and>
     list_all (\<lambda>m. set (btree_keys m) \<subseteq> set (all_parties n)) receivers \<and> list_all (\<lambda>m. set (btree_keys m) \<subseteq> set (all_parties n)) senders \<and>
     (\<forall>a b. 1 \<le> unat a \<and> unat a \<le> unat n \<and> 1 \<le> unat b \<and> unat b \<le> unat n \<longrightarrow>
        re_key_entries D a b (btree_get (receivers ! (unat a - 1)) (PartyIndex b)) (btree_get (senders ! (unat b - 1)) (PartyIndex a)))"

lemma re_key_mul_step_paired:
  assumes inv: "re_key_paired n D receivers senders"
    and rng: "1 \<le> unat a" "unat a \<le> unat n" "1 \<le> unat b" "unat b \<le> unat n"
  shows "\<exists>receivers' senders' r'. re_key_mul_step ((receivers, senders), r) (a, b) = (Ok ((receivers', senders'), r') :: ('e, _) outcome) \<and>
     re_key_paired n (insert (a, b) D) receivers' senders'"
proof (cases "b = a")
  case True
  have "re_key_paired n (insert (a, b) D) receivers senders"
    using inv True unfolding re_key_paired_def by (simp add: re_key_entries_insert)
  then show ?thesis by (simp add: re_key_mul_step_def True)
next
  case False
  obtain w s r' where p: "re_key_mul_pair r = ((w, s), r')" by (metis prod.exhaust)
  have paired: "mul_paired s w" by (rule re_key_mul_pair_paired [OF p])
  let ?i = "unat a - 1" and ?j = "unat b - 1"
  let ?R = "receivers[?i := btree_insert (PartyIndex b) w (receivers ! ?i)]"
  let ?S = "senders[?j := btree_insert (PartyIndex a) s (senders ! ?j)]"
  have len: "length receivers = unat n" "length senders = unat n" and wf: "\<And>k. k < unat n \<Longrightarrow> btree_wf (receivers ! k)"
    "\<And>k. k < unat n \<Longrightarrow> btree_wf (senders ! k)"
    using inv by (auto simp: re_key_paired_def list_all_length)
  have ij: "unat (a - 1) = ?i" "unat (b - 1) = ?j" "?i < unat n" "?j < unat n"
    using rng by (auto simp: unat_u8_minus)
  have nz: "a \<noteq> 0" "b \<noteq> 0" using rng by auto
  have run: "re_key_mul_step ((receivers, senders), r) (a, b) = (Ok ((?R, ?S), r') :: ('e, _) outcome)"
    using False nz ij len by (simp add: re_key_mul_step_def p insert_at_def)
  have R: "btree_get (?R ! (unat x - 1)) (PartyIndex y) =
      (if x = a \<and> y = b then Some w else btree_get (receivers ! (unat x - 1)) (PartyIndex y))" if "1 \<le> unat x" "unat x \<le> unat n" for x y
  proof -
    have "unat x - 1 = ?i \<longleftrightarrow> x = a" using that(1) rng(1) by (auto simp: word_unat_eq_iff)
    then show ?thesis using ij len wf by (auto simp: nth_list_update btree_get_insert)
  qed
  have S: "btree_get (?S ! (unat y - 1)) (PartyIndex x) =
      (if x = a \<and> y = b then Some s else btree_get (senders ! (unat y - 1)) (PartyIndex x))" if "1 \<le> unat y" "unat y \<le> unat n" for x y
  proof -
    have "unat y - 1 = ?j \<longleftrightarrow> y = b" using that(1) rng(3) by (auto simp: word_unat_eq_iff)
    then show ?thesis using ij len wf by (auto simp: nth_list_update btree_get_insert)
  qed
  have "list_all btree_wf ?R" "list_all btree_wf ?S"
    using wf len ij by (auto simp: list_all_length nth_list_update)
  moreover have "list_all (\<lambda>m. set (btree_keys m) \<subseteq> set (all_parties n)) ?R" "list_all (\<lambda>m. set (btree_keys m) \<subseteq> set (all_parties n)) ?S"
    using inv ij rng by (auto simp: re_key_paired_def list_all_length nth_list_update btree_keys_def keys_btree_insert set_all_parties)
  moreover have "re_key_entries (insert (a, b) D) x y (btree_get (?R ! (unat x - 1)) (PartyIndex y)) (btree_get (?S ! (unat y - 1)) (PartyIndex x))"
    if "1 \<le> unat x" "unat x \<le> unat n" "1 \<le> unat y" "unat y \<le> unat n" for x y
  proof (cases "x = a \<and> y = b")
    case True
    then show ?thesis using paired False unfolding R [OF that(1,2)] S [OF that(3,4)] by (simp add: re_key_entries_def)
  next
    case ne: False
    then have "(x, y) \<noteq> (a, b)" by auto
    moreover have "re_key_entries D x y (btree_get (receivers ! (unat x - 1)) (PartyIndex y)) (btree_get (senders ! (unat y - 1)) (PartyIndex x))"
      using inv that unfolding re_key_paired_def by blast
    ultimately show ?thesis using ne unfolding R [OF that(1,2)] S [OF that(3,4)] by (auto simp: re_key_entries_insert)
  qed
  ultimately have "re_key_paired n (insert (a, b) D) ?R ?S" using len unfolding re_key_paired_def by simp
  with run show ?thesis by blast
qed

lemma re_key_mul_paired:
  "\<exists>receivers senders r'. re_key_mul n r = (Ok ((receivers, senders), r') :: ('e, _) outcome) \<and>
     re_key_paired n ({a. 1 \<le> unat a \<and> unat a \<le> unat n} \<times> {a. 1 \<le> unat a \<and> unat a \<le> unat n}) receivers senders"
proof -
  let ?I = "\<lambda>D t. re_key_paired n D (fst (fst t)) (snd (fst t))"
  have start: "?I {} ((replicate (unat n) [], replicate (unat n) []), r)"
    by (auto simp: re_key_paired_def re_key_entries_def list_all_length btree_keys_def)
  have "\<exists>t. each re_key_mul_step ((replicate (unat n) [], replicate (unat n) []), r)
      (List.product (u8_range_incl 1 n) (u8_range_incl 1 n)) = (Ok t :: ('e, _) outcome) \<and>
      ?I ({} \<union> set (List.product (u8_range_incl 1 n) (u8_range_incl 1 n))) t"
  proof (rule each_visited [where I = ?I])
    fix D and st :: "((party_index, 'a mul_receiver) btree_map list \<times> (party_index, 'a mul_sender) btree_map list) \<times> 'a rng" and x
    assume x: "x \<in> set (List.product (u8_range_incl 1 n) (u8_range_incl 1 n))" and I: "?I D st"
    obtain rs ss q a b where st: "st = ((rs, ss), q)" "x = (a, b)" by (metis prod.exhaust)
    have "1 \<le> unat a" "unat a \<le> unat n" "1 \<le> unat b" "unat b \<le> unat n" using x by (auto simp: st u8_range_incl_eq)
    from re_key_mul_step_paired [OF _ this, of D rs ss q] I
    show "\<exists>t. re_key_mul_step st x = (Ok t :: ('e, _) outcome) \<and> ?I (insert x D) t" by (fastforce simp: st)
  qed (rule start)
  then show ?thesis unfolding re_key_mul_def each_product by (auto simp: u8_range_incl_eq)
qed

section \<open>The parties\<close>

lemma horner_sum: "horner (*) cs (x :: 'f::field) = (\<Sum>i<length cs. cs ! i * x ^ i)"
proof (induction cs)
  case (Cons c cs)
  have "(\<Sum>i<length (c # cs). (c # cs) ! i * x ^ i) = c + (\<Sum>i<length cs. cs ! i * x ^ Suc i)"
    by (simp only: length_Cons sum.lessThan_Suc_shift) simp
  also have "(\<Sum>i<length cs. cs ! i * x ^ Suc i) = (\<Sum>i<length cs. cs ! i * x ^ i) * x"
    by (simp add: sum_distrib_left mult.commute mult.left_commute)
  finally show ?case using Cons by (simp add: add.commute)
qed simp

lemma re_key_poly_point_Ok:
  assumes "length polynomial = unat t"
  shows "re_key_poly_point t polynomial idx = (Ok (horner (*) polynomial (scalar_of_u8 idx)) :: ('e, 'f::field) outcome)"
proof -
  let ?f = "\<lambda>(acc, power) i. and_then (index polynomial (unat (i :: u8))) (\<lambda>c. Ok (acc + c * power, power * scalar_of_u8 idx)) :: ('e, 'f \<times> 'f) outcome"
  have loop: "each ?f (0, 1) (map of_nat [0..<k]) =
      Ok (\<Sum>i<k. polynomial ! i * scalar_of_u8 idx ^ i, scalar_of_u8 idx ^ k)" if "k \<le> unat t" for k
    using that
  proof (induction k)
    case (Suc k)
    then have "k < 256" using unat_u8_bound [of t] by linarith
    then have "index polynomial (unat (of_nat k :: u8)) = (Ok (polynomial ! k) :: ('e, 'f) outcome)"
      using Suc.prems assms by (simp add: unat_of_nat_u8)
    then show ?case using Suc by (simp add: each_append mult.commute)
  qed simp
  show ?thesis using loop [of "unat t"] assms by (simp add: re_key_poly_point_def u8_range_def horner_sum)
qed

lemma btree_fold_insert:
  assumes "distinct (map key xs)" and "btree_wf m"
  shows "btree_wf (fold (\<lambda>q. btree_insert (key q) (f q)) xs m) \<and>
     (\<forall>q\<in>set xs. btree_get (fold (\<lambda>q. btree_insert (key q) (f q)) xs m) (key q) = Some (f q)) \<and>
     (\<forall>k. k \<notin> key ` set xs \<longrightarrow> btree_get (fold (\<lambda>q. btree_insert (key q) (f q)) xs m) k = btree_get m k)"
  using assms
proof (induction xs arbitrary: m)
  case (Cons x xs)
  have wf: "btree_wf (btree_insert (key x) (f x) m)" using Cons.prems(2) by auto
  have IH: "btree_wf (fold (\<lambda>q. btree_insert (key q) (f q)) xs (btree_insert (key x) (f x) m)) \<and>
     (\<forall>q\<in>set xs. btree_get (fold (\<lambda>q. btree_insert (key q) (f q)) xs (btree_insert (key x) (f x) m)) (key q) = Some (f q)) \<and>
     (\<forall>k. k \<notin> key ` set xs \<longrightarrow> btree_get (fold (\<lambda>q. btree_insert (key q) (f q)) xs (btree_insert (key x) (f x) m)) k =
        btree_get (btree_insert (key x) (f x) m) k)"
    using Cons.prems(1) by (intro Cons.IH [OF _ wf]) simp
  then show ?case using Cons.prems by (auto simp: btree_get_insert)
qed simp

text \<open>What the dealer hands out, as one function of the index.\<close>

definition re_key_member ::
  "parameters \<Rightarrow> bytes \<Rightarrow> 'f::field list \<Rightarrow> 'g \<Rightarrow> (u8 \<Rightarrow> zero_share) \<Rightarrow> (party_index, 'f mul_receiver) btree_map list
   \<Rightarrow> (party_index, 'f mul_sender) btree_map list \<Rightarrow> bytes \<Rightarrow> ('g \<Rightarrow> string) \<Rightarrow> u8 \<Rightarrow> ('f, 'g) party" where
  "re_key_member prm sid F key zs receivers senders cc address_fn i =
     \<lparr>party_parameters = prm, party_index_of = PartyIndex i, party_session_id = sid,
      poly_point = share_of F (PartyIndex i), pk = key, zero_share_of = zs i, mul_senders = senders ! (unat i - 1),
      mul_receivers = receivers ! (unat i - 1),
      derivation_data = \<lparr>depth = 0, child_number = 0, parent_fingerprint = replicate 4 0,
        dd_poly_point = share_of F (PartyIndex i), dd_pk = key, chain_code = cc\<rparr>, address = address_fn key\<rparr>"

definition all_pairs :: "u8 \<Rightarrow> (u8 \<times> u8) set" where
  "all_pairs n = {a. 1 \<le> unat a \<and> unat a \<le> unat n} \<times> {a. 1 \<le> unat a \<and> unat a \<le> unat n}"

definition re_key_seeds :: "bytes list list \<Rightarrow> u8 \<Rightarrow> u8 \<Rightarrow> zero_share" where
  "re_key_seeds common n i =
     zero_share_initialize (map (re_key_entry common i) (u8_range 1 i @ (if i < n then u8_range_incl (i + 1) n else [])))"

lemma index_of_map_u8: "i \<in> set (u8_range_incl 1 n) \<Longrightarrow> map f (u8_range_incl 1 n) ! (unat i - 1) = f i"
  using nth_u8_range_incl [of i n] by (auto simp: u8_range_incl_eq)

lemma re_key_party_Ok:
  fixes F :: "'f::field list"
  assumes F: "length F = unat (threshold prm)" and len: "length receivers = unat n" "length senders = unat n"
    and i: "i \<in> set (u8_range_incl 1 n)"
  shows "re_key_party prm sid F key (map zs (u8_range_incl 1 n)) receivers senders cc address_fn i =
     (Ok (re_key_member prm sid F key zs receivers senders cc address_fn i) :: ('e, _) outcome)"
proof -
  have r: "1 \<le> unat i" "unat i \<le> unat n" using i by (auto simp: u8_range_incl_eq)
  then have "unat (i - 1) = unat i - 1" "unat i - 1 < unat n" "i \<noteq> 0" by (auto simp: unat_u8_minus)
  then show ?thesis using len index_of_map_u8 [OF i, of zs]
    by (simp add: re_key_party_def re_key_poly_point_Ok [OF F] re_key_member_def share_of_def)
qed

text \<open>The whole run.\<close>

lemma re_key_run:
  fixes S :: "('f::field, 'g::ab_group_add) suite"
  assumes p: "valid_parameters prm" and n: "n = share_count prm" and key: "key = smul S (generator S) secret_key"
  obtains F common receivers senders cc r' where "length F = unat (threshold prm)" and "F \<noteq> []" and "secret_of F = secret_key"
    and "re_key S oc prm sid secret_key option_chain_code address_fn r =
      (Ok ((map (re_key_member prm sid F key (re_key_seeds common n) receivers senders cc address_fn) (u8_range_incl 1 n),
        public_key_package_new key (fold (\<lambda>q. btree_insert (party_index_of q) (smul S (generator S) (poly_point q)))
          (map (re_key_member prm sid F key (re_key_seeds common n) receivers senders cc address_fn) (u8_range_incl 1 n)) []) prm), r')
        :: ('e, _) outcome)"
    and "zero_shares_agree (all_parties n) (\<lambda>i. re_key_seeds common n (as_u8 i))"
    and "re_key_paired n (all_pairs n) receivers senders"
    and "option_chain_code \<noteq> None \<longrightarrow> option_chain_code = Some cc"
proof -
  have t: "1 \<le> unat (threshold prm)" "1 \<le> unat n" using p n by (auto simp: valid_parameters_def)
  obtain F r1 where F: "re_key_polynomial (threshold prm) secret_key r = (F, r1)" by fastforce
  have lenF: "length F = unat (threshold prm)" and F0: "F \<noteq> []" "secret_of F = secret_key"
    using F t draw_list_length [of "\<lambda>_. random_scalar" "u8_range 1 (threshold prm)" r]
    by (auto simp: re_key_polynomial_def secret_of_def split: prod.splits)
  obtain common r2 where common: "re_key_common_seeds n r1 = (common, r2)" by fastforce
  have zok: "re_key_zero_share n common i = (Ok (re_key_seeds common n i) :: ('e, _) outcome)" if "i \<in> set (u8_range_incl 1 n)" for i
    using re_key_zero_share_Ok [OF common, of i, where 'e = 'e] that unfolding re_key_seeds_def u8_range_incl_eq by simp
  have zlist: "collect_try (re_key_zero_share n common) (u8_range_incl 1 n) = (Ok (map (re_key_seeds common n) (u8_range_incl 1 n)) :: ('e, _) outcome)"
    by (rule collect_try_total [OF zok])
  have zagree: "zero_shares_agree (all_parties n) (\<lambda>i. re_key_seeds common n (as_u8 i))"
    by (rule re_key_zero_shares_agree [OF common, where 'e = 'e]) (simp add: zok set_all_parties u8_range_incl_eq)
  obtain receivers senders r3 where mul: "re_key_mul n r2 = (Ok ((receivers, senders), r3) :: ('e, _) outcome)"
    and paired: "re_key_paired n (all_pairs n) receivers senders"
    using re_key_mul_paired unfolding all_pairs_def by blast
  have len: "length receivers = unat n" "length senders = unat n" using paired by (simp_all add: re_key_paired_def)
  obtain cc r4 where cc: "re_key_chain_code option_chain_code r3 = (cc, r4)" by fastforce
  have plist: "collect_try (re_key_party prm sid F key (map (re_key_seeds common n) (u8_range_incl 1 n)) receivers senders cc address_fn)
      (u8_range_incl 1 n) =
      (Ok (map (re_key_member prm sid F key (re_key_seeds common n) receivers senders cc address_fn) (u8_range_incl 1 n)) :: ('e, _) outcome)"
    by (rule collect_try_total [OF re_key_party_Ok [OF lenF len]])
  have one: "u8_sub oc n 1 = (Ok (n - 1) :: ('e, u8) outcome)" using t by (intro u8_sub_exact) simp
  show thesis
  proof (rule that [OF lenF F0 _ zagree paired])
    show "option_chain_code \<noteq> None \<longrightarrow> option_chain_code = Some cc" using cc by (auto simp: re_key_chain_code_def)
  qed (simp add: re_key_def F one common zlist mul cc plist key [symmetric] flip: n)
qed

text \<open>After all pairs every map has exactly the other parties as keys.\<close>

lemma btree_keys_unique:
  "btree_wf m \<Longrightarrow> set (btree_keys m) = set js \<Longrightarrow> sorted_wrt (<) js \<Longrightarrow> btree_keys m = js"
  by (simp add: btree_wf_def btree_keys_def strict_sorted_equal)

lemma re_key_entry_of:
  assumes "re_key_paired n (all_pairs n) receivers senders"
    and "1 \<le> unat a" "unat a \<le> unat n" "1 \<le> unat b" "unat b \<le> unat n"
  shows "re_key_entries (all_pairs n) a b (btree_get (receivers ! (unat a - 1)) (PartyIndex b)) (btree_get (senders ! (unat b - 1)) (PartyIndex a))"
  using assms by (simp add: re_key_paired_def)

lemma re_key_maps:
  assumes paired: "re_key_paired n (all_pairs n) receivers senders" and a: "1 \<le> unat a" "unat a \<le> unat n"
  shows "btree_wf (receivers ! (unat a - 1)) \<and> btree_keys (receivers ! (unat a - 1)) = others n (PartyIndex a) \<and>
     btree_wf (senders ! (unat a - 1)) \<and> btree_keys (senders ! (unat a - 1)) = others n (PartyIndex a)"
proof -
  let ?k = "unat a - 1"
  have k: "?k < unat n" using a by linarith
  then have wf: "btree_wf (receivers ! ?k)" "btree_wf (senders ! ?k)" "set (btree_keys (receivers ! ?k)) \<subseteq> set (all_parties n)"
    "set (btree_keys (senders ! ?k)) \<subseteq> set (all_parties n)"
    using paired by (simp_all add: re_key_paired_def list_all_length)
  have "(j \<in> set (btree_keys (receivers ! ?k)) \<longleftrightarrow> j \<noteq> PartyIndex a) \<and> (j \<in> set (btree_keys (senders ! ?k)) \<longleftrightarrow> j \<noteq> PartyIndex a)"
    if "j \<in> set (all_parties n)" for j
  proof -
    have b: "1 \<le> unat (as_u8 j)" "unat (as_u8 j) \<le> unat n" using that by (simp_all add: set_all_parties)
    show ?thesis using re_key_entry_of [OF paired a b] re_key_entry_of [OF paired b a] a b
      by (cases j) (simp add: re_key_entries_def all_pairs_def btree_keys_contains btree_contains_iff split: option.splits)
  qed
  then have sets: "set (btree_keys (receivers ! ?k)) = set (others n (PartyIndex a))" "set (btree_keys (senders ! ?k)) = set (others n (PartyIndex a))"
    unfolding others_simps(1) using wf(3,4) by blast+
  show ?thesis using wf(1,2) btree_keys_unique [OF wf(1) sets(1) others_simps(3)] btree_keys_unique [OF wf(2) sets(2) others_simps(3)]
    by simp
qed

lemma re_key_members_group:
  fixes S :: "('f::field, 'g::ab_group_add) suite"
  assumes F: "length F = unat (threshold prm)" "F \<noteq> []" and n: "n = share_count prm"
    and agree: "zero_shares_agree (all_parties n) (\<lambda>i. zs (as_u8 i))" and paired: "re_key_paired n (all_pairs n) receivers senders"
  shows "group_ok S F prm sid cc (all_parties n)
     (\<lambda>i. re_key_member prm sid F (smul S (generator S) (secret_of F)) zs receivers senders cc address_fn (as_u8 i))"
    (is "group_ok S F prm sid cc _ ?pty")
proof -
  have rng: "1 \<le> unat (as_u8 i)" "unat (as_u8 i) \<le> unat n" if "i \<in> set (all_parties n)" for i
    using that by (simp_all add: set_all_parties)
  have "member_ok S F prm sid cc i (?pty i)" if i: "i \<in> set (all_parties n)" for i
  proof -
    have "as_u8 i \<noteq> 0" using rng [OF i] by auto
    then show ?thesis using rng [OF i] re_key_maps [OF paired rng [OF i]] n
      by (simp add: member_ok_def re_key_member_def party_ok_def word_le_nat_alt)
  qed
  moreover have "mul_states_paired (all_parties n) ?pty"
    unfolding mul_states_paired_def
  proof (intro ballI impI)
    fix i j assume ij: "i \<in> set (all_parties n)" "j \<in> set (all_parties n)" "i \<noteq> j"
    then have "as_u8 j \<noteq> as_u8 i" by (simp add: party_index_neq_iff)
    with re_key_entry_of [OF paired rng [OF ij(2)] rng [OF ij(1)]] rng [OF ij(1)] rng [OF ij(2)]
    show "\<exists>s w. btree_get (mul_senders (?pty i)) j = Some s \<and> btree_get (mul_receivers (?pty j)) i = Some w \<and> mul_paired s w"
      by (auto simp: re_key_entries_def all_pairs_def re_key_member_def split: option.splits)
  qed
  moreover have "zero_shares_agree (all_parties n) (\<lambda>i. zero_share_of (?pty i))" using agree by (simp add: re_key_member_def)
  ultimately show ?thesis using F distinct_all_parties by (simp add: group_ok_def)
qed

lemma re_key_makes_group:
  fixes S :: "('f::field, 'g::ab_group_add) suite"
  assumes p: "valid_parameters prm" and n: "n = share_count prm"
  shows "\<exists>parties pkg r' F cc. re_key S oc prm sid secret_key option_chain_code address_fn r = (Ok ((parties, pkg), r') :: ('e, _) outcome) \<and>
     length parties = unat n \<and> secret_of F = secret_key \<and>
     group_ok S F prm sid cc (all_parties n) (\<lambda>i. parties ! (unat (as_u8 i) - 1)) \<and>
     (option_chain_code \<noteq> None \<longrightarrow> option_chain_code = Some cc) \<and>
     verifying_key pkg = smul S (generator S) secret_key \<and>
     (\<forall>i\<in>set (all_parties n). verifying_share pkg i = Some (smul S (generator S) (share_of F i)))"
proof -
  let ?G = "smul S (generator S)"
  obtain F common receivers senders cc r' where F: "length F = unat (threshold prm)" "F \<noteq> []" "secret_of F = secret_key"
    and run: "re_key S oc prm sid secret_key option_chain_code address_fn r =
      (Ok ((map (re_key_member prm sid F (?G secret_key) (re_key_seeds common n) receivers senders cc address_fn) (u8_range_incl 1 n),
        public_key_package_new (?G secret_key) (fold (\<lambda>q. btree_insert (party_index_of q) (?G (poly_point q)))
          (map (re_key_member prm sid F (?G secret_key) (re_key_seeds common n) receivers senders cc address_fn) (u8_range_incl 1 n)) []) prm), r')
        :: ('e, _) outcome)"
    and agree: "zero_shares_agree (all_parties n) (\<lambda>i. re_key_seeds common n (as_u8 i))"
    and paired: "re_key_paired n (all_pairs n) receivers senders"
    and cc: "option_chain_code \<noteq> None \<longrightarrow> option_chain_code = Some cc"
    using re_key_run [OF p n refl, where S = S and oc = oc and sid = sid and secret_key = secret_key
        and option_chain_code = option_chain_code and address_fn = address_fn and r = r and 'e = 'e] by blast
  let ?mk = "re_key_member prm sid F (?G secret_key) (re_key_seeds common n) receivers senders cc address_fn"
  let ?parties = "map ?mk (u8_range_incl 1 n)" and ?ins = "\<lambda>q. btree_insert (party_index_of q) (?G (poly_point q))"
  have "group_ok S F prm sid cc (all_parties n) (\<lambda>i. ?mk (as_u8 i))"
    using re_key_members_group [OF F(1,2) n agree paired, of S sid cc address_fn] by (simp add: F(3))
  then have group: "group_ok S F prm sid cc (all_parties n) (\<lambda>i. ?parties ! (unat (as_u8 i) - 1))"
    by (rule group_ok_cong) (use index_of_map_u8 [of _ n ?mk] in \<open>auto simp: all_parties_def simp del: nth_map\<close>)
  have "distinct (map party_index_of ?parties)" using distinct_all_parties by (simp add: re_key_member_def comp_def all_parties_def)
  from btree_fold_insert [OF this, of "[]" "\<lambda>q. ?G (poly_point q)"]
  have "verifying_share (public_key_package_new (?G secret_key) (fold ?ins ?parties []) prm) i = Some (?G (share_of F i))"
    if "i \<in> set (all_parties n)" for i
    using that by (auto simp: verifying_share_def public_key_package_new_def re_key_member_def all_parties_def)
  moreover have "length ?parties = unat n" by simp
  moreover have "verifying_key (public_key_package_new (?G secret_key) (fold ?ins ?parties []) prm) = ?G secret_key"
    by (simp add: public_key_package_new_def)
  ultimately show ?thesis using run F(3) group cc by blast
qed

text \<open>
  C25: re-keying works. For parameters as \<open>Parameters::new\<close> makes them the dealer always
  succeeds and hands out one party for each index; together they are a group whose secret is
  the given key, with the chain code that was given, and the package holds the public key and
  everyone's verifying share.
\<close>

theorem re_key_forms_group:
  fixes S :: "('f::field, 'g::ab_group_add) suite"
  assumes p: "valid_parameters prm" and n: "n = share_count prm"
  shows "\<exists>parties pkg r' F cc. re_key S oc prm sid secret_key option_chain_code address_fn r = (Ok ((parties, pkg), r') :: ('e, _) outcome) \<and>
     length parties = unat n \<and> secret_of F = secret_key \<and>
     group_ok S F prm sid cc (all_parties n) (\<lambda>i. parties ! (unat (as_u8 i) - 1)) \<and>
     (option_chain_code \<noteq> None \<longrightarrow> option_chain_code = Some cc) \<and>
     verifying_key pkg = smul S (generator S) secret_key \<and>
     (\<forall>i\<in>set (all_parties n). verifying_share pkg i = Some (smul S (generator S) (share_of F i)))"
  by (rule re_key_makes_group [OF p n])

end
