(* ===== verification/WitnessesSessions.thy ===== *)
theory WitnessesSessions
  imports WitnessesProtocols DkgSession SignSession Messages ReKey
begin

text \<open>
  Instances of the properties of sessions, framing and re-keying.
\<close>

section \<open>Framing\<close>

text \<open>Message types whose payload is the message itself.\<close>

definition raw_type :: "u8 \<Rightarrow> bytes message_type" where
  "raw_type t = \<lparr>msg_tag = t, serialize = Ok, deserialize = (\<lambda>_. Ok)\<rparr>"

definition demo_sent :: "(u8 \<times> bytes message_type \<times> bytes) list" where
  "demo_sent = [(3, raw_type 176, [1]), (2, raw_type 160, [42]), (2, raw_type 176, [9, 9])]"

lemma p2p_round_trip_witness:
  "\<exists>stream. get_p2p (raw_type 176) \<lparr>in_broadcasts = [], in_p2p = [(1, stream)]\<rparr> 1 = Ok [9, 9] \<and>
     get_p2p (raw_type 7) \<lparr>in_broadcasts = [], in_p2p = [(1, stream)]\<rparr> 1 = Err (NotFound 1)"
proof -
  have ok: "\<forall>(i, T, m)\<in>set demo_sent. can_send T m" by (simp add: demo_sent_def can_send_def raw_type_def)
  have "btree_get (out_p2p (send_each demo_sent phase_output_new)) 2 \<noteq> None"
    using send_each_stream [OF ok, of phase_output_new 2] by (simp add: phase_output_new_def demo_sent_def addressed_frames_def)
  then obtain stream where "btree_get (out_p2p (send_each demo_sent phase_output_new)) 2 = Some stream" by blast
  then have d: "btree_get (in_p2p \<lparr>in_broadcasts = [], in_p2p = [(1, stream)]\<rparr>) 1 =
      btree_get (out_p2p (send_each demo_sent phase_output_new)) 2" by (simp add: btree_get_def)
  have "get_p2p (raw_type 176) \<lparr>in_broadcasts = [], in_p2p = [(1, stream)]\<rparr> 1 = Ok [9, 9]"
    using p2p_round_trip [OF ok d, of "raw_type 176" "[9, 9]"] by (simp add: demo_sent_def raw_type_def first_for_def)
  moreover have "get_p2p (raw_type 7) \<lparr>in_broadcasts = [], in_p2p = [(1, stream)]\<rparr> 1 = Err (NotFound 1)"
    using p2p_round_trip [OF ok d, of "raw_type 7"] by (simp add: demo_sent_def raw_type_def first_for_def)
  ultimately show ?thesis by blast
qed

lemma signature_encodings_witness:
  "signature_to_bytes_with_recovery \<lparr>sig_r = replicate 32 170, sig_s = replicate 32 187, recovery_id = 1\<rparr> =
     signature_to_bytes \<lparr>sig_r = replicate 32 170, sig_s = replicate 32 187, recovery_id = 1\<rparr> @ [1]"
  using signature_encodings [of "\<lparr>sig_r = replicate 32 170, sig_s = replicate 32 187, recovery_id = 1\<rparr>"
      "\<lparr>sig_r = replicate 32 170, sig_s = replicate 32 187, recovery_id = 1\<rparr>"]
  by (simp add: signature_ok_def)

section \<open>Re-keying\<close>

lemma re_key_forms_group_witness:
  "\<exists>parties pkg r' F. re_key gf_suite True two_of_two [1] 3 (Some (replicate 32 7)) (\<lambda>_. '''') gf_rng =
       (Ok ((parties, pkg), r') :: (unit, _) outcome) \<and>
     secret_of F = 3 \<and> group_ok gf_suite F two_of_two [1] (replicate 32 7) (all_parties 2) (\<lambda>i. parties ! (unat (as_u8 i) - 1))"
proof -
  have "valid_parameters two_of_two" "2 = share_count two_of_two" by (simp_all add: valid_parameters_def two_of_two_def)
  from re_key_forms_group [OF this, of gf_suite True "[1]" 3 "Some (replicate 32 7)" "\<lambda>_. ''''" gf_rng]
  show ?thesis by auto
qed

section \<open>Key-generation sessions\<close>

lemma dkg_session_out_of_order_witness:
  "dkg_session_phase3 gf_suite True (dkg_session_new two_of_two (PartyIndex 1) [1]) gf_rng =
     (Err (recoverable (PartyIndex 1) (PhaseCalledOutOfOrder ''phase3 called before phase2'')), dkg_session_new two_of_two (PartyIndex 1) [1])"
proof -
  let ?s = "dkg_session_new two_of_two (PartyIndex 1) [1] :: (gf, gf) dkg_session"
  have inv: "dkg_session_inv ?s" and st: "dkg_session_stage ?s \<noteq> Phase2Complete" by (simp_all add: dkg_session_new_inv)
  have "dkg_session_phase3 gf_suite True ?s gf_rng = (Err (out_of_order ?s ''phase3 called before phase2''), ?s)"
    using dkg_session_out_of_order [OF inv, where S = gf_suite and oc = True and r = gf_rng] st by blast
  then show ?thesis by (simp add: out_of_order_def) (simp add: dkg_session_new_def)
qed

lemma flat_session_phase2:
  assumes "rng_cycle r" and "share_count prm \<noteq> 0"
  shows "\<exists>o2 r' s1. dkg_session_phase2 flat_suite oc (dkg_session_new prm i sid) frag r = (Ok (o2, r'), s1) \<and>
     distinct (rand_commitments (pc_proof (fst o2))) \<and> rng_cycle r' \<and>
     (\<exists>pp zk dk. s1 = (dkg_session_new prm i sid)\<lparr>ds_poly_point := Some pp, ds_proof_commitment := Some (fst o2),
        ds_zero_kept_2to3 := Some zk, ds_bip_kept_2to3 := Some dk\<rparr>)"
proof -
  let ?d = "\<lparr>sd_parameters = prm, sd_party_index = i, sd_session_id = sid\<rparr>"
  from flat_phase2 [of r ?d oc frag] assms obtain pp pc zk z2 dk b2 r' where
    p: "dkg_phase2 flat_suite oc ?d frag r = (Ok ((pp, pc, zk, z2, dk, b2), r') :: (abort, _) outcome)"
    "distinct (rand_commitments (pc_proof pc))" "rng_cycle r'" by auto
  have "dkg_session_phase2 flat_suite oc (dkg_session_new prm i sid) frag r = (Ok ((pc, z2, b2), r'),
      (dkg_session_new prm i sid)\<lparr>ds_poly_point := Some pp, ds_proof_commitment := Some pc,
        ds_zero_kept_2to3 := Some zk, ds_bip_kept_2to3 := Some dk\<rparr>)"
    using p(1) by (simp add: dkg_session_phase2_def dkg_session_new_def)
  with p(2,3) show ?thesis by force
qed

lemma dkg_session_one_shot_witness:
  "\<exists>s. runs (dkg_session_step flat_suite True) (dkg_session_new two_of_two (PartyIndex 1) [1])
       [(Phase2 [1, 2] gf_rng, True), (Phase2 [1, 2] gf_rng, False)] s \<and>
     dkg_session_stage s = Phase2Complete"
proof -
  obtain o2 r' s1 where p: "dkg_session_phase2 flat_suite True (dkg_session_new two_of_two (PartyIndex 1) [1]) [1, 2] gf_rng = (Ok (o2, r'), s1)"
    using flat_session_phase2 [OF rng_cycle_gf_rng, of two_of_two True "PartyIndex 1" "[1]" "[1, 2]"] by (auto simp: two_of_two_def)
  have c: "dkg_session_inv s1" "dkg_session_stage s1 = Phase2Complete"
    using dkg_session_phase2_cases [OF dkg_session_new_inv(1) p] by simp_all
  then have "ds_poly_point s1 \<noteq> None" by (simp add: dkg_session_inv_def)
  then have q: "dkg_session_phase2 flat_suite True s1 [1, 2] gf_rng = (Err (out_of_order s1 ''phase2 already called on this session''), s1)"
    by (simp add: dkg_session_phase2_def)
  have run: "runs (dkg_session_step flat_suite True) (dkg_session_new two_of_two (PartyIndex 1) [1])
       [(Phase2 [1, 2] gf_rng, True), (Phase2 [1, 2] gf_rng, False)] s1"
    using dkg_session_step.phase2 [OF p] dkg_session_step.phase2 [OF q] by (intro runs_two) simp_all
  from dkg_session_one_shot [OF run] have "length [2..<dkg_expected (dkg_session_stage s1)] = 1"
    by (simp add: successes_def) (metis length_Cons list.size(3) One_nat_def length_upt)
  with run c show ?thesis by blast
qed

text \<open>Both parties' sessions through the first three phases.\<close>

lemma flat_session_phase3:
  assumes "rng_cycle r" and "share_count prm \<noteq> 0"
    and s1: "s1 = (dkg_session_new prm i sid)\<lparr>ds_poly_point := Some pp, ds_proof_commitment := Some pc,
        ds_zero_kept_2to3 := Some zk, ds_bip_kept_2to3 := Some dk\<rparr>"
  shows "\<exists>o3 r' s2. dkg_session_phase3 flat_suite oc s1 r = (Ok (o3, r'), s2) \<and>
     (\<forall>m\<in>set (fst (snd o3)). distinct (rand_commitments (tm_dlog_proof m)))"
proof -
  let ?d = "\<lparr>sd_parameters = prm, sd_party_index = i, sd_session_id = sid\<rparr>"
  from flat_phase3 [of r ?d oc zk dk] assms(1,2) obtain zk3 z3 mk mt b3 r' where
    p: "dkg_phase3 flat_suite oc ?d zk dk r = (Ok ((zk3, z3, mk, mt, b3), r') :: (abort, _) outcome)"
    "\<forall>m\<in>set mt. distinct (rand_commitments (tm_dlog_proof m))" by auto
  have "\<exists>s2. dkg_session_phase3 flat_suite oc s1 r = (Ok ((z3, mt, b3), r'), s2)"
    using p(1) by (simp add: dkg_session_phase3_def s1 dkg_session_new_def)
  with p(2) show ?thesis by force
qed

lemma flat_session_rounds:
  assumes r0: "\<And>i. rng_cycle (r0 i)" and p: "threshold prm \<noteq> 0" "share_count prm \<noteq> 0"
  shows "\<exists>o2 o3 sess. dkg_session_rounds flat_suite oc prm sid r0 o2 o3 sess \<and>
     (\<forall>i. distinct (rand_commitments (pc_proof (fst (o2 i)))) \<and>
        (\<forall>m\<in>set (fst (snd (o3 i))). distinct (rand_commitments (tm_dlog_proof m))))"
proof -
  let ?s = "\<lambda>i. dkg_session_new prm i sid :: (gf, gf) dkg_session"
  have "\<exists>frag r1. dkg_session_phase1 oc (?s i) (r0 i) = (Ok (frag, r1) :: (abort, _) outcome) \<and> rng_cycle r1" for i
    using flat_phase1 [OF r0, of "ds_data (?s i)" oc] p(1) by (simp add: dkg_session_phase1_def dkg_session_new_def)
  then obtain frag r1 where f: "\<And>i. dkg_session_phase1 oc (?s i) (r0 i) = (Ok (frag i, r1 i) :: (abort, _) outcome)"
    "\<And>i. rng_cycle (r1 i)" by metis
  let ?rcv = "\<lambda>i. map (\<lambda>j. frag j ! (unat (as_u8 i) - 1)) (all_parties (share_count prm))"
  have "\<exists>o2 r2 s1. dkg_session_phase2 flat_suite oc (?s i) (?rcv i) (r1 i) = (Ok (o2, r2), s1) \<and>
     distinct (rand_commitments (pc_proof (fst o2))) \<and>
     (\<exists>o3 r' s2. dkg_session_phase3 flat_suite oc s1 r2 = (Ok (o3, r'), s2) \<and>
       (\<forall>m\<in>set (fst (snd o3)). distinct (rand_commitments (tm_dlog_proof m))))" for i
    using flat_session_phase2 [OF f(2) p(2), of oc i sid "?rcv i" i] flat_session_phase3 [OF _ p(2)] by metis
  then obtain o2 r2 s1 where ph2: "\<And>i. dkg_session_phase2 flat_suite oc (?s i) (?rcv i) (r1 i) = (Ok (o2 i, r2 i), s1 i)"
    "\<And>i. distinct (rand_commitments (pc_proof (fst (o2 i))))"
    and "\<And>i. \<exists>o3 r' s2. dkg_session_phase3 flat_suite oc (s1 i) (r2 i) = (Ok (o3, r'), s2) \<and>
       (\<forall>m\<in>set (fst (snd o3)). distinct (rand_commitments (tm_dlog_proof m)))" by metis
  then obtain o3 r3 sess where ph3: "\<And>i. dkg_session_phase3 flat_suite oc (s1 i) (r2 i) = (Ok (o3 i, r3 i), sess i)"
    "\<And>i. \<forall>m\<in>set (fst (snd (o3 i))). distinct (rand_commitments (tm_dlog_proof m))" by metis
  have "dkg_session_rounds flat_suite oc prm sid r0 o2 o3 sess"
    unfolding dkg_session_rounds_def
  proof (intro exI ballI conjI)
    show "dkg_session_phase1 oc (?s i) (r0 i) = (Ok (frag i, r1 i) :: (abort, _) outcome)" for i by (rule f)
    show "dkg_session_phase2 flat_suite oc (?s i) (?rcv i) (r1 i) = (Ok (o2 i, r2 i), s1 i)" for i by (rule ph2)
    show "dkg_session_phase3 flat_suite oc (s1 i) (r2 i) = (Ok (o3 i, r3 i), sess i)" for i by (rule ph3)
  qed simp
  then show ?thesis using ph2(2) ph3(2) by blast
qed

text \<open>The deliveries in the order the messages were made.\<close>

lemma dkg_session_delivered_in_order:
  "dkg_session_delivered prm o2 o3 i (map (\<lambda>j. fst (o2 j)) (all_parties (share_count prm)))
     (addressed_to z2_parties (all_parties (share_count prm)) (\<lambda>j. fst (snd (o2 j))) i)
     (addressed_to z3_parties (all_parties (share_count prm)) (\<lambda>j. fst (o3 j)) i)
     (addressed_to tm_parties (all_parties (share_count prm)) (\<lambda>j. fst (snd (o3 j))) i)
     (map (\<lambda>j. (j, snd (snd (o2 j)))) (all_parties (share_count prm)))
     (map (\<lambda>j. (j, snd (snd (o3 j)))) (all_parties (share_count prm)))"
  by (auto simp: dkg_session_delivered_def Let_def btree_get_def map_of_map_restrict)

lemma dkg_sessions_correct_witness:
  "\<exists>F cc pty. secret_of F = (2 :: gf) \<and> group_ok flat_suite F two_of_two [1] cc two_all pty \<and>
     (\<forall>i\<in>set two_all. \<exists>s pcs z2 z3 mr b2 b3 pkg. dkg_session_phase4 flat_suite True s pcs z2 z3 mr b2 b3 (\<lambda>_. '''') = Ok (pty i, pkg))"
proof -
  obtain o2 o3 sess where r: "dkg_session_rounds flat_suite True two_of_two [1] (\<lambda>_. gf_rng) o2 o3 sess"
    and d: "\<And>i. distinct (rand_commitments (pc_proof (fst (o2 i))))"
      "\<And>i m. m \<in> set (fst (snd (o3 i))) \<Longrightarrow> distinct (rand_commitments (tm_dlog_proof m))"
    using flat_session_rounds [OF rng_cycle_gf_rng, of two_of_two True "[1]"] by (auto simp: two_of_two_def)
  obtain pp zk mk where rr: "dkg_rounds flat_suite True two_of_two [1] (\<lambda>_. gf_rng) (\<lambda>i. (pp i, o2 i)) (\<lambda>i. (zk i, fst (o3 i), mk i, snd (o3 i)))"
    and pp: "\<And>i. i \<in> set two_all \<Longrightarrow> ds_poly_point (sess i) = Some (pp i)"
    using dkg_session_rounds_rounds [OF r] by blast
  have sh: "pp i \<noteq> 0 \<and> pp i \<noteq> 1" if "i \<in> set two_all" for i using pair_dkg_shares [OF rr that] by simp
  have "\<exists>F cc pty pkg. secret_of F = (2 :: gf) \<and>
     (\<forall>i\<in>set two_all. dkg_session_phase4 flat_suite True (sess i) (map (\<lambda>j. fst (o2 j)) two_all)
     (addressed_to z2_parties two_all (\<lambda>j. fst (snd (o2 j))) i)
     (addressed_to z3_parties two_all (\<lambda>j. fst (o3 j)) i)
     (addressed_to tm_parties two_all (\<lambda>j. fst (snd (o3 j))) i)
     (map (\<lambda>j. (j, snd (snd (o2 j)))) two_all)
     (map (\<lambda>j. (j, snd (snd (o3 j)))) two_all) (\<lambda>_. '''') = Ok (pty i, pkg i)) \<and>
     group_ok flat_suite F two_of_two [1] cc two_all pty"
    by (rule dkg_sessions_correct [OF flat_suite_ok _ _ r refl _ _ _ _ _ _ dkg_session_delivered_in_order])
      (use d pp sh gf_nonzero pair_dkg_secret in \<open>simp_all add: valid_parameters_def two_of_two_def\<close>)
  then show ?thesis by blast
qed

section \<open>Signing sessions\<close>

lemma pair_session_new:
  assumes "sign_phase1 gf_suite True (pair_member i) (pair_data i) gf_rng = Ok ((uk, keep, tr), r')"
  shows "sign_session_new gf_suite True (pair_member i) (pair_data i) gf_rng =
     Ok ((\<lparr>ss_party = pair_member i, ss_data = pair_data i, ss_phase1_to_2 = Some (uk, keep), ss_phase2_to_3 = None,
          ss_x_coord = None\<rparr>, tr), r')"
  using assms by (simp add: sign_session_new_def)

text \<open>After one call of phase 2, whatever it received and drew, the session refuses another.\<close>

lemma sign_session_one_shot_witness:
  "\<exists>s0 tr r' s ok. sign_session_new gf_suite True (pair_member (PartyIndex 1)) (pair_data (PartyIndex 1)) gf_rng = Ok ((s0, tr), r') \<and>
     runs (sign_session_step gf_suite True) s0 [(SignPhase2 [] gf_rng, ok)] s \<and>
     sign_session_phase2 gf_suite True s tr gf_rng = (Err (sign_out_of_order s ''phase2 called out of order''), s)"
proof -
  obtain uk keep tr r' where "sign_phase1 gf_suite True (pair_member (PartyIndex 1)) (pair_data (PartyIndex 1)) gf_rng = Ok ((uk, keep, tr), r')"
    using pair_phase1 by auto
  note new = pair_session_new [OF this]
  let ?s0 = "\<lparr>ss_party = pair_member (PartyIndex 1), ss_data = pair_data (PartyIndex 1), ss_phase1_to_2 = Some (uk, keep),
     ss_phase2_to_3 = None, ss_x_coord = None\<rparr>"
  obtain res s where "sign_session_phase2 gf_suite True ?s0 [] gf_rng = (res, s)" by fastforce
  then have run: "runs (sign_session_step gf_suite True) ?s0 [(SignPhase2 [] gf_rng, is_ok res)] s"
    by (intro runs_one sign_session_step.phase2)
  from sign_session_one_shot [OF new run]
  have "sign_session_phase2 gf_suite True s tr gf_rng = (Err (sign_out_of_order s ''phase2 called out of order''), s)"
    by simp
  with new run show ?thesis by blast
qed

lemma sign_session_signature_witness:
  "\<exists>s sig. sign_session_phase4 gf_suite (\<lambda>_. '''') s [\<lparr>bc_u = 2, bc_w = 6\<rparr>] False = Ok sig \<and>
     signature_ok sig \<and> recovery_id sig \<in> {0, 1}"
proof -
  let ?x = "hex_encode gf_suite (affine_x gf_suite (smul gf_suite (generator gf_suite) 2))"
  let ?s = "\<lparr>ss_party = pair_member (PartyIndex 1), ss_data = pair_data (PartyIndex 1), ss_phase1_to_2 = None,
     ss_phase2_to_3 = None, ss_x_coord = Some ?x\<rparr> :: (gf, gf) sign_session"
  obtain rec_id where ok: "sign_phase4 gf_suite (pair_member (PartyIndex 1)) (pair_data (PartyIndex 1)) ?x
       [\<lparr>bc_u = 2, bc_w = 6\<rparr>] False = Ok (hex_encode gf_suite (to_repr gf_suite 3), rec_id)"
    using pair_phase4 by blast
  obtain sig where sig: "sign_session_phase4 gf_suite (\<lambda>_. '''') ?s [\<lparr>bc_u = 2, bc_w = 6\<rparr>] False = Ok sig"
    using sign_session_phase4_total [OF gf_suite_ok, of ?s ?x "[\<lparr>bc_u = 2, bc_w = 6\<rparr>]" False _ "\<lambda>_. ''''"] ok by auto
  from sign_session_signature [OF gf_suite_ok, of "\<lambda>_. ''''" ?s "[\<lparr>bc_u = 2, bc_w = 6\<rparr>]" False] sig show ?thesis by blast
qed

text \<open>Both signers' sessions, and what \<open>sign_sessions_correct\<close> says of them.\<close>

definition pair_sessions_sign ::
  "(party_index \<Rightarrow> (gf, gf) sign_session) \<Rightarrow> (party_index \<Rightarrow> transmit_phase_1to2 list) \<Rightarrow> bool" where
  "pair_sessions_sign s1 tr \<longleftrightarrow> (\<exists>s2 tr2 q2.
     (\<forall>i\<in>set pair_qs. sign_session_phase2 gf_suite True (s1 i) (addressed_to t1_parties pair_qs tr i) gf_rng = (Ok (tr2 i, q2 i), s2 i)) \<and>
     (\<forall>rcv3. (\<forall>i\<in>set pair_qs. mset (rcv3 i) = mset (addressed_to t2_parties pair_qs tr2 i)) \<longrightarrow>
        (\<exists>s3 bc. (\<forall>i\<in>set pair_qs. sign_session_phase3 gf_suite (s2 i) (rcv3 i) = (Ok (bc i), s3 i)) \<and>
           (\<forall>ms. mset ms = mset (map bc pair_qs) \<longrightarrow>
              (\<exists>sig. sig_s sig = to_repr gf_suite 3 \<and>
                 (\<forall>i\<in>set pair_qs. sign_session_phase4 gf_suite (\<lambda>_. '''') (s3 i) ms False = Ok sig))))))"

lemma sign_sessions_correct_witness:
  "\<exists>s3 ms sig. sig_s sig = to_repr gf_suite 3 \<and>
     (\<forall>i\<in>set pair_qs. sign_session_phase4 gf_suite (\<lambda>_. '''') (s3 i) ms False = Ok sig)"
proof -
  obtain uk keep tr r' where ph1: "\<forall>i\<in>{PartyIndex 1, PartyIndex 2}.
     sign_phase1 gf_suite True (pair_member i) (pair_data i) gf_rng = Ok ((uk i, keep i, tr i), r' i) \<and>
     uk1_instance_key (uk i) = 1 \<and> uk1_inversion_mask (uk i) = 2" using pair_phase1 by blast
  define s1 where "s1 = (\<lambda>i. \<lparr>ss_party = pair_member i, ss_data = pair_data i, ss_phase1_to_2 = Some (uk i, keep i),
     ss_phase2_to_3 = None, ss_x_coord = None\<rparr> :: (gf, gf) sign_session)"
  have new: "\<And>i. i \<in> set pair_qs \<Longrightarrow> sign_session_new gf_suite True (pair_member i) (pair_data i) gf_rng = Ok ((s1 i, tr i), r' i)"
    and uk: "\<And>i. i \<in> set pair_qs \<Longrightarrow> map_option fst (ss_phase1_to_2 (s1 i)) = Some (uk i)"
    and keys: "\<And>i. i \<in> set pair_qs \<Longrightarrow> uk1_instance_key (uk i) = 1" "\<And>i. i \<in> set pair_qs \<Longrightarrow> uk1_inversion_mask (uk i) = 2"
    using ph1 pair_session_new by (auto simp: s1_def)
  have "pair_sessions_sign s1 tr"
    unfolding pair_sessions_sign_def
    by (rule sign_sessions_correct [OF gf_suite_ok pair_group _ pair_signers new uk, where k = 2 and rx = 2 and t = 3])
      (simp_all add: keys gf_x_two gf_reduce_zero pair_secret gf_half gf_nonzero gf3)
  then obtain tr2 where "\<forall>rcv3. (\<forall>i\<in>set pair_qs. mset (rcv3 i) = mset (addressed_to t2_parties pair_qs tr2 i)) \<longrightarrow>
        (\<exists>s3 bc. \<forall>ms. mset ms = mset (map bc pair_qs) \<longrightarrow>
              (\<exists>sig. sig_s sig = to_repr gf_suite 3 \<and>
                 (\<forall>i\<in>set pair_qs. sign_session_phase4 gf_suite (\<lambda>_. '''') (s3 i) ms False = Ok sig)))"
    unfolding pair_sessions_sign_def by blast
  then obtain s3 bc where "\<forall>ms. mset ms = mset (map bc pair_qs) \<longrightarrow>
              (\<exists>sig. sig_s sig = to_repr gf_suite 3 \<and>
                 (\<forall>i\<in>set pair_qs. sign_session_phase4 gf_suite (\<lambda>_. '''') (s3 i) ms False = Ok sig))"
    by (metis (no_types, lifting))
  then show ?thesis by blast
qed

end
