(* ===== verification/Refresh.thy ===== *)
theory Refresh
  imports DkgHonest
begin

text \<open>
  Refresh of the key shares (\<open>protocols/refresh.rs\<close>), in both variants: the complete refresh
  runs the phases of key generation with a polynomial whose constant term is zero, the fast
  one reuses the multiplication states and re-randomises their OT data with the new
  zero-share seeds. Shown here: among honest parties a refresh turns a group into a group
  with the same secret; and whatever the others sent, a party that accepts keeps its key and
  moves its share by a correction that lies on a polynomial through zero.
\<close>

section \<open>Messages and kept state of the fast refresh\<close>

record transmit_refresh_2to4 =
  rf2_parties :: parties_message
  rf2_commitment :: bytes

record transmit_refresh_3to4 =
  rf3_parties :: parties_message
  rf3_seed :: bytes
  rf3_salt :: bytes

record keep_refresh_2to3 =
  kr2_seed :: bytes
  kr2_salt :: bytes

record keep_refresh_3to4 =
  kr3_seed :: bytes

section \<open>Complete refresh\<close>

text \<open>The polynomial of phase 1: zero, and random coefficients for the indices \<open>1..threshold\<close>.\<close>

definition refresh_polynomial :: "u8 \<Rightarrow> 'f::field rng \<Rightarrow> 'f list \<times> 'f rng" where
  "refresh_polynomial t r = (let (cs, r1) = draw_list (\<lambda>_. random_scalar) (u8_range 1 t) r in (0 # cs, r1))"

definition refresh_complete_phase1 ::
  "bool \<Rightarrow> ('f::field, 'g) party \<Rightarrow> 'f rng \<Rightarrow> ('e, 'f list \<times> 'f rng) outcome" where
  "refresh_complete_phase1 oc p r =
     (let (secret_polynomial, r1) = refresh_polynomial (threshold (party_parameters p)) r in
      and_then (dkg_step2 oc (party_parameters p) secret_polynomial) (\<lambda>fragments. Ok (fragments, r1)))"

text \<open>The loops of phases 2 and 3 have the bodies of those of key generation.\<close>

definition refresh_complete_phase2 ::
  "('f::field, 'g) suite \<Rightarrow> bool \<Rightarrow> ('f, 'g) party \<Rightarrow> bytes \<Rightarrow> 'f list \<Rightarrow> 'f rng
   \<Rightarrow> ('e, ('f \<times> ('f, 'g) proof_commitment \<times> (party_index, keep_zero_2to3) btree_map \<times> transmit_zero_2to4 list) \<times> 'f rng) outcome" where
  "refresh_complete_phase2 S oc p refresh_sid poly_fragments r =
     (let me = party_index_of p; n = share_count (party_parameters p) in
      and_then (dkg_step3 S me refresh_sid poly_fragments r) (\<lambda>((correction_value, proof_commitment), r1).
      and_then (u8_sub oc n 1) (\<lambda>_.
      and_then (each (dkg_phase2_step S me) (([], []), r1) (u8_range_incl 1 n)) (\<lambda>((zero_keep, zero_transmit), r2).
      Ok ((correction_value, proof_commitment, zero_keep, zero_transmit), r2)))))"

definition refresh_complete_phase3 ::
  "('f::field, 'g::ab_group_add) suite \<Rightarrow> bool \<Rightarrow> ('f, 'g) party \<Rightarrow> bytes \<Rightarrow> (party_index, keep_zero_2to3) btree_map \<Rightarrow> 'f rng
   \<Rightarrow> ('e, ((party_index, keep_zero_3to4) btree_map \<times> transmit_zero_3to4 list
            \<times> (party_index, ('f, 'g) keep_mul_3to4) btree_map \<times> ('f, 'g) transmit_mul_3to4 list) \<times> 'f rng) outcome" where
  "refresh_complete_phase3 S oc p refresh_sid zero_kept_2 r =
     (let me = party_index_of p; n = share_count (party_parameters p) in
      and_then (u8_sub oc n 1) (\<lambda>_.
      let (zero_keep, zero_transmit) = foldl (dkg_phase3_zero_step me) ([], []) zero_kept_2 in
      and_then (each (dkg_phase3_mul_step S me refresh_sid) (([], []), r) (u8_range_incl 1 n))
        (\<lambda>((mul_keep, mul_transmit), r1).
      Ok ((zero_keep, zero_transmit, mul_keep, mul_transmit), r1))))"

text \<open>Phase 4, the seeds; the size of the vector is computed after the messages are filed.\<close>

definition refresh_complete_zero_share ::
  "('f, 'g) suite \<Rightarrow> bool \<Rightarrow> u8 \<Rightarrow> party_index \<Rightarrow> (party_index, keep_zero_3to4) btree_map \<Rightarrow> transmit_zero_2to4 list
   \<Rightarrow> transmit_zero_3to4 list \<Rightarrow> (abort, zero_share) outcome" where
  "refresh_complete_zero_share S oc n me kept received_2 received_3 =
     and_then (file_by_sender me kept z2_parties received_2) (\<lambda>filed_2.
     and_then (file_by_sender me kept z3_parties received_3) (\<lambda>filed_3.
     and_then (check_count me kept filed_2) (\<lambda>_.
     and_then (check_count me kept filed_3) (\<lambda>_.
     and_then (u8_sub oc n 1) (\<lambda>_.
     and_then (collect_try (dkg_seed_pair S me filed_2 filed_3) kept) (\<lambda>ss.
       Ok (zero_share_initialize ss)))))))"

text \<open>
  Phase 4, the multiplications. The source repeats the loop of key generation, and so does the model;
  \<open>refresh_complete_mul_eq\<close> says that the copies agree.
\<close>

definition refresh_complete_mul_step ::
  "('f::field, 'g::ab_group_add) suite \<Rightarrow> party_index \<Rightarrow> bytes
   \<Rightarrow> (party_index, ('f, 'g) transmit_mul_3to4) btree_map
   \<Rightarrow> (party_index, 'f mul_receiver) btree_map \<times> (party_index, 'f mul_sender) btree_map
   \<Rightarrow> party_index \<times> ('f, 'g) keep_mul_3to4
   \<Rightarrow> (abort, (party_index, 'f mul_receiver) btree_map \<times> (party_index, 'f mul_sender) btree_map) outcome" where
  "refresh_complete_mul_step S me refresh_sid received_by_sender st entry =
     (let (receivers, senders) = st; (target_party, message_kept) = entry in
      and_then (message_from me received_by_sender target_party) (\<lambda>message_received.
      let mul_sid_receiver = mul_sid me target_party refresh_sid in
      and_then (map_err (mul_abort me target_party)
        (mul_receiver_init_phase2 S (km_ot_sender message_kept) mul_sid_receiver (tm_seed message_received)
           (tm_enc_proofs message_received) (km_nonce message_kept))) (\<lambda>receiver.
      let mul_sid_sender = mul_sid target_party me refresh_sid in
      and_then (map_err (mul_abort me target_party)
        (mul_sender_init_phase2 S mul_sid_sender (km_correlation message_kept) (km_vec_r message_kept)
           (tm_dlog_proof message_received) (tm_nonce message_received))) (\<lambda>s.
      Ok (btree_insert target_party receiver receivers, btree_insert target_party s senders)))))"

definition refresh_complete_mul ::
  "('f::field, 'g::ab_group_add) suite \<Rightarrow> party_index \<Rightarrow> bytes \<Rightarrow> (party_index, ('f, 'g) keep_mul_3to4) btree_map
   \<Rightarrow> ('f, 'g) transmit_mul_3to4 list
   \<Rightarrow> (abort, (party_index, 'f mul_receiver) btree_map \<times> (party_index, 'f mul_sender) btree_map) outcome" where
  "refresh_complete_mul S me refresh_sid kept received =
     and_then (file_by_sender me kept tm_parties received) (\<lambda>received_by_sender.
     and_then (check_count me kept received_by_sender) (\<lambda>_.
       each (refresh_complete_mul_step S me refresh_sid received_by_sender) ([], []) kept))"

lemma refresh_complete_mul_step_eq: "refresh_complete_mul_step S me sid filed st entry = dkg_mul_step S me sid filed st entry"
  by (simp add: refresh_complete_mul_step_def dkg_mul_step_def Let_def)

lemma refresh_complete_mul_eq [simp]: "refresh_complete_mul S me sid kept received = dkg_mul S me sid kept received"
proof -
  have "refresh_complete_mul_step S me sid = dkg_mul_step S me sid" by (intro ext) (rule refresh_complete_mul_step_eq)
  then show ?thesis by (simp add: refresh_complete_mul_def dkg_mul_def)
qed

text \<open>The party with its share moved, and new seeds and multiplication states.\<close>

definition refreshed_party ::
  "('f::field, 'g) party \<Rightarrow> bytes \<Rightarrow> 'f \<Rightarrow> zero_share \<Rightarrow> (party_index, 'f mul_sender) btree_map
   \<Rightarrow> (party_index, 'f mul_receiver) btree_map \<Rightarrow> ('f, 'g) party" where
  "refreshed_party p refresh_sid correction_value zs senders receivers =
     (let dd = derivation_data p in
      \<lparr>party_parameters = party_parameters p, party_index_of = party_index_of p, party_session_id = refresh_sid,
       poly_point = poly_point p + correction_value, pk = pk p, zero_share_of = zs,
       mul_senders = senders, mul_receivers = receivers,
       derivation_data = \<lparr>depth = depth dd, child_number = child_number dd, parent_fingerprint = parent_fingerprint dd,
         dd_poly_point = poly_point p + correction_value, dd_pk = pk p, chain_code = chain_code dd\<rparr>,
       address = address p\<rparr>)"

definition refresh_complete_phase4 ::
  "('f::field, 'g::ab_group_add) suite \<Rightarrow> bool \<Rightarrow> ('f, 'g) party \<Rightarrow> bytes \<Rightarrow> 'f \<Rightarrow> ('f, 'g) proof_commitment list
   \<Rightarrow> (party_index, keep_zero_3to4) btree_map \<Rightarrow> transmit_zero_2to4 list \<Rightarrow> transmit_zero_3to4 list
   \<Rightarrow> (party_index, ('f, 'g) keep_mul_3to4) btree_map \<Rightarrow> ('f, 'g) transmit_mul_3to4 list
   \<Rightarrow> (abort, ('f, 'g) party) outcome" where
  "refresh_complete_phase4 S oc p refresh_sid correction_value proofs_commitments zero_kept_3 zero_received_2 zero_received_3
     mul_kept_3 mul_received =
     (let me = party_index_of p; params = party_parameters p in
      and_then (dkg_step5 S oc params me refresh_sid proofs_commitments) (\<lambda>(key, _).
      if key \<noteq> 0 then Err (recoverable me PolynomialInconsistency)
      else
      and_then (refresh_complete_zero_share S oc (share_count params) me zero_kept_3 zero_received_2 zero_received_3) (\<lambda>zs.
      and_then (refresh_complete_mul S me refresh_sid mul_kept_3 mul_received) (\<lambda>(receivers, senders).
      Ok (refreshed_party p refresh_sid correction_value zs senders receivers)))))"

section \<open>Fast refresh\<close>

definition refresh_phase1 ::
  "bool \<Rightarrow> ('f::field, 'g) party \<Rightarrow> 'f rng \<Rightarrow> ('e, 'f list \<times> 'f rng) outcome" where
  "refresh_phase1 oc p r =
     (let (secret_polynomial, r1) = refresh_polynomial (threshold (party_parameters p)) r in
      and_then (dkg_step2 oc (party_parameters p) secret_polynomial) (\<lambda>fragments. Ok (fragments, r1)))"

definition refresh_phase2_step ::
  "('f, 'g) suite \<Rightarrow> party_index
   \<Rightarrow> ((party_index, keep_refresh_2to3) btree_map \<times> transmit_refresh_2to4 list) \<times> 'f rng \<Rightarrow> u8
   \<Rightarrow> ('e, ((party_index, keep_refresh_2to3) btree_map \<times> transmit_refresh_2to4 list) \<times> 'f rng) outcome" where
  "refresh_phase2_step S me st i =
     (let ((keep, transmit), r) = st in
      and_then (party_index_unwrap i) (\<lambda>idx.
      if idx = me then Ok ((keep, transmit), r)
      else let ((sd, commitment, salt), r1) = generate_seed_with_commitment S r in
        Ok ((btree_insert idx \<lparr>kr2_seed = sd, kr2_salt = salt\<rparr> keep,
             transmit @ [\<lparr>rf2_parties = \<lparr>sender = me, receiver = idx\<rparr>, rf2_commitment = commitment\<rparr>]), r1)))"

definition refresh_phase2 ::
  "('f::field, 'g) suite \<Rightarrow> bool \<Rightarrow> ('f, 'g) party \<Rightarrow> bytes \<Rightarrow> 'f list \<Rightarrow> 'f rng
   \<Rightarrow> ('e, ('f \<times> ('f, 'g) proof_commitment \<times> (party_index, keep_refresh_2to3) btree_map \<times> transmit_refresh_2to4 list) \<times> 'f rng) outcome" where
  "refresh_phase2 S oc p refresh_sid poly_fragments r =
     (let me = party_index_of p; n = share_count (party_parameters p) in
      and_then (dkg_step3 S me refresh_sid poly_fragments r) (\<lambda>((correction_value, proof_commitment), r1).
      and_then (u8_sub oc n 1) (\<lambda>_.
      and_then (each (refresh_phase2_step S me) (([], []), r1) (u8_range_incl 1 n)) (\<lambda>((keep, transmit), r2).
      Ok ((correction_value, proof_commitment, keep, transmit), r2)))))"

definition refresh_phase3_step ::
  "party_index \<Rightarrow> (party_index, keep_refresh_3to4) btree_map \<times> transmit_refresh_3to4 list
   \<Rightarrow> party_index \<times> keep_refresh_2to3
   \<Rightarrow> (party_index, keep_refresh_3to4) btree_map \<times> transmit_refresh_3to4 list" where
  "refresh_phase3_step me st entry =
     (let (keep, transmit) = st; (target_party, kept) = entry in
      (btree_insert target_party \<lparr>kr3_seed = kr2_seed kept\<rparr> keep,
       transmit @ [\<lparr>rf3_parties = \<lparr>sender = me, receiver = target_party\<rparr>, rf3_seed = kr2_seed kept,
                    rf3_salt = kr2_salt kept\<rparr>]))"

definition refresh_phase3 ::
  "bool \<Rightarrow> ('f, 'g) party \<Rightarrow> (party_index, keep_refresh_2to3) btree_map
   \<Rightarrow> ('e, (party_index, keep_refresh_3to4) btree_map \<times> transmit_refresh_3to4 list) outcome" where
  "refresh_phase3 oc p kept =
     and_then (u8_sub oc (share_count (party_parameters p)) 1) (\<lambda>_.
       Ok (foldl (refresh_phase3_step (party_index_of p)) ([], []) kept))"

text \<open>Phase 4, the seeds.\<close>

definition refresh_seed_pair ::
  "('f, 'g) suite \<Rightarrow> party_index \<Rightarrow> (party_index, transmit_refresh_2to4) btree_map
   \<Rightarrow> (party_index, transmit_refresh_3to4) btree_map \<Rightarrow> party_index \<times> keep_refresh_3to4 \<Rightarrow> (abort, seed_pair) outcome" where
  "refresh_seed_pair S me received_2 received_3 entry =
     (let (target_party, kept) = entry in
      and_then (message_from me received_2 target_party) (\<lambda>m2.
      and_then (message_from me received_3 target_party) (\<lambda>m3.
      if \<not> verify_seed S (rf3_seed m3) (rf2_commitment m2) (rf3_salt m3)
      then Err (recoverable me (ZeroShareDecommitFailed target_party))
      else Ok (generate_seed_pair me target_party (kr3_seed kept) (rf3_seed m3)))))"

definition refresh_seeds ::
  "('f, 'g) suite \<Rightarrow> bool \<Rightarrow> u8 \<Rightarrow> party_index \<Rightarrow> (party_index, keep_refresh_3to4) btree_map \<Rightarrow> transmit_refresh_2to4 list
   \<Rightarrow> transmit_refresh_3to4 list \<Rightarrow> (abort, seed_pair list) outcome" where
  "refresh_seeds S oc n me kept received_2 received_3 =
     and_then (file_by_sender me kept rf2_parties received_2) (\<lambda>filed_2.
     and_then (file_by_sender me kept rf3_parties received_3) (\<lambda>filed_3.
     and_then (check_count me kept filed_2) (\<lambda>_.
     and_then (check_count me kept filed_3) (\<lambda>_.
     and_then (u8_sub oc n 1) (\<lambda>_.
     collect_try (refresh_seed_pair S me filed_2 filed_3) kept)))))"

text \<open>The length of a hash in bytes (\<open>lib.rs\<close>).\<close>

definition SECURITY :: nat where "SECURITY = 32"

text \<open>
  The values the two ends of a multiplication expand their common seed into, for the index
  \<open>i\<close>; the sender's index comes first in the salt.
\<close>

definition refresh_expand ::
  "('f, 'g) suite \<Rightarrow> bytes \<Rightarrow> bytes \<Rightarrow> party_index \<Rightarrow> party_index \<Rightarrow> bytes \<Rightarrow> nat \<Rightarrow> bytes" where
  "refresh_expand S tag refresh_sid sender_idx receiver_idx sd i =
     tagged_hash S tag [refresh_sid, u16_be (of_nat i), u16_be (ucast (as_u8 sender_idx)), u16_be (ucast (as_u8 receiver_idx)), sd]"

definition refresh_bit ::
  "('f, 'g) suite \<Rightarrow> bytes \<Rightarrow> party_index \<Rightarrow> party_index \<Rightarrow> bytes \<Rightarrow> nat \<Rightarrow> bool" where
  "refresh_bit S refresh_sid sender_idx receiver_idx sd i \<longleftrightarrow>
     hd (refresh_expand S TAG_REFRESH_FAST_B refresh_sid sender_idx receiver_idx sd i) mod 2 = 1"

text \<open>The sender's half of the loop body: the new bit, and its seed masked accordingly.\<close>

definition refresh_sender_step ::
  "('f, 'g) suite \<Rightarrow> bytes \<Rightarrow> party_index \<Rightarrow> party_index \<Rightarrow> bytes \<Rightarrow> ote_sender \<Rightarrow> nat \<Rightarrow> ('e, ote_sender) outcome" where
  "refresh_sender_step S refresh_sid me their_index sd s i =
     (let r0_prime = refresh_expand S TAG_REFRESH_FAST_R0 refresh_sid me their_index sd i;
          r1_prime = refresh_expand S TAG_REFRESH_FAST_R1 refresh_sid me their_index sd i;
          b_prime = refresh_bit S refresh_sid me their_index sd i in
      and_then (index (ote_correlation s) i) (\<lambda>bit.
      let b_double_prime = (bit \<noteq> b_prime);
          r_prime_b_double_prime = if b_double_prime then r1_prime else r0_prime in
      and_then (index (ote_seeds s) i) (\<lambda>sd_i.
      Ok \<lparr>ote_correlation = (ote_correlation s)[i := b_double_prime],
          ote_seeds = (ote_seeds s)[i := xor_n SECURITY sd_i r_prime_b_double_prime]\<rparr>)))"

text \<open>The receiver's half: both seeds, swapped if the bit says so, and masked.\<close>

definition refresh_receiver_step ::
  "('f, 'g) suite \<Rightarrow> bytes \<Rightarrow> party_index \<Rightarrow> party_index \<Rightarrow> bytes \<Rightarrow> ote_receiver \<Rightarrow> nat \<Rightarrow> ('e, ote_receiver) outcome" where
  "refresh_receiver_step S refresh_sid me their_index sd w i =
     (let r0_prime = refresh_expand S TAG_REFRESH_FAST_R0 refresh_sid their_index me sd i;
          r1_prime = refresh_expand S TAG_REFRESH_FAST_R1 refresh_sid their_index me sd i;
          b_prime = refresh_bit S refresh_sid their_index me sd i in
      and_then (index (if b_prime then seeds1 w else seeds0 w) i) (\<lambda>r_b_prime.
      and_then (index (if b_prime then seeds0 w else seeds1 w) i) (\<lambda>r_opposite_b_prime.
      Ok \<lparr>seeds0 = (seeds0 w)[i := xor_n SECURITY r_b_prime r0_prime],
          seeds1 = (seeds1 w)[i := xor_n SECURITY r_opposite_b_prime r1_prime]\<rparr>)))"

definition refresh_ote_step ::
  "('f, 'g) suite \<Rightarrow> bytes \<Rightarrow> party_index \<Rightarrow> party_index \<Rightarrow> bytes \<Rightarrow> ote_sender \<times> ote_receiver \<Rightarrow> nat
   \<Rightarrow> ('e, ote_sender \<times> ote_receiver) outcome" where
  "refresh_ote_step S refresh_sid me their_index sd st i =
     (let (s, w) = st in
      and_then (refresh_sender_step S refresh_sid me their_index sd s i) (\<lambda>s'.
      and_then (refresh_receiver_step S refresh_sid me their_index sd w i) (\<lambda>w'. Ok (s', w'))))"

definition refresh_mul_step ::
  "('f, 'g) suite \<Rightarrow> ('f, 'g) party \<Rightarrow> bytes
   \<Rightarrow> (party_index, 'f mul_sender) btree_map \<times> (party_index, 'f mul_receiver) btree_map \<Rightarrow> seed_pair
   \<Rightarrow> (abort, (party_index, 'f mul_sender) btree_map \<times> (party_index, 'f mul_receiver) btree_map) outcome" where
  "refresh_mul_step S p refresh_sid st pair =
     (let (senders, receivers) = st; me = party_index_of p; their_index = index_counterparty pair; sd = seed pair in
      and_then (ok_or (recoverable me (MissingMulState their_index)) (btree_get (mul_senders p) their_index)) (\<lambda>s.
      and_then (ok_or (recoverable me (MissingMulState their_index)) (btree_get (mul_receivers p) their_index)) (\<lambda>w.
      and_then (each (refresh_ote_step S refresh_sid me their_index sd) (mul_ote_sender s, mul_ote_receiver w) [0..<KAPPA])
        (\<lambda>(new_ote_sender, new_ote_receiver).
      Ok (btree_insert their_index \<lparr>sender_gadget = sender_gadget s, mul_ote_sender = new_ote_sender\<rparr> senders,
          btree_insert their_index \<lparr>receiver_gadget = receiver_gadget w, mul_ote_receiver = new_ote_receiver\<rparr> receivers)))))"

definition refresh_phase4 ::
  "('f::field, 'g::ab_group_add) suite \<Rightarrow> bool \<Rightarrow> ('f, 'g) party \<Rightarrow> bytes \<Rightarrow> 'f \<Rightarrow> ('f, 'g) proof_commitment list
   \<Rightarrow> (party_index, keep_refresh_3to4) btree_map \<Rightarrow> transmit_refresh_2to4 list \<Rightarrow> transmit_refresh_3to4 list
   \<Rightarrow> (abort, ('f, 'g) party) outcome" where
  "refresh_phase4 S oc p refresh_sid correction_value proofs_commitments kept received_2 received_3 =
     (let me = party_index_of p; params = party_parameters p in
      and_then (dkg_step5 S oc params me refresh_sid proofs_commitments) (\<lambda>(key, _).
      if key \<noteq> 0 then Err (recoverable me PolynomialInconsistency)
      else
      and_then (refresh_seeds S oc (share_count params) me kept received_2 received_3) (\<lambda>ss.
      and_then (each (refresh_mul_step S p refresh_sid) ([], []) ss) (\<lambda>(senders, receivers).
      Ok (refreshed_party p refresh_sid correction_value (zero_share_initialize ss) senders receivers)))))"

section \<open>Re-randomising an OT extension\<close>

text \<open>What the loop leaves, entry by entry.\<close>

definition new_bit :: "('f, 'g) suite \<Rightarrow> bytes \<Rightarrow> party_index \<Rightarrow> party_index \<Rightarrow> bytes \<Rightarrow> ote_sender \<Rightarrow> nat \<Rightarrow> bool" where
  "new_bit S sid i j sd s k \<longleftrightarrow> ote_correlation s ! k \<noteq> refresh_bit S sid i j sd k"

definition new_sender_seed :: "('f, 'g) suite \<Rightarrow> bytes \<Rightarrow> party_index \<Rightarrow> party_index \<Rightarrow> bytes \<Rightarrow> ote_sender \<Rightarrow> nat \<Rightarrow> bytes" where
  "new_sender_seed S sid i j sd s k =
     xor_n SECURITY (ote_seeds s ! k)
       (refresh_expand S (if new_bit S sid i j sd s k then TAG_REFRESH_FAST_R1 else TAG_REFRESH_FAST_R0) sid i j sd k)"

definition new_receiver_seed ::
  "('f, 'g) suite \<Rightarrow> bytes \<Rightarrow> party_index \<Rightarrow> party_index \<Rightarrow> bytes \<Rightarrow> ote_receiver \<Rightarrow> bool \<Rightarrow> nat \<Rightarrow> bytes" where
  "new_receiver_seed S sid i j sd w choice k =
     xor_n SECURITY ((if refresh_bit S sid i j sd k = choice then seeds0 w else seeds1 w) ! k)
       (refresh_expand S (if choice then TAG_REFRESH_FAST_R1 else TAG_REFRESH_FAST_R0) sid i j sd k)"

definition refreshed_ote_sender :: "('f, 'g) suite \<Rightarrow> bytes \<Rightarrow> party_index \<Rightarrow> party_index \<Rightarrow> bytes \<Rightarrow> ote_sender \<Rightarrow> ote_sender" where
  "refreshed_ote_sender S sid i j sd s =
     \<lparr>ote_correlation = map (new_bit S sid i j sd s) [0..<KAPPA], ote_seeds = map (new_sender_seed S sid i j sd s) [0..<KAPPA]\<rparr>"

definition refreshed_ote_receiver :: "('f, 'g) suite \<Rightarrow> bytes \<Rightarrow> party_index \<Rightarrow> party_index \<Rightarrow> bytes \<Rightarrow> ote_receiver \<Rightarrow> ote_receiver" where
  "refreshed_ote_receiver S sid i j sd w =
     \<lparr>seeds0 = map (new_receiver_seed S sid i j sd w False) [0..<KAPPA],
      seeds1 = map (new_receiver_seed S sid i j sd w True) [0..<KAPPA]\<rparr>"

text \<open>The two ends choose the same sender and receiver index, so they stay paired.\<close>

lemma refreshed_ote_paired:
  assumes "ote_paired s w"
  shows "ote_paired (refreshed_ote_sender S sid i j sd s) (refreshed_ote_receiver S sid i j sd w)"
  using assms
  by (auto simp: ote_paired_def refreshed_ote_sender_def refreshed_ote_receiver_def new_sender_seed_def new_receiver_seed_def new_bit_def)

text \<open>A list written entry by entry.\<close>

definition written :: "nat \<Rightarrow> (nat \<Rightarrow> 'a) \<Rightarrow> 'a list \<Rightarrow> 'a list" where
  "written k f xs = map (\<lambda>i. if i < k then f i else xs ! i) [0..<length xs]"

lemma length_written [simp]: "length (written k f xs) = length xs"
  by (simp add: written_def)

lemma written_0 [simp]: "written 0 f xs = xs"
  by (simp add: written_def map_nth)

lemma written_all: "written (length xs) f xs = map f [0..<length xs]"
  by (simp add: written_def)

lemma nth_written_next [simp]: "k < length xs \<Longrightarrow> written k f xs ! k = xs ! k"
  by (simp add: written_def)

lemma written_update: "k < length xs \<Longrightarrow> (written k f xs)[k := f k] = written (Suc k) f xs"
  by (rule nth_equalityI) (auto simp: written_def nth_list_update less_Suc_eq)

lemma refresh_ote_loop:
  assumes k: "k \<le> length (ote_correlation s)" "k \<le> length (ote_seeds s)" "k \<le> length (seeds0 w)" "k \<le> length (seeds1 w)"
  shows "each (refresh_ote_step S sid me their sd) (s, w) [0..<k] =
     (Ok (\<lparr>ote_correlation = written k (new_bit S sid me their sd s) (ote_correlation s),
           ote_seeds = written k (new_sender_seed S sid me their sd s) (ote_seeds s)\<rparr>,
          \<lparr>seeds0 = written k (new_receiver_seed S sid their me sd w False) (seeds0 w),
           seeds1 = written k (new_receiver_seed S sid their me sd w True) (seeds1 w)\<rparr>) :: ('e, _) outcome)"
  using k
proof (induction k)
  case 0
  then show ?case by simp
next
  case (Suc k)
  then have lt: "k < length (ote_correlation s)" "k < length (ote_seeds s)" "k < length (seeds0 w)" "k < length (seeds1 w)" by simp_all
  let ?s = "\<lparr>ote_correlation = written k (new_bit S sid me their sd s) (ote_correlation s),
           ote_seeds = written k (new_sender_seed S sid me their sd s) (ote_seeds s)\<rparr>"
  let ?w = "\<lparr>seeds0 = written k (new_receiver_seed S sid their me sd w False) (seeds0 w),
           seeds1 = written k (new_receiver_seed S sid their me sd w True) (seeds1 w)\<rparr>"
  have "refresh_sender_step S sid me their sd ?s k =
      (Ok \<lparr>ote_correlation = written (Suc k) (new_bit S sid me their sd s) (ote_correlation s),
           ote_seeds = written (Suc k) (new_sender_seed S sid me their sd s) (ote_seeds s)\<rparr> :: ('e, _) outcome)"
    using lt written_update [of k "ote_seeds s" "new_sender_seed S sid me their sd s"]
      written_update [of k "ote_correlation s" "new_bit S sid me their sd s"]
    by (simp add: refresh_sender_step_def Let_def new_sender_seed_def new_bit_def if_distrib [of "\<lambda>t. refresh_expand S t _ _ _ _ _"])
  moreover have "refresh_receiver_step S sid me their sd ?w k =
      (Ok \<lparr>seeds0 = written (Suc k) (new_receiver_seed S sid their me sd w False) (seeds0 w),
           seeds1 = written (Suc k) (new_receiver_seed S sid their me sd w True) (seeds1 w)\<rparr> :: ('e, _) outcome)"
    using lt written_update [of k "seeds0 w" "new_receiver_seed S sid their me sd w False"]
      written_update [of k "seeds1 w" "new_receiver_seed S sid their me sd w True"]
    by (cases "refresh_bit S sid their me sd k") (simp_all add: refresh_receiver_step_def Let_def new_receiver_seed_def)
  ultimately have "refresh_ote_step S sid me their sd (?s, ?w) k =
     (Ok (\<lparr>ote_correlation = written (Suc k) (new_bit S sid me their sd s) (ote_correlation s),
           ote_seeds = written (Suc k) (new_sender_seed S sid me their sd s) (ote_seeds s)\<rparr>,
          \<lparr>seeds0 = written (Suc k) (new_receiver_seed S sid their me sd w False) (seeds0 w),
           seeds1 = written (Suc k) (new_receiver_seed S sid their me sd w True) (seeds1 w)\<rparr>) :: ('e, _) outcome)"
    by (simp add: refresh_ote_step_def)
  then show ?case using Suc by (simp add: each_append)
qed

lemma refresh_ote_total:
  assumes "length (ote_correlation s) = KAPPA" "length (ote_seeds s) = KAPPA" "length (seeds0 w) = KAPPA" "length (seeds1 w) = KAPPA"
  shows "each (refresh_ote_step S sid me their sd) (s, w) [0..<KAPPA] =
     (Ok (refreshed_ote_sender S sid me their sd s, refreshed_ote_receiver S sid their me sd w) :: ('e, _) outcome)"
  using refresh_ote_loop [of KAPPA s w S sid me their sd] assms written_all [of "ote_correlation s"] written_all [of "ote_seeds s"]
    written_all [of "seeds0 w"] written_all [of "seeds1 w"]
  by (simp add: refreshed_ote_sender_def refreshed_ote_receiver_def)

definition refreshed_mul_sender :: "('f, 'g) suite \<Rightarrow> bytes \<Rightarrow> party_index \<Rightarrow> party_index \<Rightarrow> bytes \<Rightarrow> 'f mul_sender \<Rightarrow> 'f mul_sender" where
  "refreshed_mul_sender S sid i j sd s =
     \<lparr>sender_gadget = sender_gadget s, mul_ote_sender = refreshed_ote_sender S sid i j sd (mul_ote_sender s)\<rparr>"

definition refreshed_mul_receiver :: "('f, 'g) suite \<Rightarrow> bytes \<Rightarrow> party_index \<Rightarrow> party_index \<Rightarrow> bytes \<Rightarrow> 'f mul_receiver \<Rightarrow> 'f mul_receiver" where
  "refreshed_mul_receiver S sid i j sd w =
     \<lparr>receiver_gadget = receiver_gadget w, mul_ote_receiver = refreshed_ote_receiver S sid i j sd (mul_ote_receiver w)\<rparr>"

lemma refreshed_mul_paired:
  "mul_paired s w \<Longrightarrow> mul_paired (refreshed_mul_sender S sid i j sd s) (refreshed_mul_receiver S sid i j sd w)"
  by (simp add: mul_paired_def refreshed_mul_sender_def refreshed_mul_receiver_def refreshed_ote_paired)

text \<open>The loop over the counterparties.\<close>

lemma refresh_mul_loop:
  assumes "\<And>j. j \<in> set js \<Longrightarrow> btree_get (mul_senders p) j = Some (s j) \<and> btree_get (mul_receivers p) j = Some (w j) \<and>
      (\<exists>w'. mul_paired (s j) w') \<and> (\<exists>s'. mul_paired s' (w j))"
    and "distinct js" and "btree_wf ss" "btree_wf rs" and "btree_keys ss = btree_keys rs"
  shows "\<exists>ss' rs'. each (refresh_mul_step S p sid) (ss, rs) (map (\<lambda>j. generate_seed_pair (party_index_of p) j (a j) (b j)) js) = Ok (ss', rs') \<and>
     btree_wf ss' \<and> btree_wf rs' \<and> btree_keys ss' = btree_keys rs' \<and>
     (\<forall>j. btree_get ss' j = (if j \<in> set js then Some (refreshed_mul_sender S sid (party_index_of p) j (xor_n 32 (a j) (b j)) (s j)) else btree_get ss j)) \<and>
     (\<forall>j. btree_get rs' j = (if j \<in> set js then Some (refreshed_mul_receiver S sid j (party_index_of p) (xor_n 32 (a j) (b j)) (w j)) else btree_get rs j))"
  using assms
proof (induction js arbitrary: ss rs)
  case Nil
  then show ?case by simp
next
  case (Cons j js)
  let ?s = "refreshed_mul_sender S sid (party_index_of p) j (xor_n 32 (a j) (b j)) (s j)"
  let ?w = "refreshed_mul_receiver S sid j (party_index_of p) (xor_n 32 (a j) (b j)) (w j)"
  have len: "length (ote_correlation (mul_ote_sender (s j))) = KAPPA" "length (ote_seeds (mul_ote_sender (s j))) = KAPPA"
    "length (seeds0 (mul_ote_receiver (w j))) = KAPPA" "length (seeds1 (mul_ote_receiver (w j))) = KAPPA"
    using Cons.prems(1) [of j] by (auto simp: mul_paired_def ote_paired_def)
  have "refresh_mul_step S p sid (ss, rs) (generate_seed_pair (party_index_of p) j (a j) (b j)) = Ok (btree_insert j ?s ss, btree_insert j ?w rs)"
    using Cons.prems(1) [of j]
    by (simp add: refresh_ote_total [OF len] refresh_mul_step_def generate_seed_pair_def Let_def refreshed_mul_sender_def refreshed_mul_receiver_def)
  moreover have "btree_keys (btree_insert j ?s ss) = btree_keys (btree_insert j ?w rs)"
    using Cons.prems(5) by (rule btree_insert_keys_cong)
  with Cons.IH [of "btree_insert j ?s ss" "btree_insert j ?w rs"] Cons.prems obtain ss' rs' where
    "each (refresh_mul_step S p sid) (btree_insert j ?s ss, btree_insert j ?w rs) (map (\<lambda>j. generate_seed_pair (party_index_of p) j (a j) (b j)) js) = Ok (ss', rs')"
    "btree_wf ss'" "btree_wf rs'" "btree_keys ss' = btree_keys rs'"
    "\<forall>k. btree_get ss' k = (if k \<in> set js then Some (refreshed_mul_sender S sid (party_index_of p) k (xor_n 32 (a k) (b k)) (s k)) else btree_get (btree_insert j ?s ss) k)"
    "\<forall>k. btree_get rs' k = (if k \<in> set js then Some (refreshed_mul_receiver S sid k (party_index_of p) (xor_n 32 (a k) (b k)) (w k)) else btree_get (btree_insert j ?w rs) k)"
    by auto
  ultimately show ?case using Cons.prems(2-4) by (auto simp: btree_get_insert)
qed

section \<open>Both variants exchange the same seeds\<close>

definition zero_2to3 :: "keep_refresh_2to3 \<Rightarrow> keep_zero_2to3" where
  "zero_2to3 k = \<lparr>kz2_seed = kr2_seed k, kz2_salt = kr2_salt k\<rparr>"

definition zero_3to4 :: "keep_refresh_3to4 \<Rightarrow> keep_zero_3to4" where
  "zero_3to4 k = \<lparr>kz3_seed = kr3_seed k\<rparr>"

definition zero_out2 :: "transmit_refresh_2to4 \<Rightarrow> transmit_zero_2to4" where
  "zero_out2 m = \<lparr>z2_parties = rf2_parties m, z2_commitment = rf2_commitment m\<rparr>"

definition zero_out3 :: "transmit_refresh_3to4 \<Rightarrow> transmit_zero_3to4" where
  "zero_out3 m = \<lparr>z3_parties = rf3_parties m, z3_seed = rf3_seed m, z3_salt = rf3_salt m\<rparr>"

lemmas zero_conversions = zero_2to3_def zero_3to4_def zero_out2_def zero_out3_def

lemma zero_out_parties: "z2_parties \<circ> zero_out2 = rf2_parties" "z3_parties \<circ> zero_out3 = rf3_parties"
  by (auto simp: zero_conversions)

lemma refresh_phase2_refines:
  "refresh_complete_phase2 S oc p sid frag r =
     (and_then (refresh_phase2 S oc p sid frag r) (\<lambda>((c, pc, keep, transmit), r').
        Ok ((c, pc, map_values zero_2to3 keep, map zero_out2 transmit), r')) :: ('e, _) outcome)"
proof -
  let ?h = "\<lambda>((keep, transmit), r). ((map_values zero_2to3 keep, map zero_out2 transmit), r)"
  have step: "dkg_phase2_step S me (?h st) i = (and_then (refresh_phase2_step S me st i) (\<lambda>t. Ok (?h t)) :: ('e, _) outcome)" for me st i
  proof (cases "party_index_unwrap i :: ('e, party_index) outcome")
    case (Ok idx)
    obtain keep transmit q where st: "st = ((keep, transmit), q)" by (metis prod.exhaust)
    obtain sd co sa q' where g: "generate_seed_with_commitment S q = ((sd, co, sa), q')" by (metis prod.exhaust)
    have "btree_insert idx \<lparr>kz2_seed = sd, kz2_salt = sa\<rparr> (map_values zero_2to3 keep) =
        map_values zero_2to3 (btree_insert idx \<lparr>kr2_seed = sd, kr2_salt = sa\<rparr> keep)"
      using btree_insert_map_values [of idx zero_2to3 "\<lparr>kr2_seed = sd, kr2_salt = sa\<rparr>" keep] by (simp add: zero_2to3_def)
    then show ?thesis by (simp add: dkg_phase2_step_def refresh_phase2_step_def Ok st g zero_out2_def)
  qed (simp_all add: dkg_phase2_step_def refresh_phase2_step_def split_def)
  have loop: "each (dkg_phase2_step S me) (([], []), q) xs =
      (and_then (each (refresh_phase2_step S me) (([], []), q) xs) (\<lambda>t. Ok (?h t)) :: ('e, _) outcome)" for me q xs
    using each_refines [where h = ?h and g = "refresh_phase2_step S me" and f = "dkg_phase2_step S me" and s = "(([], []), q)", OF step]
    by simp
  show ?thesis
    by (simp add: refresh_complete_phase2_def refresh_phase2_def Let_def loop and_then_assoc split_def)
qed

lemma refresh_phase3_refines:
  assumes "refresh_phase3 oc p kept = Ok (keep, transmit)"
  shows "foldl (dkg_phase3_zero_step (party_index_of p)) ([], []) (map_values zero_2to3 kept) =
     (map_values zero_3to4 keep, map zero_out3 transmit)"
proof -
  let ?h = "\<lambda>(keep, transmit). (map_values zero_3to4 keep, map zero_out3 transmit)"
  have step: "dkg_phase3_zero_step me (?h st) (j, zero_2to3 k) = ?h (refresh_phase3_step me st (j, k))" for me st j k
  proof -
    obtain keep transmit where st: "st = (keep, transmit)" by fastforce
    have "btree_insert j \<lparr>kz3_seed = kr2_seed k\<rparr> (map_values zero_3to4 keep) = map_values zero_3to4 (btree_insert j \<lparr>kr3_seed = kr2_seed k\<rparr> keep)"
      using btree_insert_map_values [of j zero_3to4 "\<lparr>kr3_seed = kr2_seed k\<rparr>" keep] by (simp add: zero_3to4_def)
    then show ?thesis by (simp add: dkg_phase3_zero_step_def refresh_phase3_step_def st zero_2to3_def zero_out3_def)
  qed
  have "foldl (dkg_phase3_zero_step me) (?h st) (map_values zero_2to3 kept) = ?h (foldl (refresh_phase3_step me) st kept)" for me st
  proof (induction kept arbitrary: st)
    case (Cons e kept)
    show ?case using Cons [of "refresh_phase3_step me st e"] step [of me st "fst e" "snd e"]
      by (simp add: map_values_def split_def)
  qed simp
  from this [of _ "([], [])"] show ?thesis using assms by (auto simp: refresh_phase3_def outcome_simps)
qed

lemma refresh_seeds_refines:
  "refresh_complete_zero_share S oc n me (map_values zero_3to4 kept) (map zero_out2 rcv2) (map zero_out3 rcv3) =
     and_then (refresh_seeds S oc n me kept rcv2 rcv3) (\<lambda>ss. Ok (zero_share_initialize ss))"
proof -
  have pair: "dkg_seed_pair S me (map_values zero_out2 f2) (map_values zero_out3 f3) (j, zero_3to4 k) = refresh_seed_pair S me f2 f3 (j, k)"
    for f2 f3 j k
    by (cases "btree_get f2 j"; cases "btree_get f3 j")
      (simp_all add: dkg_seed_pair_def refresh_seed_pair_def message_from_def zero_conversions)
  have all: "collect_try (dkg_seed_pair S me (map_values zero_out2 f2) (map_values zero_out3 f3)) (map_values zero_3to4 kept) =
      collect_try (refresh_seed_pair S me f2 f3) kept" for f2 f3
    unfolding map_values_def [of zero_3to4 kept] by (rule collect_try_refines) (auto simp: pair)
  show ?thesis
    by (simp add: refresh_complete_zero_share_def refresh_seeds_def file_by_sender_map zero_out_parties and_then_assoc
        check_count_map all)
qed

text \<open>
  C31: the fast refresh is the complete one as far as the seeds are concerned: up to the names of
  the messages, its phases 2 and 3 keep and send the same, drawn from the random source in the
  same order, and phase 4 accepts the same seeds and fails with the same error.
\<close>

theorem fast_refresh_seeds:
  "refresh_complete_phase2 S oc p sid frag r =
     (and_then (refresh_phase2 S oc p sid frag r) (\<lambda>((c, pc, keep, transmit), r').
        Ok ((c, pc, map_values zero_2to3 keep, map zero_out2 transmit), r')) :: ('e, _) outcome) \<and>
   (\<forall>kept keep transmit. refresh_phase3 oc p kept = (Ok (keep, transmit) :: (unit, _) outcome) \<longrightarrow>
      foldl (dkg_phase3_zero_step (party_index_of p)) ([], []) (map_values zero_2to3 kept) =
        (map_values zero_3to4 keep, map zero_out3 transmit)) \<and>
   refresh_complete_zero_share S oc n me (map_values zero_3to4 kept3) (map zero_out2 rcv2) (map zero_out3 rcv3) =
     and_then (refresh_seeds S oc n me kept3 rcv2 rcv3) (\<lambda>ss. Ok (zero_share_initialize ss))"
  using refresh_phase2_refines refresh_phase3_refines refresh_seeds_refines by blast

section \<open>What an accepted refresh has checked\<close>

lemma refreshed_party_simps:
  "party_parameters (refreshed_party p rsid c zs ss rs) = party_parameters p"
  "party_index_of (refreshed_party p rsid c zs ss rs) = party_index_of p"
  "party_session_id (refreshed_party p rsid c zs ss rs) = rsid"
  "poly_point (refreshed_party p rsid c zs ss rs) = poly_point p + c"
  "dd_poly_point (derivation_data (refreshed_party p rsid c zs ss rs)) = poly_point p + c"
  "pk (refreshed_party p rsid c zs ss rs) = pk p"
  "dd_pk (derivation_data (refreshed_party p rsid c zs ss rs)) = pk p"
  "chain_code (derivation_data (refreshed_party p rsid c zs ss rs)) = chain_code (derivation_data p)"
  by (simp_all add: refreshed_party_def Let_def)

lemma refresh_phase4_Ok:
  assumes "refresh_complete_phase4 S oc p rsid c pcs zk z2 z3 mk mr = Ok p' \<or> refresh_phase4 S oc p rsid c pcs k3 y2 y3 = Ok p'"
  obtains points zs ss rs where "dkg_step5 S oc (party_parameters p) (party_index_of p) rsid pcs = Ok (0, points)"
    and "p' = refreshed_party p rsid c zs ss rs"
  using assms by (auto simp: refresh_complete_phase4_def refresh_phase4_def Let_def outcome_simps split: if_splits)

lemma dkg_step5_point_origin:
  assumes "dkg_step5 S oc p me sid pcs = Ok (key, points)" and "btree_get points i = Some P"
  shows "\<exists>pc\<in>set pcs. pc_index pc = i \<and> dlog_point (pc_proof pc) = P"
proof -
  have "each (dkg_gather_step S me sid) [] pcs = Ok points" using assms(1) by (auto simp: dkg_step5_def outcome_simps)
  from dkg_gather_sound [OF this btree_wf_Nil] show ?thesis using assms(2) by fastforce
qed

text \<open>
  C30: no refresh changes the key. Whatever the other parties sent, a party that either variant
  returns has the old key, index, parameters and chain code, its share has moved by its own
  correction, and the points all parties committed to are the values of one polynomial through
  zero: so moved by them, the verifying shares of any quorum reconstruct the key they did.
\<close>

theorem refresh_keeps_key:
  fixes S :: "('f::field, 'g::ab_group_add) suite"
  assumes S: "suite_ok S" and p: "valid_parameters (party_parameters p)" "unat (share_count (party_parameters p)) < 255"
    and ok: "refresh_complete_phase4 S oc p rsid c pcs zk z2 z3 mk mr = Ok p' \<or> refresh_phase4 S oc p rsid c pcs k3 y2 y3 = Ok p'"
  shows "pk p' = pk p \<and> party_index_of p' = party_index_of p \<and> party_parameters p' = party_parameters p \<and> party_session_id p' = rsid \<and>
     chain_code (derivation_data p') = chain_code (derivation_data p) \<and> poly_point p' = poly_point p + c \<and>
     (\<forall>pc\<in>set pcs. pc_index pc \<noteq> party_index_of p \<longrightarrow> decommit_verify S (pc_proof pc) (pc_commitment pc) rsid) \<and>
     (\<exists>cs. length cs = unat (threshold (party_parameters p)) \<and> horner (smul S) cs 0 = 0 \<and>
        (\<forall>j. 1 \<le> unat j \<and> unat j \<le> unat (share_count (party_parameters p)) \<longrightarrow>
           (\<exists>pc\<in>set pcs. pc_index pc = PartyIndex j \<and> dlog_point (pc_proof pc) = horner (smul S) cs (scalar_of_u8 j))) \<and>
        (\<forall>ps V. distinct ps \<and> unat (threshold (party_parameters p)) \<le> length ps \<and>
             (\<Sum>j\<in>set ps. smul S (V j) (lagrange_zero ps j)) = pk p \<longrightarrow>
           (\<Sum>j\<in>set ps. smul S (V j + horner (smul S) cs (scalar_of_u8 j)) (lagrange_zero ps j)) = pk p'))"
proof -
  note act = action_ok_smul [OF suite_okD(1) [OF S]]
  obtain points zs ss rs where st5: "dkg_step5 S oc (party_parameters p) (party_index_of p) rsid pcs = Ok (0, points)"
    and p': "p' = refreshed_party p rsid c zs ss rs"
    using refresh_phase4_Ok [OF ok] by blast
  note sound = dkg_step5_polynomial [OF S p st5]
  then obtain cs where cs: "length cs = unat (threshold (party_parameters p))" "horner (smul S) cs 0 = 0"
    and pts: "\<forall>j. 1 \<le> unat j \<and> unat j \<le> unat (share_count (party_parameters p)) \<longrightarrow>
           btree_get points (PartyIndex j) = Some (horner (smul S) cs (scalar_of_u8 j))" by metis
  have "\<exists>pc\<in>set pcs. pc_index pc = PartyIndex j \<and> dlog_point (pc_proof pc) = horner (smul S) cs (scalar_of_u8 j)"
    if "1 \<le> unat j \<and> unat j \<le> unat (share_count (party_parameters p))" for j
    using dkg_step5_point_origin [OF st5] pts that by blast
  moreover have "(\<Sum>j\<in>set ps. smul S (V j + horner (smul S) cs (scalar_of_u8 j)) (lagrange_zero ps j)) =
      (\<Sum>j\<in>set ps. smul S (V j) (lagrange_zero ps j))"
    if "distinct ps" "unat (threshold (party_parameters p)) \<le> length ps" for ps V
  proof -
    have "(\<Sum>j\<in>set ps. smul S (horner (smul S) cs (scalar_of_u8 j)) (lagrange_zero ps j)) = horner (smul S) cs 0"
      using cs(1) that(2) by (intro lagrange_zero_recovers [OF suite_okD(3) [OF S] act that(1)]) simp
    then show ?thesis by (simp add: smul_add_point [OF suite_okD(1) [OF S]] sum.distrib cs(2))
  qed
  ultimately show ?thesis using sound cs by (auto simp: p' refreshed_party_simps)
qed

section \<open>Aborts never ban\<close>

definition own_recoverable :: "party_index \<Rightarrow> abort \<Rightarrow> bool" where
  "own_recoverable me a \<longleftrightarrow> index_of a = me \<and> kind a = Recoverable"

named_theorems recoverable_errs \<open>which errors a step of key generation or refresh returns\<close>

lemma own_recoverable_simp [simp]: "own_recoverable me (recoverable me r)"
  by (simp add: own_recoverable_def)

lemma mul_abort_recoverable [simp]: "own_recoverable me (mul_abort me i e)"
  by (cases e) (simp add: mul_abort_def)

lemma each_recoverable:
  "(\<And>s x e. x \<in> set xs \<Longrightarrow> f s x = Err e \<Longrightarrow> own_recoverable me e) \<Longrightarrow> each f s xs = Err a \<Longrightarrow> own_recoverable me a"
  by (erule each_Err) blast

lemma collect_try_recoverable:
  "(\<And>x e. x \<in> set xs \<Longrightarrow> f x = Err e \<Longrightarrow> own_recoverable me e) \<Longrightarrow> collect_try f xs = Err a \<Longrightarrow> own_recoverable me a"
  by (induction xs) (auto simp: outcome_simps)

lemma u8_arith_neq_Err [simp]: "u8_sub oc a b \<noteq> Err e" "u8_add oc a b \<noteq> Err e" "party_index_unwrap i \<noteq> Err e"
  by (simp_all add: u8_sub_def u8_add_def party_index_unwrap_def)

lemma file_by_sender_recoverable [recoverable_errs]: "file_by_sender me kept parties msgs = Err a \<Longrightarrow> own_recoverable me a"
  using file_by_sender_error [of me kept parties msgs a] by (simp add: own_recoverable_def)

lemma check_count_recoverable [recoverable_errs]: "check_count me kept filed = Err a \<Longrightarrow> own_recoverable me a"
  by (auto simp: check_count_def split: if_splits)

lemma message_from_recoverable [recoverable_errs]: "message_from me filed i = Err a \<Longrightarrow> own_recoverable me a"
  by (auto simp: message_from_def outcome_simps)

lemma dkg_step5_recoverable [recoverable_errs]:
  "dkg_step5 S oc p me sid pcs = Err a \<Longrightarrow> own_recoverable me a"
proof -
  have window: "dkg_window S oc me points t i = Err e \<Longrightarrow> own_recoverable me e" for points t i e
    by (auto simp: dkg_window_def dkg_window_step_def outcome_simps split: prod.splits elim!: each_recoverable [rotated])
  have "each (dkg_gather_step S me sid) s pcs = Err e \<Longrightarrow> own_recoverable me e" for s e
    by (erule each_recoverable [rotated]) (auto simp: dkg_gather_step_def split: if_splits)
  moreover have "each (dkg_consistency_step S oc me points t) s is = Err e \<Longrightarrow> own_recoverable me e" for points t s "is" e
    by (erule each_recoverable [rotated]) (auto simp: dkg_consistency_step_def outcome_simps window split: if_splits)
  ultimately show "dkg_step5 S oc p me sid pcs = Err a \<Longrightarrow> own_recoverable me a"
    by (auto simp: dkg_step5_def outcome_simps)
qed

lemma dkg_seed_pair_recoverable [recoverable_errs]:
  "dkg_seed_pair S me f2 f3 entry = Err a \<Longrightarrow> own_recoverable me a"
  by (auto simp: dkg_seed_pair_def outcome_simps split: prod.splits if_splits intro: recoverable_errs)

lemma refresh_seed_pair_recoverable [recoverable_errs]:
  "refresh_seed_pair S me f2 f3 entry = Err a \<Longrightarrow> own_recoverable me a"
  by (auto simp: refresh_seed_pair_def outcome_simps split: prod.splits if_splits intro: recoverable_errs)

lemma zero_share_recoverable [recoverable_errs]:
  "dkg_zero_share S me kept m2 m3 = Err a \<Longrightarrow> own_recoverable me a"
  "refresh_complete_zero_share S oc n me kept m2 m3 = Err a \<Longrightarrow> own_recoverable me a"
  "refresh_seeds S oc n me kept' y2 y3 = Err a \<Longrightarrow> own_recoverable me a"
  by (auto simp: dkg_zero_share_def refresh_complete_zero_share_def refresh_seeds_def outcome_simps
      intro: recoverable_errs elim!: collect_try_recoverable [rotated])

lemma dkg_mul_recoverable [recoverable_errs]: "dkg_mul S me sid kept msgs = Err a \<Longrightarrow> own_recoverable me a"
proof -
  have "each (dkg_mul_step S me sid filed) s xs = Err e \<Longrightarrow> own_recoverable me e" for filed s xs e
    by (erule each_recoverable [rotated])
      (auto simp: dkg_mul_step_def outcome_simps split: prod.splits intro: recoverable_errs)
  then show "dkg_mul S me sid kept msgs = Err a \<Longrightarrow> own_recoverable me a"
    by (auto simp: dkg_mul_def outcome_simps intro: recoverable_errs)
qed

lemma dkg_chain_code_recoverable [recoverable_errs]: "dkg_chain_code S me n m2 m3 = Err a \<Longrightarrow> own_recoverable me a"
  unfolding dkg_chain_code_def
  by (erule each_recoverable [rotated]) (auto simp: dkg_chain_code_step_def outcome_simps split: if_splits intro: recoverable_errs)

lemma refresh_mul_recoverable [recoverable_errs]:
  "each (refresh_mul_step S p rsid) s ss = Err a \<Longrightarrow> own_recoverable (party_index_of p) a"
proof (erule each_recoverable [rotated])
  have ote: "each (refresh_ote_step S rsid me their sd) t ks \<noteq> (Err e :: (abort, _) outcome)" for me their sd t ks e
  proof
    assume "each (refresh_ote_step S rsid me their sd) t ks = (Err e :: (abort, _) outcome)"
    then obtain k u where "refresh_ote_step S rsid me their sd u k = (Err e :: (abort, _) outcome)" by (rule each_Err)
    then show False
      by (auto simp: refresh_ote_step_def refresh_sender_step_def refresh_receiver_step_def Let_def outcome_simps split: prod.splits)
  qed
  show "refresh_mul_step S p rsid st sp = Err e \<Longrightarrow> own_recoverable (party_index_of p) e" for st sp e
    by (auto simp: refresh_mul_step_def Let_def outcome_simps ote split: prod.splits)
qed

text \<open>
  Key generation and refresh never ban anyone: every abort of their fourth phases carries the
  party's own index and is recoverable, whatever the messages were.
\<close>

theorem setup_never_bans:
  "(dkg_phase4 S oc data pp pcs zk z2 z3 mk mr b2 b3 address_fn = Err a \<longrightarrow>
      index_of a = sd_party_index data \<and> kind a = Recoverable) \<and>
   (refresh_complete_phase4 S oc p rsid c pcs zk z2 z3 mk mr = Err a \<or> refresh_phase4 S oc p rsid c pcs k3 y2 y3 = Err a \<longrightarrow>
      index_of a = party_index_of p \<and> kind a = Recoverable)"
proof -
  have "own_recoverable (sd_party_index data) a" if "dkg_phase4 S oc data pp pcs zk z2 z3 mk mr b2 b3 address_fn = Err a"
    using that by (auto simp: dkg_phase4_def Let_def outcome_simps split: if_splits intro: recoverable_errs)
  moreover have "own_recoverable (party_index_of p) a" if "refresh_complete_phase4 S oc p rsid c pcs zk z2 z3 mk mr = Err a"
    using that by (auto simp: refresh_complete_phase4_def Let_def outcome_simps split: if_splits intro: recoverable_errs)
  moreover have "own_recoverable (party_index_of p) a" if "refresh_phase4 S oc p rsid c pcs k3 y2 y3 = Err a"
    using that by (auto simp: refresh_phase4_def Let_def outcome_simps split: if_splits intro: recoverable_errs)
  ultimately show ?thesis by (auto simp: own_recoverable_def)
qed

end
