(* ===== verification/RefreshHonest.thy ===== *)
theory RefreshHonest
  imports Refresh
begin

text \<open>
  Refresh among honest parties, for both variants: when everyone's first three phases have
  produced their messages and these are delivered, in any order, phase 4 succeeds for every
  party and what the parties hold is again a group, with the same secret.
\<close>

section \<open>A refreshed group\<close>

text \<open>Adding a polynomial through zero changes the shares and not the secret.\<close>

lemma refreshed_group:
  fixes S :: "('f::field, 'g::ab_group_add) suite"
  assumes g: "group_ok S cs prm sid cc ps pty" and D: "length D = unat (threshold prm)" "secret_of D = 0"
    and zs: "zero_shares_agree ps zs"
    and wf: "\<And>i. i \<in> set ps \<Longrightarrow> btree_wf (ss i) \<and> btree_wf (rs i) \<and> btree_keys (ss i) = btree_keys (rs i)"
    and paired: "\<forall>i\<in>set ps. \<forall>j\<in>set ps. i \<noteq> j \<longrightarrow> (\<exists>s w. btree_get (ss i) j = Some s \<and> btree_get (rs j) i = Some w \<and> mul_paired s w)"
  shows "group_ok S (map2 (+) cs D) prm rsid cc ps (\<lambda>i. refreshed_party (pty i) rsid (share_of D i) (zs i) (ss i) (rs i)) \<and>
     secret_of (map2 (+) cs D) = secret_of cs"
proof -
  note gd = g [unfolded group_ok_def]
  have len: "length cs = length D" using gd D(1) by simp
  have sh: "share_of (map2 (+) cs D) i = share_of cs i + share_of D i" for i
    unfolding share_of_def by (rule horner_add [OF action_ok_times len])
  have "secret_of (map2 (+) cs D) = secret_of cs + secret_of D"
    unfolding secret_of_def by (rule horner_add [OF action_ok_times len])
  then have sec: "secret_of (map2 (+) cs D) = secret_of cs" using D(2) by simp
  let ?p = "\<lambda>i. refreshed_party (pty i) rsid (share_of D i) (zs i) (ss i) (rs i)"
  have "member_ok S (map2 (+) cs D) prm rsid cc i (?p i)" if i: "i \<in> set ps" for i
  proof -
    have "member_ok S cs prm sid cc i (pty i)" using gd i by blast
    then show ?thesis using wf [OF i] by (simp add: member_ok_def refreshed_party_def Let_def party_ok_def sh sec)
  qed
  moreover have "zero_shares_agree ps (\<lambda>i. zero_share_of (?p i))" using zs by (simp add: refreshed_party_def Let_def)
  moreover have "mul_states_paired ps ?p" using paired by (simp add: mul_states_paired_def refreshed_party_def Let_def)
  moreover have "length (map2 (+) cs D) = unat (threshold prm)" "map2 (+) cs D \<noteq> []" "distinct ps"
    using gd D(1) by (auto simp: zip_eq_Nil_iff)
  ultimately show ?thesis using sec unfolding group_ok_def by blast
qed

lemma refresh_polynomial_spec:
  assumes "refresh_polynomial t r = (f, r')" and "t \<noteq> 0"
  shows "length f = unat t" "secret_of f = 0"
proof -
  obtain cs where f: "f = 0 # cs" "draw_list (\<lambda>_. random_scalar) (u8_range 1 t) r = (cs, r')"
    using assms(1) by (auto simp: refresh_polynomial_def split: prod.splits)
  have "length cs = unat t - 1" using draw_list_length [of "\<lambda>_. random_scalar" "u8_range 1 t" r] f(2) by (simp add: length_u8_range)
  moreover have "1 \<le> unat t" using assms(2) by (simp add: Suc_le_eq unat_gt_0)
  ultimately show "length f = unat t" by (simp add: f(1))
  show "secret_of f = 0" by (simp add: f(1) secret_of_def)
qed

lemma refresh_phase1_eq:
  assumes "threshold (party_parameters p) \<noteq> 0"
  shows "refresh_complete_phase1 oc p r =
     (Ok (map (\<lambda>j. horner (*) (fst (refresh_polynomial (threshold (party_parameters p)) r)) (scalar_of_u8 j))
        (u8_range_incl 1 (share_count (party_parameters p))), snd (refresh_polynomial (threshold (party_parameters p)) r)) :: ('e, _) outcome)"
    and "refresh_phase1 oc p r = (refresh_complete_phase1 oc p r :: ('e, _) outcome)"
proof -
  obtain f r' where f: "refresh_polynomial (threshold (party_parameters p)) r = (f, r')" by fastforce
  show "refresh_complete_phase1 oc p r =
     (Ok (map (\<lambda>j. horner (*) (fst (refresh_polynomial (threshold (party_parameters p)) r)) (scalar_of_u8 j))
        (u8_range_incl 1 (share_count (party_parameters p))), snd (refresh_polynomial (threshold (party_parameters p)) r)) :: ('e, _) outcome)"
    using dkg_step2_eq [OF refresh_polynomial_spec(1) [OF f assms] assms, where 'e = 'e] by (simp add: refresh_complete_phase1_def f)
  show "refresh_phase1 oc p r = (refresh_complete_phase1 oc p r :: ('e, _) outcome)"
    by (simp add: refresh_phase1_def refresh_complete_phase1_def)
qed

text \<open>The corrections dealt in phase 1 are the shares of a polynomial through zero.\<close>

lemma refresh_corrections:
  fixes r0 :: "party_index \<Rightarrow> 'f::field rng"
  assumes t: "threshold prm \<noteq> 0" and ps: "ps = all_parties (share_count prm)"
    and prm: "\<And>i. i \<in> set ps \<Longrightarrow> party_parameters (pty i) = prm"
    and frag: "\<And>i. i \<in> set ps \<Longrightarrow> refresh_complete_phase1 oc (pty i) (r0 i) = (Ok (frag i, r1 i) :: ('e, _) outcome)"
    and rcv: "\<And>i. i \<in> set ps \<Longrightarrow> mset (received i) = mset (map (\<lambda>j. frag j ! (unat (as_u8 i) - 1)) ps)"
  shows "\<exists>D. length D = unat (threshold prm) \<and> secret_of D = 0 \<and> (\<forall>i\<in>set ps. sum_list (received i) = share_of D i)"
proof -
  let ?f = "\<lambda>i. fst (refresh_polynomial (threshold prm) (r0 i))"
  have f: "length (?f i) = unat (threshold prm)" "secret_of (?f i) = 0" for i
    using refresh_polynomial_spec [OF _ t, of "r0 i" "?f i"] by (metis prod.collapse)+
  have "frag j = map (\<lambda>k. horner (*) (?f j) (scalar_of_u8 k)) (u8_range_incl 1 (share_count prm))" if "j \<in> set ps" for j
    using frag [OF that] refresh_phase1_eq(1) [where 'e = 'e, of "pty j" oc "r0 j"] t by (simp add: prm [OF that])
  from dealt_polynomial [OF ps f(1) this rcv] obtain D where "length D = unat (threshold prm)"
    "secret_of D = (\<Sum>j\<in>set ps. secret_of (?f j))" "\<forall>i\<in>set ps. sum_list (received i) = share_of D i" by blast
  then show ?thesis by (auto simp: f(2))
qed

section \<open>Honest complete refresh\<close>

text \<open>
  The first three phases run by all parties, each on the fragments for it, in any order.
\<close>

definition refresh_complete_rounds ::
  "('f::field, 'g::ab_group_add) suite \<Rightarrow> bool \<Rightarrow> parameters \<Rightarrow> bytes \<Rightarrow> (party_index \<Rightarrow> ('f, 'g) party) \<Rightarrow> (party_index \<Rightarrow> 'f rng)
   \<Rightarrow> (party_index \<Rightarrow> 'f \<times> ('f, 'g) proof_commitment \<times> transmit_zero_2to4 list)
   \<Rightarrow> (party_index \<Rightarrow> (party_index, keep_zero_3to4) btree_map \<times> transmit_zero_3to4 list
        \<times> (party_index, ('f, 'g) keep_mul_3to4) btree_map \<times> ('f, 'g) transmit_mul_3to4 list) \<Rightarrow> bool" where
  "refresh_complete_rounds S oc prm rsid pty r0 out2 out3 \<longleftrightarrow>
     (\<exists>frag r1. \<forall>i\<in>set (all_parties (share_count prm)).
        refresh_complete_phase1 oc (pty i) (r0 i) = (Ok (frag i, r1 i) :: (abort, _) outcome) \<and>
        (\<exists>received c pc zk z2 r2 r3.
           mset received = mset (map (\<lambda>j. frag j ! (unat (as_u8 i) - 1)) (all_parties (share_count prm))) \<and>
           refresh_complete_phase2 S oc (pty i) rsid received (r1 i) = (Ok ((c, pc, zk, z2), r2) :: (abort, _) outcome) \<and>
           out2 i = (c, pc, z2) \<and>
           refresh_complete_phase3 S oc (pty i) rsid zk r2 = (Ok (out3 i, r3) :: (abort, _) outcome)))"

definition refresh_complete_delivered ::
  "parameters \<Rightarrow> (party_index \<Rightarrow> 'f \<times> ('f, 'g) proof_commitment \<times> transmit_zero_2to4 list)
   \<Rightarrow> (party_index \<Rightarrow> (party_index, keep_zero_3to4) btree_map \<times> transmit_zero_3to4 list
        \<times> (party_index, ('f, 'g) keep_mul_3to4) btree_map \<times> ('f, 'g) transmit_mul_3to4 list)
   \<Rightarrow> party_index \<Rightarrow> ('f, 'g) proof_commitment list \<Rightarrow> transmit_zero_2to4 list \<Rightarrow> transmit_zero_3to4 list
   \<Rightarrow> ('f, 'g) transmit_mul_3to4 list \<Rightarrow> bool" where
  "refresh_complete_delivered prm out2 out3 i pcs z2 z3 mr \<longleftrightarrow>
     (let ps = all_parties (share_count prm) in
      mset pcs = mset (map (\<lambda>j. fst (snd (out2 j))) ps) \<and>
      mset z2 = mset (addressed_to z2_parties ps (\<lambda>j. snd (snd (out2 j))) i) \<and>
      mset z3 = mset (addressed_to z3_parties ps (\<lambda>j. fst (snd (out3 j))) i) \<and>
      mset mr = mset (addressed_to tm_parties ps (\<lambda>j. snd (snd (snd (out3 j)))) i))"

lemma dkg_step3_result:
  assumes "dkg_step3 S me sid frag r = (Ok ((c, pc), r') :: (abort, _) outcome)"
  shows "c = sum_list frag" "proof_sent S sid me c pc"
  using assms by (auto simp: dkg_step3_def proof_sent_def Let_def outcome_simps) blast

lemma refresh_complete_phase2_result:
  assumes "refresh_complete_phase2 S oc p rsid frag r = (Ok ((c, pc, zk, z2), r') :: (abort, _) outcome)"
  shows "c = sum_list frag \<and> proof_sent S rsid (party_index_of p) c pc \<and>
     (\<exists>K M. zk = map (\<lambda>j. (j, K j)) (others (share_count (party_parameters p)) (party_index_of p)) \<and>
        z2 = map M (others (share_count (party_parameters p)) (party_index_of p)) \<and>
        (\<forall>j\<in>set (others (share_count (party_parameters p)) (party_index_of p)).
           z2_parties (M j) = \<lparr>sender = party_index_of p, receiver = j\<rparr> \<and>
           verify_seed S (kz2_seed (K j)) (z2_commitment (M j)) (kz2_salt (K j))))"
proof -
  let ?me = "party_index_of p" and ?n = "share_count (party_parameters p)"
  from assms obtain ra rb where s3: "dkg_step3 S ?me rsid frag r = (Ok ((c, pc), ra) :: (abort, _) outcome)"
    and loop: "each (dkg_phase2_step S ?me) (([], []), ra) (u8_range_incl 1 ?n) = (Ok ((zk, z2), rb) :: (abort, _) outcome)"
    by (auto simp: refresh_complete_phase2_def Let_def outcome_simps)
  show ?thesis using dkg_step3_result [OF s3] dkg_phase2_loop [OF loop] by blast
qed

lemma refresh_complete_phase3_result:
  fixes S :: "('f::field, 'g::ab_group_add) suite"
  assumes "refresh_complete_phase3 S oc p rsid (map (\<lambda>j. (j, K j)) (others (share_count (party_parameters p)) (party_index_of p))) r =
      (Ok ((zk, z3, mk, mt), r') :: (abort, _) outcome)"
  shows "zk = map (\<lambda>j. (j, \<lparr>kz3_seed = kz2_seed (K j)\<rparr>)) (others (share_count (party_parameters p)) (party_index_of p))"
    "z3 = map (\<lambda>j. \<lparr>z3_parties = \<lparr>sender = party_index_of p, receiver = j\<rparr>, z3_seed = kz2_seed (K j), z3_salt = kz2_salt (K j)\<rparr>)
        (others (share_count (party_parameters p)) (party_index_of p))"
    "\<exists>L N. muls_sent S (share_count (party_parameters p)) rsid (party_index_of p) mk mt L N"
proof -
  let ?me = "party_index_of p" and ?n = "share_count (party_parameters p)"
  note zero = dkg_phase3_zero_result [OF others_simps(3), of ?me K ?n ?me]
  from assms obtain rc where loop: "each (dkg_phase3_mul_step S ?me rsid) (([], []), r) (u8_range_incl 1 ?n) = (Ok ((mk, mt), rc) :: (abort, _) outcome)"
    by (auto simp: refresh_complete_phase3_def Let_def zero outcome_simps)
  then show "\<exists>L N. muls_sent S ?n rsid ?me mk mt L N" by (rule dkg_phase3_mul_loop)
  show "zk = map (\<lambda>j. (j, \<lparr>kz3_seed = kz2_seed (K j)\<rparr>)) (others ?n ?me)"
    "z3 = map (\<lambda>j. \<lparr>z3_parties = \<lparr>sender = ?me, receiver = j\<rparr>, z3_seed = kz2_seed (K j), z3_salt = kz2_salt (K j)\<rparr>) (others ?n ?me)"
    using assms by (auto simp: refresh_complete_phase3_def Let_def zero outcome_simps)
qed

lemma refresh_complete_sent:
  fixes S :: "('f::field, 'g::ab_group_add) suite"
  assumes p2: "refresh_complete_phase2 S oc p rsid frag r = (Ok ((c, pc, zk2, z2), r') :: (abort, _) outcome)"
    and p3: "refresh_complete_phase3 S oc p rsid zk2 r' = (Ok ((zk, z3, mk, mt), r'') :: (abort, _) outcome)"
    and p: "party_index_of p = i" "share_count (party_parameters p) = n"
  shows "c = sum_list frag \<and> proof_sent S rsid i c pc \<and> (\<exists>sd M2 M3. seeds_sent S n i z2 zk z3 sd M2 M3) \<and>
     (\<exists>L N. muls_sent S n rsid i mk mt L N)"
proof -
  note r2 = refresh_complete_phase2_result [OF p2, unfolded p]
  then obtain K M where KM: "zk2 = map (\<lambda>j. (j, K j)) (others n i)" "z2 = map M (others n i)"
    "\<forall>j\<in>set (others n i). z2_parties (M j) = \<lparr>sender = i, receiver = j\<rparr> \<and>
           verify_seed S (kz2_seed (K j)) (z2_commitment (M j)) (kz2_salt (K j))" by blast
  have p3': "refresh_complete_phase3 S oc p rsid (map (\<lambda>j. (j, K j)) (others (share_count (party_parameters p)) (party_index_of p))) r' =
      (Ok ((zk, z3, mk, mt), r'') :: (abort, _) outcome)"
    using p3 by (simp only: KM(1) p)
  note r3 = refresh_complete_phase3_result [OF p3', unfolded p]
  show ?thesis using r2 r3(3) seeds_sent_phases [OF KM(2,3) r3(1,2)] by blast
qed

lemma refresh_complete_zero_share_eq:
  assumes "n \<noteq> 0"
  shows "refresh_complete_zero_share S oc n me kept rcv2 rcv3 = dkg_zero_share S me kept rcv2 rcv3"
proof -
  have "u8_sub oc n 1 = (Ok (n - 1) :: (abort, u8) outcome)" using assms by (intro u8_sub_exact) (simp add: Suc_le_eq unat_gt_0)
  then show ?thesis by (simp add: refresh_complete_zero_share_def dkg_zero_share_def)
qed

lemma refresh_complete_rounds_sent:
  fixes S :: "('f::field, 'g::ab_group_add) suite"
  assumes "refresh_complete_rounds S oc prm rsid pty r0 out2 out3"
  shows "\<exists>frag r1. \<forall>i\<in>set (all_parties (share_count prm)).
     refresh_complete_phase1 oc (pty i) (r0 i) = (Ok (frag i, r1 i) :: (abort, _) outcome) \<and>
     (party_index_of (pty i) = i \<and> party_parameters (pty i) = prm \<longrightarrow>
       (\<exists>received. mset received = mset (map (\<lambda>j. frag j ! (unat (as_u8 i) - 1)) (all_parties (share_count prm))) \<and>
         fst (out2 i) = sum_list received \<and> proof_sent S rsid i (fst (out2 i)) (fst (snd (out2 i))) \<and>
         (\<exists>sd M2 M3. seeds_sent S (share_count prm) i (snd (snd (out2 i))) (fst (out3 i)) (fst (snd (out3 i))) sd M2 M3) \<and>
         (\<exists>L N. muls_sent S (share_count prm) rsid i (fst (snd (snd (out3 i)))) (snd (snd (snd (out3 i)))) L N)))"
proof -
  obtain frag r1 where F: "\<And>i. i \<in> set (all_parties (share_count prm)) \<Longrightarrow>
     refresh_complete_phase1 oc (pty i) (r0 i) = (Ok (frag i, r1 i) :: (abort, _) outcome) \<and>
        (\<exists>received c pc zk z2 r2 r3.
           mset received = mset (map (\<lambda>j. frag j ! (unat (as_u8 i) - 1)) (all_parties (share_count prm))) \<and>
           refresh_complete_phase2 S oc (pty i) rsid received (r1 i) = (Ok ((c, pc, zk, z2), r2) :: (abort, _) outcome) \<and>
           out2 i = (c, pc, z2) \<and>
           refresh_complete_phase3 S oc (pty i) rsid zk r2 = (Ok (out3 i, r3) :: (abort, _) outcome))"
    using assms unfolding refresh_complete_rounds_def by blast
  have "\<exists>received. mset received = mset (map (\<lambda>j. frag j ! (unat (as_u8 i) - 1)) (all_parties (share_count prm))) \<and>
         fst (out2 i) = sum_list received \<and> proof_sent S rsid i (fst (out2 i)) (fst (snd (out2 i))) \<and>
         (\<exists>sd M2 M3. seeds_sent S (share_count prm) i (snd (snd (out2 i))) (fst (out3 i)) (fst (snd (out3 i))) sd M2 M3) \<and>
         (\<exists>L N. muls_sent S (share_count prm) rsid i (fst (snd (snd (out3 i)))) (snd (snd (snd (out3 i)))) L N)"
    if i: "i \<in> set (all_parties (share_count prm))" and me: "party_index_of (pty i) = i" "party_parameters (pty i) = prm" for i
  proof -
    obtain zk z3 mk mt where o3: "out3 i = (zk, z3, mk, mt)" by (metis prod.exhaust)
    obtain received c pc zk2 z2 r2 r3 where
      rc: "mset received = mset (map (\<lambda>j. frag j ! (unat (as_u8 i) - 1)) (all_parties (share_count prm)))"
      and p2: "refresh_complete_phase2 S oc (pty i) rsid received (r1 i) = (Ok ((c, pc, zk2, z2), r2) :: (abort, _) outcome)"
      and o2: "out2 i = (c, pc, z2)"
      and p3: "refresh_complete_phase3 S oc (pty i) rsid zk2 r2 = (Ok ((zk, z3, mk, mt), r3) :: (abort, _) outcome)"
      using F [OF i] unfolding o3 by blast
    have "share_count (party_parameters (pty i)) = share_count prm" by (simp add: me)
    from refresh_complete_sent [OF p2 p3 me(1) this] show ?thesis using rc unfolding o2 o3 fst_conv snd_conv by blast
  qed
  then show ?thesis using F by (intro exI [of _ frag] exI [of _ r1]) blast
qed

lemma group_member_simps:
  assumes "group_ok S cs prm sid cc ps pty" and "i \<in> set ps"
  shows "party_parameters (pty i) = prm" "party_index_of (pty i) = i" "pk (pty i) = smul S (generator S) (secret_of cs)"
    "poly_point (pty i) = share_of cs i"
  using assms by (auto simp: group_ok_def member_ok_def)

lemma honest_step5_zero:
  assumes "suite_ok S" and "valid_parameters prm" "unat (share_count prm) < 255"
    and "ps = all_parties (share_count prm)" and "length D = unat (threshold prm)" "secret_of D = 0"
    and "\<And>j. j \<in> set ps \<Longrightarrow> proof_sent S sid j (share_of D j) (pc j)"
    and "\<And>j. j \<in> set ps \<Longrightarrow> distinct (rand_commitments (pc_proof (pc j)))"
    and "mset pcs = mset (map pc ps)"
  shows "\<exists>points. dkg_step5 S oc prm me sid pcs = Ok (0, points)"
  using honest_step5 [OF assms(1-5,7-9), of oc me] by (auto simp: assms(6) smul_zero_scalar [OF suite_okD(1) [OF assms(1)]])

lemma refresh_complete_rounds_dealt:
  fixes S :: "('f::field, 'g::ab_group_add) suite"
  assumes t: "threshold prm \<noteq> 0" and ps: "ps = all_parties (share_count prm)" and g: "group_ok S cs prm sid cc ps pty"
    and rounds: "refresh_complete_rounds S oc prm rsid pty r0 out2 out3"
  obtains D sd M2 M3 L N where "length D = unat (threshold prm)" and "secret_of D = 0"
    and "\<And>i. i \<in> set ps \<Longrightarrow> fst (out2 i) = share_of D i"
    and "\<And>i. i \<in> set ps \<Longrightarrow> proof_sent S rsid i (share_of D i) (fst (snd (out2 i)))"
    and "\<And>i. i \<in> set ps \<Longrightarrow> seeds_sent S (share_count prm) i (snd (snd (out2 i))) (fst (out3 i)) (fst (snd (out3 i))) (sd i) (M2 i) (M3 i)"
    and "\<And>i. i \<in> set ps \<Longrightarrow> muls_sent S (share_count prm) rsid i (fst (snd (snd (out3 i)))) (snd (snd (snd (out3 i)))) (L i) (N i)"
proof -
  let ?n = "share_count prm"
  note mem = group_member_simps [OF g]
  from rounds obtain frag r1 where R: "\<And>i. i \<in> set ps \<Longrightarrow> refresh_complete_phase1 oc (pty i) (r0 i) = (Ok (frag i, r1 i) :: (abort, _) outcome)"
    "\<And>i. i \<in> set ps \<Longrightarrow> \<exists>received. mset received = mset (map (\<lambda>j. frag j ! (unat (as_u8 i) - 1)) ps) \<and> fst (out2 i) = sum_list received \<and>
       proof_sent S rsid i (fst (out2 i)) (fst (snd (out2 i))) \<and>
       (\<exists>sd M2 M3. seeds_sent S ?n i (snd (snd (out2 i))) (fst (out3 i)) (fst (snd (out3 i))) sd M2 M3) \<and>
       (\<exists>L N. muls_sent S ?n rsid i (fst (snd (snd (out3 i)))) (snd (snd (snd (out3 i)))) L N)"
    using refresh_complete_rounds_sent [OF rounds] mem(1,2) unfolding ps by blast
  then obtain received sd M2 M3 L N where
    rcv: "\<And>i. i \<in> set ps \<Longrightarrow> mset (received i) = mset (map (\<lambda>j. frag j ! (unat (as_u8 i) - 1)) ps)"
      "\<And>i. i \<in> set ps \<Longrightarrow> fst (out2 i) = sum_list (received i)"
    and pf: "\<And>i. i \<in> set ps \<Longrightarrow> proof_sent S rsid i (fst (out2 i)) (fst (snd (out2 i)))"
    and se: "\<And>i. i \<in> set ps \<Longrightarrow> seeds_sent S ?n i (snd (snd (out2 i))) (fst (out3 i)) (fst (snd (out3 i))) (sd i) (M2 i) (M3 i)"
    and mu: "\<And>i. i \<in> set ps \<Longrightarrow> muls_sent S ?n rsid i (fst (snd (snd (out3 i)))) (snd (snd (snd (out3 i)))) (L i) (N i)"
    by metis
  obtain D where D: "length D = unat (threshold prm)" "secret_of D = 0" and c: "\<And>i. i \<in> set ps \<Longrightarrow> fst (out2 i) = share_of D i"
    using refresh_corrections [OF t ps mem(1) R(1) rcv(1)] rcv(2) by metis
  have pf': "proof_sent S rsid i (share_of D i) (fst (snd (out2 i)))" if "i \<in> set ps" for i using pf [OF that] by (simp add: c [OF that])
  show thesis by (rule that [OF D c pf' se mu])
qed

lemma refresh_complete_forms_group:
  fixes S :: "('f::field, 'g::ab_group_add) suite"
  assumes S: "suite_ok S" and p: "valid_parameters prm" "unat (share_count prm) < 255"
    and ps: "ps = all_parties (share_count prm)" and g: "group_ok S cs prm sid cc ps pty"
    and rounds: "refresh_complete_rounds S oc prm rsid pty r0 out2 out3"
    and dp: "\<And>i. i \<in> set ps \<Longrightarrow> distinct (rand_commitments (pc_proof (fst (snd (out2 i)))))"
    and dm: "\<And>i. i \<in> set ps \<Longrightarrow> \<forall>m\<in>set (snd (snd (snd (out3 i)))). distinct (rand_commitments (tm_dlog_proof m))"
    and delivered: "\<And>i. i \<in> set ps \<Longrightarrow> refresh_complete_delivered prm out2 out3 i (pcs i) (z2 i) (z3 i) (mr i)"
  shows "\<exists>F pty'. secret_of F = secret_of cs \<and> group_ok S F prm rsid cc ps pty' \<and>
     (\<forall>i\<in>set ps. refresh_complete_phase4 S oc (pty i) rsid (fst (out2 i)) (pcs i) (fst (out3 i)) (z2 i) (z3 i)
        (fst (snd (snd (out3 i)))) (mr i) = Ok (pty' i) \<and>
        poly_point (pty' i) = poly_point (pty i) + fst (out2 i) \<and> pk (pty' i) = pk (pty i))"
proof -
  let ?n = "share_count prm"
  have t: "threshold prm \<noteq> 0" "?n \<noteq> 0" using p by (auto simp: valid_parameters_def)
  note mem = group_member_simps [OF g]
  obtain D sd M2 M3 L N where D: "length D = unat (threshold prm)" "secret_of D = 0"
    and c: "\<And>i. i \<in> set ps \<Longrightarrow> fst (out2 i) = share_of D i"
    and pf': "\<And>i. i \<in> set ps \<Longrightarrow> proof_sent S rsid i (share_of D i) (fst (snd (out2 i)))"
    and se: "\<And>i. i \<in> set ps \<Longrightarrow> seeds_sent S ?n i (snd (snd (out2 i))) (fst (out3 i)) (fst (snd (out3 i))) (sd i) (M2 i) (M3 i)"
    and mu: "\<And>i. i \<in> set ps \<Longrightarrow> muls_sent S ?n rsid i (fst (snd (snd (out3 i)))) (snd (snd (snd (out3 i)))) (L i) (N i)"
    using refresh_complete_rounds_dealt [OF t(1) ps g rounds] by blast
  note del = delivered [unfolded refresh_complete_delivered_def Let_def ps [symmetric]]
  have st5: "\<exists>points. dkg_step5 S oc prm i rsid (pcs i) = Ok (0, points)" if "i \<in> set ps" for i
    using honest_step5_zero [OF S p ps D pf' dp] del [OF that] by blast
  have zero: "refresh_complete_zero_share S oc ?n i (fst (out3 i)) (z2 i) (z3 i) = Ok (honest_zero_share ps sd i)" if "i \<in> set ps" for i
    using honest_seeds [OF ps that se] del [OF that] by (simp add: refresh_complete_zero_share_eq [OF t(2)])
  have "\<exists>rs ss. (\<forall>i\<in>set ps. dkg_mul S i rsid (fst (snd (snd (out3 i)))) (mr i) = Ok (rs i, ss i) \<and> btree_wf (rs i) \<and>
        btree_wf (ss i) \<and> btree_keys (ss i) = btree_keys (rs i)) \<and>
     (\<forall>i\<in>set ps. \<forall>j\<in>set ps. i \<noteq> j \<longrightarrow> (\<exists>s w. btree_get (ss i) j = Some s \<and> btree_get (rs j) i = Some w \<and> mul_paired s w))"
    by (rule honest_muls [OF S ps, where mt = "\<lambda>i. snd (snd (snd (out3 i)))" and L = L and N = N]) (use mu dm del in blast)+
  then obtain rs ss where mul: "\<And>i. i \<in> set ps \<Longrightarrow> dkg_mul S i rsid (fst (snd (snd (out3 i)))) (mr i) = Ok (rs i, ss i)"
    and wf: "\<And>i. i \<in> set ps \<Longrightarrow> btree_wf (ss i) \<and> btree_wf (rs i) \<and> btree_keys (ss i) = btree_keys (rs i)"
    and paired: "\<forall>i\<in>set ps. \<forall>j\<in>set ps. i \<noteq> j \<longrightarrow> (\<exists>s w. btree_get (ss i) j = Some s \<and> btree_get (rs j) i = Some w \<and> mul_paired s w)"
    by blast
  let ?p = "\<lambda>i. refreshed_party (pty i) rsid (share_of D i) (honest_zero_share ps sd i) (ss i) (rs i)"
  have "zero_shares_agree ps (honest_zero_share ps sd)" unfolding ps by (rule honest_zero_shares_agree [OF distinct_all_parties])
  from refreshed_group [OF g D this wf paired]
  have "group_ok S (map2 (+) cs D) prm rsid cc ps ?p" "secret_of (map2 (+) cs D) = secret_of cs" by blast+
  moreover have "refresh_complete_phase4 S oc (pty i) rsid (fst (out2 i)) (pcs i) (fst (out3 i)) (z2 i) (z3 i)
        (fst (snd (snd (out3 i)))) (mr i) = Ok (?p i)" if "i \<in> set ps" for i
    using st5 [OF that] by (auto simp: refresh_complete_phase4_def Let_def mem [OF that] zero [OF that] mul [OF that] c [OF that])
  moreover have "poly_point (?p i) = poly_point (pty i) + fst (out2 i) \<and> pk (?p i) = pk (pty i)" if "i \<in> set ps" for i
    by (simp add: refreshed_party_def Let_def c [OF that])
  ultimately show ?thesis by blast
qed

text \<open>
  C29: a complete refresh among honest parties works. When all parties of a group have run the
  first three phases, with the messages delivered in any order, phase 4 succeeds for everyone;
  the refreshed parties are a group for the new session id with the same secret, hence the
  same public key, the same chain code, and shares moved by the dealt corrections.
\<close>

theorem refresh_complete_correct:
  fixes S :: "('f::field, 'g::ab_group_add) suite"
  assumes S: "suite_ok S" and p: "valid_parameters prm" "unat (share_count prm) < 255"
    and ps: "ps = all_parties (share_count prm)" and g: "group_ok S cs prm sid cc ps pty"
    and rounds: "refresh_complete_rounds S oc prm rsid pty r0 out2 out3"
    and dp: "\<And>i. i \<in> set ps \<Longrightarrow> distinct (rand_commitments (pc_proof (fst (snd (out2 i)))))"
    and dm: "\<And>i. i \<in> set ps \<Longrightarrow> \<forall>m\<in>set (snd (snd (snd (out3 i)))). distinct (rand_commitments (tm_dlog_proof m))"
    and delivered: "\<And>i. i \<in> set ps \<Longrightarrow> refresh_complete_delivered prm out2 out3 i (pcs i) (z2 i) (z3 i) (mr i)"
  shows "\<exists>F pty'. secret_of F = secret_of cs \<and> group_ok S F prm rsid cc ps pty' \<and>
     (\<forall>i\<in>set ps. refresh_complete_phase4 S oc (pty i) rsid (fst (out2 i)) (pcs i) (fst (out3 i)) (z2 i) (z3 i)
        (fst (snd (snd (out3 i)))) (mr i) = Ok (pty' i) \<and>
        poly_point (pty' i) = poly_point (pty i) + fst (out2 i) \<and> pk (pty' i) = pk (pty i))"
  by (rule refresh_complete_forms_group [OF S p ps g rounds dp dm delivered])

section \<open>Honest fast refresh\<close>

definition refresh_rounds ::
  "('f::field, 'g::ab_group_add) suite \<Rightarrow> bool \<Rightarrow> parameters \<Rightarrow> bytes \<Rightarrow> (party_index \<Rightarrow> ('f, 'g) party) \<Rightarrow> (party_index \<Rightarrow> 'f rng)
   \<Rightarrow> (party_index \<Rightarrow> 'f \<times> ('f, 'g) proof_commitment \<times> transmit_refresh_2to4 list)
   \<Rightarrow> (party_index \<Rightarrow> (party_index, keep_refresh_3to4) btree_map \<times> transmit_refresh_3to4 list) \<Rightarrow> bool" where
  "refresh_rounds S oc prm rsid pty r0 out2 out3 \<longleftrightarrow>
     (\<exists>frag r1. \<forall>i\<in>set (all_parties (share_count prm)).
        refresh_phase1 oc (pty i) (r0 i) = (Ok (frag i, r1 i) :: (abort, _) outcome) \<and>
        (\<exists>received c pc keep transmit r2.
           mset received = mset (map (\<lambda>j. frag j ! (unat (as_u8 i) - 1)) (all_parties (share_count prm))) \<and>
           refresh_phase2 S oc (pty i) rsid received (r1 i) = (Ok ((c, pc, keep, transmit), r2) :: (abort, _) outcome) \<and>
           out2 i = (c, pc, transmit) \<and>
           refresh_phase3 oc (pty i) keep = (Ok (out3 i) :: (abort, _) outcome)))"

definition refresh_delivered ::
  "parameters \<Rightarrow> (party_index \<Rightarrow> 'f \<times> ('f, 'g) proof_commitment \<times> transmit_refresh_2to4 list)
   \<Rightarrow> (party_index \<Rightarrow> (party_index, keep_refresh_3to4) btree_map \<times> transmit_refresh_3to4 list)
   \<Rightarrow> party_index \<Rightarrow> ('f, 'g) proof_commitment list \<Rightarrow> transmit_refresh_2to4 list \<Rightarrow> transmit_refresh_3to4 list \<Rightarrow> bool" where
  "refresh_delivered prm out2 out3 i pcs z2 z3 \<longleftrightarrow>
     (let ps = all_parties (share_count prm) in
      mset pcs = mset (map (\<lambda>j. fst (snd (out2 j))) ps) \<and>
      mset z2 = mset (addressed_to rf2_parties ps (\<lambda>j. snd (snd (out2 j))) i) \<and>
      mset z3 = mset (addressed_to rf3_parties ps (\<lambda>j. snd (out3 j)) i))"

lemma addressed_to_map: "addressed_to parties qs (\<lambda>j. map h (out j)) i = map h (addressed_to (parties \<circ> h) qs out i)"
proof -
  have "concat (map (\<lambda>j. map h (out j)) qs) = map h (concat (map out qs))" by (simp add: map_concat comp_def)
  then show ?thesis by (simp add: addressed_to_def filter_map comp_def)
qed

lemma refresh_sent:
  fixes S :: "('f::field, 'g::ab_group_add) suite"
  assumes p2: "refresh_phase2 S oc p rsid frag r = (Ok ((c, pc, k2, tr2), r') :: (abort, _) outcome)"
    and p3: "refresh_phase3 oc p k2 = (Ok (k3, tr3) :: (abort, _) outcome)"
    and p: "party_index_of p = i" "share_count (party_parameters p) = n"
  shows "c = sum_list frag \<and> proof_sent S rsid i c pc \<and>
     (\<exists>sd M2 M3. seeds_sent S n i (map zero_out2 tr2) (map_values zero_3to4 k3) (map zero_out3 tr3) sd M2 M3)"
proof -
  have "refresh_complete_phase2 S oc p rsid frag r =
      (Ok ((c, pc, map_values zero_2to3 k2, map zero_out2 tr2), r') :: (abort, _) outcome)"
    by (simp add: refresh_phase2_refines p2)
  note r2 = refresh_complete_phase2_result [OF this, unfolded p]
  then obtain K M where KM: "map_values zero_2to3 k2 = map (\<lambda>j. (j, K j)) (others n i)" "map zero_out2 tr2 = map M (others n i)"
    "\<forall>j\<in>set (others n i). z2_parties (M j) = \<lparr>sender = i, receiver = j\<rparr> \<and>
           verify_seed S (kz2_seed (K j)) (z2_commitment (M j)) (kz2_salt (K j))" by blast
  have "map_values zero_3to4 k3 = map (\<lambda>j. (j, \<lparr>kz3_seed = kz2_seed (K j)\<rparr>)) (others n i)"
    "map zero_out3 tr3 = map (\<lambda>j. \<lparr>z3_parties = \<lparr>sender = i, receiver = j\<rparr>, z3_seed = kz2_seed (K j), z3_salt = kz2_salt (K j)\<rparr>) (others n i)"
    using refresh_phase3_refines [OF p3] dkg_phase3_zero_result [OF others_simps(3), of i K n i] by (simp_all add: KM(1) p)
  from seeds_sent_phases [OF KM(2,3) this] show ?thesis using r2 by blast
qed

lemma refresh_rounds_sent:
  fixes S :: "('f::field, 'g::ab_group_add) suite"
  assumes "refresh_rounds S oc prm rsid pty r0 out2 out3"
  shows "\<exists>frag r1. \<forall>i\<in>set (all_parties (share_count prm)).
     refresh_phase1 oc (pty i) (r0 i) = (Ok (frag i, r1 i) :: (abort, _) outcome) \<and>
     (party_index_of (pty i) = i \<and> party_parameters (pty i) = prm \<longrightarrow>
       (\<exists>received. mset received = mset (map (\<lambda>j. frag j ! (unat (as_u8 i) - 1)) (all_parties (share_count prm))) \<and>
         fst (out2 i) = sum_list received \<and> proof_sent S rsid i (fst (out2 i)) (fst (snd (out2 i))) \<and>
         (\<exists>sd M2 M3. seeds_sent S (share_count prm) i (map zero_out2 (snd (snd (out2 i)))) (map_values zero_3to4 (fst (out3 i)))
            (map zero_out3 (snd (out3 i))) sd M2 M3)))"
proof -
  obtain frag r1 where F: "\<And>i. i \<in> set (all_parties (share_count prm)) \<Longrightarrow>
     refresh_phase1 oc (pty i) (r0 i) = (Ok (frag i, r1 i) :: (abort, _) outcome) \<and>
        (\<exists>received c pc keep transmit r2.
           mset received = mset (map (\<lambda>j. frag j ! (unat (as_u8 i) - 1)) (all_parties (share_count prm))) \<and>
           refresh_phase2 S oc (pty i) rsid received (r1 i) = (Ok ((c, pc, keep, transmit), r2) :: (abort, _) outcome) \<and>
           out2 i = (c, pc, transmit) \<and>
           refresh_phase3 oc (pty i) keep = (Ok (out3 i) :: (abort, _) outcome))"
    using assms unfolding refresh_rounds_def by blast
  have "\<exists>received. mset received = mset (map (\<lambda>j. frag j ! (unat (as_u8 i) - 1)) (all_parties (share_count prm))) \<and>
         fst (out2 i) = sum_list received \<and> proof_sent S rsid i (fst (out2 i)) (fst (snd (out2 i))) \<and>
         (\<exists>sd M2 M3. seeds_sent S (share_count prm) i (map zero_out2 (snd (snd (out2 i)))) (map_values zero_3to4 (fst (out3 i)))
            (map zero_out3 (snd (out3 i))) sd M2 M3)"
    if i: "i \<in> set (all_parties (share_count prm))" and me: "party_index_of (pty i) = i" "party_parameters (pty i) = prm" for i
  proof -
    obtain k3 tr3 where o3: "out3 i = (k3, tr3)" by fastforce
    obtain received c pc k2 tr2 r2 where
      rc: "mset received = mset (map (\<lambda>j. frag j ! (unat (as_u8 i) - 1)) (all_parties (share_count prm)))"
      and p2: "refresh_phase2 S oc (pty i) rsid received (r1 i) = (Ok ((c, pc, k2, tr2), r2) :: (abort, _) outcome)"
      and o2: "out2 i = (c, pc, tr2)"
      and p3: "refresh_phase3 oc (pty i) k2 = (Ok (k3, tr3) :: (abort, _) outcome)"
      using F [OF i] unfolding o3 by blast
    have "share_count (party_parameters (pty i)) = share_count prm" by (simp add: me)
    from refresh_sent [OF p2 p3 me(1) this] show ?thesis using rc unfolding o2 o3 fst_conv snd_conv by blast
  qed
  then show ?thesis using F by (intro exI [of _ frag] exI [of _ r1]) blast
qed

text \<open>Everyone ends with the seed pairs of an honest initialisation.\<close>

lemma honest_refresh_seeds:
  assumes ps: "ps = all_parties n" and i: "i \<in> set ps"
    and sent: "\<And>j. j \<in> set ps \<Longrightarrow> seeds_sent S n j (map zero_out2 (tr2 j)) (map_values zero_3to4 (k3 j)) (map zero_out3 (tr3 j)) (sd j) (M2 j) (M3 j)"
    and m2: "mset rcv2 = mset (addressed_to rf2_parties ps tr2 i)" and m3: "mset rcv3 = mset (addressed_to rf3_parties ps tr3 i)"
  shows "refresh_seeds S oc n i (k3 i) rcv2 rcv3 = Ok (map (\<lambda>j. generate_seed_pair i j (sd i j) (sd j i)) (filter (\<lambda>j. j \<noteq> i) ps))"
proof -
  have m: "mset (map zero_out2 rcv2) = mset (addressed_to z2_parties ps (\<lambda>j. map zero_out2 (tr2 j)) i)"
    "mset (map zero_out3 rcv3) = mset (addressed_to z3_parties ps (\<lambda>j. map zero_out3 (tr3 j)) i)"
    unfolding addressed_to_map zero_out_parties by (simp_all add: m2 m3)
  have "dkg_zero_share S i (map_values zero_3to4 (k3 i)) (map zero_out2 rcv2) (map zero_out3 rcv3) = Ok (honest_zero_share ps sd i)"
    by (rule honest_seeds [OF ps i sent m])
  moreover have "n \<noteq> 0" using i by (auto simp: ps set_all_parties)
  ultimately have "and_then (refresh_seeds S oc n i (k3 i) rcv2 rcv3) (\<lambda>ss. Ok (zero_share_initialize ss)) = Ok (honest_zero_share ps sd i)"
    using refresh_seeds_refines [of S oc n i "k3 i" rcv2 rcv3] by (simp add: refresh_complete_zero_share_eq)
  then show ?thesis by (auto simp: outcome_simps honest_zero_share_def zero_share_initialize_def)
qed

text \<open>The multiplication states of a group, re-randomised with agreed seeds, are paired again.\<close>

lemma refresh_muls:
  fixes S :: "('f::field, 'g::ab_group_add) suite"
  assumes g: "group_ok S cs prm sid cc ps pty"
  shows "\<exists>ss rs. (\<forall>i\<in>set ps. each (refresh_mul_step S (pty i) rsid) ([], [])
        (map (\<lambda>j. generate_seed_pair i j (sd i j) (sd j i)) (filter (\<lambda>j. j \<noteq> i) ps)) = Ok (ss i, rs i) \<and>
        btree_wf (ss i) \<and> btree_wf (rs i) \<and> btree_keys (ss i) = btree_keys (rs i)) \<and>
     (\<forall>i\<in>set ps. \<forall>j\<in>set ps. i \<noteq> j \<longrightarrow>
        (\<exists>s w. btree_get (mul_senders (pty i)) j = Some s \<and> btree_get (mul_receivers (pty j)) i = Some w \<and>
           btree_get (ss i) j = Some (refreshed_mul_sender S rsid i j (xor_n 32 (sd i j) (sd j i)) s) \<and>
           btree_get (rs j) i = Some (refreshed_mul_receiver S rsid i j (xor_n 32 (sd i j) (sd j i)) w) \<and> mul_paired s w))"
proof -
  have d: "distinct ps" and me: "\<And>i. i \<in> set ps \<Longrightarrow> party_index_of (pty i) = i"
    using g group_member_simps(2) [OF g] by (auto simp: group_ok_def)
  have "\<forall>i\<in>set ps. \<forall>j\<in>set ps. i \<noteq> j \<longrightarrow>
      (\<exists>s w. btree_get (mul_senders (pty i)) j = Some s \<and> btree_get (mul_receivers (pty j)) i = Some w \<and> mul_paired s w)"
    using g by (auto simp: group_ok_def mul_states_paired_def)
  then obtain s w where sw: "\<And>i j. i \<in> set ps \<Longrightarrow> j \<in> set ps \<Longrightarrow> i \<noteq> j \<Longrightarrow>
      btree_get (mul_senders (pty i)) j = Some (s i j) \<and> btree_get (mul_receivers (pty j)) i = Some (w i j) \<and> mul_paired (s i j) (w i j)"
    by metis
  let ?js = "\<lambda>i. filter (\<lambda>j. j \<noteq> i) ps"
  define P where "P = (\<lambda>i ss rs. each (refresh_mul_step S (pty i) rsid) ([], []) (map (\<lambda>j. generate_seed_pair i j (sd i j) (sd j i)) (?js i)) = Ok (ss, rs) \<and>
     btree_wf ss \<and> btree_wf rs \<and> btree_keys ss = btree_keys rs \<and>
     (\<forall>j\<in>set (?js i). btree_get ss j = Some (refreshed_mul_sender S rsid i j (xor_n 32 (sd i j) (sd j i)) (s i j)) \<and>
        btree_get rs j = Some (refreshed_mul_receiver S rsid j i (xor_n 32 (sd i j) (sd j i)) (w j i))))"
  have "\<exists>ss rs. P i ss rs" if i: "i \<in> set ps" for i
  proof -
    have pre: "btree_get (mul_senders (pty i)) j = Some (s i j) \<and> btree_get (mul_receivers (pty i)) j = Some (w j i) \<and>
      (\<exists>w'. mul_paired (s i j) w') \<and> (\<exists>s'. mul_paired s' (w j i))" if "j \<in> set (?js i)" for j
      using sw [OF i, of j] sw [of j i] i that by auto
    have "distinct (?js i)" using d by simp
    from refresh_mul_loop [where p = "pty i" and a = "sd i" and b = "\<lambda>j. sd j i" and S = S and sid = rsid and ss = "[]" and rs = "[]",
        OF pre this, unfolded me [OF i]]
    obtain ss rs where "each (refresh_mul_step S (pty i) rsid) ([], []) (map (\<lambda>j. generate_seed_pair i j (sd i j) (sd j i)) (?js i)) = Ok (ss, rs)"
      "btree_wf ss" "btree_wf rs" "btree_keys ss = btree_keys rs"
      "\<forall>j. btree_get ss j = (if j \<in> set (?js i) then Some (refreshed_mul_sender S rsid i j (xor_n 32 (sd i j) (sd j i)) (s i j)) else btree_get [] j)"
      "\<forall>j. btree_get rs j = (if j \<in> set (?js i) then Some (refreshed_mul_receiver S rsid j i (xor_n 32 (sd i j) (sd j i)) (w j i)) else btree_get [] j)"
      by (auto simp: btree_keys_def)
    then show ?thesis by (intro exI [of _ ss] exI [of _ rs]) (simp add: P_def)
  qed
  then obtain ss rs where P: "\<And>i. i \<in> set ps \<Longrightarrow> P i (ss i) (rs i)" by metis
  then have R: "\<And>i. i \<in> set ps \<Longrightarrow>
      each (refresh_mul_step S (pty i) rsid) ([], []) (map (\<lambda>j. generate_seed_pair i j (sd i j) (sd j i)) (?js i)) = Ok (ss i, rs i) \<and>
     btree_wf (ss i) \<and> btree_wf (rs i) \<and> btree_keys (ss i) = btree_keys (rs i)"
    and get: "\<And>i j. i \<in> set ps \<Longrightarrow> j \<in> set (?js i) \<Longrightarrow>
       btree_get (ss i) j = Some (refreshed_mul_sender S rsid i j (xor_n 32 (sd i j) (sd j i)) (s i j)) \<and>
        btree_get (rs i) j = Some (refreshed_mul_receiver S rsid j i (xor_n 32 (sd i j) (sd j i)) (w j i))"
    unfolding P_def by blast+
  have "btree_get (ss i) j = Some (refreshed_mul_sender S rsid i j (xor_n 32 (sd i j) (sd j i)) (s i j)) \<and>
      btree_get (rs j) i = Some (refreshed_mul_receiver S rsid i j (xor_n 32 (sd i j) (sd j i)) (w i j))"
    if ij: "i \<in> set ps" "j \<in> set ps" "i \<noteq> j" for i j
    using get [of i j] get [of j i] ij by (simp add: xor_n_commute [of 32 "sd j i" "sd i j"])
  with R sw show ?thesis by blast
qed

lemma refresh_rounds_dealt:
  fixes S :: "('f::field, 'g::ab_group_add) suite"
  assumes t: "threshold prm \<noteq> 0" and ps: "ps = all_parties (share_count prm)" and g: "group_ok S cs prm sid cc ps pty"
    and rounds: "refresh_rounds S oc prm rsid pty r0 out2 out3"
  obtains D sd M2 M3 where "length D = unat (threshold prm)" and "secret_of D = 0"
    and "\<And>i. i \<in> set ps \<Longrightarrow> fst (out2 i) = share_of D i"
    and "\<And>i. i \<in> set ps \<Longrightarrow> proof_sent S rsid i (share_of D i) (fst (snd (out2 i)))"
    and "\<And>i. i \<in> set ps \<Longrightarrow> seeds_sent S (share_count prm) i (map zero_out2 (snd (snd (out2 i)))) (map_values zero_3to4 (fst (out3 i)))
            (map zero_out3 (snd (out3 i))) (sd i) (M2 i) (M3 i)"
proof -
  let ?n = "share_count prm"
  note mem = group_member_simps [OF g]
  from rounds obtain frag r1 where R: "\<And>i. i \<in> set ps \<Longrightarrow> refresh_phase1 oc (pty i) (r0 i) = (Ok (frag i, r1 i) :: (abort, _) outcome)"
    "\<And>i. i \<in> set ps \<Longrightarrow> \<exists>received. mset received = mset (map (\<lambda>j. frag j ! (unat (as_u8 i) - 1)) ps) \<and> fst (out2 i) = sum_list received \<and>
       proof_sent S rsid i (fst (out2 i)) (fst (snd (out2 i))) \<and>
       (\<exists>sd M2 M3. seeds_sent S ?n i (map zero_out2 (snd (snd (out2 i)))) (map_values zero_3to4 (fst (out3 i)))
            (map zero_out3 (snd (out3 i))) sd M2 M3)"
    using refresh_rounds_sent [OF rounds] mem(1,2) unfolding ps by blast
  then obtain received sd M2 M3 where
    rcv: "\<And>i. i \<in> set ps \<Longrightarrow> mset (received i) = mset (map (\<lambda>j. frag j ! (unat (as_u8 i) - 1)) ps)"
      "\<And>i. i \<in> set ps \<Longrightarrow> fst (out2 i) = sum_list (received i)"
    and pf: "\<And>i. i \<in> set ps \<Longrightarrow> proof_sent S rsid i (fst (out2 i)) (fst (snd (out2 i)))"
    and se: "\<And>i. i \<in> set ps \<Longrightarrow> seeds_sent S ?n i (map zero_out2 (snd (snd (out2 i)))) (map_values zero_3to4 (fst (out3 i)))
            (map zero_out3 (snd (out3 i))) (sd i) (M2 i) (M3 i)"
    by metis
  have fr: "refresh_complete_phase1 oc (pty i) (r0 i) = (Ok (frag i, r1 i) :: (abort, _) outcome)" if "i \<in> set ps" for i
    using R(1) [OF that] refresh_phase1_eq(2) [of "pty i" oc "r0 i", where 'e = abort] t mem(1) [OF that] by simp
  obtain D where D: "length D = unat (threshold prm)" "secret_of D = 0" and c: "\<And>i. i \<in> set ps \<Longrightarrow> fst (out2 i) = share_of D i"
    using refresh_corrections [OF t ps mem(1) fr rcv(1)] rcv(2) by metis
  have pf': "proof_sent S rsid i (share_of D i) (fst (snd (out2 i)))" if "i \<in> set ps" for i using pf [OF that] by (simp add: c [OF that])
  show thesis by (rule that [OF D c pf' se])
qed

text \<open>
  Re-randomised states, as the protocol describes them: the sender's choice bits are flipped by hashed bits,
  the receiver's seeds are swapped accordingly, and every seed is masked by the hash for its choice. The
  hashes are of the new session id, the position, the sender's and the receiver's index, and the seed the two share.
\<close>

definition fast_mask :: "('f, 'g) suite \<Rightarrow> bytes \<Rightarrow> bytes \<Rightarrow> party_index \<Rightarrow> party_index \<Rightarrow> bytes \<Rightarrow> nat \<Rightarrow> bytes" where
  "fast_mask S tag rsid i j common k =
     tagged_hash S tag [rsid, u16_be (of_nat k), u16_be (ucast (as_u8 i)), u16_be (ucast (as_u8 j)), common]"

definition rerandomised_sender ::
  "('f, 'g) suite \<Rightarrow> bytes \<Rightarrow> party_index \<Rightarrow> party_index \<Rightarrow> bytes \<Rightarrow> 'f mul_sender \<Rightarrow> 'f mul_sender \<Rightarrow> bool" where
  "rerandomised_sender S rsid i j common s s' \<longleftrightarrow>
     sender_gadget s' = sender_gadget s \<and>
     length (ote_correlation (mul_ote_sender s')) = 256 \<and> length (ote_seeds (mul_ote_sender s')) = 256 \<and>
     (\<forall>k<256. let old = ote_correlation (mul_ote_sender s) ! k; new = ote_correlation (mul_ote_sender s') ! k in
        new = (old \<noteq> (hd (fast_mask S TAG_REFRESH_FAST_B rsid i j common k) mod 2 = 1)) \<and>
        ote_seeds (mul_ote_sender s') ! k =
          xor_n 32 (ote_seeds (mul_ote_sender s) ! k)
            (fast_mask S (if new then TAG_REFRESH_FAST_R1 else TAG_REFRESH_FAST_R0) rsid i j common k))"

definition rerandomised_receiver ::
  "('f, 'g) suite \<Rightarrow> bytes \<Rightarrow> party_index \<Rightarrow> party_index \<Rightarrow> bytes \<Rightarrow> 'f mul_receiver \<Rightarrow> 'f mul_receiver \<Rightarrow> bool" where
  "rerandomised_receiver S rsid i j common w w' \<longleftrightarrow>
     receiver_gadget w' = receiver_gadget w \<and>
     length (seeds0 (mul_ote_receiver w')) = 256 \<and> length (seeds1 (mul_ote_receiver w')) = 256 \<and>
     (\<forall>k<256. let old0 = seeds0 (mul_ote_receiver w) ! k; old1 = seeds1 (mul_ote_receiver w) ! k;
         flip = (hd (fast_mask S TAG_REFRESH_FAST_B rsid i j common k) mod 2 = 1) in
        seeds0 (mul_ote_receiver w') ! k =
          xor_n 32 (if flip then old1 else old0) (fast_mask S TAG_REFRESH_FAST_R0 rsid i j common k) \<and>
        seeds1 (mul_ote_receiver w') ! k =
          xor_n 32 (if flip then old0 else old1) (fast_mask S TAG_REFRESH_FAST_R1 rsid i j common k))"

lemma refresh_expand_mask: "refresh_expand S tag rsid i j sd k = fast_mask S tag rsid i j sd k"
  by (simp add: refresh_expand_def fast_mask_def)

lemma refreshed_mul_sender_rerandomised: "rerandomised_sender S rsid i j sd s (refreshed_mul_sender S rsid i j sd s)"
  by (simp add: rerandomised_sender_def refreshed_mul_sender_def refreshed_ote_sender_def KAPPA_def SECURITY_def Let_def
      new_bit_def new_sender_seed_def refresh_bit_def refresh_expand_mask)

lemma refreshed_mul_receiver_rerandomised: "rerandomised_receiver S rsid i j sd w (refreshed_mul_receiver S rsid i j sd w)"
  by (simp add: rerandomised_receiver_def refreshed_mul_receiver_def refreshed_ote_receiver_def KAPPA_def SECURITY_def Let_def
      new_receiver_seed_def refresh_bit_def refresh_expand_mask)

lemma sent_seed_kept:
  assumes "seeds_sent S n i z2 (map_values zero_3to4 kept) z3 sd M2 M3" and "j \<in> set (all_parties n)" "i \<noteq> j"
  obtains a where "btree_get kept j = Some a" and "kr3_seed a = sd j"
proof -
  have "j \<in> set (others n i)" using assms(2,3) by (simp add: others_simps)
  then have "map_of (map (\<lambda>j. (j, \<lparr>kz3_seed = sd j\<rparr>)) (others n i)) j = Some \<lparr>kz3_seed = sd j\<rparr>" by (simp add: map_of_map_restrict)
  then have "btree_get (map_values zero_3to4 kept) j = Some \<lparr>kz3_seed = sd j\<rparr>"
    using assms(1) by (simp add: seeds_sent_def btree_get_def)
  then show ?thesis using that by (auto simp: zero_3to4_def)
qed

lemma refresh_run:
  fixes S :: "('f::field, 'g::ab_group_add) suite"
  assumes S: "suite_ok S" and p: "valid_parameters prm" "unat (share_count prm) < 255"
    and ps: "ps = all_parties (share_count prm)" and g: "group_ok S cs prm sid cc ps pty"
    and rounds: "refresh_rounds S oc prm rsid pty r0 out2 out3"
    and dp: "\<And>i. i \<in> set ps \<Longrightarrow> distinct (rand_commitments (pc_proof (fst (snd (out2 i)))))"
    and delivered: "\<And>i. i \<in> set ps \<Longrightarrow> refresh_delivered prm out2 out3 i (pcs i) (z2 i) (z3 i)"
  shows "\<exists>F pty'. secret_of F = secret_of cs \<and> group_ok S F prm rsid cc ps pty' \<and>
     (\<forall>i\<in>set ps. refresh_phase4 S oc (pty i) rsid (fst (out2 i)) (pcs i) (fst (out3 i)) (z2 i) (z3 i) = Ok (pty' i) \<and>
        poly_point (pty' i) = poly_point (pty i) + fst (out2 i) \<and> pk (pty' i) = pk (pty i)) \<and>
     (\<forall>i\<in>set ps. \<forall>j\<in>set ps. i \<noteq> j \<longrightarrow>
        (\<exists>a b sp s w s' w'. btree_get (fst (out3 i)) j = Some a \<and> btree_get (fst (out3 j)) i = Some b \<and>
           seed_for (zero_share_of (pty' i)) j = Some sp \<and> seed sp = xor_n 32 (kr3_seed a) (kr3_seed b) \<and>
           btree_get (mul_senders (pty i)) j = Some s \<and> btree_get (mul_receivers (pty j)) i = Some w \<and>
           btree_get (mul_senders (pty' i)) j = Some s' \<and> btree_get (mul_receivers (pty' j)) i = Some w' \<and>
           rerandomised_sender S rsid i j (seed sp) s s' \<and> rerandomised_receiver S rsid i j (seed sp) w w' \<and> mul_paired s' w'))"
proof -
  let ?n = "share_count prm"
  have t: "threshold prm \<noteq> 0" using p by (auto simp: valid_parameters_def)
  note mem = group_member_simps [OF g]
  obtain D sd M2 M3 where D: "length D = unat (threshold prm)" "secret_of D = 0"
    and c: "\<And>i. i \<in> set ps \<Longrightarrow> fst (out2 i) = share_of D i"
    and pf': "\<And>i. i \<in> set ps \<Longrightarrow> proof_sent S rsid i (share_of D i) (fst (snd (out2 i)))"
    and se: "\<And>i. i \<in> set ps \<Longrightarrow> seeds_sent S ?n i (map zero_out2 (snd (snd (out2 i)))) (map_values zero_3to4 (fst (out3 i)))
            (map zero_out3 (snd (out3 i))) (sd i) (M2 i) (M3 i)"
    using refresh_rounds_dealt [OF t ps g rounds] by blast
  note del = delivered [unfolded refresh_delivered_def Let_def ps [symmetric]]
  have st5: "\<exists>points. dkg_step5 S oc prm i rsid (pcs i) = Ok (0, points)" if "i \<in> set ps" for i
    using honest_step5_zero [OF S p ps D pf' dp] del [OF that] by blast
  let ?ss = "\<lambda>i. map (\<lambda>j. generate_seed_pair i j (sd i j) (sd j i)) (filter (\<lambda>j. j \<noteq> i) ps)"
  have seeds: "refresh_seeds S oc ?n i (fst (out3 i)) (z2 i) (z3 i) = Ok (?ss i)" if "i \<in> set ps" for i
    by (rule honest_refresh_seeds [OF ps that, where ?k3.0 = "\<lambda>i. fst (out3 i)" and ?tr2.0 = "\<lambda>i. snd (snd (out2 i))" and ?tr3.0 = "\<lambda>i. snd (out3 i)"])
      (use se del [OF that] in blast)+
  obtain ss rs where mul: "\<And>i. i \<in> set ps \<Longrightarrow> each (refresh_mul_step S (pty i) rsid) ([], []) (?ss i) = Ok (ss i, rs i)"
    and wf: "\<And>i. i \<in> set ps \<Longrightarrow> btree_wf (ss i) \<and> btree_wf (rs i) \<and> btree_keys (ss i) = btree_keys (rs i)"
    and states: "\<forall>i\<in>set ps. \<forall>j\<in>set ps. i \<noteq> j \<longrightarrow>
        (\<exists>s w. btree_get (mul_senders (pty i)) j = Some s \<and> btree_get (mul_receivers (pty j)) i = Some w \<and>
           btree_get (ss i) j = Some (refreshed_mul_sender S rsid i j (xor_n 32 (sd i j) (sd j i)) s) \<and>
           btree_get (rs j) i = Some (refreshed_mul_receiver S rsid i j (xor_n 32 (sd i j) (sd j i)) w) \<and> mul_paired s w)"
    using refresh_muls [OF g, of rsid sd] by blast
  from states have paired: "\<forall>i\<in>set ps. \<forall>j\<in>set ps. i \<noteq> j \<longrightarrow> (\<exists>s w. btree_get (ss i) j = Some s \<and> btree_get (rs j) i = Some w \<and> mul_paired s w)"
    using refreshed_mul_paired by blast
  let ?p = "\<lambda>i. refreshed_party (pty i) rsid (share_of D i) (honest_zero_share ps sd i) (ss i) (rs i)"
  have "zero_shares_agree ps (honest_zero_share ps sd)" unfolding ps by (rule honest_zero_shares_agree [OF distinct_all_parties])
  from refreshed_group [OF g D this wf paired]
  have "group_ok S (map2 (+) cs D) prm rsid cc ps ?p" "secret_of (map2 (+) cs D) = secret_of cs" by blast+
  moreover have "refresh_phase4 S oc (pty i) rsid (fst (out2 i)) (pcs i) (fst (out3 i)) (z2 i) (z3 i) = Ok (?p i)" if "i \<in> set ps" for i
    using st5 [OF that]
    by (auto simp: refresh_phase4_def Let_def mem [OF that] seeds [OF that] mul [OF that] c [OF that] honest_zero_share_def)
  moreover have "poly_point (?p i) = poly_point (pty i) + fst (out2 i) \<and> pk (?p i) = pk (pty i)" if "i \<in> set ps" for i
    by (simp add: refreshed_party_def Let_def c [OF that])
  moreover have "\<exists>a b sp s w s' w'. btree_get (fst (out3 i)) j = Some a \<and> btree_get (fst (out3 j)) i = Some b \<and>
           seed_for (zero_share_of (?p i)) j = Some sp \<and> seed sp = xor_n 32 (kr3_seed a) (kr3_seed b) \<and>
           btree_get (mul_senders (pty i)) j = Some s \<and> btree_get (mul_receivers (pty j)) i = Some w \<and>
           btree_get (mul_senders (?p i)) j = Some s' \<and> btree_get (mul_receivers (?p j)) i = Some w' \<and>
           rerandomised_sender S rsid i j (seed sp) s s' \<and> rerandomised_receiver S rsid i j (seed sp) w w' \<and> mul_paired s' w'"
    if ij: "i \<in> set ps" "j \<in> set ps" "i \<noteq> j" for i j
  proof -
    obtain a where a: "btree_get (fst (out3 i)) j = Some a" "kr3_seed a = sd i j"
      using sent_seed_kept [OF se [OF ij(1)]] ij ps by blast
    obtain b where b: "btree_get (fst (out3 j)) i = Some b" "kr3_seed b = sd j i"
      using sent_seed_kept [OF se [OF ij(2)]] ij ps by blast
    from states ij obtain s w where "btree_get (mul_senders (pty i)) j = Some s" "btree_get (mul_receivers (pty j)) i = Some w"
        "btree_get (ss i) j = Some (refreshed_mul_sender S rsid i j (xor_n 32 (sd i j) (sd j i)) s)"
        "btree_get (rs j) i = Some (refreshed_mul_receiver S rsid i j (xor_n 32 (sd i j) (sd j i)) w)" "mul_paired s w" by blast
    moreover have "seed_for (honest_zero_share ps sd i) j = Some (generate_seed_pair i j (sd i j) (sd j i))"
      using ij by (simp add: seed_for_def honest_zero_share_def zero_share_initialize_def find_map_index)
    ultimately show ?thesis using a b
      by - (rule exI [of _ a], rule exI [of _ b], rule exI [of _ "generate_seed_pair i j (sd i j) (sd j i)"],
          rule exI [of _ s], rule exI [of _ w],
          rule exI [of _ "refreshed_mul_sender S rsid i j (xor_n 32 (sd i j) (sd j i)) s"],
          rule exI [of _ "refreshed_mul_receiver S rsid i j (xor_n 32 (sd i j) (sd j i)) w"],
          simp add: refreshed_party_def Let_def generate_seed_pair_def refreshed_mul_sender_rerandomised
            refreshed_mul_receiver_rerandomised refreshed_mul_paired)
  qed
  ultimately show ?thesis by (intro exI [of _ "map2 (+) cs D"] exI [of _ ?p]) blast
qed

lemma refresh_forms_group:
  fixes S :: "('f::field, 'g::ab_group_add) suite"
  assumes S: "suite_ok S" and p: "valid_parameters prm" "unat (share_count prm) < 255"
    and ps: "ps = all_parties (share_count prm)" and g: "group_ok S cs prm sid cc ps pty"
    and rounds: "refresh_rounds S oc prm rsid pty r0 out2 out3"
    and dp: "\<And>i. i \<in> set ps \<Longrightarrow> distinct (rand_commitments (pc_proof (fst (snd (out2 i)))))"
    and delivered: "\<And>i. i \<in> set ps \<Longrightarrow> refresh_delivered prm out2 out3 i (pcs i) (z2 i) (z3 i)"
  shows "\<exists>F pty'. secret_of F = secret_of cs \<and> group_ok S F prm rsid cc ps pty' \<and>
     (\<forall>i\<in>set ps. refresh_phase4 S oc (pty i) rsid (fst (out2 i)) (pcs i) (fst (out3 i)) (z2 i) (z3 i) = Ok (pty' i) \<and>
        poly_point (pty' i) = poly_point (pty i) + fst (out2 i) \<and> pk (pty' i) = pk (pty i))"
  using refresh_run [OF S p ps g rounds dp delivered] by blast

text \<open>
  C28: a fast refresh among honest parties works: the refreshed parties are a group for the new
  session id with the same secret, the same public key and the same chain code. Every two of them share a new seed, the XOR
  of the seeds they kept, and their multiplication states are the old ones re-randomised with that seed and still paired.
\<close>

theorem refresh_correct:
  fixes S :: "('f::field, 'g::ab_group_add) suite"
  assumes S: "suite_ok S" and p: "valid_parameters prm" "unat (share_count prm) < 255"
    and ps: "ps = all_parties (share_count prm)" and g: "group_ok S cs prm sid cc ps pty"
    and rounds: "refresh_rounds S oc prm rsid pty r0 out2 out3"
    and dp: "\<And>i. i \<in> set ps \<Longrightarrow> distinct (rand_commitments (pc_proof (fst (snd (out2 i)))))"
    and delivered: "\<And>i. i \<in> set ps \<Longrightarrow> refresh_delivered prm out2 out3 i (pcs i) (z2 i) (z3 i)"
  shows "\<exists>F pty'. secret_of F = secret_of cs \<and> group_ok S F prm rsid cc ps pty' \<and>
     (\<forall>i\<in>set ps. refresh_phase4 S oc (pty i) rsid (fst (out2 i)) (pcs i) (fst (out3 i)) (z2 i) (z3 i) = Ok (pty' i) \<and>
        poly_point (pty' i) = poly_point (pty i) + fst (out2 i) \<and> pk (pty' i) = pk (pty i)) \<and>
     (\<forall>i\<in>set ps. \<forall>j\<in>set ps. i \<noteq> j \<longrightarrow>
        (\<exists>a b sp s w s' w'. btree_get (fst (out3 i)) j = Some a \<and> btree_get (fst (out3 j)) i = Some b \<and>
           seed_for (zero_share_of (pty' i)) j = Some sp \<and> seed sp = xor_n 32 (kr3_seed a) (kr3_seed b) \<and>
           btree_get (mul_senders (pty i)) j = Some s \<and> btree_get (mul_receivers (pty j)) i = Some w \<and>
           btree_get (mul_senders (pty' i)) j = Some s' \<and> btree_get (mul_receivers (pty' j)) i = Some w' \<and>
           rerandomised_sender S rsid i j (seed sp) s s' \<and> rerandomised_receiver S rsid i j (seed sp) w w' \<and> mul_paired s' w'))"
  by (rule refresh_run [OF S p ps g rounds dp delivered])

end
