(* ===== verification/WitnessesRefresh.thy ===== *)
theory WitnessesRefresh
  imports WitnessesProtocols RefreshHonest
begin

text \<open>
  Instances of the properties of refresh: the group of two parties, refreshed in both ways.
\<close>

section \<open>Rounds of refresh\<close>

lemma rng_cycle_draw_scalars: "rng_cycle r \<Longrightarrow> rng_cycle (snd (draw_list (\<lambda>_. random_scalar) xs r))"
proof (induction xs arbitrary: r)
  case (Cons x xs)
  then show ?case using Cons.IH [of "snd (random_scalar r)"] by (simp add: split_def Let_def)
qed simp

lemma flat_refresh_phase1:
  assumes "rng_cycle r" and "threshold (party_parameters p) \<noteq> 0"
  shows "\<exists>frag r'. refresh_complete_phase1 oc p r = (Ok (frag, r') :: (abort, _) outcome) \<and>
     refresh_phase1 oc p r = (Ok (frag, r') :: (abort, _) outcome) \<and> rng_cycle r'"
  using refresh_phase1_eq [where 'e = abort, OF assms(2), of oc r] rng_cycle_draw_scalars [OF assms(1)]
  by (simp add: refresh_polynomial_def split_def Let_def)

lemma flat_refresh_phase2:
  assumes "rng_cycle r" and "share_count (party_parameters p) \<noteq> 0"
  shows "\<exists>c pc keep transmit r'. refresh_phase2 flat_suite oc p rsid frag r = (Ok ((c, pc, keep, transmit), r') :: (abort, _) outcome) \<and>
     refresh_complete_phase2 flat_suite oc p rsid frag r =
       (Ok ((c, pc, map_values zero_2to3 keep, map zero_out2 transmit), r') :: (abort, _) outcome) \<and>
     distinct (rand_commitments (pc_proof pc)) \<and> rng_cycle r'"
proof -
  obtain pp pc r1 where s3: "dkg_step3 flat_suite (party_index_of p) rsid frag r = (Ok ((pp, pc), r1) :: (abort, _) outcome)"
    "distinct (rand_commitments (pc_proof pc))" "rng_cycle r1"
    using flat_step3 [OF assms(1)] by blast
  obtain zk z2 r2 where "each (dkg_phase2_step flat_suite (party_index_of p)) (([], []), r1)
      (u8_range_incl 1 (share_count (party_parameters p))) = (Ok ((zk, z2), r2) :: (abort, _) outcome)" "rng_cycle r2"
    using flat_seed_loop [OF s3(3)] by blast
  then have "refresh_complete_phase2 flat_suite oc p rsid frag r = (Ok ((pp, pc, zk, z2), r2) :: (abort, _) outcome)"
    using s3 by (simp add: refresh_complete_phase2_def count_minus_one [OF assms(2)] Let_def)
  moreover from this have "and_then (refresh_phase2 flat_suite oc p rsid frag r) (\<lambda>((c, pc, keep, transmit), r').
        Ok ((c, pc, map_values zero_2to3 keep, map zero_out2 transmit), r')) = (Ok ((pp, pc, zk, z2), r2) :: (abort, _) outcome)"
    by (simp only: refresh_phase2_refines [symmetric])
  ultimately show ?thesis using s3(2) \<open>rng_cycle r2\<close> by (auto simp: outcome_simps)
qed

lemma flat_refresh_phase3:
  assumes "rng_cycle r" and "share_count (party_parameters p) \<noteq> 0"
  shows "\<exists>out r'. refresh_complete_phase3 flat_suite oc p rsid zk r = (Ok (out, r') :: (abort, _) outcome) \<and>
     (\<forall>m\<in>set (snd (snd (snd out))). distinct (rand_commitments (tm_dlog_proof m)))"
    and "\<exists>out. refresh_phase3 oc p kept = (Ok out :: (abort, _) outcome)"
proof -
  obtain mk mt q where "each (dkg_phase3_mul_step flat_suite (party_index_of p) rsid) (([], []), r)
      (u8_range_incl 1 (share_count (party_parameters p))) = (Ok ((mk, mt), q) :: (abort, _) outcome)"
    "\<forall>m\<in>set mt. distinct (rand_commitments (tm_dlog_proof m))" using flat_mul_loop [OF assms(1)] by blast
  then show "\<exists>out r'. refresh_complete_phase3 flat_suite oc p rsid zk r = (Ok (out, r') :: (abort, _) outcome) \<and>
     (\<forall>m\<in>set (snd (snd (snd out))). distinct (rand_commitments (tm_dlog_proof m)))"
    by (simp add: refresh_complete_phase3_def count_minus_one [OF assms(2)] Let_def split_def)
  show "\<exists>out. refresh_phase3 oc p kept = (Ok out :: (abort, _) outcome)"
    by (simp add: refresh_phase3_def count_minus_one [OF assms(2)])
qed

lemma flat_refresh_rounds:
  assumes r0: "\<And>i. rng_cycle (r0 i)" and p: "threshold prm \<noteq> 0" "share_count prm \<noteq> 0" and pty: "\<And>i. party_parameters (pty i) = prm"
  shows "\<exists>out2 out3. refresh_complete_rounds flat_suite oc prm rsid pty r0 out2 out3 \<and>
       (\<forall>i. distinct (rand_commitments (pc_proof (fst (snd (out2 i))))) \<and>
         (\<forall>m\<in>set (snd (snd (snd (out3 i)))). distinct (rand_commitments (tm_dlog_proof m))))"
    and "\<exists>out2 out3. refresh_rounds flat_suite oc prm rsid pty r0 out2 out3 \<and>
       (\<forall>i. distinct (rand_commitments (pc_proof (fst (snd (out2 i))))))"
proof -
  have "\<exists>frag r1. refresh_complete_phase1 oc (pty i) (r0 i) = (Ok (frag, r1) :: (abort, _) outcome) \<and>
     refresh_phase1 oc (pty i) (r0 i) = (Ok (frag, r1) :: (abort, _) outcome) \<and> rng_cycle r1" for i
    using flat_refresh_phase1 [OF r0, of "pty i" oc] p(1) by (simp add: pty)
  then obtain frag r1 where f: "\<And>i. refresh_complete_phase1 oc (pty i) (r0 i) = (Ok (frag i, r1 i) :: (abort, _) outcome)"
    "\<And>i. refresh_phase1 oc (pty i) (r0 i) = (Ok (frag i, r1 i) :: (abort, _) outcome)" "\<And>i. rng_cycle (r1 i)" by metis
  have n: "share_count (party_parameters (pty i)) \<noteq> 0" for i using p(2) by (simp add: pty)
  let ?rcv = "\<lambda>i. map (\<lambda>j. frag j ! (unat (as_u8 i) - 1)) (all_parties (share_count prm))"
  obtain c pc keep tr r2 where ph2: "\<And>i. refresh_phase2 flat_suite oc (pty i) rsid (?rcv i) (r1 i) =
        (Ok ((c i, pc i, keep i, tr i), r2 i) :: (abort, _) outcome)"
      "\<And>i. refresh_complete_phase2 flat_suite oc (pty i) rsid (?rcv i) (r1 i) =
       (Ok ((c i, pc i, map_values zero_2to3 (keep i), map zero_out2 (tr i)), r2 i) :: (abort, _) outcome)"
      "\<And>i. distinct (rand_commitments (pc_proof (pc i)))" "\<And>i. rng_cycle (r2 i)"
  proof -
    have "\<exists>c pc keep tr r2. refresh_phase2 flat_suite oc (pty i) rsid (?rcv i) (r1 i) = (Ok ((c, pc, keep, tr), r2) :: (abort, _) outcome) \<and>
       refresh_complete_phase2 flat_suite oc (pty i) rsid (?rcv i) (r1 i) =
         (Ok ((c, pc, map_values zero_2to3 keep, map zero_out2 tr), r2) :: (abort, _) outcome) \<and>
       distinct (rand_commitments (pc_proof pc)) \<and> rng_cycle r2" for i
      by (rule flat_refresh_phase2 [OF f(3) n])
    then show thesis using that by metis
  qed
  obtain out3 r3 where ph3: "\<And>i. refresh_complete_phase3 flat_suite oc (pty i) rsid (map_values zero_2to3 (keep i)) (r2 i) =
      (Ok (out3 i, r3 i) :: (abort, _) outcome)" "\<And>i. \<forall>m\<in>set (snd (snd (snd (out3 i)))). distinct (rand_commitments (tm_dlog_proof m))"
  proof -
    have "\<exists>out r'. refresh_complete_phase3 flat_suite oc (pty i) rsid (map_values zero_2to3 (keep i)) (r2 i) = (Ok (out, r') :: (abort, _) outcome) \<and>
      (\<forall>m\<in>set (snd (snd (snd out))). distinct (rand_commitments (tm_dlog_proof m)))" for i
      by (rule flat_refresh_phase3(1) [OF ph2(4) n])
    then show thesis using that by metis
  qed
  obtain fout3 where fast3: "\<And>i. refresh_phase3 oc (pty i) (keep i) = (Ok (fout3 i) :: (abort, _) outcome)"
  proof -
    have "\<exists>out. refresh_phase3 oc (pty i) (keep i) = (Ok out :: (abort, _) outcome)" for i
      by (rule flat_refresh_phase3(2) [OF f(3) n])
    then show thesis using that by metis
  qed
  have "refresh_complete_rounds flat_suite oc prm rsid pty r0 (\<lambda>i. (c i, pc i, map zero_out2 (tr i))) out3"
    unfolding refresh_complete_rounds_def
  proof (intro exI ballI conjI)
    show "refresh_complete_phase1 oc (pty i) (r0 i) = (Ok (frag i, r1 i) :: (abort, _) outcome)" for i by (rule f)
    show "refresh_complete_phase2 flat_suite oc (pty i) rsid (?rcv i) (r1 i) =
       (Ok ((c i, pc i, map_values zero_2to3 (keep i), map zero_out2 (tr i)), r2 i) :: (abort, _) outcome)" for i by (rule ph2)
    show "refresh_complete_phase3 flat_suite oc (pty i) rsid (map_values zero_2to3 (keep i)) (r2 i) =
      (Ok (out3 i, r3 i) :: (abort, _) outcome)" for i by (rule ph3)
  qed simp_all
  then show "\<exists>out2 out3. refresh_complete_rounds flat_suite oc prm rsid pty r0 out2 out3 \<and>
       (\<forall>i. distinct (rand_commitments (pc_proof (fst (snd (out2 i))))) \<and>
         (\<forall>m\<in>set (snd (snd (snd (out3 i)))). distinct (rand_commitments (tm_dlog_proof m))))"
    using ph2(3) ph3(2) by (intro exI [of _ "\<lambda>i. (c i, pc i, map zero_out2 (tr i))"] exI [of _ out3]) simp
  have "refresh_rounds flat_suite oc prm rsid pty r0 (\<lambda>i. (c i, pc i, tr i)) fout3"
    unfolding refresh_rounds_def
  proof (intro exI ballI conjI)
    show "refresh_phase1 oc (pty i) (r0 i) = (Ok (frag i, r1 i) :: (abort, _) outcome)" for i by (rule f)
    show "refresh_phase2 flat_suite oc (pty i) rsid (?rcv i) (r1 i) = (Ok ((c i, pc i, keep i, tr i), r2 i) :: (abort, _) outcome)" for i
      by (rule ph2)
    show "refresh_phase3 oc (pty i) (keep i) = (Ok (fout3 i) :: (abort, _) outcome)" for i by (rule fast3)
  qed simp_all
  then show "\<exists>out2 out3. refresh_rounds flat_suite oc prm rsid pty r0 out2 out3 \<and>
       (\<forall>i. distinct (rand_commitments (pc_proof (fst (snd (out2 i))))))"
    using ph2(3) by (intro exI [of _ "\<lambda>i. (c i, pc i, tr i)"] exI [of _ fout3]) simp
qed

text \<open>The deliveries in the order the messages were made.\<close>

lemma refresh_complete_delivered_in_order:
  "refresh_complete_delivered prm out2 out3 i (map (\<lambda>j. fst (snd (out2 j))) (all_parties (share_count prm)))
     (addressed_to z2_parties (all_parties (share_count prm)) (\<lambda>j. snd (snd (out2 j))) i)
     (addressed_to z3_parties (all_parties (share_count prm)) (\<lambda>j. fst (snd (out3 j))) i)
     (addressed_to tm_parties (all_parties (share_count prm)) (\<lambda>j. snd (snd (snd (out3 j)))) i)"
  by (simp add: refresh_complete_delivered_def Let_def)

lemma refresh_delivered_in_order:
  "refresh_delivered prm out2 out3 i (map (\<lambda>j. fst (snd (out2 j))) (all_parties (share_count prm)))
     (addressed_to rf2_parties (all_parties (share_count prm)) (\<lambda>j. snd (snd (out2 j))) i)
     (addressed_to rf3_parties (all_parties (share_count prm)) (\<lambda>j. snd (out3 j)) i)"
  by (simp add: refresh_delivered_def Let_def)

section \<open>The group of two, refreshed\<close>

lemma flat_group: "group_ok flat_suite [3, 1] two_of_two [1] (replicate 32 0) two_all pair_member"
proof -
  have "smul flat_suite (generator flat_suite) a = smul gf_suite (generator gf_suite) a" for a
    by (simp add: gf_mult_generator)
  moreover have "two_all = [PartyIndex 1, PartyIndex 2]" by (simp add: two_of_two_def two_parties)
  ultimately show ?thesis using pair_group by (simp add: group_ok_def member_ok_def)
qed

lemma two_valid: "valid_parameters two_of_two" "unat (share_count two_of_two) < 255"
  by (simp_all add: valid_parameters_def two_of_two_def)

lemma pair_parameters: "party_parameters (pair_member i) = two_of_two"
  by (simp add: pair_member_def)

lemma two_nonzero: "threshold two_of_two \<noteq> 0" "share_count two_of_two \<noteq> 0"
  by (simp_all add: two_of_two_def)

lemma pair_refresh_complete_rounds:
  obtains out2 out3 where "refresh_complete_rounds flat_suite True two_of_two [2] pair_member (\<lambda>_. gf_rng) out2 out3"
    and "\<And>i. distinct (rand_commitments (pc_proof (fst (snd (out2 i)))))"
    and "\<And>i. \<forall>m\<in>set (snd (snd (snd (out3 i)))). distinct (rand_commitments (tm_dlog_proof m))"
  using flat_refresh_rounds(1) [where ?r0.0 = "\<lambda>_. gf_rng" and pty = pair_member and oc = True and rsid = "[2]",
      OF rng_cycle_gf_rng two_nonzero pair_parameters] by blast

lemma pair_refresh_rounds:
  obtains out2 out3 where "refresh_rounds flat_suite True two_of_two [2] pair_member (\<lambda>_. gf_rng) out2 out3"
    and "\<And>i. distinct (rand_commitments (pc_proof (fst (snd (out2 i)))))"
  using flat_refresh_rounds(2) [where ?r0.0 = "\<lambda>_. gf_rng" and pty = pair_member and oc = True and rsid = "[2]",
      OF rng_cycle_gf_rng two_nonzero pair_parameters] by blast

lemma refresh_complete_correct_witness:
  "\<exists>F pty'. secret_of F = 3 \<and> group_ok flat_suite F two_of_two [2] (replicate 32 0) two_all pty'"
proof -
  obtain out2 out3 where r: "refresh_complete_rounds flat_suite True two_of_two [2] pair_member (\<lambda>_. gf_rng) out2 out3"
    and d: "\<And>i. distinct (rand_commitments (pc_proof (fst (snd (out2 i)))))"
      "\<And>i. \<forall>m\<in>set (snd (snd (snd (out3 i)))). distinct (rand_commitments (tm_dlog_proof m))"
    using pair_refresh_complete_rounds by blast
  from refresh_complete_correct [OF flat_suite_ok two_valid refl flat_group r d refresh_complete_delivered_in_order]
  show ?thesis unfolding pair_secret by blast
qed

lemma refresh_correct_witness:
  "\<exists>F pty'. secret_of F = 3 \<and> group_ok flat_suite F two_of_two [2] (replicate 32 0) two_all pty'"
proof -
  obtain out2 out3 where r: "refresh_rounds flat_suite True two_of_two [2] pair_member (\<lambda>_. gf_rng) out2 out3"
    and d: "\<And>i. distinct (rand_commitments (pc_proof (fst (snd (out2 i)))))"
    using pair_refresh_rounds by blast
  from refresh_correct [OF flat_suite_ok two_valid refl flat_group r d refresh_delivered_in_order]
  show ?thesis unfolding pair_secret by blast
qed

lemma refresh_keeps_key_witness:
  "\<exists>c pcs k3 y2 y3 p'. refresh_phase4 flat_suite True (pair_member (PartyIndex 1)) [2] c pcs k3 y2 y3 = Ok p' \<and>
     pk p' = pk (pair_member (PartyIndex 1)) \<and> poly_point p' = poly_point (pair_member (PartyIndex 1)) + c"
proof -
  obtain out2 out3 where r: "refresh_rounds flat_suite True two_of_two [2] pair_member (\<lambda>_. gf_rng) out2 out3"
    and d: "\<And>i. distinct (rand_commitments (pc_proof (fst (snd (out2 i)))))"
    using pair_refresh_rounds by blast
  have "PartyIndex 1 \<in> set two_all" by (simp add: two_of_two_def two_parties)
  then obtain c pcs k3 y2 y3 p' where ok: "refresh_phase4 flat_suite True (pair_member (PartyIndex 1)) [2] c pcs k3 y2 y3 = Ok p'"
    using refresh_forms_group [OF flat_suite_ok two_valid refl flat_group r d refresh_delivered_in_order] by blast
  note v = two_valid [folded pair_parameters [of "PartyIndex 1"]]
  from refresh_keeps_key [OF flat_suite_ok v disjI2 [OF ok]] ok show ?thesis by blast
qed

text \<open>One kept seed: phase 3 sends the same in both variants.\<close>

definition kept_for_two :: "(party_index, keep_refresh_2to3) btree_map" where
  "kept_for_two = [(PartyIndex 2, \<lparr>kr2_seed = [7], kr2_salt = [9]\<rparr>)]"

lemma fast_refresh_seeds_witness:
  "foldl (dkg_phase3_zero_step (PartyIndex 1)) ([], []) (map_values zero_2to3 kept_for_two) =
     ([(PartyIndex 2, \<lparr>kz3_seed = [7]\<rparr>)],
      [\<lparr>z3_parties = \<lparr>sender = PartyIndex 1, receiver = PartyIndex 2\<rparr>, z3_seed = [7], z3_salt = [9]\<rparr>])"
proof -
  have "refresh_phase3 True (pair_member (PartyIndex 1)) kept_for_two =
      (Ok ([(PartyIndex 2, \<lparr>kr3_seed = [7]\<rparr>)],
        [\<lparr>rf3_parties = \<lparr>sender = PartyIndex 1, receiver = PartyIndex 2\<rparr>, rf3_seed = [7], rf3_salt = [9]\<rparr>]) :: (unit, _) outcome)"
    by (simp add: refresh_phase3_def kept_for_two_def pair_parameters u8_sub_def two_of_two_def refresh_phase3_step_def
        pair_member_def)
  from conjunct1 [OF conjunct2 [OF fast_refresh_seeds], rule_format, OF this]
  show ?thesis by (simp add: zero_conversions pair_member_def map_values_def)
qed

text \<open>Phase 4 of the fast refresh without a single commitment: a recoverable abort.\<close>

lemma setup_never_bans_witness:
  "\<exists>a. refresh_phase4 flat_suite True (pair_member (PartyIndex 1)) [2] 0 [] [] [] [] = Err a \<and>
     index_of a = PartyIndex 1 \<and> kind a = Recoverable"
proof -
  have "u8_range_incl 1 1 = [1 :: u8]" "u8_range 1 3 = [1, 2 :: u8]" by (simp_all add: u8_range_incl_def u8_range_def upt_rec)
  moreover have "lagrange_loop [1, 2] 1 = (2, 1 :: gf)" by (simp add: lagrange_loop_def scalar_of_u8_def)
  ultimately have "\<exists>a. dkg_step5 flat_suite True two_of_two (PartyIndex 1) [2] [] = Err a"
    by (simp add: dkg_step5_def two_of_two_def u8_sub_def u8_add_def dkg_consistency_step_def dkg_window_def
        dkg_window_step_def invert_def party_index_unwrap_def party_index_new_def)
  then have "\<exists>a. refresh_phase4 flat_suite True (pair_member (PartyIndex 1)) [2] 0 [] [] [] [] = Err a"
    by (auto simp: refresh_phase4_def pair_member_def Let_def)
  then obtain a where e: "refresh_phase4 flat_suite True (pair_member (PartyIndex 1)) [2] 0 [] [] [] [] = Err a" by blast
  from conjunct2 [OF setup_never_bans, rule_format, OF disjI2 [OF e]] e show ?thesis by (auto simp: pair_member_def)
qed

end
