(* ===== verification/Lifecycle.thy ===== *)
theory Lifecycle
  imports ReKey RefreshHonest SigningHonest
begin

text \<open>
  The life of a group and of a party, across the components: made by key generation or by the
  dealer of re-keying, then changed by derivations and refreshes in any order. Shown by
  induction over such lives: an honest group can sign at every moment for the secret the life
  gives it; and a party stays complete, whatever the others sent it.
\<close>

section \<open>The life of a group\<close>

text \<open>
  The second argument is the secret key, which no party has. In the rules for the protocols all
  parties run the phases honestly and the messages are delivered in any order; the excluded
  events are the ones on which the code aborts.
\<close>

inductive group_life ::
  "('f::field, 'g::ab_group_add) suite \<Rightarrow> bool \<Rightarrow> ('g \<Rightarrow> string) \<Rightarrow> parameters \<Rightarrow> 'f \<Rightarrow> (party_index \<Rightarrow> ('f, 'g) party) \<Rightarrow> bool"
  for S oc address_fn prm where
  generated:
    "valid_parameters prm \<Longrightarrow> unat (share_count prm) < 255 \<Longrightarrow> ps = all_parties (share_count prm) \<Longrightarrow>
     dkg_rounds S oc prm sid r0 out2 out3 \<Longrightarrow>
     x = (\<Sum>j\<in>set ps. secret_of (fst (dkg_step1 prm (r0 j)))) \<Longrightarrow> x \<noteq> 0 \<Longrightarrow> x \<noteq> 1 \<Longrightarrow>
     (\<And>i. i \<in> set ps \<Longrightarrow> distinct (rand_commitments (pc_proof (proof_out (out2 i))))) \<Longrightarrow>
     (\<And>i m. i \<in> set ps \<Longrightarrow> m \<in> set (mul_out (out3 i)) \<Longrightarrow> distinct (rand_commitments (tm_dlog_proof m))) \<Longrightarrow>
     (\<And>i. i \<in> set ps \<Longrightarrow> share_out (out2 i) \<noteq> 0 \<and> share_out (out2 i) \<noteq> 1) \<Longrightarrow>
     (\<And>i. i \<in> set ps \<Longrightarrow> dkg_delivered prm out2 out3 i (pcs i) (z2 i) (z3 i) (mr i) (b2 i) (b3 i)) \<Longrightarrow>
     (\<And>i. i \<in> set ps \<Longrightarrow> dkg_phase4 S oc \<lparr>sd_parameters = prm, sd_party_index = i, sd_session_id = sid\<rparr> (share_out (out2 i))
        (pcs i) (zero_kept (out3 i)) (z2 i) (z3 i) (mul_kept (out3 i)) (mr i) (b2 i) (b3 i) address_fn = Ok (pty i, pkg i)) \<Longrightarrow>
     group_life S oc address_fn prm x pty"
| re_keyed:
    "valid_parameters prm \<Longrightarrow>
     re_key S oc prm sid x option_chain_code address_fn r = (Ok ((parties, pkg), r') :: (abort, _) outcome) \<Longrightarrow>
     group_life S oc address_fn prm x (\<lambda>i. parties ! (unat (as_u8 i) - 1))"
| derived:
    "group_life S oc address_fn prm x pty \<Longrightarrow> ps = all_parties (share_count prm) \<Longrightarrow>
     (\<And>i. i \<in> set ps \<Longrightarrow> party_derive_child S address_fn (pty i) n = Ok (pty' i)) \<Longrightarrow>
     j \<in> set ps \<Longrightarrow> bip32_tweak S (bip32_hmac S (chain_code (derivation_data (pty j))) (pk (pty j)) n) = Ok tweak \<Longrightarrow>
     group_life S oc address_fn prm (x + tweak) pty'"
| refreshed:
    "group_life S oc address_fn prm x pty \<Longrightarrow> unat (share_count prm) < 255 \<Longrightarrow> ps = all_parties (share_count prm) \<Longrightarrow>
     refresh_rounds S oc prm sid pty r0 fout2 fout3 \<Longrightarrow>
     (\<And>i. i \<in> set ps \<Longrightarrow> distinct (rand_commitments (pc_proof (fst (snd (fout2 i)))))) \<Longrightarrow>
     (\<And>i. i \<in> set ps \<Longrightarrow> refresh_delivered prm fout2 fout3 i (pcs i) (y2 i) (y3 i)) \<Longrightarrow>
     (\<And>i. i \<in> set ps \<Longrightarrow> refresh_phase4 S oc (pty i) sid (fst (fout2 i)) (pcs i) (fst (fout3 i)) (y2 i) (y3 i) = Ok (pty' i)) \<Longrightarrow>
     group_life S oc address_fn prm x pty'"
| completely_refreshed:
    "group_life S oc address_fn prm x pty \<Longrightarrow> unat (share_count prm) < 255 \<Longrightarrow> ps = all_parties (share_count prm) \<Longrightarrow>
     refresh_complete_rounds S oc prm sid pty r0 cout2 cout3 \<Longrightarrow>
     (\<And>i. i \<in> set ps \<Longrightarrow> distinct (rand_commitments (pc_proof (fst (snd (cout2 i)))))) \<Longrightarrow>
     (\<And>i. i \<in> set ps \<Longrightarrow> \<forall>m\<in>set (snd (snd (snd (cout3 i)))). distinct (rand_commitments (tm_dlog_proof m))) \<Longrightarrow>
     (\<And>i. i \<in> set ps \<Longrightarrow> refresh_complete_delivered prm cout2 cout3 i (pcs i) (z2 i) (z3 i) (mr i)) \<Longrightarrow>
     (\<And>i. i \<in> set ps \<Longrightarrow> refresh_complete_phase4 S oc (pty i) sid (fst (cout2 i)) (pcs i) (fst (cout3 i)) (z2 i) (z3 i)
        (fst (snd (snd (cout3 i)))) (mr i) = Ok (pty' i)) \<Longrightarrow>
     group_life S oc address_fn prm x pty'"

lemma party_derive_child_depth:
  "party_derive_child S address_fn p n = Ok p' \<Longrightarrow> depth (derivation_data p) \<noteq> MAX_DEPTH"
  by (auto simp: party_derive_child_def outcome_simps derive_child_Ok)

lemma re_key_result_group:
  fixes S :: "('f::field, 'g::ab_group_add) suite"
  assumes "valid_parameters prm"
    and "re_key S oc prm sid x option_chain_code address_fn r = (Ok ((parties, pkg), r') :: (abort, _) outcome)"
  shows "\<exists>cs cc. secret_of cs = x \<and> group_ok S cs prm sid cc (all_parties (share_count prm)) (\<lambda>i. parties ! (unat (as_u8 i) - 1))"
  using re_key_makes_group [OF assms(1) refl, where 'e = abort, of S oc sid x option_chain_code address_fn r] assms(2) by auto

text \<open>Every moment of a life is a group for its secret.\<close>

lemma group_life_group:
  fixes S :: "('f::field, 'g::ab_group_add) suite"
  assumes S: "suite_ok S" and "group_life S oc address_fn prm x pty"
  shows "valid_parameters prm \<and> (\<exists>cs sid cc. secret_of cs = x \<and> group_ok S cs prm sid cc (all_parties (share_count prm)) pty)"
  using assms(2)
proof induction
  case (generated ps sid r0 out2 out3 x pcs z2 z3 mr b2 b3 pty pkg)
  let ?run = "\<lambda>i. dkg_phase4 S oc \<lparr>sd_parameters = prm, sd_party_index = i, sd_session_id = sid\<rparr> (share_out (out2 i))
        (pcs i) (zero_kept (out3 i)) (z2 i) (z3 i) (mul_kept (out3 i)) (mr i) (b2 i) (b3 i) address_fn"
  have "\<exists>F cc pty pkg. secret_of F = x \<and> (\<forall>i\<in>set ps. ?run i = Ok (pty i, pkg i)) \<and> group_ok S F prm sid cc ps pty \<and>
     (\<forall>i\<in>set ps. verifying_key (pkg i) = smul S (generator S) x \<and>
        (\<forall>j\<in>set ps. verifying_share (pkg i) j = Some (smul S (generator S) (share_of F j))))"
    by (rule dkg_forms_group [OF S generated(1,2,4,3) _ _ generated(5-7)]) (use generated(8-11) in blast)+
  then obtain F cc pty' pkg' where F: "secret_of F = x" "group_ok S F prm sid cc ps pty'"
    and run: "\<forall>i\<in>set ps. ?run i = Ok (pty' i, pkg' i)" by blast
  have "pty i = pty' i" if "i \<in> set ps" for i using run generated(12) that by force
  with F(2) have "group_ok S F prm sid cc ps pty" by (rule group_ok_cong)
  with F(1) show ?case using generated(1,3) by blast
next
  case (re_keyed sid x option_chain_code r parties pkg r')
  then show ?case using re_key_result_group by blast
next
  case (derived x pty ps n pty' j tweak)
  then obtain cs sid cc where g: "secret_of cs = x" "group_ok S cs prm sid cc ps pty" by blast
  have deep: "depth (derivation_data (pty i)) \<noteq> MAX_DEPTH" if "i \<in> set ps" for i
    using derived(3) [OF that] by (rule party_derive_child_depth)
  from derivation_forms_group [OF S g(2) derived(4) derived(3) [OF derived(4)] deep] obtain tweak' cc' pty1 where
    d: "\<forall>j\<in>set ps. party_derive_child S address_fn (pty j) n = Ok (pty1 j)"
      "bip32_tweak S (bip32_hmac S cc (pk (pty j)) n) = Ok tweak'"
      "group_ok S ((hd cs + tweak') # tl cs) prm sid cc' ps pty1" "secret_of ((hd cs + tweak') # tl cs) = secret_of cs + tweak'"
    by blast
  have "chain_code (derivation_data (pty j)) = cc" using g(2) derived(4) by (auto simp: group_ok_def member_ok_def)
  then have "tweak' = tweak" using d(2) derived(5) by simp
  moreover have "pty' i = pty1 i" if "i \<in> set ps" for i using d(1) derived(3) [OF that] that by force
  with d(3) have "group_ok S ((hd cs + tweak') # tl cs) prm sid cc' ps pty'" by (rule group_ok_cong)
  ultimately show ?case using derived(2,6) d(4) g(1) by metis
next
  case (refreshed x pty ps sid r0 fout2 fout3 pcs y2 y3 pty')
  then obtain cs sid0 cc where g: "secret_of cs = x" "group_ok S cs prm sid0 cc ps pty" and v: "valid_parameters prm" by blast
  from refresh_forms_group [OF S v refreshed(2,3) g(2) refreshed(4,5,6)] obtain F pty1 where
    F: "secret_of F = secret_of cs" "group_ok S F prm sid cc ps pty1"
    and run: "\<forall>i\<in>set ps. refresh_phase4 S oc (pty i) sid (fst (fout2 i)) (pcs i) (fst (fout3 i)) (y2 i) (y3 i) = Ok (pty1 i)" by blast
  have "pty' i = pty1 i" if "i \<in> set ps" for i using run refreshed(7) [OF that] that by force
  with F(2) have "group_ok S F prm sid cc ps pty'" by (rule group_ok_cong)
  then show ?case using refreshed(3) F(1) g(1) v by metis
next
  case (completely_refreshed x pty ps sid r0 cout2 cout3 pcs z2 z3 mr pty')
  then obtain cs sid0 cc where g: "secret_of cs = x" "group_ok S cs prm sid0 cc ps pty" and v: "valid_parameters prm" by blast
  from refresh_complete_forms_group [OF S v completely_refreshed(2,3) g(2) completely_refreshed(4,5,6,7)] obtain F pty1 where
    F: "secret_of F = secret_of cs" "group_ok S F prm sid cc ps pty1"
    and run: "\<forall>i\<in>set ps. refresh_complete_phase4 S oc (pty i) sid (fst (cout2 i)) (pcs i) (fst (cout3 i)) (z2 i) (z3 i)
        (fst (snd (snd (cout3 i)))) (mr i) = Ok (pty1 i)" by blast
  have "pty' i = pty1 i" if "i \<in> set ps" for i using run completely_refreshed(8) [OF that] that by force
  with F(2) have "group_ok S F prm sid cc ps pty'" by (rule group_ok_cong)
  then show ?case using completely_refreshed(3) F(1) g(1) v by metis
qed

text \<open>
  C3: the whole library, end to end. Take a group at any moment of its life, however it was made
  and whatever derivations and refreshes of both kinds it went through: every party's public
  key is that of the secret the life gives it, phase 1 of signing succeeds for every member of
  a quorum, and when it has run the other phases succeed for all of them in any order of delivery with
  one signature, which verifies under that key.
\<close>

theorem group_life_signs:
  fixes S :: "('f::field, 'g::ab_group_add) suite"
  assumes S: "suite_ok S" and life: "group_life S oc address_fn prm x pty" and sub: "set qs \<subseteq> set (all_parties (share_count prm))"
    and q: "signers_ok prm qs d sign h"
    and ph1: "\<And>i. i \<in> set qs \<Longrightarrow> sign_phase1 S oc (pty i) (d i) (r i) = Ok ((uk i, keep i, tr i), r' i)"
    and keys: "\<And>i. i \<in> set qs \<Longrightarrow> uk1_instance_key (uk i) \<noteq> 0"
    and k: "k = (\<Sum>i\<in>set qs. uk1_instance_key (uk i))" "k \<noteq> 0" and phi: "(\<Sum>i\<in>set qs. uk1_inversion_mask (uk i)) \<noteq> 0"
    and rx: "from_repr S (affine_x S (smul S (generator S) k)) = Some rx" "rx \<noteq> 0"
    and t: "t = (reduce S h + rx * x) * inverse k" "t \<noteq> 0"
    and s: "s = (if low_s \<and> is_high S t then - t else t)"
    and rcv2: "\<And>i. i \<in> set qs \<Longrightarrow> mset (rcv2 i) = mset (addressed_to t1_parties qs tr i)"
  shows "(\<forall>i\<in>set (all_parties (share_count prm)). pk (pty i) = smul S (generator S) x) \<and>
     (\<forall>i\<in>set qs. \<forall>r. \<exists>res. sign_phase1 S oc (pty i) (d i) r = Ok res) \<and>
     (\<exists>uk2 keep2 tr2 q2.
     (\<forall>i\<in>set qs. sign_phase2 S oc (pty i) (d i) (uk i) (keep i) (rcv2 i) (q1 i) = Ok ((uk2 i, keep2 i, tr2 i), q2 i)) \<and>
     (\<forall>rcv3. (\<forall>i\<in>set qs. mset (rcv3 i) = mset (addressed_to t2_parties qs tr2 i)) \<longrightarrow>
        (\<exists>x_coord bc. (\<forall>i\<in>set qs. sign_phase3 S (pty i) (d i) (uk2 i) (keep2 i) (rcv3 i) = Ok (x_coord, bc i)) \<and>
           (\<forall>ms. mset ms = mset (map bc qs) \<longrightarrow>
              (\<exists>rec_id. \<forall>i\<in>set qs. sign_phase4 S (pty i) (d i) x_coord ms low_s = Ok (hex_encode S (to_repr S s), rec_id))) \<and>
           verify_ecdsa_signature S h (smul S (generator S) x) x_coord (hex_encode S (to_repr S s)))))"
proof -
  obtain cs sid cc where cs: "secret_of cs = x" and g: "group_ok S cs prm sid cc (all_parties (share_count prm)) pty"
    using group_life_group [OF S life] by blast
  have "distinct qs" using q by (simp add: signers_ok_def)
  note gq = group_ok_subset [OF g sub this]
  have "\<forall>i\<in>set qs. \<forall>r. \<exists>res. sign_phase1 S oc (pty i) (d i) r = Ok res" using sign_phase1_total [OF S gq q] by blast
  moreover have "\<forall>i\<in>set (all_parties (share_count prm)). pk (pty i) = smul S (generator S) x"
    using group_member_simps(3) [OF g] by (simp add: cs)
  moreover note signing_completes [OF S g sub q ph1 keys k phi rx t(1) [folded cs] t(2) s rcv2, where ?q1.0 = q1, unfolded cs]
  ultimately show ?thesis by blast
qed

section \<open>The life of a party\<close>

text \<open>
  A complete party: well formed, with a multiplication state in each role and a zero-share seed
  for exactly the other parties, and with the address of its key.
\<close>

definition party_complete :: "('g \<Rightarrow> string) \<Rightarrow> ('f, 'g) party \<Rightarrow> bool" where
  "party_complete address_fn p \<longleftrightarrow>
     party_ok p \<and> btree_keys (mul_senders p) = others (share_count (party_parameters p)) (party_index_of p) \<and>
     map index_counterparty (seeds (zero_share_of p)) = others (share_count (party_parameters p)) (party_index_of p) \<and>
     address p = address_fn (pk p)"

text \<open>
  A party that runs its own phases, on messages of which nothing is assumed: what it keeps
  between the phases is its own, everything else is arbitrary.
\<close>

inductive party_life ::
  "('f::field, 'g::ab_group_add) suite \<Rightarrow> bool \<Rightarrow> ('g \<Rightarrow> string) \<Rightarrow> ('f, 'g) party \<Rightarrow> bool"
  for S oc address_fn where
  generated:
    "dkg_phase2 S oc data received r = (Ok ((pp, pc, zk2, z2_out, dk, b2_out), r1) :: (abort, _) outcome) \<Longrightarrow>
     dkg_phase3 S oc data zk2 dk r2 = (Ok ((zk, z3_out, mk, mt, b3_out), r3) :: (abort, _) outcome) \<Longrightarrow>
     dkg_phase4 S oc data pp pcs zk z2 z3 mk mr b2 b3 address_fn = Ok (p, pkg) \<Longrightarrow> party_life S oc address_fn p"
| re_keyed:
    "valid_parameters prm \<Longrightarrow>
     re_key S oc prm sid x option_chain_code address_fn r = (Ok ((parties, pkg), r') :: (abort, _) outcome) \<Longrightarrow>
     p \<in> set parties \<Longrightarrow> party_life S oc address_fn p"
| derived:
    "party_life S oc address_fn p \<Longrightarrow> party_derive_child S address_fn p n = Ok p' \<Longrightarrow> party_life S oc address_fn p'"
| refreshed:
    "party_life S oc address_fn p \<Longrightarrow>
     refresh_phase2 S oc p sid received r = (Ok ((c, pc, kept2, out2), r1) :: (abort, _) outcome) \<Longrightarrow>
     refresh_phase3 oc p kept2 = (Ok (kept3, out3) :: (abort, _) outcome) \<Longrightarrow>
     refresh_phase4 S oc p sid c pcs kept3 y2 y3 = Ok p' \<Longrightarrow> party_life S oc address_fn p'"
| completely_refreshed:
    "party_life S oc address_fn p \<Longrightarrow>
     refresh_complete_phase2 S oc p sid received r = (Ok ((c, pc, zk2, z2_out), r1) :: (abort, _) outcome) \<Longrightarrow>
     refresh_complete_phase3 S oc p sid zk2 r2 = (Ok ((zk, z3_out, mk, mt), r3) :: (abort, _) outcome) \<Longrightarrow>
     refresh_complete_phase4 S oc p sid c pcs zk z2 z3 mk mr = Ok p' \<Longrightarrow> party_life S oc address_fn p'"

text \<open>What the own phases keep is for exactly the others.\<close>

lemma btree_keys_map: "btree_keys (map (\<lambda>j. (j, K j)) js) = js"
  by (simp add: btree_keys_def comp_def)

lemma btree_wf_others: "btree_keys m = others n me \<Longrightarrow> btree_wf m"
  using others_simps(3) [of n me] by (simp add: btree_wf_def btree_keys_def)

lemma dkg_keeps:
  fixes S :: "('f::field, 'g::ab_group_add) suite"
  assumes "dkg_phase2 S oc data received r = (Ok ((pp, pc, zk2, z2_out, dk, b2_out), r1) :: (abort, _) outcome)"
    and p3: "dkg_phase3 S oc data zk2 dk r2 = (Ok ((zk, z3_out, mk, mt, b3_out), r3) :: (abort, _) outcome)"
  shows "btree_keys zk = others (share_count (sd_parameters data)) (sd_party_index data) \<and>
     btree_keys mk = others (share_count (sd_parameters data)) (sd_party_index data)"
proof -
  obtain K where "zk2 = map (\<lambda>j. (j, K j)) (others (share_count (sd_parameters data)) (sd_party_index data))"
    using dkg_phase2_result [OF assms(1)] by blast
  from dkg_phase3_result [OF p3 [unfolded this]] show ?thesis by (auto simp: muls_sent_def btree_keys_map)
qed

lemma refresh_complete_keeps:
  fixes S :: "('f::field, 'g::ab_group_add) suite"
  assumes "refresh_complete_phase2 S oc p sid received r = (Ok ((c, pc, zk2, z2_out), r1) :: (abort, _) outcome)"
    and p3: "refresh_complete_phase3 S oc p sid zk2 r2 = (Ok ((zk, z3_out, mk, mt), r3) :: (abort, _) outcome)"
  shows "btree_keys zk = others (share_count (party_parameters p)) (party_index_of p) \<and>
     btree_keys mk = others (share_count (party_parameters p)) (party_index_of p)"
proof -
  obtain K where "zk2 = map (\<lambda>j. (j, K j)) (others (share_count (party_parameters p)) (party_index_of p))"
    using refresh_complete_phase2_result [OF assms(1)] by blast
  from refresh_complete_phase3_result [OF p3 [unfolded this]] show ?thesis by (auto simp: muls_sent_def btree_keys_map)
qed

lemma refresh_keeps:
  fixes S :: "('f::field, 'g::ab_group_add) suite"
  assumes p2: "refresh_phase2 S oc p sid received r = (Ok ((c, pc, kept2, out2), r1) :: (abort, _) outcome)"
    and p3: "refresh_phase3 oc p kept2 = (Ok (kept3, out3) :: (abort, _) outcome)"
  shows "btree_keys kept3 = others (share_count (party_parameters p)) (party_index_of p)"
proof -
  obtain sd where "map_values zero_3to4 kept3 =
      map (\<lambda>j. (j, \<lparr>kz3_seed = sd j\<rparr>)) (others (share_count (party_parameters p)) (party_index_of p))"
    using refresh_sent [OF p2 p3 refl refl] unfolding seeds_sent_def by blast
  then have "btree_keys (map_values zero_3to4 kept3) = others (share_count (party_parameters p)) (party_index_of p)"
    by (simp only: btree_keys_map)
  then show ?thesis by (simp add: btree_keys_map_values)
qed

text \<open>The maps the fast refresh builds, and the seeds it accepts.\<close>

lemma refresh_seeds_of:
  assumes "refresh_seeds S oc n me kept y2 y3 = Ok ss"
  shows "map index_counterparty ss = btree_keys kept"
proof -
  obtain f2 f3 where "collect_try (refresh_seed_pair S me f2 f3) kept = Ok ss"
    using assms by (auto simp: refresh_seeds_def outcome_simps)
  then have "list_all2 (\<lambda>entry sp. refresh_seed_pair S me f2 f3 entry = Ok sp) kept ss" by (simp add: collect_try_eq_Ok_iff)
  then have "list_all2 (\<lambda>entry sp. index_counterparty sp = fst entry) kept ss"
    by (rule list_all2_mono) (auto simp: refresh_seed_pair_def generate_seed_pair_def outcome_simps split: prod.splits if_splits)
  then show ?thesis unfolding btree_keys_def by (induction rule: list_all2_induct) simp_all
qed

lemma refresh_mul_step_inserts:
  assumes "refresh_mul_step S p sid (ss, rs) sp = Ok st"
  shows "\<exists>s w. st = (btree_insert (index_counterparty sp) s ss, btree_insert (index_counterparty sp) w rs)"
  using assms by (auto simp: refresh_mul_step_def Let_def outcome_simps)

lemma refresh_mul_maps:
  assumes "each (refresh_mul_step S p sid) (ss0, rs0) sps = Ok (ss, rs)"
    and "btree_wf ss0" "btree_wf rs0" "btree_keys ss0 = btree_keys rs0"
  shows "btree_wf ss \<and> btree_wf rs \<and> btree_keys ss = btree_keys rs \<and>
     set (btree_keys ss) = set (btree_keys ss0) \<union> set (map index_counterparty sps)"
  using assms
proof (induction sps arbitrary: ss0 rs0)
  case (Cons sp sps)
  let ?j = "index_counterparty sp"
  from Cons.prems(1) obtain s w where
    rest: "each (refresh_mul_step S p sid) (btree_insert ?j s ss0, btree_insert ?j w rs0) sps = Ok (ss, rs)"
    by (auto simp: outcome_simps dest: refresh_mul_step_inserts)
  have "btree_keys (btree_insert ?j s ss0) = btree_keys (btree_insert ?j w rs0)"
    using Cons.prems(4) by (rule btree_insert_keys_cong)
  with Cons.prems have "btree_wf ss \<and> btree_wf rs \<and> btree_keys ss = btree_keys rs \<and>
     set (btree_keys ss) = set (btree_keys (btree_insert ?j s ss0)) \<union> set (map index_counterparty sps)"
    by (intro Cons.IH [OF rest] btree_wf_insert)
  moreover have "set (btree_keys (btree_insert ?j s ss0)) = insert ?j (set (btree_keys ss0))"
    by (simp add: btree_keys_def keys_btree_insert)
  ultimately show ?case by auto
qed simp

text \<open>What each birth and each change gives.\<close>

lemma dkg_party_complete:
  assumes "dkg_phase4 S oc data pp pcs zk z2 z3 mk mr b2 b3 address_fn = Ok (p, pkg)"
    and zk: "btree_keys zk = others (share_count (sd_parameters data)) (sd_party_index data)"
    and mk: "btree_keys mk = others (share_count (sd_parameters data)) (sd_party_index data)"
  shows "party_complete address_fn p"
proof -
  from assms(1) obtain key points zs receivers senders cc where
    zero: "dkg_zero_share S (sd_party_index data) zk z2 z3 = Ok zs"
    and mult: "dkg_mul S (sd_party_index data) (sd_session_id data) mk mr = Ok (receivers, senders)"
    and p: "p = \<lparr>party_parameters = sd_parameters data, party_index_of = sd_party_index data,
            party_session_id = sd_session_id data, poly_point = pp,
            pk = key, zero_share_of = zs, mul_senders = senders, mul_receivers = receivers,
            derivation_data = \<lparr>depth = 0, child_number = 0, parent_fingerprint = replicate 4 0,
              dd_poly_point = pp, dd_pk = key, chain_code = cc\<rparr>, address = address_fn key\<rparr>"
    by (auto simp: dkg_phase4_def Let_def outcome_simps split: if_splits)
  note m = dkg_mul_sound [OF mult btree_wf_others [OF mk]]
  have "btree_keys senders = others (share_count (sd_parameters data)) (sd_party_index data)"
    by (rule btree_keys_unique [OF m(2) _ others_simps(3)]) (simp only: m(4) mk)
  then show ?thesis using m(1,2,3) dkg_zero_share_sound(1) [OF zero] zk by (simp add: party_complete_def party_ok_def p)
qed

lemma others_ranges:
  assumes "1 \<le> unat me" "unat me \<le> unat n"
  shows "map PartyIndex (u8_range 1 me @ (if me < n then u8_range_incl (me + 1) n else [])) = others n (PartyIndex me)"
proof -
  have high: "(if me < n then u8_range_incl (me + 1) n else []) = map of_nat [Suc (unat me)..<Suc (unat n)]"
    using u8_succ_less [of me n] assms by (auto simp: u8_range_incl_def word_less_nat_alt)
  have "[1..<Suc (unat n)] = [1..<unat me] @ [unat me] @ [Suc (unat me)..<Suc (unat n)]"
    using assms upt_add_eq_append [of 1 "unat me" "Suc (unat n) - unat me"] upt_conv_Cons [of "unat me" "Suc (unat n)"] by simp
  then have split: "u8_range_incl 1 n = u8_range 1 me @ [me] @ map of_nat [Suc (unat me)..<Suc (unat n)]"
    by (simp add: u8_range_incl_def u8_range_def)
  have drop_me: "me \<notin> set xs \<Longrightarrow> filter (\<lambda>j. j \<noteq> me) xs = xs" for xs by (induction xs) auto
  have "me \<notin> set (u8_range 1 me)" by (simp add: set_u8_range)
  moreover have "me \<notin> set (map of_nat [Suc (unat me)..<Suc (unat n)])"
    using distinct_u8_range_incl [of 1 n] unfolding split by simp
  ultimately have "filter (\<lambda>j. j \<noteq> me) (u8_range_incl 1 n) = u8_range 1 me @ map of_nat [Suc (unat me)..<Suc (unat n)]"
    unfolding split by (simp add: drop_me)
  then show ?thesis by (simp add: others_def all_parties_def filter_map comp_def high)
qed

lemma re_key_party_complete:
  fixes S :: "('f::field, 'g::ab_group_add) suite"
  assumes v: "valid_parameters prm"
    and run: "re_key S oc prm sid x option_chain_code address_fn r = (Ok ((parties, pkg), r') :: (abort, _) outcome)"
    and p: "p \<in> set parties"
  shows "party_complete address_fn p"
proof -
  let ?n = "share_count prm"
  let ?mk = "\<lambda>F common receivers senders cc. map (re_key_member prm sid F (smul S (generator S) x) (re_key_seeds common ?n)
      receivers senders cc address_fn) (u8_range_incl 1 ?n)"
  have "\<exists>F common receivers senders cc pkg' r''. re_key S oc prm sid x option_chain_code address_fn r =
      (Ok ((?mk F common receivers senders cc, pkg'), r'') :: (abort, _) outcome) \<and> re_key_paired ?n (all_pairs ?n) receivers senders"
    by (rule re_key_run [OF v refl refl, where S = S and oc = oc and sid = sid and secret_key = x
        and option_chain_code = option_chain_code and address_fn = address_fn and r = r and 'e = abort]) blast
  then obtain F common receivers senders cc where parties: "parties = ?mk F common receivers senders cc"
    and paired: "re_key_paired ?n (all_pairs ?n) receivers senders" unfolding run outcome.inject prod.inject by blast
  from parties obtain i where i: "1 \<le> unat i" "unat i \<le> unat ?n"
    and m: "p = re_key_member prm sid F (smul S (generator S) x) (re_key_seeds common ?n) receivers senders cc address_fn i"
    using p by (auto simp: u8_range_incl_eq)
  have "map index_counterparty (seeds (re_key_seeds common ?n i)) = others ?n (PartyIndex i)"
    unfolding others_ranges [OF i, symmetric] by (simp add: re_key_seeds_def zero_share_initialize_def re_key_entry_def comp_def)
  then show ?thesis using re_key_maps [OF paired i] by (simp add: party_complete_def party_ok_def m re_key_member_def)
qed

lemma refreshed_party_complete:
  assumes "party_complete address_fn p" and "btree_wf ss" "btree_wf rs" "btree_keys ss = btree_keys rs"
    and "btree_keys ss = others (share_count (party_parameters p)) (party_index_of p)"
    and "map index_counterparty (seeds zs) = others (share_count (party_parameters p)) (party_index_of p)"
  shows "party_complete address_fn (refreshed_party p sid c zs ss rs)"
  using assms by (simp add: party_complete_def party_ok_def refreshed_party_def Let_def)

lemma refresh_complete_party_complete:
  assumes ok: "refresh_complete_phase4 S oc p sid c pcs zk z2 z3 mk mr = Ok p'" and p: "party_complete address_fn p"
    and zk: "btree_keys zk = others (share_count (party_parameters p)) (party_index_of p)"
    and mk: "btree_keys mk = others (share_count (party_parameters p)) (party_index_of p)"
  shows "party_complete address_fn p'"
proof -
  from ok obtain zs ss rs where
    zero: "refresh_complete_zero_share S oc (share_count (party_parameters p)) (party_index_of p) zk z2 z3 = Ok zs"
    and mult: "dkg_mul S (party_index_of p) sid mk mr = Ok (rs, ss)" and p': "p' = refreshed_party p sid c zs ss rs"
    by (auto simp: refresh_complete_phase4_def Let_def outcome_simps split: if_splits)
  note m = dkg_mul_sound [OF mult btree_wf_others [OF mk]]
  have ss: "btree_keys ss = others (share_count (party_parameters p)) (party_index_of p)"
    by (rule btree_keys_unique [OF m(2) _ others_simps(3)]) (simp only: m(4) mk)
  have "dkg_zero_share S (party_index_of p) zk z2 z3 = Ok zs"
    using zero by (auto simp: refresh_complete_zero_share_def dkg_zero_share_def outcome_simps)
  from dkg_zero_share_sound(1) [OF this] have "map index_counterparty (seeds zs) = others (share_count (party_parameters p)) (party_index_of p)"
    by (simp add: zk)
  then show ?thesis unfolding p' by (intro refreshed_party_complete [OF p m(2,1) m(3) [symmetric] ss])
qed

lemma refresh_party_complete:
  assumes ok: "refresh_phase4 S oc p sid c pcs kept y2 y3 = Ok p'" and p: "party_complete address_fn p"
    and kept: "btree_keys kept = others (share_count (party_parameters p)) (party_index_of p)"
  shows "party_complete address_fn p'"
proof -
  from ok obtain sps ss rs where sps: "refresh_seeds S oc (share_count (party_parameters p)) (party_index_of p) kept y2 y3 = Ok sps"
    and mult: "each (refresh_mul_step S p sid) ([], []) sps = Ok (ss, rs)"
    and p': "p' = refreshed_party p sid c (zero_share_initialize sps) ss rs"
    by (auto simp: refresh_phase4_def Let_def outcome_simps split: if_splits)
  note m = refresh_mul_maps [OF mult btree_wf_Nil btree_wf_Nil trans [OF btree_keys_Nil btree_keys_Nil [symmetric]]]
  note idx = refresh_seeds_of [OF sps, unfolded kept]
  have "btree_keys ss = others (share_count (party_parameters p)) (party_index_of p)"
    by (rule btree_keys_unique [OF _ _ others_simps(3)]) (use m idx conjunct2 [OF conjunct2 [OF conjunct2 [OF m]]] in \<open>simp_all only: btree_keys_Nil list.set sup_bot_left\<close>)
  then show ?thesis unfolding p' using m idx
    by (intro refreshed_party_complete [OF p]) (simp_all add: zero_share_initialize_def)
qed

text \<open>
  C17: whatever the other parties send in key generation and in any number of refreshes of both
  kinds, with derivations in between, a party is complete at every moment of its life: its
  derivation data repeats its share and key, it has a multiplication state in each role and a
  zero-share seed for exactly the other parties, and its address is the one of its key.
\<close>

theorem party_life_complete:
  fixes S :: "('f::field, 'g::ab_group_add) suite"
  assumes "party_life S oc address_fn p"
  shows "party_complete address_fn p"
  using assms
proof induction
  case (generated data received r pp pc zk2 z2_out dk b2_out r1 r2 zk z3_out mk mt b3_out r3 pcs z2 z3 mr b2 b3 p pkg)
  then show ?case using dkg_keeps dkg_party_complete by metis
next
  case (re_keyed prm sid x option_chain_code r parties pkg r' p)
  then show ?case by (rule re_key_party_complete)
next
  case (derived p n p')
  then show ?case
    by (auto simp: party_derive_child_def with_derivation_def outcome_simps party_complete_def party_ok_def)
next
  case (refreshed p sid received r c pc kept2 out2 r1 kept3 out3 pcs y2 y3 p')
  then show ?case using refresh_keeps refresh_party_complete by metis
next
  case (completely_refreshed p sid received r c pc zk2 z2_out r1 r2 zk z3_out mk mt r3 pcs z2 z3 mr p')
  then show ?case using refresh_complete_keeps refresh_complete_party_complete by metis
qed

end
