(* ===== verification/MissingProofs.thy ===== *)
theory MissingProofs
  imports Lifecycle
begin

text \<open>
  A flaw of the setup. The base OT is done for as many instances as the counterparty sent
  encryption proofs, and nobody compares their number with \<open>KAPPA\<close> before the state is stored:
  key generation and complete refresh accept a message that leaves the proofs out. The state
  is found unusable only later: signing with that counterparty always fails, and the fast
  refresh indexes out of range and panics.
\<close>

text \<open>The messages with the encryption proofs of the party \<open>c\<close> left out.\<close>

definition without_proofs :: "party_index \<Rightarrow> ('f, 'g) transmit_mul_3to4 \<Rightarrow> ('f, 'g) transmit_mul_3to4" where
  "without_proofs c m = (if sender (tm_parties m) = c then m\<lparr>tm_enc_proofs := []\<rparr> else m)"

lemma tm_parties_without_proofs: "tm_parties \<circ> without_proofs c = tm_parties"
  by (auto simp: without_proofs_def)

lemma without_proofs_simps [simp]:
  "tm_parties (without_proofs c m) = tm_parties m" "tm_dlog_proof (without_proofs c m) = tm_dlog_proof m"
  "tm_nonce (without_proofs c m) = tm_nonce m" "tm_seed (without_proofs c m) = tm_seed m"
  by (simp_all add: without_proofs_def)

lemma mul_receiver_init_no_proofs:
  "mul_receiver_init_phase2 S sndr sid sd [] nonce =
     Ok \<lparr>receiver_gadget = public_gadget S sid nonce, mul_ote_receiver = \<lparr>seeds0 = [], seeds1 = []\<rparr>\<rparr>"
  by (simp add: mul_receiver_init_phase2_def ote_receiver_init_phase2_def ot_sender_run_phase2_batch_def ot_batch_size_def)

text \<open>The same states are accepted, but for the receiver of \<open>c\<close>, which has no seeds.\<close>

lemma dkg_mul_loop_without_proofs:
  assumes "each (dkg_mul_step S me sid filed) (rs0, ss0) kept = Ok (rs, ss)"
    and "btree_wf rs0" "btree_wf rs1" "btree_keys rs0 = btree_keys rs1"
    and "\<And>m. btree_get filed c = Some m \<Longrightarrow> sender (tm_parties m) = c"
    and "distinct (map fst kept)"
    and "c \<in> set (map fst kept) \<or> (\<exists>w. btree_get rs1 c = Some w \<and> mul_ote_receiver w = \<lparr>seeds0 = [], seeds1 = []\<rparr>)"
  shows "\<exists>rs'. each (dkg_mul_step S me sid (map_values (without_proofs c) filed)) (rs1, ss0) kept = Ok (rs', ss) \<and>
     (\<exists>w. btree_get rs' c = Some w \<and> mul_ote_receiver w = \<lparr>seeds0 = [], seeds1 = []\<rparr>)"
  using assms
proof (induction kept arbitrary: rs0 rs1 ss0)
  case (Cons entry kept)
  obtain j k where entry: "entry = (j, k)" by fastforce
  from Cons.prems(1) obtain m w s where m: "btree_get filed j = Some m"
    and w: "mul_receiver_init_phase2 S (km_ot_sender k) (mul_sid me j sid) (tm_seed m) (tm_enc_proofs m) (km_nonce k) = Ok w"
    and s: "mul_sender_init_phase2 S (mul_sid j me sid) (km_correlation k) (km_vec_r k) (tm_dlog_proof m) (tm_nonce m) = Ok s"
    and rest: "each (dkg_mul_step S me sid filed) (btree_insert j w rs0, btree_insert j s ss0) kept = Ok (rs, ss)"
    by (auto simp: dkg_mul_step_eq_Ok_iff outcome_simps entry)
  obtain w' where w': "mul_receiver_init_phase2 S (km_ot_sender k) (mul_sid me j sid) (tm_seed m)
      (tm_enc_proofs (without_proofs c m)) (km_nonce k) = Ok w'" "j = c \<Longrightarrow> mul_ote_receiver w' = \<lparr>seeds0 = [], seeds1 = []\<rparr>"
  proof (cases "sender (tm_parties m) = c")
    case True
    then show thesis using that by (simp add: without_proofs_def mul_receiver_init_no_proofs)
  next
    case False
    then show thesis using that [of w] w m Cons.prems(5) by (auto simp: without_proofs_def)
  qed
  have "dkg_mul_step S me sid (map_values (without_proofs c) filed) (rs1, ss0) entry = Ok (btree_insert j w' rs1, btree_insert j s ss0)"
    using m s w'(1) unfolding entry dkg_mul_step_eq_Ok_iff by auto
  moreover have "\<exists>rs'. each (dkg_mul_step S me sid (map_values (without_proofs c) filed)) (btree_insert j w' rs1, btree_insert j s ss0) kept = Ok (rs', ss) \<and>
     (\<exists>w. btree_get rs' c = Some w \<and> mul_ote_receiver w = \<lparr>seeds0 = [], seeds1 = []\<rparr>)"
    using Cons.prems w'(2) by (intro Cons.IH [OF rest] btree_wf_insert btree_insert_keys_cong) (auto simp: entry btree_get_insert)
  ultimately show ?case by simp
qed simp

lemma dkg_mul_without_proofs:
  assumes ok: "dkg_mul S me sid kept mr = Ok (rs, ss)" and wf: "btree_wf kept" and c: "c \<in> set (btree_keys kept)"
  shows "\<exists>rs' w. dkg_mul S me sid kept (map (without_proofs c) mr) = Ok (rs', ss) \<and>
     btree_get rs' c = Some w \<and> mul_ote_receiver w = \<lparr>seeds0 = [], seeds1 = []\<rparr>"
proof -
  from ok obtain filed where f: "file_by_sender me kept tm_parties mr = Ok filed" and n: "check_count me kept filed = Ok ()"
    and run: "each (dkg_mul_step S me sid filed) ([], []) kept = Ok (rs, ss)"
    by (auto simp: dkg_mul_def outcome_simps)
  have id: "map_values id kept = kept" by (simp add: map_values_def)
  have f': "file_by_sender me kept tm_parties (map (without_proofs c) mr) = Ok (map_values (without_proofs c) filed)"
    using file_by_sender_map [of me id kept tm_parties "without_proofs c" mr] f by (simp add: id tm_parties_without_proofs)
  have n': "check_count me kept (map_values (without_proofs c) filed) = Ok ()"
    using check_count_map [of me id kept "without_proofs c" filed] n by (simp add: id)
  have sender: "sender (tm_parties m) = c" if "btree_get filed c = Some m" for m
    using filed_unique [OF f that] by blast
  have "distinct (map fst kept)" "c \<in> set (map fst kept) \<or> (\<exists>w. btree_get [] c = Some w \<and> mul_ote_receiver w = \<lparr>seeds0 = [], seeds1 = []\<rparr>)"
    using wf c by (auto simp: btree_wf_distinct btree_keys_def)
  from dkg_mul_loop_without_proofs [OF run btree_wf_Nil btree_wf_Nil refl sender this] obtain rs' w where
    "each (dkg_mul_step S me sid (map_values (without_proofs c) filed)) ([], []) kept = Ok (rs', ss)"
    "btree_get rs' c = Some w" "mul_ote_receiver w = \<lparr>seeds0 = [], seeds1 = []\<rparr>" by blast
  then show ?thesis using f' n' by (simp add: dkg_mul_def)
qed

text \<open>Signing needs a state of the right size.\<close>

lemma sign_phase1_needs_seeds:
  assumes "btree_get (mul_receivers p) c = Some w" and "seeds0 (mul_ote_receiver w) = []" and "c \<in> set (counterparties d)"
  shows "sign_phase1 S oc p d r \<noteq> Ok res"
proof
  assume "sign_phase1 S oc p d r = Ok res"
  then obtain K M ra rb where run: "mul_receiver_run_phase1 S w (sign_mul_sid p d (party_index_of p) c) ra = Ok ((K, M), rb)"
    using sign_phase1_result [of S oc p d r] assms(1,3) by (cases res) (metis option.inject prod.exhaust)
  have "0 \<noteq> KAPPA" by (simp add: KAPPA_def)
  then have "ote_receiver_run_phase1 S (mul_ote_receiver w) sid bits q \<noteq> Ok z" for sid bits q z
    using assms(2) by (simp add: ote_receiver_run_phase1_def)
  with run show False by (auto simp: mul_receiver_run_phase1_def outcome_simps)
qed

text \<open>The fast refresh indexes the seeds without a check.\<close>

lemma refresh_mul_step_panics:
  assumes w: "btree_get (mul_receivers p) (index_counterparty sp) = Some w" "seeds0 (mul_ote_receiver w) = []" "seeds1 (mul_ote_receiver w) = []"
    and s: "btree_get (mul_senders p) (index_counterparty sp) = Some s" "ote_correlation (mul_ote_sender s) \<noteq> []" "ote_seeds (mul_ote_sender s) \<noteq> []"
  shows "refresh_mul_step S p sid st sp = Panic"
proof -
  have "[0..<KAPPA] = 0 # [1..<KAPPA]" by (simp add: KAPPA_def upt_rec)
  moreover have "refresh_receiver_step S sid me their sd (mul_ote_receiver w) 0 = (Panic :: (abort, _) outcome)" for me their sd
    using w by (simp add: refresh_receiver_step_def Let_def index_def)
  moreover have "\<exists>s'. refresh_sender_step S sid me their sd (mul_ote_sender s) 0 = (Ok s' :: (abort, _) outcome)" for me their sd
    using s by (simp add: refresh_sender_step_def Let_def index_def)
  then have "refresh_ote_step S sid me their sd (mul_ote_sender s, mul_ote_receiver w) 0 = (Panic :: (abort, _) outcome)" for me their sd
    using calculation(2) by (metis and_then.simps case_prod_conv refresh_ote_step_def)
  ultimately show ?thesis using w(1) s(1) by (simp add: refresh_mul_step_def Let_def split_def)
qed

text \<open>The own senders have the right size.\<close>

definition sender_of_kept :: "('f, 'g) keep_mul_3to4 \<Rightarrow> 'f mul_sender \<Rightarrow> bool" where
  "sender_of_kept k s \<longleftrightarrow> ote_correlation (mul_ote_sender s) = km_correlation k \<and>
     length (ote_seeds (mul_ote_sender s)) = length (km_vec_r k)"

lemma dkg_mul_loop_senders:
  assumes "each (dkg_mul_step S me sid filed) (rs0, ss0) kept = Ok (rs, ss)" and "btree_wf ss0" and "distinct (map fst kept)"
    and "map_of kept c = Some k \<or> (c \<notin> fst ` set kept \<and> (\<exists>s. btree_get ss0 c = Some s \<and> sender_of_kept k s))"
  shows "\<exists>s. btree_get ss c = Some s \<and> sender_of_kept k s"
  using assms
proof (induction kept arbitrary: rs0 ss0)
  case (Cons entry kept)
  obtain j e where entry: "entry = (j, e)" by fastforce
  from Cons.prems(1) obtain pf nonce w s
    where s: "mul_sender_init_phase2 S (mul_sid j me sid) (km_correlation e) (km_vec_r e) pf nonce = Ok s"
    and rest: "each (dkg_mul_step S me sid filed) (btree_insert j w rs0, btree_insert j s ss0) kept = Ok (rs, ss)"
    by (auto simp: dkg_mul_step_eq_Ok_iff outcome_simps entry)
  have "sender_of_kept e s"
    using s by (auto simp: mul_sender_init_phase2_def ote_sender_init_phase2_def ot_receiver_run_phase2_batch_def ot_batch_size_def
        sender_of_kept_def outcome_simps split: if_splits)
  then show ?case using Cons.prems
    by (intro Cons.IH [OF rest]) (auto simp: entry btree_get_insert map_of_eq_None_iff split: if_splits)
qed simp

lemma mul_sender_init_phase1_size:
  assumes "mul_sender_init_phase1 S sid r = (Ok ((rcv, correlation, vec_r, es), r') :: ('e, _) outcome)"
  shows "length correlation = KAPPA \<and> length vec_r = KAPPA"
proof -
  obtain rc rd where bits: "draw_list (\<lambda>_. random_bool) [0..<KAPPA] rc = (correlation, rd)"
    and batch: "ot_receiver_run_phase1_batch S rcv sid correlation rd = Ok ((vec_r, es), r')"
    using assms by (auto simp: mul_sender_init_phase1_def ote_sender_init_phase1_def outcome_simps Let_def split_beta prod_eq_iff)
  have "length vec_r = length correlation"
    using batch by (auto simp: ot_receiver_run_phase1_batch_def ot_batch_size_def outcome_simps dest!: collect_st_length split: if_splits)
  then show ?thesis using draw_bits_length [OF bits] by simp
qed

lemma dkg_mul_own_senders:
  fixes S :: "('f::field, 'g::ab_group_add) suite"
  assumes p3: "dkg_phase3 S oc data zk2 dk r2 = (Ok ((zk, z3_out, mk, mt, b3_out), r3) :: (abort, _) outcome)"
    and p2: "dkg_phase2 S oc data received r = (Ok ((pp, pc, zk2, z2_out, dk, b2_out), r1) :: (abort, _) outcome)"
    and ok: "dkg_mul S (sd_party_index data) sid mk mr = Ok (rs, ss)" and c: "c \<in> set (btree_keys mk)"
  shows "\<exists>s. btree_get ss c = Some s \<and> ote_correlation (mul_ote_sender s) \<noteq> [] \<and> ote_seeds (mul_ote_sender s) \<noteq> []"
proof -
  let ?js = "others (share_count (sd_parameters data)) (sd_party_index data)"
  obtain K where "zk2 = map (\<lambda>j. (j, K j)) ?js" using dkg_phase2_result [OF p2] by blast
  from dkg_phase3_result [OF p3 [unfolded this]] obtain L N where
    sent: "muls_sent S (share_count (sd_parameters data)) (sd_session_id data) (sd_party_index data) mk mt L N" by blast
  then have mk: "mk = map (\<lambda>j. (j, L j)) ?js" by (simp add: muls_sent_def)
  then have cj: "c \<in> set ?js" using c by (simp add: btree_keys_map)
  then obtain ra rb where "mul_sender_init_phase1 S (mul_sid c (sd_party_index data) (sd_session_id data)) ra =
      (Ok ((km_ot_receiver (L c), km_correlation (L c), km_vec_r (L c), tm_enc_proofs (N c)), rb) :: (abort, _) outcome)"
    using sent unfolding muls_sent_def by blast
  note size = mul_sender_init_phase1_size [OF this]
  obtain filed where run: "each (dkg_mul_step S (sd_party_index data) sid filed) ([], []) mk = Ok (rs, ss)"
    using ok by (auto simp: dkg_mul_def outcome_simps)
  have "distinct (map fst mk)" using others_simps(2) by (simp add: mk comp_def)
  moreover have "map_of mk c = Some (L c)" using cj by (simp add: mk map_of_map_restrict)
  ultimately obtain s where "btree_get ss c = Some s" "sender_of_kept (L c) s"
    using dkg_mul_loop_senders [OF run btree_wf_Nil] by blast
  then show ?thesis using size by (auto simp: sender_of_kept_def KAPPA_def)
qed

text \<open>
  C16: leaving out the encryption proofs goes unnoticed. If phase 4 of key generation accepts, then
  it also accepts the same messages with the encryption proofs of any one counterparty
  removed, and returns the same public key package; but the party it returns can never run
  phase 1 of signing with that counterparty, and where the fast refresh comes to it, it panics.
\<close>

theorem missing_proofs_accepted:
  fixes S :: "('f::field, 'g::ab_group_add) suite"
  assumes p2: "dkg_phase2 S oc data received r = (Ok ((pp, pc, zk2, z2_out, dk, b2_out), r1) :: (abort, _) outcome)"
    and p3: "dkg_phase3 S oc data zk2 dk r2 = (Ok ((zk, z3_out, mk, mt, b3_out), r3) :: (abort, _) outcome)"
    and p4: "dkg_phase4 S oc data pp pcs zk z2 z3 mk mr b2 b3 address_fn = Ok (p, pkg)"
    and c: "c \<in> set (all_parties (share_count (sd_parameters data)))" "c \<noteq> sd_party_index data"
  shows "\<exists>p'. dkg_phase4 S oc data pp pcs zk z2 z3 mk (map (without_proofs c) mr) b2 b3 address_fn = Ok (p', pkg) \<and>
     (\<forall>oc d r res. c \<in> set (counterparties d) \<longrightarrow> sign_phase1 S oc p' d r \<noteq> Ok res) \<and>
     (\<forall>sid st sp. index_counterparty sp = c \<longrightarrow> refresh_mul_step S p' sid st sp = Panic)"
proof -
  have keys: "c \<in> set (btree_keys mk)" using dkg_keeps [OF p2 p3] c by (simp add: others_simps)
  have wf: "btree_wf mk" using dkg_keeps [OF p2 p3] btree_wf_others by blast
  from p4 obtain rs ss where mul: "dkg_mul S (sd_party_index data) (sd_session_id data) mk mr = Ok (rs, ss)"
    by (auto simp: dkg_phase4_def Let_def outcome_simps split: if_splits)
  obtain rs' w where mul': "dkg_mul S (sd_party_index data) (sd_session_id data) mk (map (without_proofs c) mr) = Ok (rs', ss)"
    and w: "btree_get rs' c = Some w" "mul_ote_receiver w = \<lparr>seeds0 = [], seeds1 = []\<rparr>"
    using dkg_mul_without_proofs [OF mul wf keys] by blast
  have ss: "mul_senders p = ss" using p4 mul by (auto simp: dkg_phase4_def Let_def outcome_simps split: if_splits)
  let ?p = "p\<lparr>mul_receivers := rs'\<rparr>"
  have "dkg_phase4 S oc data pp pcs zk z2 z3 mk (map (without_proofs c) mr) b2 b3 address_fn = Ok (?p, pkg)"
    using p4 mul mul' by (auto simp: dkg_phase4_def Let_def outcome_simps split: if_splits)
  moreover have "sign_phase1 S oc ?p d r \<noteq> Ok res" if "c \<in> set (counterparties d)" for oc d r res
    using sign_phase1_needs_seeds [of ?p c w d S oc r res] w that by simp
  moreover have "refresh_mul_step S ?p sid st sp = Panic" if "index_counterparty sp = c" for sid st sp
    using dkg_mul_own_senders [OF p3 p2 mul keys] refresh_mul_step_panics [of ?p sp w _ S sid st] w that by (auto simp: ss)
  ultimately show ?thesis by blast
qed

end
