(* ===== verification/WitnessesLifecycle.thy ===== *)
theory WitnessesLifecycle
  imports WitnessesProtocols MissingProofs
begin

text \<open>
  Instances of the properties of whole lives: a group of two made by the dealer, and the run
  of key generation on \<open>flat_suite\<close> with the encryption proofs of one party removed.
\<close>

section \<open>A re-keyed group signs\<close>

lemma two_of_two_valid: "valid_parameters two_of_two"
  by (simp add: valid_parameters_def two_of_two_def)

lemma pair_re_keyed:
  obtains parties pkg r' F cc where
    "re_key gf_suite True two_of_two [1] 3 None (\<lambda>_. '''') gf_rng = (Ok ((parties, pkg), r') :: (abort, _) outcome)"
    and "length parties = 2" and "secret_of F = 3"
    and "group_ok gf_suite F two_of_two [1] cc [PartyIndex 1, PartyIndex 2] (\<lambda>i. parties ! (unat (as_u8 i) - 1))"
proof -
  have two: "all_parties (share_count two_of_two) = [PartyIndex 1, PartyIndex 2]" "unat (share_count two_of_two) = 2"
    by (simp_all add: two_of_two_def two_parties)
  show thesis
    using re_key_makes_group [OF two_of_two_valid refl, where 'e = abort, of gf_suite True "[1]" 3 None "\<lambda>_. ''''" gf_rng] that
    unfolding two by blast
qed

text \<open>Phase 1 of a pair with the nonces of \<open>gf_rng\<close>.\<close>

lemma gf_pair_phase1:
  assumes "group_ok gf_suite F two_of_two sid cc pair_qs pty"
  shows "\<exists>uk keep tr r'. \<forall>i\<in>set pair_qs.
     sign_phase1 gf_suite True (pty i) (pair_data i) gf_rng = Ok ((uk i, keep i, tr i), r' i) \<and>
     uk1_instance_key (uk i) = 1 \<and> uk1_inversion_mask (uk i) = 2"
proof -
  define P where "P = (\<lambda>i uk keep tr r'. sign_phase1 gf_suite True (pty i) (pair_data i) gf_rng = Ok ((uk, keep, tr), r') \<and>
     uk1_instance_key uk = 1 \<and> uk1_inversion_mask uk = 2)"
  have "\<exists>uk keep tr r'. P i uk keep tr r'" if i: "i \<in> set pair_qs" for i
  proof -
    obtain uk keep tr r' where ok: "sign_phase1 gf_suite True (pty i) (pair_data i) gf_rng = Ok ((uk, keep, tr), r')"
      using sign_phase1_total [OF gf_suite_ok assms pair_signers i] by (metis prod.exhaust)
    with sign_phase1_keys [OF ok] show ?thesis by (auto simp: P_def gf_rng_keys)
  qed
  then obtain uk keep tr r' where "\<forall>i\<in>set pair_qs. P i (uk i) (keep i) (tr i) (r' i)" by metis
  then show ?thesis unfolding P_def by auto
qed

definition life_signed ::
  "(party_index \<Rightarrow> (gf, gf) party) \<Rightarrow> (party_index \<Rightarrow> (gf, gf) unique_keep_1to2)
   \<Rightarrow> (party_index \<Rightarrow> (party_index, gf keep_phase_1to2) btree_map) \<Rightarrow> (party_index \<Rightarrow> transmit_phase_1to2 list) \<Rightarrow> bool" where
  "life_signed pty uk keep tr \<longleftrightarrow>
     (\<forall>i\<in>set (all_parties (share_count two_of_two)). pk (pty i) = smul gf_suite (generator gf_suite) 3) \<and>
     (\<forall>i\<in>set pair_qs. \<forall>r. \<exists>res. sign_phase1 gf_suite True (pty i) (pair_data i) r = Ok res) \<and>
     (\<exists>uk2 keep2 tr2 q2.
     (\<forall>i\<in>set pair_qs. sign_phase2 gf_suite True (pty i) (pair_data i) (uk i) (keep i) (addressed_to t1_parties pair_qs tr i) gf_rng =
        Ok ((uk2 i, keep2 i, tr2 i), q2 i)) \<and>
     (\<forall>rcv3. (\<forall>i\<in>set pair_qs. mset (rcv3 i) = mset (addressed_to t2_parties pair_qs tr2 i)) \<longrightarrow>
        (\<exists>x_coord bc. (\<forall>i\<in>set pair_qs. sign_phase3 gf_suite (pty i) (pair_data i) (uk2 i) (keep2 i) (rcv3 i) = Ok (x_coord, bc i)) \<and>
           (\<forall>ms. mset ms = mset (map bc pair_qs) \<longrightarrow>
              (\<exists>rec_id. \<forall>i\<in>set pair_qs. sign_phase4 gf_suite (pty i) (pair_data i) x_coord ms False =
                 Ok (hex_encode gf_suite (to_repr gf_suite 3), rec_id))) \<and>
           verify_ecdsa_signature gf_suite (replicate 32 0) (smul gf_suite (generator gf_suite) 3) x_coord
             (hex_encode gf_suite (to_repr gf_suite 3)))))"

lemma group_life_signs_witness:
  "\<exists>pty uk keep tr. group_life gf_suite True (\<lambda>_. '''') two_of_two 3 pty \<and> life_signed pty uk keep tr"
proof -
  obtain parties pkg r' F cc where
    run: "re_key gf_suite True two_of_two [1] 3 None (\<lambda>_. '''') gf_rng = (Ok ((parties, pkg), r') :: (abort, _) outcome)"
    and g: "group_ok gf_suite F two_of_two [1] cc pair_qs (\<lambda>i. parties ! (unat (as_u8 i) - 1))"
    by (rule pair_re_keyed)
  let ?pty = "\<lambda>i. parties ! (unat (as_u8 i) - 1)"
  have life: "group_life gf_suite True (\<lambda>_. '''') two_of_two 3 ?pty"
    by (rule group_life.re_keyed [OF two_of_two_valid run])
  obtain uk keep tr r'' where one: "\<forall>i\<in>set pair_qs.
     sign_phase1 gf_suite True (?pty i) (pair_data i) gf_rng = Ok ((uk i, keep i, tr i), r'' i) \<and>
     uk1_instance_key (uk i) = 1 \<and> uk1_inversion_mask (uk i) = 2" using gf_pair_phase1 [OF g] by blast
  then have ph1: "\<And>i. i \<in> set pair_qs \<Longrightarrow> sign_phase1 gf_suite True (?pty i) (pair_data i) gf_rng = Ok ((uk i, keep i, tr i), r'' i)"
    and keys: "\<And>i. i \<in> set pair_qs \<Longrightarrow> uk1_instance_key (uk i) = 1" "\<And>i. i \<in> set pair_qs \<Longrightarrow> uk1_inversion_mask (uk i) = 2"
    by blast+
  have "life_signed ?pty uk keep tr"
    unfolding life_signed_def
    by (rule group_life_signs [OF gf_suite_ok life _ pair_signers ph1, where k = 2 and rx = 2 and t = 3])
      (simp_all add: keys gf_x_two gf_reduce_zero gf_half gf_nonzero gf3 two_of_two_def two_parties)
  with life show ?thesis by blast
qed

section \<open>A complete party\<close>

lemma party_life_complete_witness:
  "\<exists>p. party_life gf_suite True (\<lambda>_. '''') p \<and> party_complete (\<lambda>_. '''') p"
proof -
  obtain parties pkg r' F cc where
    run: "re_key gf_suite True two_of_two [1] 3 None (\<lambda>_. '''') gf_rng = (Ok ((parties, pkg), r') :: (abort, _) outcome)"
    and "length parties = 2"
    by (rule pair_re_keyed)
  then have "parties ! 0 \<in> set parties" by simp
  then have life: "party_life gf_suite True (\<lambda>_. '''') (parties ! 0)" by (rule party_life.re_keyed [OF two_of_two_valid run])
  from party_life_complete [OF this] life show ?thesis by blast
qed

section \<open>Proofs left out\<close>

lemma missing_proofs_accepted_witness:
  "\<exists>data pp pcs zk z2 z3 mk mr b2 b3 p pkg.
     dkg_phase4 flat_suite True data pp pcs zk z2 z3 mk (map (without_proofs (PartyIndex 2)) mr) b2 b3 (\<lambda>_. '''') = Ok (p, pkg) \<and>
     (\<forall>oc d r res. PartyIndex 2 \<in> set (counterparties d) \<longrightarrow> sign_phase1 flat_suite oc p d r \<noteq> Ok res)"
proof -
  obtain out2 out3 where r: "dkg_rounds flat_suite True two_of_two [1] (\<lambda>_. gf_rng) out2 out3" and "pair_formed out2 out3"
    using pair_run by blast
  moreover have one: "PartyIndex 1 \<in> set two_all" by (simp add: two_of_two_def two_parties)
  ultimately obtain pty pkg pcs z2 z3 mr b2 b3 where ok: "dkg_phase4 flat_suite True
      \<lparr>sd_parameters = two_of_two, sd_party_index = PartyIndex 1, sd_session_id = [1]\<rparr> (share_out (out2 (PartyIndex 1))) pcs
      (zero_kept (out3 (PartyIndex 1))) z2 z3 (mul_kept (out3 (PartyIndex 1))) mr b2 b3 (\<lambda>_. '''') = Ok (pty, pkg)"
    unfolding pair_formed_def by blast
  let ?data = "\<lparr>sd_parameters = two_of_two, sd_party_index = PartyIndex 1, sd_session_id = [1]\<rparr>"
  obtain received pp pc zk2 z2o dk b2o r1 r2 r3 q where
    p2: "dkg_phase2 flat_suite True ?data received r1 = (Ok ((pp, pc, zk2, z2o, dk, b2o), r2) :: (abort, _) outcome)"
    and o2: "out2 (PartyIndex 1) = (pp, pc, z2o, b2o)"
    and p3: "dkg_phase3 flat_suite True ?data zk2 dk r2 = (Ok (out3 (PartyIndex 1), r3) :: (abort, _) outcome)"
    using r one unfolding dkg_rounds_def by blast
  obtain zk z3o mk mt b3o where o3: "out3 (PartyIndex 1) = (zk, z3o, mk, mt, b3o)" by (metis prod.exhaust)
  have c: "PartyIndex 2 \<in> set (all_parties (share_count (sd_parameters ?data)))" "PartyIndex 2 \<noteq> sd_party_index ?data"
    by (simp_all add: two_of_two_def two_parties)
  from missing_proofs_accepted [OF p2 p3 [unfolded o3] ok [unfolded o2 o3 fst_conv snd_conv] c] show ?thesis by blast
qed

end
