(* ===== verification/Addresses.thy ===== *)
theory Addresses
  imports Prelude
begin

text \<open>
  The address schemes of the two curve crates (\<open>dkls23-secp256k1\<close> and \<open>dkls23-secp256r1\<close>). The
  hash functions and the encoders of the crates they use are the fields of a record; what is
  modelled is what the code does with them: which bytes are hashed, the versions, checksums and scripts,
  and the mixed case of Ethereum addresses. Shown here: the case is a valid checksum and
  lower-casing it gives the last 20 bytes of the hash back; and both Base58Check addresses
  carry their version, their body and the right checksum.
\<close>

unbundle bit_operations_syntax

section \<open>The libraries\<close>

record ('g, 'h) chain_env =
  sec1_point :: "'g \<Rightarrow> bool \<Rightarrow> bytes"
  keccak_256 :: "bytes \<Rightarrow> bytes"
  sha_256 :: "bytes \<Rightarrow> bytes"
  ripemd_160 :: "bytes \<Rightarrow> bytes"
  blake2b_256 :: "bytes \<Rightarrow> bytes"
  hex_of :: "bytes \<Rightarrow> string"
  base58_of :: "bytes \<Rightarrow> string"
  hrp_parse :: "string \<Rightarrow> 'h option"
  segwit_v0 :: "'h \<Rightarrow> bytes \<Rightarrow> string option"
  bech32_of :: "'h \<Rightarrow> bytes \<Rightarrow> string option"

definition lower_hex_digits :: string where
  "lower_hex_digits = ''0123456789abcdef''"

text \<open>
  Documented behaviour: hash outputs have their fixed lengths, hexadecimal output has two lower-case
  digits per byte and can be read back, as can Base58.
\<close>

definition chain_env_ok :: "('g, 'h) chain_env \<Rightarrow> bool" where
  "chain_env_ok L \<longleftrightarrow>
     (\<forall>m. length (keccak_256 L m) = 32) \<and> (\<forall>m. length (sha_256 L m) = 32) \<and>
     (\<forall>m. length (ripemd_160 L m) = 20) \<and> (\<forall>m. length (blake2b_256 L m) = 32) \<and>
     (\<forall>b. length (hex_of L b) = 2 * length b \<and> set (hex_of L b) \<subseteq> set lower_hex_digits) \<and>
     inj (hex_of L) \<and> inj (base58_of L)"

section \<open>Characters\<close>

text \<open>The methods of \<open>char\<close> and \<open>str\<close> used, on ASCII characters, the only ones hexadecimal output has.\<close>

definition ascii_alphabetic :: "char \<Rightarrow> bool" where
  "ascii_alphabetic c \<longleftrightarrow> 65 \<le> (of_char c :: nat) \<and> (of_char c :: nat) \<le> 90 \<or> 97 \<le> (of_char c :: nat) \<and> (of_char c :: nat) \<le> 122"

definition ascii_upper :: "char \<Rightarrow> char" where
  "ascii_upper c = (if 97 \<le> (of_char c :: nat) \<and> (of_char c :: nat) \<le> 122 then char_of (of_char c - 32 :: nat) else c)"

definition ascii_lower :: "char \<Rightarrow> char" where
  "ascii_lower c = (if 65 \<le> (of_char c :: nat) \<and> (of_char c :: nat) \<le> 90 then char_of (of_char c + 32 :: nat) else c)"

lemma char_of_letters:
  "char_of (97 :: nat) = CHR ''a''" "char_of (98 :: nat) = CHR ''b''" "char_of (99 :: nat) = CHR ''c''"
  "char_of (100 :: nat) = CHR ''d''" "char_of (101 :: nat) = CHR ''e''" "char_of (102 :: nat) = CHR ''f''"
  "char_of (65 :: nat) = CHR ''A''" "char_of (66 :: nat) = CHR ''B''" "char_of (67 :: nat) = CHR ''C''"
  "char_of (68 :: nat) = CHR ''D''" "char_of (69 :: nat) = CHR ''E''" "char_of (70 :: nat) = CHR ''F''"
  by code_simp+

lemma hex_digit_cases:
  assumes "c \<in> set lower_hex_digits"
  shows "ascii_lower c = c" "ascii_lower (ascii_upper c) = c" "ascii_alphabetic c \<Longrightarrow> ascii_upper c \<noteq> c"
  using assms by (auto simp: lower_hex_digits_def ascii_lower_def ascii_upper_def ascii_alphabetic_def char_of_letters)

section \<open>secp256k1\<close>

definition hash160 :: "('g, 'h) chain_env \<Rightarrow> bytes \<Rightarrow> bytes" where
  "hash160 L d = ripemd_160 L (sha_256 L d)"

definition double_sha256_checksum :: "('g, 'h) chain_env \<Rightarrow> bytes \<Rightarrow> bytes" where
  "double_sha256_checksum L d = take 4 (sha_256 L (sha_256 L d))"

text \<open>The closure of the last \<open>format!\<close>: the case of the digit \<open>i\<close>.\<close>

definition eth_cased :: "bytes \<Rightarrow> nat \<Rightarrow> char \<Rightarrow> char" where
  "eth_cased hash_bytes i c =
     (if ascii_alphabetic c \<and> 8 \<le> (drop_bit (4 * (1 - i mod 2)) (hash_bytes ! (i div 2)) AND 0x0F :: u8) then ascii_upper c else c)"

definition eth_mixed_case :: "bytes \<Rightarrow> string \<Rightarrow> string" where
  "eth_mixed_case hash_bytes addr = map (\<lambda>(i, c). eth_cased hash_bytes i c) (zip [0..<length addr] addr)"

definition compute_eth_address :: "('g, 'h) chain_env \<Rightarrow> 'g \<Rightarrow> string" where
  "compute_eth_address L key =
     (let full_hash = keccak_256 L (drop 1 (sec1_point L key False));
          addr = hex_of L (drop 12 full_hash);
          hash_bytes = keccak_256 L (bytes_of (map ascii_lower addr))
      in ''0x'' @ eth_mixed_case hash_bytes addr)"

definition compute_btc_address_with_hrp :: "('g, 'h) chain_env \<Rightarrow> 'g \<Rightarrow> string \<Rightarrow> ('e, string) outcome" where
  "compute_btc_address_with_hrp L key hrp =
     (let witness_program = hash160 L (sec1_point L key True) in
      and_then (unwrap (hrp_parse L hrp)) (\<lambda>h. unwrap (segwit_v0 L h witness_program)))"

definition compute_btc_address :: "('g, 'h) chain_env \<Rightarrow> 'g \<Rightarrow> ('e, string) outcome" where
  "compute_btc_address L key = compute_btc_address_with_hrp L key ''bc''"

definition compute_cosmos_address_with_hrp :: "('g, 'h) chain_env \<Rightarrow> 'g \<Rightarrow> string \<Rightarrow> ('e, string) outcome" where
  "compute_cosmos_address_with_hrp L key hrp =
     (let addr_bytes = hash160 L (sec1_point L key True) in
      and_then (unwrap (hrp_parse L hrp)) (\<lambda>h. unwrap (bech32_of L h addr_bytes)))"

definition compute_cosmos_address :: "('g, 'h) chain_env \<Rightarrow> 'g \<Rightarrow> ('e, string) outcome" where
  "compute_cosmos_address L key = compute_cosmos_address_with_hrp L key ''cosmos''"

definition compute_tron_address :: "('g, 'h) chain_env \<Rightarrow> 'g \<Rightarrow> string" where
  "compute_tron_address L key =
     (let full_hash = keccak_256 L (drop 1 (sec1_point L key False));
          addr_bytes = drop 12 full_hash;
          versioned = 0x41 # addr_bytes;
          checksum = double_sha256_checksum L versioned
      in base58_of L (versioned @ checksum))"

section \<open>secp256r1\<close>

definition NEO3_ADDRESS_VERSION :: u8 where "NEO3_ADDRESS_VERSION = 0x35"

text \<open>The verification script, and the hash of it.\<close>

definition neo3_script :: "('g, 'h) chain_env \<Rightarrow> 'g \<Rightarrow> bytes" where
  "neo3_script L key = [0x0C, 0x21] @ sec1_point L key True @ [0x41] @ [0x56, 0xe7, 0xb3, 0x27]"

definition compute_neo3_address :: "('g, 'h) chain_env \<Rightarrow> 'g \<Rightarrow> string" where
  "compute_neo3_address L key =
     (let script = neo3_script L key;
          script_hash = ripemd_160 L (sha_256 L script);
          payload = NEO3_ADDRESS_VERSION # script_hash;
          checksum = double_sha256_checksum L payload
      in base58_of L (payload @ checksum))"

definition SUI_SECP256R1_FLAG :: u8 where "SUI_SECP256R1_FLAG = 0x02"

definition compute_sui_address :: "('g, 'h) chain_env \<Rightarrow> 'g \<Rightarrow> string" where
  "compute_sui_address L key =
     ''0x'' @ hex_of L (blake2b_256 L ([SUI_SECP256R1_FLAG] @ sec1_point L key True))"

section \<open>Address schemes\<close>

text \<open>
  The trait \<open>AddressScheme\<close>, and its implementations by the unit structs of the two crates. The
  schemes with a Bech32 encoding unwrap its result.
\<close>

type_synonym ('e, 'g) address_scheme = "'g \<Rightarrow> ('e, string) outcome"

definition EthereumAddress :: "('g, 'h) chain_env \<Rightarrow> ('e, 'g) address_scheme" where
  "EthereumAddress L key = Ok (compute_eth_address L key)"

definition BitcoinAddress :: "('g, 'h) chain_env \<Rightarrow> ('e, 'g) address_scheme" where
  "BitcoinAddress L key = compute_btc_address L key"

definition CosmosAddress :: "('g, 'h) chain_env \<Rightarrow> ('e, 'g) address_scheme" where
  "CosmosAddress L key = compute_cosmos_address L key"

definition TronAddress :: "('g, 'h) chain_env \<Rightarrow> ('e, 'g) address_scheme" where
  "TronAddress L key = Ok (compute_tron_address L key)"

definition Neo3Address :: "('g, 'h) chain_env \<Rightarrow> ('e, 'g) address_scheme" where
  "Neo3Address L key = Ok (compute_neo3_address L key)"

definition SuiAddress :: "('g, 'h) chain_env \<Rightarrow> ('e, 'g) address_scheme" where
  "SuiAddress L key = Ok (compute_sui_address L key)"

section \<open>Ethereum\<close>

lemma eth_mixed_case_lower:
  assumes "set addr \<subseteq> set lower_hex_digits"
  shows "map ascii_lower (eth_mixed_case h addr) = addr"
proof (rule nth_equalityI)
  fix i assume "i < length (map ascii_lower (eth_mixed_case h addr))"
  then have i: "i < length addr" by (simp add: eth_mixed_case_def)
  then have "addr ! i \<in> set lower_hex_digits" using assms nth_mem by blast
  then show "map ascii_lower (eth_mixed_case h addr) ! i = addr ! i"
    using i hex_digit_cases by (simp add: eth_mixed_case_def eth_cased_def)
qed (simp add: eth_mixed_case_def)

lemma map_lower_hex:
  assumes "set addr \<subseteq> set lower_hex_digits"
  shows "map ascii_lower addr = addr"
  using assms hex_digit_cases(1) by (induction addr) auto

definition eth_tail :: "('g, 'h) chain_env \<Rightarrow> 'g \<Rightarrow> bytes" where
  "eth_tail L key = drop 12 (keccak_256 L (drop 1 (sec1_point L key False)))"

text \<open>The nibble of the hash that belongs to the digit \<open>i\<close>.\<close>

definition nibble_at :: "bytes \<Rightarrow> nat \<Rightarrow> u8" where
  "nibble_at h i = drop_bit (4 * (1 - i mod 2)) (h ! (i div 2)) AND 0x0F"

lemma eth_address_eq:
  assumes "chain_env_ok L"
  shows "compute_eth_address L key =
     ''0x'' @ eth_mixed_case (keccak_256 L (bytes_of (hex_of L (eth_tail L key)))) (hex_of L (eth_tail L key))"
    and "set (hex_of L (eth_tail L key)) \<subseteq> set lower_hex_digits" "length (hex_of L (eth_tail L key)) = 40"
proof -
  show X: "set (hex_of L (eth_tail L key)) \<subseteq> set lower_hex_digits" "length (hex_of L (eth_tail L key)) = 40"
    using assms by (simp_all add: eth_tail_def chain_env_ok_def)
  show "compute_eth_address L key =
     ''0x'' @ eth_mixed_case (keccak_256 L (bytes_of (hex_of L (eth_tail L key)))) (hex_of L (eth_tail L key))"
    using map_lower_hex [OF X(1)] unfolding compute_eth_address_def eth_tail_def Let_def by simp
qed

lemma eth_address_body:
  "chain_env_ok L \<Longrightarrow> map ascii_lower (drop 2 (compute_eth_address L key)) = hex_of L (eth_tail L key)"
  using eth_mixed_case_lower [OF eth_address_eq(2)] by (simp add: eth_address_eq(1))

lemma eth_same_address:
  assumes "chain_env_ok L"
  shows "compute_eth_address L key = compute_eth_address L key' \<longleftrightarrow> eth_tail L key = eth_tail L key'"
proof
  assume "compute_eth_address L key = compute_eth_address L key'"
  then have "hex_of L (eth_tail L key) = hex_of L (eth_tail L key')"
    using eth_address_body [OF assms, of key] eth_address_body [OF assms, of key'] by simp
  then show "eth_tail L key = eth_tail L key'" using assms by (simp add: chain_env_ok_def inj_eq)
qed (simp add: eth_address_eq(1) [OF assms])

text \<open>
  C38: Ethereum addresses. An address is \<open>0x\<close> and 40 digits; lower-cased they are the hexadecimal form of the
  last 20 bytes of the hash of the public key, a digit is in upper case exactly if it is a
  letter and the corresponding nibble of the hash of the lower-case address is at least 8 (the
  checksum of EIP-55, which a reader recomputes from the address alone), and two keys have the
  same address exactly if those 20 bytes agree.
\<close>

theorem eth_address_checksum:
  assumes L: "chain_env_ok L"
  shows "\<exists>body. compute_eth_address L key = ''0x'' @ body \<and> length body = 40 \<and> map ascii_lower body = hex_of L (eth_tail L key) \<and>
     eth_mixed_case (keccak_256 L (bytes_of (map ascii_lower body))) (map ascii_lower body) = body \<and>
     (\<forall>i<40. body ! i \<noteq> ascii_lower (body ! i) \<longleftrightarrow> ascii_alphabetic (ascii_lower (body ! i)) \<and>
        8 \<le> nibble_at (keccak_256 L (bytes_of (map ascii_lower body))) i) \<and>
     (\<forall>key'. compute_eth_address L key' = compute_eth_address L key \<longleftrightarrow> eth_tail L key' = eth_tail L key)"
proof -
  let ?X = "hex_of L (eth_tail L key)"
  note X = eth_address_eq(2,3) [OF L, of key]
  define body where "body = eth_mixed_case (keccak_256 L (bytes_of ?X)) ?X"
  have lower: "map ascii_lower body = ?X" unfolding body_def by (rule eth_mixed_case_lower [OF X(1)])
  have len: "length body = 40" by (simp add: body_def eth_mixed_case_def X(2))
  have digit: "body ! i \<noteq> ascii_lower (body ! i) \<longleftrightarrow> ascii_alphabetic (ascii_lower (body ! i)) \<and>
        8 \<le> nibble_at (keccak_256 L (bytes_of ?X)) i" if i: "i < 40" for i
  proof -
    have low: "ascii_lower (body ! i) = ?X ! i" using lower i len by (metis nth_map)
    have "?X ! i \<in> set lower_hex_digits" using X i nth_mem by (metis subsetD)
    then show ?thesis unfolding low using i X(2) hex_digit_cases(3) [of "?X ! i"]
      by (auto simp: body_def eth_mixed_case_def eth_cased_def nibble_at_def)
  qed
  have same: "\<forall>key'. compute_eth_address L key' = compute_eth_address L key \<longleftrightarrow> eth_tail L key' = eth_tail L key"
    using eth_same_address [OF L] by blast
  have "compute_eth_address L key = ''0x'' @ body" by (simp add: eth_address_eq(1) [OF L] body_def)
  moreover have "eth_mixed_case (keccak_256 L (bytes_of (map ascii_lower body))) (map ascii_lower body) = body"
    unfolding lower by (simp add: body_def)
  ultimately show ?thesis using len lower digit [folded lower] same by blast
qed

section \<open>Base58Check\<close>

text \<open>
  What an address of the form version, body, checksum promises; \<open>trusted\<close> is the assumption on the
  libraries under which it does.
\<close>

locale base58check =
  fixes trusted :: bool and encode :: "bytes \<Rightarrow> string" and checksum :: "bytes \<Rightarrow> bytes" and version :: u8
    and body :: "'g \<Rightarrow> bytes" and address_of :: "'g \<Rightarrow> string"
  assumes shape: "address_of key = encode ((version # body key) @ checksum (version # body key))"
    and body_length: "trusted \<Longrightarrow> length (body key) = 20"
    and checksum_length: "trusted \<Longrightarrow> length (checksum d) = 4"
    and decodable: "trusted \<Longrightarrow> inj encode"
begin

lemma decoded:
  assumes trusted and "encode payload = address_of key"
  shows "length payload = 25 \<and> hd payload = version \<and> take 20 (tl payload) = body key \<and>
     drop 21 payload = checksum (take 21 payload)"
proof -
  have "payload = (version # body key) @ checksum (version # body key)"
    using assms decodable unfolding shape by (simp add: inj_eq)
  then show ?thesis using body_length [OF assms(1), of key] checksum_length [OF assms(1)] by simp
qed

lemma same_address:
  assumes trusted
  shows "address_of key = address_of key' \<longleftrightarrow> body key = body key'"
proof
  assume "address_of key = address_of key'"
  then have "(version # body key) @ checksum (version # body key) = (version # body key') @ checksum (version # body key')"
    using assms decodable unfolding shape by (simp add: inj_eq)
  then show "body key = body key'"
    using body_length [OF assms, of key] body_length [OF assms, of key'] by (simp add: append_eq_append_conv)
qed (simp add: shape)

end

definition neo3_script_hash :: "('g, 'h) chain_env \<Rightarrow> 'g \<Rightarrow> bytes" where
  "neo3_script_hash L key = hash160 L (neo3_script L key)"

lemma chain_env_lengths:
  assumes "chain_env_ok L"
  shows "length (keccak_256 L m) = 32" "length (sha_256 L m) = 32" "length (ripemd_160 L m) = 20" "length (blake2b_256 L m) = 32"
    "inj (base58_of L)" "inj (hex_of L)"
  using assms by (simp_all add: chain_env_ok_def)

interpretation tron: base58check
  where trusted = "chain_env_ok L" and encode = "base58_of L" and checksum = "double_sha256_checksum L" and version = "0x41"
    and body = "eth_tail L" and address_of = "compute_tron_address L"
  for L :: "('g, 'h) chain_env"
  by unfold_locales (simp_all add: compute_tron_address_def eth_tail_def double_sha256_checksum_def Let_def chain_env_lengths)

interpretation neo3: base58check
  where trusted = "chain_env_ok L" and encode = "base58_of L" and checksum = "double_sha256_checksum L"
    and version = NEO3_ADDRESS_VERSION and body = "neo3_script_hash L" and address_of = "compute_neo3_address L"
  for L :: "('g, 'h) chain_env"
  by unfold_locales (simp_all add: compute_neo3_address_def neo3_script_hash_def hash160_def double_sha256_checksum_def Let_def
      chain_env_lengths)

text \<open>
  The Base58Check addresses of TRON and NEO3. Whoever decodes one finds 25 bytes: the version, 20 bytes, and
  the first four bytes of the double SHA-256 hash of what precedes them. For TRON the 20 bytes are the
  ones of the Ethereum address of the same key, so that two keys have the same TRON address
  exactly if they have the same Ethereum address; for NEO3 they are the hash of the script, and two
  keys share an address exactly if these hashes agree.
\<close>

theorem base58check_addresses:
  assumes L: "chain_env_ok L"
  shows "(base58_of L d = compute_tron_address L key \<longrightarrow> length d = 25 \<and> hd d = 0x41 \<and>
        map ascii_lower (drop 2 (compute_eth_address L key)) = hex_of L (take 20 (tl d)) \<and>
        drop 21 d = double_sha256_checksum L (take 21 d)) \<and>
     (compute_tron_address L key = compute_tron_address L key' \<longleftrightarrow> compute_eth_address L key = compute_eth_address L key') \<and>
     (base58_of L d = compute_neo3_address L key \<longrightarrow> length d = 25 \<and> hd d = NEO3_ADDRESS_VERSION \<and>
        take 20 (tl d) = hash160 L (neo3_script L key) \<and> drop 21 d = double_sha256_checksum L (take 21 d)) \<and>
     (compute_neo3_address L key = compute_neo3_address L key' \<longleftrightarrow> hash160 L (neo3_script L key) = hash160 L (neo3_script L key'))"
  using tron.decoded [OF L, of d key] tron.same_address [OF L, of key key'] neo3.decoded [OF L, of d key]
    neo3.same_address [OF L, of key key'] eth_address_body [OF L, of key] eth_same_address [OF L, of key key']
  by (simp add: neo3_script_hash_def)

section \<open>Bech32 and hexadecimal addresses\<close>

text \<open>
  The Bech32 addresses of Bitcoin and Cosmos panic exactly for what the encoder refuses, never for
  a prefix it can parse if it accepts 20 bytes; all of them encode the same 20 bytes.
\<close>

lemma bech32_addresses:
  assumes "\<And>h d. length d = 20 \<Longrightarrow> segwit_v0 L h d \<noteq> None \<and> bech32_of L h d \<noteq> None" and "chain_env_ok L"
  shows "(compute_btc_address_with_hrp L key hrp = (Panic :: ('e, string) outcome) \<longleftrightarrow> hrp_parse L hrp = None)"
    and "(compute_cosmos_address_with_hrp L key hrp = (Panic :: ('e, string) outcome) \<longleftrightarrow> hrp_parse L hrp = None)"
    and "hrp_parse L hrp = Some h \<Longrightarrow> compute_cosmos_address_with_hrp L key hrp =
       (Ok (the (bech32_of L h (hash160 L (sec1_point L key True)))) :: ('e, string) outcome)"
proof -
  let ?d = "hash160 L (sec1_point L key True)"
  have "length ?d = 20" using assms(2) by (simp add: hash160_def chain_env_ok_def)
  then have accepts: "segwit_v0 L h ?d \<noteq> None \<and> bech32_of L h ?d \<noteq> None" for h by (rule assms(1))
  note defs = compute_btc_address_with_hrp_def compute_cosmos_address_with_hrp_def
  show "compute_btc_address_with_hrp L key hrp = (Panic :: ('e, string) outcome) \<longleftrightarrow> hrp_parse L hrp = None"
    using accepts [of "the (hrp_parse L hrp)"] by (cases "hrp_parse L hrp") (auto simp: defs)
  show "compute_cosmos_address_with_hrp L key hrp = (Panic :: ('e, string) outcome) \<longleftrightarrow> hrp_parse L hrp = None"
    using accepts [of "the (hrp_parse L hrp)"] by (cases "hrp_parse L hrp") (auto simp: defs)
  show "compute_cosmos_address_with_hrp L key hrp = (Ok (the (bech32_of L h ?d)) :: ('e, string) outcome)"
    if "hrp_parse L hrp = Some h" using accepts [of h] that by (auto simp: defs)
qed

lemma sui_address_length: "chain_env_ok L \<Longrightarrow> length (compute_sui_address L key) = 66"
  by (simp add: compute_sui_address_def chain_env_ok_def)

end
