(* ===== verification/WitnessesAddresses.thy ===== *)
theory WitnessesAddresses
  imports Concrete Addresses
begin

text \<open>
  The address properties at a concrete input: hash functions that repeat a digest of their input,
  and encoders that can be read back.
\<close>

definition sum_hash :: "nat \<Rightarrow> bytes \<Rightarrow> bytes" where
  "sum_hash n m = replicate n (sum_list m * 3 + 0x9c)"

definition demo_chain_env :: "(gf, unit) chain_env" where
  "demo_chain_env = \<lparr>sec1_point = (\<lambda>g c. 2 # replicate 31 0 @ [word_of_int (rep_gf g)]), keccak_256 = sum_hash 32,
     sha_256 = sum_hash 32, ripemd_160 = sum_hash 20, blake2b_256 = sum_hash 32, hex_of = hex_string,
     base58_of = map (\<lambda>b. char_of (unat b)), hrp_parse = (\<lambda>s. Some ()), segwit_v0 = (\<lambda>h d. Some []),
     bech32_of = (\<lambda>h d. Some [])\<rparr>"

lemma nibble_char_lower: "n < 16 \<Longrightarrow> nibble_char n \<in> set lower_hex_digits"
proof -
  have "list_all (\<lambda>n. nibble_char n \<in> set lower_hex_digits) [0..<16]" by code_simp
  then show "n < 16 \<Longrightarrow> ?thesis" by (simp add: list_all_iff)
qed

lemma unat_u8_less: "unat (x :: u8) < 256"
proof -
  have "unat x < 2 ^ LENGTH(8)" by (rule unsigned_less)
  then show ?thesis by simp
qed

lemma hex_string_lower: "length (hex_string b) = 2 * length b \<and> set (hex_string b) \<subseteq> set lower_hex_digits"
proof (induction b)
  case (Cons x b)
  have "unat x div 16 < 16" using unat_u8_less [of x] by (simp add: less_mult_imp_div_less)
  then show ?case using Cons nibble_char_lower by (simp add: hex_string_def)
qed (simp add: hex_string_def)

lemma inj_hex_string: "inj hex_string"
proof (rule injI)
  fix x y assume xy: "hex_string x = hex_string y"
  then have "length x = length y" using hex_string_lower [of x] hex_string_lower [of y] by simp
  then have "Some x = Some y" using hex_bytes_string [of x] hex_bytes_string [of y] xy by metis
  then show "x = y" by simp
qed

lemma inj_char_of_byte: "inj (\<lambda>b :: u8. char_of (unat b))"
proof (rule injI)
  fix x y :: u8
  have "of_char (char_of (unat b) :: char) = unat b" for b :: u8 using unat_u8_less [of b] by simp
  then show "char_of (unat x) = (char_of (unat y) :: char) \<Longrightarrow> x = y" by (metis unsigned_word_eqI)
qed

lemma demo_chain_env_ok: "chain_env_ok demo_chain_env"
  using hex_string_lower inj_hex_string inj_mapI [OF inj_char_of_byte]
  by (simp add: chain_env_ok_def demo_chain_env_def sum_hash_def)

theorem eth_address_checksum_witness:
  "\<exists>body. compute_eth_address demo_chain_env 1 = ''0x'' @ body \<and> length body = 40"
  using eth_address_checksum [OF demo_chain_env_ok, of 1] by blast

theorem base58check_addresses_witness:
  "compute_tron_address demo_chain_env 1 = compute_tron_address demo_chain_env 2 \<longleftrightarrow>
   compute_eth_address demo_chain_env 1 = compute_eth_address demo_chain_env 2"
  using base58check_addresses [OF demo_chain_env_ok, of "[]" 1 2] by blast

end
