(* ===== verification/Secrecy.thy ===== *)
theory Secrecy
  imports RefreshHonest
begin

text \<open>
  What fewer parties than the threshold learn of the secret from the fragments a dealer
  sends them, in key generation and in refresh (steps 1 and 2 of \<open>protocols/dkg.rs\<close>, phase 1 of
  \<open>protocols/refresh.rs\<close>): nothing. For every candidate secret there is exactly one
  polynomial that gives them the same fragments, so uniformly drawn coefficients leave every
  secret equally likely; and that remains true when shares of before and after a refresh are
  put together.
\<close>

section \<open>Polynomials are determined by their values\<close>

lemma horner_zero_coefficients:
  assumes act: "action_ok act"
  shows "length cs \<le> length xs \<Longrightarrow> distinct xs \<Longrightarrow> \<forall>a\<in>set xs. horner act cs a = 0 \<Longrightarrow> \<forall>c\<in>set cs. c = 0"
proof (induction cs arbitrary: xs)
  case (Cons c cs)
  have all: "horner act (c # cs) x = 0" for x by (rule root_bound [OF act Cons.prems])
  from all [of 0] have c: "c = 0" by (simp add: act_zero_right [OF act])
  have "horner act cs a = 0" if "a \<in> set (remove1 0 xs)" for a
    using all [of a] c that Cons.prems(2) act_cancel [OF act, of a "horner act cs a"] by simp
  moreover have "length cs \<le> length (remove1 0 xs)" using Cons.prems(1) by (simp add: length_remove1) linarith
  ultimately have "\<forall>c\<in>set cs. c = 0" using Cons.IH [of "remove1 0 xs"] Cons.prems(2) by simp
  then show ?case using c by simp
qed simp

lemma horner_inject:
  assumes act: "action_ok act" and len: "length cs = length ds" "length cs \<le> length xs" and "distinct xs"
    and same: "\<forall>a\<in>set xs. horner act cs a = horner act ds a"
  shows "cs = ds"
proof -
  let ?es = "map2 (+) cs (map uminus ds)"
  have neg: "horner act (map uminus ds) a = - horner act ds a" for a
    by (induction ds) (simp_all add: act_simps act)
  have "\<forall>a\<in>set xs. horner act ?es a = 0" using same len by (simp add: horner_add [OF act] neg)
  then have zero: "\<forall>e\<in>set ?es. e = 0" using horner_zero_coefficients [OF act, of ?es xs] assms by simp
  show ?thesis
  proof (rule nth_equalityI)
    fix i assume i: "i < length cs"
    then have "?es ! i \<in> set ?es" using len by (intro nth_mem) simp
    then have "?es ! i = 0" using zero by blast
    then show "cs ! i = ds ! i" using i len by simp
  qed (rule len(1))
qed

lemma horner_at_zero: "action_ok act \<Longrightarrow> cs \<noteq> [] \<Longrightarrow> horner act cs 0 = hd cs"
  by (cases cs) (simp_all add: act_zero_right)

text \<open>One polynomial through one point fewer than it has coefficients, for every value at 0.\<close>

lemma polynomial_for_secret:
  assumes act: "action_ok act" and d: "distinct as" "0 \<notin> set as" and t: "t = Suc (length as)"
  shows "\<exists>!cs. length cs = t \<and> hd cs = x \<and> (\<forall>a\<in>set as. horner act cs a = v a)"
proof -
  have at0: "horner act cs 0 = hd cs" if "length cs = t" for cs
    using that t horner_at_zero [OF act] by (metis length_0_conv nat.distinct(1))
  obtain cs where cs: "length cs = t" "\<forall>a\<in>set (0 # as). horner act cs a = (if a = 0 then x else v a)"
    using interpolation_exists [OF act, of "0 # as" "\<lambda>a. if a = 0 then x else v a"] d t by auto
  show ?thesis
  proof (rule ex1I [of _ cs])
    have "\<forall>a\<in>set as. horner act cs a = v a" using cs(2) d(2) by auto
    then show "length cs = t \<and> hd cs = x \<and> (\<forall>a\<in>set as. horner act cs a = v a)" using cs at0 [OF cs(1)] by simp
  next
    fix ds assume ds: "length ds = t \<and> hd ds = x \<and> (\<forall>a\<in>set as. horner act ds a = v a)"
    then have "\<forall>a\<in>set (0 # as). horner act ds a = horner act cs a" using cs(2) d(2) at0 by auto
    then show "ds = cs" using horner_inject [OF act, of ds cs "0 # as"] ds cs(1) d t by simp
  qed
qed

section \<open>The fragments of a coalition\<close>

text \<open>Fragment \<open>j - 1\<close> of a dealer is the one the caller sends to party \<open>j\<close>.\<close>

definition coalition_fragments :: "bool \<Rightarrow> parameters \<Rightarrow> u8 list \<Rightarrow> 'f::field list \<Rightarrow> ('e, 'f list) outcome" where
  "coalition_fragments oc prm js polynomial =
     and_then (dkg_step2 oc prm polynomial) (\<lambda>fragments. collect_try (\<lambda>j. index fragments (unat j - 1)) js)"

definition proper_coalition :: "parameters \<Rightarrow> u8 list \<Rightarrow> bool" where
  "proper_coalition prm js \<longleftrightarrow> distinct js \<and> Suc (length js) = unat (threshold prm) \<and> (\<forall>j\<in>set js. j \<noteq> 0 \<and> j \<le> share_count prm)"

lemma fragments_of_parties:
  fixes F :: "'f::field list"
  assumes "\<forall>j\<in>set js. j \<noteq> 0 \<and> j \<le> share_count prm" and "threshold prm \<noteq> 0" and F: "length F = unat (threshold prm)"
  shows "coalition_fragments oc prm js F = (Ok (map (\<lambda>j. horner (*) F (scalar_of_u8 j)) js) :: ('e, 'f list) outcome)"
proof -
  let ?fs = "map (\<lambda>j. horner (*) F (scalar_of_u8 j)) (u8_range_incl 1 (share_count prm)) :: 'f list"
  have step2: "dkg_step2 oc prm F = (Ok ?fs :: ('e, 'f list) outcome)" using assms(2) by (rule dkg_step2_eq [OF F])
  have "index ?fs (unat j - 1) = (Ok (horner (*) F (scalar_of_u8 j)) :: ('e, 'f) outcome)" if "j \<in> set js" for j
  proof -
    have "1 \<le> unat j" "unat j \<le> unat (share_count prm)"
      using assms(1) that by (auto simp: word_le_nat_alt Suc_le_eq unat_gt_0)
    then show ?thesis by (simp add: u8_range_incl_def del: upt_Suc)
  qed
  then have "collect_try (\<lambda>j. index ?fs (unat j - 1)) js = (Ok (map (\<lambda>j. horner (*) F (scalar_of_u8 j)) js) :: ('e, 'f list) outcome)"
    unfolding collect_try_eq_Ok_iff by (simp add: list_all2_conv_all_nth)
  then show ?thesis by (simp add: coalition_fragments_def step2)
qed

lemma coalition_fragments_eq:
  fixes F :: "'f::field list"
  assumes C: "proper_coalition prm js" and F: "length F = unat (threshold prm)"
  shows "coalition_fragments oc prm js F = (Ok (map (\<lambda>j. horner (*) F (scalar_of_u8 j)) js) :: ('e, 'f list) outcome)"
  by (rule fragments_of_parties [OF _ _ F]) (use C in \<open>auto simp: proper_coalition_def\<close>)

lemma coalition_nodes:
  assumes "proper_coalition prm js" and S: "scalars_ok (S :: ('f::field, 'g) suite)"
  shows "distinct (map scalar_of_u8 js :: 'f list)" "0 \<notin> set (map scalar_of_u8 js :: 'f list)"
    "unat (threshold prm) = Suc (length (map scalar_of_u8 js :: 'f list))"
proof -
  have zero: "scalar_of_u8 0 = (0 :: 'f)" by (simp add: scalar_of_u8_def)
  show "distinct (map scalar_of_u8 js :: 'f list)" using assms(1) inj_on_subset [OF inj_scalar_of_u8 [OF S] subset_UNIV]
    by (simp add: proper_coalition_def distinct_map)
  show "0 \<notin> set (map scalar_of_u8 js :: 'f list)"
    using assms(1) scalar_of_u8_inject [OF S, of _ 0] by (auto simp: proper_coalition_def zero)
qed (use assms(1) in \<open>simp add: proper_coalition_def\<close>)

text \<open>Same fragments, same values at the nodes.\<close>

lemma same_fragments_iff:
  assumes "proper_coalition prm js" and "length F = unat (threshold prm)" "length G = unat (threshold prm)"
  shows "coalition_fragments oc prm js G = (coalition_fragments oc prm js F :: ('e, 'f::field list) outcome) \<longleftrightarrow>
     (\<forall>a\<in>set (map scalar_of_u8 js). horner (*) G a = horner (*) F a)"
  using assms by (simp add: coalition_fragments_eq)

text \<open>
  C9: a dealer's secret is perfectly hidden from fewer parties than the threshold. Take the
  fragments that step 2 of key generation makes for any \<open>threshold - 1\<close> parties: for every candidate
  secret there is exactly one polynomial with that constant term that gives those parties the same
  fragments.
\<close>

theorem fragments_hide_secret:
  fixes F :: "'f::field list" and S :: "('f, 'g) suite"
  assumes "proper_coalition prm js" and "scalars_ok S" and "length F = unat (threshold prm)"
  shows "\<exists>!G. length G = unat (threshold prm) \<and> hd G = x \<and>
     coalition_fragments oc prm js G = (coalition_fragments oc prm js F :: (abort, 'f list) outcome)"
proof -
  note nodes = coalition_nodes [OF assms(1,2)]
  have "(length G = unat (threshold prm) \<and> hd G = x \<and>
        coalition_fragments oc prm js G = (coalition_fragments oc prm js F :: (abort, 'f list) outcome)) \<longleftrightarrow>
      (length G = unat (threshold prm) \<and> hd G = x \<and> (\<forall>a\<in>set (map scalar_of_u8 js). horner (*) G a = horner (*) F a))" for G
    using same_fragments_iff [OF assms(1,3)] by blast
  then show ?thesis using polynomial_for_secret [OF action_ok_times nodes] by simp
qed

section \<open>Before and after a refresh\<close>

text \<open>
  The shares that some parties hold after a refresh. The dealer contributed \<open>polynomial\<close> in key generation and
  \<open>correction\<close> in the refresh; \<open>rest j\<close> is the party \<open>j\<close> as it would be with what the other dealers gave it, and
  \<open>rest_correction j\<close> the sum of their corrections for it. The last phase of either refresh returns the refreshed party.
\<close>

definition refreshed_shares ::
  "bool \<Rightarrow> parameters \<Rightarrow> (u8 \<Rightarrow> ('f::field, 'g) party) \<Rightarrow> (u8 \<Rightarrow> 'f) \<Rightarrow> bytes \<Rightarrow> u8 list \<Rightarrow> 'f list \<Rightarrow> 'f list
   \<Rightarrow> ('e, 'f list) outcome" where
  "refreshed_shares oc prm rest rest_correction rsid js polynomial correction =
     and_then (coalition_fragments oc prm js polynomial) (\<lambda>fs.
     and_then (coalition_fragments oc prm js correction) (\<lambda>cs.
       Ok (map (\<lambda>(j, f, c). let p = (rest j)\<lparr>poly_point := poly_point (rest j) + f\<rparr> in
             poly_point (refreshed_party p rsid (rest_correction j + c) (zero_share_of p) (mul_senders p) (mul_receivers p)))
           (zip js (zip fs cs)))))"

lemma refreshed_shares_eq:
  fixes F :: "'f::field list"
  assumes js: "\<forall>j\<in>set js. j \<noteq> 0 \<and> j \<le> share_count prm" and t: "threshold prm \<noteq> 0"
    and F: "length F = unat (threshold prm)" and R: "length R = unat (threshold prm)"
  shows "refreshed_shares oc prm rest rc rsid js F R =
     (Ok (map (\<lambda>j. poly_point (rest j) + rc j + horner (*) (map2 (+) F R) (scalar_of_u8 j)) js) :: ('e, 'f list) outcome)"
proof -
  have zip: "map g (zip ys (zip (map u ys) (map v ys))) = map (\<lambda>j. g (j, u j, v j)) ys"
    for g :: "u8 \<times> 'f \<times> 'f \<Rightarrow> 'f" and u v ys by (induction ys) simp_all
  show ?thesis
    using F R by (simp add: refreshed_shares_def fragments_of_parties [OF js t] zip Let_def refreshed_party_simps
        horner_add [OF action_ok_times] add_ac)
qed

lemma hd_map2: "xs \<noteq> [] \<Longrightarrow> ys \<noteq> [] \<Longrightarrow> hd (map2 f xs ys) = f (hd xs) (hd ys)"
  by (cases xs; cases ys) simp_all

lemma map2_add_cancel: "length F = length R \<Longrightarrow> map2 (+) F R = (H :: 'f::field list) \<longleftrightarrow> length H = length F \<and> R = map2 (-) H F"
  by (auto simp: list_eq_iff_nth_eq eq_diff_eq add.commute)

text \<open>What phase 1 of refresh can draw: exactly the polynomials of the right length that keep the secret.\<close>

lemma draw_scalars: "fst (draw_list (\<lambda>_. random_scalar) xs r) = map (rng_scalars r) [0..<length xs]"
proof (induction xs arbitrary: r)
  case (Cons x xs)
  have "map (\<lambda>i. rng_scalars r (Suc i)) [0..<n] = map (rng_scalars r) [Suc 0..<Suc n]" for n
    by (simp add: map_Suc_upt [symmetric] del: upt_Suc)
  with Cons [of "r\<lparr>rng_scalars := (\<lambda>i. rng_scalars r (Suc i))\<rparr>"] show ?case
    by (simp add: random_scalar_def split_def Let_def upt_conv_Cons del: upt_Suc)
qed simp

definition drawable :: "u8 \<Rightarrow> 'f::field list \<Rightarrow> bool" where
  "drawable t Q \<longleftrightarrow> (\<exists>q q'. refresh_polynomial t q = (Q, q'))"

lemma drawable_iff:
  assumes "t \<noteq> 0"
  shows "drawable t Q \<longleftrightarrow> length Q = unat t \<and> hd Q = 0"
proof
  have pos: "0 < unat t" using assms by (simp add: unat_gt_0)
  assume "drawable t Q"
  then obtain q q' where q: "refresh_polynomial t q = (Q, q')" unfolding drawable_def by blast
  then have "Q = 0 # fst (draw_list (\<lambda>_. random_scalar) (u8_range 1 t) q)" by (auto simp: refresh_polynomial_def split: prod.splits)
  then show "length Q = unat t \<and> hd Q = 0" using pos by (simp add: draw_scalars length_u8_range)
next
  have pos: "0 < unat t" using assms by (simp add: unat_gt_0)
  assume Q: "length Q = unat t \<and> hd Q = 0"
  then obtain cs where cs: "Q = 0 # cs" using pos by (cases Q) auto
  let ?q = "\<lparr>rng_scalars = (\<lambda>i. cs ! i), rng_bytes = (\<lambda>_. 0), rng_bits = (\<lambda>_. False)\<rparr>"
  have "length cs = length (u8_range 1 t)" using Q by (simp add: cs length_u8_range)
  then have "fst (draw_list (\<lambda>_. random_scalar) (u8_range 1 t) ?q) = cs" by (simp add: draw_scalars map_nth flip: \<open>length cs = _\<close>)
  then show "drawable t Q" unfolding drawable_def refresh_polynomial_def by (auto simp: cs split_def Let_def intro!: exI [of _ ?q])
qed

text \<open>
  C10: refresh is proactive. Take the fragments one dealer gave any \<open>threshold - 1\<close> parties in key generation, and the shares that
  any \<open>threshold - 1\<close>, possibly other, parties hold after a refresh in which the dealer drew its correction as
  phase 1 does; everything the other dealers contributed may be known. For every candidate secret of the dealer
  there is exactly one pair of a polynomial with that secret and a correction that phase 1 can draw with the
  same fragments before and the same shares after; and after it, too, all parties hold shares of
  that secret. (The public key and the commitments to the shares are not part of these views: they determine
  the secret, up to discrete logarithms.)
\<close>

theorem refresh_hides_secret:
  fixes F :: "'f::field list" and S :: "('f, 'g) suite" and rest :: "u8 \<Rightarrow> ('f, 'g) party"
  assumes "proper_coalition prm before" "proper_coalition prm after" and "scalars_ok S"
    and "length F = unat (threshold prm)" and "refresh_polynomial (threshold prm) r = (R, r')"
  shows "\<exists>!(G, Q). length G = unat (threshold prm) \<and> secret_of G = x \<and> drawable (threshold prm) Q \<and>
     coalition_fragments oc prm before G = (coalition_fragments oc prm before F :: (abort, 'f list) outcome) \<and>
     refreshed_shares oc prm rest rc rsid after G Q = (refreshed_shares oc prm rest rc rsid after F R :: (abort, 'f list) outcome) \<and>
     (\<exists>H. length H = unat (threshold prm) \<and> secret_of H = x \<and>
        refreshed_shares oc prm rest rc rsid (u8_range_incl 1 (share_count prm)) G Q =
          (Ok (map (\<lambda>j. poly_point (rest j) + rc j + share_of H (PartyIndex j)) (u8_range_incl 1 (share_count prm))) :: (abort, 'f list) outcome))"
proof -
  let ?t = "unat (threshold prm)" and ?h = "horner (*) :: 'f list \<Rightarrow> 'f \<Rightarrow> 'f"
  have pos: "threshold prm \<noteq> 0" and ne: "0 < ?t" using assms(1) by (auto simp: proper_coalition_def)
  have "drawable (threshold prm) R" using assms(5) unfolding drawable_def by blast
  then have R: "length R = ?t" using drawable_iff [OF pos] by blast
  have sec: "secret_of cs = hd cs" if "length cs = ?t" for cs :: "'f list"
    using that ne by (cases cs) (auto simp: secret_of_def)
  have before: "\<exists>!G. length G = ?t \<and> hd G = x \<and> (\<forall>a\<in>set (map scalar_of_u8 before). ?h G a = ?h F a)"
    by (rule polynomial_for_secret [OF action_ok_times coalition_nodes [OF assms(1,3)]])
  have after: "\<exists>!H. length H = ?t \<and> hd H = x \<and> (\<forall>a\<in>set (map scalar_of_u8 after). ?h H a = ?h (map2 (+) F R) a)"
    by (rule polynomial_for_secret [OF action_ok_times coalition_nodes [OF assms(2,3)]])
  obtain G where G: "length G = ?t" "hd G = x" "\<forall>a\<in>set (map scalar_of_u8 before). ?h G a = ?h F a"
    using before by blast
  obtain H where H: "length H = ?t" "hd H = x" "\<forall>a\<in>set (map scalar_of_u8 after). ?h H a = ?h (map2 (+) F R) a"
    using after by blast
  have members: "\<forall>j\<in>set after. j \<noteq> 0 \<and> j \<le> share_count prm" using assms(2) by (simp add: proper_coalition_def)
  have shares: "refreshed_shares oc prm rest rc rsid after G' Q = (refreshed_shares oc prm rest rc rsid after F R :: (abort, 'f list) outcome) \<longleftrightarrow>
      (\<forall>a\<in>set (map scalar_of_u8 after). ?h (map2 (+) G' Q) a = ?h (map2 (+) F R) a)" if "length G' = ?t" "length Q = ?t" for G' Q
    using that R assms(4) by (simp add: refreshed_shares_eq [OF members pos])
  have heads: "hd (map2 f G' Q) = f (hd G') (hd Q)" if "length G' = ?t" "length Q = ?t" for G' Q :: "'f list" and f :: "'f \<Rightarrow> 'f \<Rightarrow> 'f"
    using hd_map2 [of G' Q f] that ne by (metis length_greater_0_conv)
  have everyone: "\<forall>j\<in>set (u8_range_incl 1 (share_count prm)). j \<noteq> 0 \<and> j \<le> share_count prm"
    by (auto simp: u8_range_incl_eq word_le_nat_alt)
  show ?thesis
  proof (rule ex1I [of _ "(G, map2 (-) H G)"], goal_cases)
    case 1
    have len: "length (map2 (-) H G) = ?t" using G(1) H(1) by simp
    have sum: "map2 (+) G (map2 (-) H G) = H" using G(1) H(1) by (simp add: map2_add_cancel)
    have "hd (map2 (-) H G) = 0" by (simp only: heads [OF H(1) G(1)] G(2) H(2) diff_self)
    then have "drawable (threshold prm) (map2 (-) H G)" unfolding drawable_iff [OF pos] using len by blast
    moreover have "refreshed_shares oc prm rest rc rsid after G (map2 (-) H G) = (refreshed_shares oc prm rest rc rsid after F R :: (abort, 'f list) outcome)"
      unfolding shares [OF G(1) len] sum by (rule H(3))
    moreover have "coalition_fragments oc prm before G = (coalition_fragments oc prm before F :: (abort, 'f list) outcome)"
      unfolding same_fragments_iff [OF assms(1,4) G(1)] by (rule G(3))
    moreover have "refreshed_shares oc prm rest rc rsid (u8_range_incl 1 (share_count prm)) G (map2 (-) H G) =
        (Ok (map (\<lambda>j. poly_point (rest j) + rc j + share_of H (PartyIndex j)) (u8_range_incl 1 (share_count prm))) :: (abort, 'f list) outcome)"
      unfolding refreshed_shares_eq [OF everyone pos G(1) len] sum by (simp add: share_of_def)
    moreover have "secret_of G = x" "secret_of H = x" using G H by (simp_all add: sec)
    ultimately show ?case using G(1) H(1) by (auto simp del: map_map)
  next
    case (2 GQ)
    obtain G' Q where GQ: "GQ = (G', Q)" by fastforce
    then have q: "length G' = ?t" "secret_of G' = x" "drawable (threshold prm) Q"
        "coalition_fragments oc prm before G' = (coalition_fragments oc prm before F :: (abort, 'f list) outcome)"
        "refreshed_shares oc prm rest rc rsid after G' Q = (refreshed_shares oc prm rest rc rsid after F R :: (abort, 'f list) outcome)"
      using 2 by simp_all
    then have Q: "length Q = ?t" "hd Q = 0" "hd G' = x" by (simp_all add: drawable_iff [OF pos] sec)
    have "G' = G" using before G q Q(3) same_fragments_iff [OF assms(1,4) q(1)] by blast
    moreover have "map2 (+) G' Q = H" using after H q Q shares [OF q(1) Q(1)] heads [OF q(1) Q(1), of "(+)"]
      by (metis (no_types, lifting) add.right_neutral length_map length_zip min.idem)
    ultimately show ?case using q(1) Q(1) by (simp add: GQ map2_add_cancel)
  qed
qed

end
