(* ===== verification/Wire.thy ===== *)
theory Wire
  imports Messages DkgHonest Signing Refresh
begin

text \<open>
  The messages of the protocols as frames: the tags of all message types (the modules
  \<open>message_tags\<close> of \<open>protocols/dkg.rs\<close>, \<open>signing.rs\<close> and \<open>refresh.rs\<close>) over the framing of
  \<open>Messages\<close>. Shown: the tags are distinct, so messages of several types in one stream never
  shadow each other; and key generation loses nothing when its messages travel as frames.
\<close>

section \<open>Tags\<close>

datatype dkg_kind = ProofCommitmentKind | ZeroShare2to4Kind | ZeroShare3to4Kind | Mul3to4Kind | Derivation2to4Kind | Derivation3to4Kind

fun dkg_tag :: "dkg_kind \<Rightarrow> u8" where
  "dkg_tag ProofCommitmentKind = 0x01"
| "dkg_tag ZeroShare2to4Kind = 0x02"
| "dkg_tag ZeroShare3to4Kind = 0x03"
| "dkg_tag Mul3to4Kind = 0x04"
| "dkg_tag Derivation2to4Kind = 0x05"
| "dkg_tag Derivation3to4Kind = 0x06"

datatype sign_kind = SignPhase1to2Kind | SignPhase2to3Kind | SignBroadcast3to4Kind

fun sign_tag :: "sign_kind \<Rightarrow> u8" where
  "sign_tag SignPhase1to2Kind = 0x10"
| "sign_tag SignPhase2to3Kind = 0x11"
| "sign_tag SignBroadcast3to4Kind = 0x12"

datatype refresh_kind = Refresh2to4Kind | Refresh3to4Kind

fun refresh_tag :: "refresh_kind \<Rightarrow> u8" where
  "refresh_tag Refresh2to4Kind = 0x20"
| "refresh_tag Refresh3to4Kind = 0x21"

datatype message_kind = DkgKind dkg_kind | SignKind sign_kind | RefreshKind refresh_kind

fun message_tag :: "message_kind \<Rightarrow> u8" where
  "message_tag (DkgKind k) = dkg_tag k"
| "message_tag (SignKind k) = sign_tag k"
| "message_tag (RefreshKind k) = refresh_tag k"

text \<open>A type of message is recognised by its tag.\<close>

lemma message_tag_inject: "message_tag k = message_tag k' \<longleftrightarrow> k = k'"
proof -
  have "dkg_tag a = dkg_tag b \<longleftrightarrow> a = b" for a b by (cases a; cases b) simp_all
  moreover have "sign_tag a = sign_tag b \<longleftrightarrow> a = b" for a b by (cases a; cases b) simp_all
  moreover have "refresh_tag a = refresh_tag b \<longleftrightarrow> a = b" for a b by (cases a; cases b) simp_all
  moreover have "dkg_tag a \<noteq> sign_tag b" "sign_tag b \<noteq> dkg_tag a" for a b by (cases a; cases b; simp)+
  moreover have "dkg_tag a \<noteq> refresh_tag b" "refresh_tag b \<noteq> dkg_tag a" for a b by (cases a; cases b; simp)+
  moreover have "sign_tag a \<noteq> refresh_tag b" "refresh_tag b \<noteq> sign_tag a" for a b by (cases a; cases b; simp)+
  ultimately show ?thesis by (cases k; cases k') simp_all
qed

section \<open>Messages\<close>

text \<open>One type for the messages of all types, as bincode sees them.\<close>

datatype ('f, 'g) message =
    ProofCommitmentMsg "('f, 'g) proof_commitment"
  | ZeroShare2to4Msg transmit_zero_2to4
  | ZeroShare3to4Msg transmit_zero_3to4
  | Mul3to4Msg "('f, 'g) transmit_mul_3to4"
  | Derivation2to4Msg broadcast_derivation_2to4
  | Derivation3to4Msg broadcast_derivation_3to4
  | SignPhase1to2Msg transmit_phase_1to2
  | SignPhase2to3Msg "('f, 'g) transmit_phase_2to3"
  | SignBroadcast3to4Msg "'f broadcast_3to4"
  | Refresh2to4Msg transmit_refresh_2to4
  | Refresh3to4Msg transmit_refresh_3to4

fun kind_of :: "('f, 'g) message \<Rightarrow> message_kind" where
  "kind_of (ProofCommitmentMsg m) = DkgKind ProofCommitmentKind"
| "kind_of (ZeroShare2to4Msg m) = DkgKind ZeroShare2to4Kind"
| "kind_of (ZeroShare3to4Msg m) = DkgKind ZeroShare3to4Kind"
| "kind_of (Mul3to4Msg m) = DkgKind Mul3to4Kind"
| "kind_of (Derivation2to4Msg m) = DkgKind Derivation2to4Kind"
| "kind_of (Derivation3to4Msg m) = DkgKind Derivation3to4Kind"
| "kind_of (SignPhase1to2Msg m) = SignKind SignPhase1to2Kind"
| "kind_of (SignPhase2to3Msg m) = SignKind SignPhase2to3Kind"
| "kind_of (SignBroadcast3to4Msg m) = SignKind SignBroadcast3to4Kind"
| "kind_of (Refresh2to4Msg m) = RefreshKind Refresh2to4Kind"
| "kind_of (Refresh3to4Msg m) = RefreshKind Refresh3to4Kind"

text \<open>bincode, by type of message; the number is the limit of bytes to read.\<close>

record ('f, 'g) bincode =
  bin_serialize :: "('f, 'g) message \<Rightarrow> (string, bytes) outcome"
  bin_deserialize :: "message_kind \<Rightarrow> nat \<Rightarrow> bytes \<Rightarrow> (string, ('f, 'g) message) outcome"

definition type_of :: "('f, 'g) bincode \<Rightarrow> message_kind \<Rightarrow> ('f, 'g) message message_type" where
  "type_of B k = \<lparr>msg_tag = message_tag k, serialize = bin_serialize B, deserialize = bin_deserialize B k\<rparr>"

text \<open>Documented behaviour, for the messages at hand: they fit a frame, and are read back as their own type.\<close>

definition wire_ok :: "('f, 'g) bincode \<Rightarrow> ('f, 'g) message \<Rightarrow> bool" where
  "wire_ok B m \<longleftrightarrow> can_send (type_of B (kind_of m)) m"

definition typed :: "('f, 'g) bincode \<Rightarrow> ('f, 'g) message \<Rightarrow> ('f, 'g) message message_type \<times> ('f, 'g) message" where
  "typed B m = (type_of B (kind_of m), m)"

definition wire_p2p :: "('f, 'g) bincode \<Rightarrow> (u8 \<times> ('f, 'g) message) list \<Rightarrow> phase_output" where
  "wire_p2p B ms = send_each (map (\<lambda>(to, m). (to, typed B m)) ms) phase_output_new"

definition wire_broadcast :: "('f, 'g) bincode \<Rightarrow> ('f, 'g) message list \<Rightarrow> phase_output" where
  "wire_broadcast B ms = broadcast_each (map (typed B) ms) phase_output_new"

section \<open>Round trips\<close>

lemma msg_tag_type_of: "msg_tag (type_of B k) = message_tag k"
  by (simp add: type_of_def)

lemma first_for_typed:
  assumes "(to, m) \<in> set ms" and "\<And>m'. (to, m') \<in> set ms \<Longrightarrow> kind_of m' = kind_of m \<Longrightarrow> m' = m"
  shows "first_for to (msg_tag (type_of B (kind_of m))) (map (\<lambda>(to, m). (to, typed B m)) ms) = Some (to, type_of B (kind_of m), m)"
  using assms
proof (induction ms)
  case (Cons x ms)
  obtain i m' where x: "x = (i, m')" by fastforce
  show ?case
  proof (cases "i = to \<and> kind_of m' = kind_of m")
    case True
    then have "m' = m" using Cons.prems(2) [of m'] by (simp add: x)
    then show ?thesis using True by (simp add: first_for_def x typed_def msg_tag_type_of)
  next
    case False
    then have "(to, m) \<in> set ms" using Cons.prems(1) by (auto simp: x)
    from Cons.IH [OF this] Cons.prems(2) show ?thesis
      using False by (auto simp: first_for_def x typed_def msg_tag_type_of message_tag_inject)
  qed
qed simp

lemma first_for_typed_None:
  assumes "\<And>m'. (to, m') \<in> set ms \<Longrightarrow> kind_of m' \<noteq> k"
  shows "first_for to (msg_tag (type_of B k)) (map (\<lambda>(to, m). (to, typed B m)) ms) = None"
  using assms by (induction ms) (auto simp: first_for_def typed_def msg_tag_type_of message_tag_inject)

lemma wire_ok_typed: "\<forall>(i, m)\<in>set ms. wire_ok B m \<Longrightarrow> \<forall>(i, T, m)\<in>set (map (\<lambda>(to, m). (to, typed B m)) ms). can_send T m"
  by (auto simp: wire_ok_def typed_def)

lemma wire_p2p_read:
  assumes ok: "\<forall>(i, m)\<in>set ms. wire_ok B m"
    and inp: "btree_get (in_p2p inp) who = btree_get (out_p2p (wire_p2p B ms)) to"
    and m: "(to, m) \<in> set ms" "\<And>m'. (to, m') \<in> set ms \<Longrightarrow> kind_of m' = kind_of m \<Longrightarrow> m' = m"
  shows "get_p2p (type_of B (kind_of m)) inp who = Ok m"
  unfolding get_p2p_found [OF wire_ok_typed [OF ok] inp [unfolded wire_p2p_def]]
  using found_addressed(1) [OF wire_ok_typed [OF ok] first_for_typed [OF m]] by simp

lemma wire_p2p_none:
  assumes ok: "\<forall>(i, m)\<in>set ms. wire_ok B m"
    and inp: "btree_get (in_p2p inp) who = btree_get (out_p2p (wire_p2p B ms)) to"
    and k: "\<And>m'. (to, m') \<in> set ms \<Longrightarrow> kind_of m' \<noteq> k"
  shows "get_p2p (type_of B k) inp who = Err (NotFound who)"
  unfolding get_p2p_found [OF wire_ok_typed [OF ok] inp [unfolded wire_p2p_def]]
  using found_addressed(2) [OF wire_ok_typed [OF ok] first_for_typed_None [OF k]] by simp

lemma wire_broadcast_read:
  assumes ok: "\<forall>m\<in>set ms. wire_ok B m"
    and inp: "btree_get (in_broadcasts inp) who = Some (concat (out_broadcasts (wire_broadcast B ms)))"
    and m: "m \<in> set ms" "\<And>m'. m' \<in> set ms \<Longrightarrow> kind_of m' = kind_of m \<Longrightarrow> m' = m"
  shows "get_broadcast (type_of B (kind_of m)) inp who = Ok m"
proof -
  have typed: "map (\<lambda>x. (0, x)) (map (typed B) ms) = map (\<lambda>(to, m). (to, typed B m)) (map (\<lambda>m. (0 :: u8, m)) ms)" by simp
  have "\<forall>(T, m)\<in>set (map (typed B) ms). can_send T m" using ok by (auto simp: wire_ok_def typed_def)
  note get = get_broadcast_found [OF this inp [unfolded wire_broadcast_def], where to = 0, unfolded typed]
  have ok': "\<forall>(i, m)\<in>set (map (\<lambda>m. (0 :: u8, m)) ms). wire_ok B m" using ok by simp
  have "first_for 0 (msg_tag (type_of B (kind_of m))) (map (\<lambda>(to, m). (to, typed B m)) (map (\<lambda>m. (0 :: u8, m)) ms)) =
      Some (0, type_of B (kind_of m), m)"
    by (rule first_for_typed) (use m in auto)
  from found_addressed(1) [OF wire_ok_typed [OF ok'] this] show ?thesis unfolding get by simp
qed

section \<open>Key generation over frames\<close>

text \<open>
  All messages one party sends in key generation: three broadcasts, and three messages for each
  other party, which it may add in any order.
\<close>

definition dkg_broadcasts ::
  "'f \<times> ('f, 'g) proof_commitment \<times> transmit_zero_2to4 list \<times> broadcast_derivation_2to4
   \<Rightarrow> (party_index, keep_zero_3to4) btree_map \<times> transmit_zero_3to4 list
        \<times> (party_index, ('f, 'g) keep_mul_3to4) btree_map \<times> ('f, 'g) transmit_mul_3to4 list \<times> broadcast_derivation_3to4
   \<Rightarrow> ('f, 'g) message list" where
  "dkg_broadcasts o2 o3 = [ProofCommitmentMsg (proof_out o2), Derivation2to4Msg (chain2_out o2), Derivation3to4Msg (chain3_out o3)]"

definition dkg_transmits ::
  "'f \<times> ('f, 'g) proof_commitment \<times> transmit_zero_2to4 list \<times> broadcast_derivation_2to4
   \<Rightarrow> (party_index, keep_zero_3to4) btree_map \<times> transmit_zero_3to4 list
        \<times> (party_index, ('f, 'g) keep_mul_3to4) btree_map \<times> ('f, 'g) transmit_mul_3to4 list \<times> broadcast_derivation_3to4
   \<Rightarrow> (u8 \<times> ('f, 'g) message) list" where
  "dkg_transmits o2 o3 =
     map (\<lambda>m. (as_u8 (receiver (z2_parties m)), ZeroShare2to4Msg m)) (seeds2_out o2) @
     map (\<lambda>m. (as_u8 (receiver (z3_parties m)), ZeroShare3to4Msg m)) (seeds3_out o3) @
     map (\<lambda>m. (as_u8 (receiver (tm_parties m)), Mul3to4Msg m)) (mul_out o3)"

text \<open>What one party has for another: one message of each type.\<close>

lemma dkg_transmits_for:
  assumes sent: "dkg_sent S prm sid j o2 o3 sd M2 M3 L N" and i: "i \<in> set (others (share_count prm) j)"
  shows "(as_u8 i, m) \<in> set (dkg_transmits o2 o3) \<longleftrightarrow> m \<in> {ZeroShare2to4Msg (M2 i), ZeroShare3to4Msg (M3 i), Mul3to4Msg (N i)}"
proof -
  have inj: "as_u8 i = as_u8 c \<longleftrightarrow> i = c" for c by (auto intro: party_index.expand)
  have outs: "seeds2_out o2 = map M2 (others (share_count prm) j)" "seeds3_out o3 = map M3 (others (share_count prm) j)"
    "mul_out o3 = map N (others (share_count prm) j)"
    and to: "\<And>c. c \<in> set (others (share_count prm) j) \<Longrightarrow>
      receiver (z2_parties (M2 c)) = c \<and> receiver (z3_parties (M3 c)) = c \<and> receiver (tm_parties (N c)) = c"
    using sent by (auto simp: dkg_sent_def seeds_sent_def muls_sent_def)
  show ?thesis unfolding dkg_transmits_def outs using to i by (auto simp: inj)
qed

lemma dkg_wire_read:
  fixes S :: "('f::field, 'g::ab_group_add) suite"
  assumes sent: "dkg_sent S prm sid j o2 o3 sd M2 M3 L N" and i: "i \<in> set (others (share_count prm) j)"
    and ms: "mset ms = mset (dkg_transmits o2 o3)" and ok: "\<forall>(i, m)\<in>set ms. wire_ok B m"
    and inp: "btree_get (in_p2p inp) who = btree_get (out_p2p (wire_p2p B ms)) (as_u8 i)"
  shows "get_p2p (type_of B (DkgKind ZeroShare2to4Kind)) inp who = Ok (ZeroShare2to4Msg (M2 i))"
    and "get_p2p (type_of B (DkgKind ZeroShare3to4Kind)) inp who = Ok (ZeroShare3to4Msg (M3 i))"
    and "get_p2p (type_of B (DkgKind Mul3to4Kind)) inp who = Ok (Mul3to4Msg (N i))"
proof -
  have mem: "(as_u8 i, m) \<in> set ms \<longleftrightarrow> m \<in> {ZeroShare2to4Msg (M2 i), ZeroShare3to4Msg (M3 i), Mul3to4Msg (N i)}" for m
    using dkg_transmits_for [OF sent i] mset_eq_setD [OF ms] by simp
  have read: "get_p2p (type_of B (kind_of m)) inp who = Ok m" if "m \<in> {ZeroShare2to4Msg (M2 i), ZeroShare3to4Msg (M3 i), Mul3to4Msg (N i)}" for m
    by (rule wire_p2p_read [OF ok inp]) (use that in \<open>auto simp: mem\<close>)
  show "get_p2p (type_of B (DkgKind ZeroShare2to4Kind)) inp who = Ok (ZeroShare2to4Msg (M2 i))"
    "get_p2p (type_of B (DkgKind ZeroShare3to4Kind)) inp who = Ok (ZeroShare3to4Msg (M3 i))"
    "get_p2p (type_of B (DkgKind Mul3to4Kind)) inp who = Ok (Mul3to4Msg (N i))"
    using read [of "ZeroShare2to4Msg (M2 i)"] read [of "ZeroShare3to4Msg (M3 i)"] read [of "Mul3to4Msg (N i)"] by simp_all
qed

lemma dkg_wire_broadcast:
  assumes bs: "mset bs = mset (dkg_broadcasts o2 o3)" and ok: "\<forall>m\<in>set bs. wire_ok B m"
    and inp: "btree_get (in_broadcasts inp) who = Some (concat (out_broadcasts (wire_broadcast B bs)))"
  shows "get_broadcast (type_of B (DkgKind ProofCommitmentKind)) inp who = Ok (ProofCommitmentMsg (proof_out o2))"
    and "get_broadcast (type_of B (DkgKind Derivation2to4Kind)) inp who = Ok (Derivation2to4Msg (chain2_out o2))"
    and "get_broadcast (type_of B (DkgKind Derivation3to4Kind)) inp who = Ok (Derivation3to4Msg (chain3_out o3))"
proof -
  have mem: "set bs = {ProofCommitmentMsg (proof_out o2), Derivation2to4Msg (chain2_out o2), Derivation3to4Msg (chain3_out o3)}"
    using mset_eq_setD [OF bs] by (simp add: dkg_broadcasts_def)
  have read: "get_broadcast (type_of B (kind_of m)) inp who = Ok m" if "m \<in> set bs" for m
    by (rule wire_broadcast_read [OF ok inp]) (use that in \<open>auto simp: mem\<close>)
  show "get_broadcast (type_of B (DkgKind ProofCommitmentKind)) inp who = Ok (ProofCommitmentMsg (proof_out o2))"
    "get_broadcast (type_of B (DkgKind Derivation2to4Kind)) inp who = Ok (Derivation2to4Msg (chain2_out o2))"
    "get_broadcast (type_of B (DkgKind Derivation3to4Kind)) inp who = Ok (Derivation3to4Msg (chain3_out o3))"
    using read [of "ProofCommitmentMsg (proof_out o2)"] read [of "Derivation2to4Msg (chain2_out o2)"]
      read [of "Derivation3to4Msg (chain3_out o3)"] by (simp_all add: mem)
qed

lemma btree_get_map: "j \<in> set ps \<Longrightarrow> btree_get (map (\<lambda>j. (j, b j)) ps) j = Some (b j)"
  by (simp add: btree_get_def map_of_map_restrict)

text \<open>One message of each type from everyone, in the order of the indices, is a complete delivery.\<close>

lemma dkg_sent_delivered:
  fixes S :: "('f::field, 'g::ab_group_add) suite"
  assumes ps: "ps = all_parties (share_count prm)" and i: "i \<in> set ps"
    and sent: "\<And>j. j \<in> set ps \<Longrightarrow> dkg_sent S prm sid j (out2 j) (out3 j) (sd j) (M2 j) (M3 j) (L j) (N j)"
  shows "dkg_delivered prm out2 out3 i (map (\<lambda>j. proof_out (out2 j)) ps) (map (\<lambda>j. M2 j i) (others (share_count prm) i))
     (map (\<lambda>j. M3 j i) (others (share_count prm) i)) (map (\<lambda>j. N j i) (others (share_count prm) i))
     (map (\<lambda>j. (j, chain2_out (out2 j))) ps) (map (\<lambda>j. (j, chain3_out (out3 j))) ps)"
proof -
  let ?n = "share_count prm"
  have outs: "seeds2_out (out2 j) = map (M2 j) (others ?n j)" "seeds3_out (out3 j) = map (M3 j) (others ?n j)"
      "mul_out (out3 j) = map (N j) (others ?n j)" if "j \<in> set ps" for j
    using sent [OF that] by (simp_all add: dkg_sent_def seeds_sent_def muls_sent_def)
  have to: "receiver (z2_parties (M2 j c)) = c" "receiver (z3_parties (M3 j c)) = c" "receiver (tm_parties (N j c)) = c"
    if "j \<in> set ps" "c \<in> set (others ?n j)" for j c
    using sent [OF that(1)] that(2) by (auto simp: dkg_sent_def seeds_sent_def muls_sent_def)
  have cs: "distinct (others ?n j) \<and> set (others ?n j) = set ps - {j}" for j by (simp add: others_simps ps)
  have others: "filter (\<lambda>j. j \<noteq> i) ps = others ?n i" by (simp add: others_def ps)
  have "addressed_to z2_parties ps (\<lambda>j. seeds2_out (out2 j)) i = map (\<lambda>j. M2 j i) (others ?n i)"
    unfolding others [symmetric] by (rule addressed_to_eq [where cs = "others ?n" and M = M2, OF conjI]) (use outs cs to i in simp_all)
  moreover have "addressed_to z3_parties ps (\<lambda>j. seeds3_out (out3 j)) i = map (\<lambda>j. M3 j i) (others ?n i)"
    unfolding others [symmetric] by (rule addressed_to_eq [where cs = "others ?n" and M = M3, OF conjI]) (use outs cs to i in simp_all)
  moreover have "addressed_to tm_parties ps (\<lambda>j. mul_out (out3 j)) i = map (\<lambda>j. N j i) (others ?n i)"
    unfolding others [symmetric] by (rule addressed_to_eq [where cs = "others ?n" and M = N, OF conjI]) (use outs cs to i in simp_all)
  ultimately show ?thesis unfolding dkg_delivered_def Let_def ps [symmetric] by (intro conjI ballI) (simp_all add: btree_get_map)
qed

text \<open>
  C32: key generation loses nothing when its messages travel as frames. When every party frames all it sends, in any order,
  and a party is handed the others' streams for it and everyone's broadcasts, then reading
  one message of each type from each sender succeeds, and what it has read is a complete delivery of the
  messages of the first three phases, which is what phase 4 asks for.
\<close>

theorem dkg_over_wire:
  fixes S :: "('f::field, 'g::ab_group_add) suite"
  assumes rounds: "dkg_rounds S oc prm sid r0 out2 out3" and ps: "ps = all_parties (share_count prm)" and i: "i \<in> set ps"
    and ms: "\<forall>j\<in>set ps. mset (ms j) = mset (dkg_transmits (out2 j) (out3 j)) \<and> (\<forall>(i, m)\<in>set (ms j). wire_ok B m)"
    and bs: "\<forall>j\<in>set ps. mset (bs j) = mset (dkg_broadcasts (out2 j) (out3 j)) \<and> (\<forall>m\<in>set (bs j). wire_ok B m)"
    and p2p: "\<forall>j\<in>set (others (share_count prm) i). btree_get (in_p2p inp) (as_u8 j) = btree_get (out_p2p (wire_p2p B (ms j))) (as_u8 i)"
    and broadcast: "\<forall>j\<in>set ps. btree_get (in_broadcasts inp) (as_u8 j) = Some (concat (out_broadcasts (wire_broadcast B (bs j))))"
  shows "\<exists>pc m2 m3 mm b2 b3.
     (\<forall>j\<in>set ps. get_broadcast (type_of B (DkgKind ProofCommitmentKind)) inp (as_u8 j) = Ok (ProofCommitmentMsg (pc j)) \<and>
        get_broadcast (type_of B (DkgKind Derivation2to4Kind)) inp (as_u8 j) = Ok (Derivation2to4Msg (b2 j)) \<and>
        get_broadcast (type_of B (DkgKind Derivation3to4Kind)) inp (as_u8 j) = Ok (Derivation3to4Msg (b3 j))) \<and>
     (\<forall>j\<in>set (others (share_count prm) i).
        get_p2p (type_of B (DkgKind ZeroShare2to4Kind)) inp (as_u8 j) = Ok (ZeroShare2to4Msg (m2 j)) \<and>
        get_p2p (type_of B (DkgKind ZeroShare3to4Kind)) inp (as_u8 j) = Ok (ZeroShare3to4Msg (m3 j)) \<and>
        get_p2p (type_of B (DkgKind Mul3to4Kind)) inp (as_u8 j) = Ok (Mul3to4Msg (mm j))) \<and>
     dkg_delivered prm out2 out3 i (map pc ps) (map m2 (others (share_count prm) i)) (map m3 (others (share_count prm) i))
       (map mm (others (share_count prm) i)) (map (\<lambda>j. (j, b2 j)) ps) (map (\<lambda>j. (j, b3 j)) ps)"
proof -
  let ?n = "share_count prm"
  have "\<forall>j\<in>set ps. \<exists>sd M2 M3 L N. dkg_sent S prm sid j (out2 j) (out3 j) sd M2 M3 L N"
    using dkg_rounds_sent [OF rounds] ps by blast
  then obtain sd M2 M3 L N where sent: "\<And>j. j \<in> set ps \<Longrightarrow> dkg_sent S prm sid j (out2 j) (out3 j) (sd j) (M2 j) (M3 j) (L j) (N j)"
    by metis
  have read: "get_p2p (type_of B (DkgKind ZeroShare2to4Kind)) inp (as_u8 j) = Ok (ZeroShare2to4Msg (M2 j i)) \<and>
      get_p2p (type_of B (DkgKind ZeroShare3to4Kind)) inp (as_u8 j) = Ok (ZeroShare3to4Msg (M3 j i)) \<and>
      get_p2p (type_of B (DkgKind Mul3to4Kind)) inp (as_u8 j) = Ok (Mul3to4Msg (N j i))" if j: "j \<in> set (others ?n i)" for j
  proof -
    have j': "j \<in> set ps" "i \<in> set (others ?n j)" using others_swap [OF i [unfolded ps] j] ps by simp_all
    have "mset (ms j) = mset (dkg_transmits (out2 j) (out3 j))" "\<forall>(i, m)\<in>set (ms j). wire_ok B m"
      "btree_get (in_p2p inp) (as_u8 j) = btree_get (out_p2p (wire_p2p B (ms j))) (as_u8 i)" using ms p2p j j'(1) by auto
    note r = dkg_wire_read [OF sent [OF j'(1)] j'(2) this]
    show ?thesis using r by blast
  qed
  have casts: "get_broadcast (type_of B (DkgKind ProofCommitmentKind)) inp (as_u8 j) = Ok (ProofCommitmentMsg (proof_out (out2 j))) \<and>
      get_broadcast (type_of B (DkgKind Derivation2to4Kind)) inp (as_u8 j) = Ok (Derivation2to4Msg (chain2_out (out2 j))) \<and>
      get_broadcast (type_of B (DkgKind Derivation3to4Kind)) inp (as_u8 j) = Ok (Derivation3to4Msg (chain3_out (out3 j)))"
    if j: "j \<in> set ps" for j
    using dkg_wire_broadcast [of "bs j" "out2 j" "out3 j" B inp "as_u8 j"] bs broadcast j by blast
  have delivered: "dkg_delivered prm out2 out3 i (map (\<lambda>j. proof_out (out2 j)) ps) (map (\<lambda>j. M2 j i) (others ?n i)) (map (\<lambda>j. M3 j i) (others ?n i))
       (map (\<lambda>j. N j i) (others ?n i)) (map (\<lambda>j. (j, chain2_out (out2 j))) ps) (map (\<lambda>j. (j, chain3_out (out3 j))) ps)"
    by (rule dkg_sent_delivered [OF ps i]) (rule sent)
  show ?thesis
    by (rule exI [of _ "\<lambda>j. proof_out (out2 j)"], rule exI [of _ "\<lambda>j. M2 j i"], rule exI [of _ "\<lambda>j. M3 j i"],
        rule exI [of _ "\<lambda>j. N j i"], rule exI [of _ "\<lambda>j. chain2_out (out2 j)"], rule exI [of _ "\<lambda>j. chain3_out (out3 j)"])
      (intro conjI ballI read casts delivered; (rule read casts delivered; assumption)?)
qed

end
