(* ===== verification/WitnessesWire.thy ===== *)
theory WitnessesWire
  imports WitnessesProtocols Wire Secrecy
begin

text \<open>
  Instances of the properties of secrecy and of frames: two parties over the field of 257 elements.
\<close>

section \<open>Secrecy\<close>

lemma pair_coalitions: "proper_coalition two_of_two [1]" "proper_coalition two_of_two [2]"
  by (simp_all add: proper_coalition_def two_of_two_def)

theorem fragments_hide_secret_witness:
  "\<exists>!G. length G = 2 \<and> hd G = (5 :: gf) \<and>
     coalition_fragments True two_of_two [1] G = (coalition_fragments True two_of_two [1] [1, 2] :: (abort, gf list) outcome)"
  using fragments_hide_secret [OF pair_coalitions(1) suite_okD(3) [OF flat_suite_ok], of "[1, 2]" 5 True]
  by (simp add: two_of_two_def)

theorem refresh_hides_secret_witness:
  "\<exists>R. \<exists>!(G, Q). length G = 2 \<and> secret_of G = (5 :: gf) \<and> drawable (threshold two_of_two) Q \<and>
     coalition_fragments True two_of_two [1] G = (coalition_fragments True two_of_two [1] [1, 2] :: (abort, gf list) outcome) \<and>
     refreshed_shares True two_of_two (\<lambda>_. pair_member (PartyIndex 1)) (\<lambda>_. 4) [2] [2] G Q =
       (refreshed_shares True two_of_two (\<lambda>_. pair_member (PartyIndex 1)) (\<lambda>_. 4) [2] [2] [1, 2] R :: (abort, gf list) outcome) \<and>
     (\<exists>H. length H = 2 \<and> secret_of H = 5 \<and>
        refreshed_shares True two_of_two (\<lambda>_. pair_member (PartyIndex 1)) (\<lambda>_. 4) [2] (u8_range_incl 1 (share_count two_of_two)) G Q =
          (Ok (map (\<lambda>j. poly_point (pair_member (PartyIndex 1)) + 4 + share_of H (PartyIndex j)) (u8_range_incl 1 (share_count two_of_two)))
             :: (abort, gf list) outcome))"
proof -
  obtain R r' where R: "refresh_polynomial (threshold two_of_two) gf_rng = (R, r')" by (metis prod.exhaust)
  have t: "unat (threshold two_of_two) = 2" "length [1, 2 :: gf] = unat (threshold two_of_two)" by (simp_all add: two_of_two_def)
  show ?thesis
    by (rule exI [of _ R], rule refresh_hides_secret [OF pair_coalitions suite_okD(3) [OF flat_suite_ok] t(2) R, unfolded t(1)])
qed

section \<open>Frames\<close>

text \<open>A codec for a list of at most 256 messages: the position in the list, in one byte.\<close>

definition list_bincode :: "('f, 'g) message list \<Rightarrow> ('f, 'g) bincode" where
  "list_bincode Ms = \<lparr>bin_serialize = (\<lambda>m. Ok [of_nat (length (takeWhile (\<lambda>x. x \<noteq> m) Ms))]),
     bin_deserialize = (\<lambda>k n b. Ok (Ms ! unat (hd b)))\<rparr>"

lemma list_bincode_ok:
  assumes "length Ms \<le> 256" and "m \<in> set Ms"
  shows "wire_ok (list_bincode Ms) m"
proof -
  let ?n = "length (takeWhile (\<lambda>x. x \<noteq> m) Ms)"
  have "length (takeWhile (\<lambda>x. x \<noteq> m) xs) < length xs" if "m \<in> set xs" for xs using that by (induction xs) auto
  then have n: "?n < length Ms" using assms(2) .
  then have "Ms ! ?n = m" using nth_length_takeWhile [OF n] by simp
  moreover have "unat (of_nat ?n :: u8) = ?n" using n assms(1) by (intro unat_of_nat_u8) simp
  ultimately show ?thesis by (simp add: wire_ok_def can_send_def type_of_def list_bincode_def)
qed

definition pair_messages ::
  "(party_index \<Rightarrow> gf \<times> (gf, gf) proof_commitment \<times> transmit_zero_2to4 list \<times> broadcast_derivation_2to4)
   \<Rightarrow> (party_index \<Rightarrow> (party_index, keep_zero_3to4) btree_map \<times> transmit_zero_3to4 list
        \<times> (party_index, (gf, gf) keep_mul_3to4) btree_map \<times> (gf, gf) transmit_mul_3to4 list \<times> broadcast_derivation_3to4)
   \<Rightarrow> (gf, gf) message list" where
  "pair_messages out2 out3 = concat (map (\<lambda>j. dkg_broadcasts (out2 j) (out3 j) @ map snd (dkg_transmits (out2 j) (out3 j))) two_all)"

lemma pair_messages_length:
  assumes r: "dkg_rounds flat_suite oc two_of_two sid (\<lambda>_. gf_rng) out2 out3"
  shows "length (pair_messages out2 out3) \<le> 256"
proof -
  have others: "others (share_count two_of_two) (PartyIndex 1) = [PartyIndex 2]" "others (share_count two_of_two) (PartyIndex 2) = [PartyIndex 1]"
    by (simp_all add: others_def two_of_two_def two_parties)
  have "length (dkg_transmits (out2 j) (out3 j)) = 3" if j: "j \<in> set two_all" for j
  proof -
    obtain sd M2 M3 L N where "dkg_sent flat_suite two_of_two sid j (out2 j) (out3 j) sd M2 M3 L N"
      using dkg_rounds_sent [OF r j] by blast
    moreover have "length (others (share_count two_of_two) j) = 1" using j others by (auto simp: two_of_two_def two_parties)
    ultimately show ?thesis by (simp add: dkg_transmits_def dkg_sent_def seeds_sent_def muls_sent_def)
  qed
  then show ?thesis by (simp add: pair_messages_def two_of_two_def two_parties dkg_broadcasts_def)
qed

theorem dkg_over_wire_witness:
  "\<exists>out2 out3 z2 z3 mr b2 b3 pcs. dkg_rounds flat_suite True two_of_two [1] (\<lambda>_. gf_rng) out2 out3 \<and>
     dkg_delivered two_of_two out2 out3 (PartyIndex 1) pcs z2 z3 mr b2 b3 \<and> length pcs = 2"
proof -
  obtain out2 out3 where r: "dkg_rounds flat_suite True two_of_two [1] (\<lambda>_. gf_rng) out2 out3"
    using pair_dkg [of True "[1]"] by blast
  let ?B = "list_bincode (pair_messages out2 out3)"
  let ?ms = "\<lambda>j. dkg_transmits (out2 j) (out3 j)" and ?bs = "\<lambda>j. dkg_broadcasts (out2 j) (out3 j)"
  have all: "two_all = [PartyIndex 1, PartyIndex 2]" by (simp add: two_of_two_def two_parties)
  have o: "others (share_count two_of_two) (PartyIndex 1) = [PartyIndex 2]" by (simp add: others_def all)
  have ok: "wire_ok ?B m" if "m \<in> set (pair_messages out2 out3)" for m
    using list_bincode_ok [OF pair_messages_length [OF r] that] .
  have ms: "\<forall>j\<in>set two_all. mset (?ms j) = mset (dkg_transmits (out2 j) (out3 j)) \<and> (\<forall>(i, m)\<in>set (?ms j). wire_ok ?B m)"
    using ok by (force simp: pair_messages_def)
  have bs: "\<forall>j\<in>set two_all. mset (?bs j) = mset (dkg_broadcasts (out2 j) (out3 j)) \<and> (\<forall>m\<in>set (?bs j). wire_ok ?B m)"
    using ok by (auto simp: pair_messages_def)
  let ?cast = "\<lambda>j. concat (out_broadcasts (wire_broadcast ?B (?bs j)))"
  let ?stream = "btree_get (out_p2p (wire_p2p ?B (?ms (PartyIndex 2)))) 1"
  let ?inp = "\<lparr>in_broadcasts = [(1, ?cast (PartyIndex 1)), (2, ?cast (PartyIndex 2))],
     in_p2p = (case ?stream of None \<Rightarrow> [] | Some s \<Rightarrow> [(2, s)])\<rparr>"
  have p2p: "\<forall>j\<in>set (others (share_count two_of_two) (PartyIndex 1)).
      btree_get (in_p2p ?inp) (as_u8 j) = btree_get (out_p2p (wire_p2p ?B (?ms j))) (as_u8 (PartyIndex 1))"
    by (simp add: o btree_get_def split: option.split)
  have casts: "\<forall>j\<in>set two_all. btree_get (in_broadcasts ?inp) (as_u8 j) = Some (?cast j)"
    by (simp add: all btree_get_def)
  have "PartyIndex 1 \<in> set two_all" by (simp add: all)
  from dkg_over_wire [OF r refl this ms bs p2p casts] obtain pc m2 m3 mm b2 b3 where
    "dkg_delivered two_of_two out2 out3 (PartyIndex 1) (map pc two_all) (map m2 (others (share_count two_of_two) (PartyIndex 1)))
       (map m3 (others (share_count two_of_two) (PartyIndex 1))) (map mm (others (share_count two_of_two) (PartyIndex 1)))
       (map (\<lambda>j. (j, b2 j)) two_all) (map (\<lambda>j. (j, b3 j)) two_all)" by blast
  moreover have "length (map pc two_all) = 2" by (simp add: all)
  ultimately show ?thesis using r by blast
qed

end
