(* ===== verification/Agreement.thy ===== *)
theory Agreement
  imports DkgHonest
begin

text \<open>
  What two parties of one key generation have in common, whatever the others sent them: if
  they saw the same broadcasts, then they end with the same public data. And what the checks of
  phase 4 leave open: the entry under the party's own index among the proofs is taken as it is, and
  the last entry under an index counts, so that the key need not fit the party's share.
\<close>

section \<open>Agreement\<close>

lemma btree_ext:
  assumes "btree_wf m" "btree_wf m'" and "\<And>k. btree_get m k = btree_get m' k"
  shows "m = (m' :: (party_index, 'v) btree_map)"
proof -
  have keys: "set (btree_keys m) = set (btree_keys m')"
    using assms(3) by (simp add: set_eq_iff btree_keys_contains btree_contains_iff)
  have sorted: "sorted_wrt (<) (btree_keys m')" using assms(2) by (simp add: btree_wf_def btree_keys_def)
  have "\<exists>v. btree_get m' j = Some v" if "j \<in> set (btree_keys m')" for j
    using that by (simp add: btree_keys_contains btree_contains_iff)
  then obtain K where K: "\<And>j. j \<in> set (btree_keys m') \<Longrightarrow> btree_get m' j = Some (K j)" by metis
  have "m = map (\<lambda>j. (j, K j)) (btree_keys m')" using btree_eq_map [OF assms(1) keys sorted] K assms(3) by simp
  moreover have "m' = map (\<lambda>j. (j, K j)) (btree_keys m')" using btree_eq_map [OF assms(2) refl sorted] K by simp
  ultimately show ?thesis by simp
qed

text \<open>The gathered points depend on the proofs only, not on who gathers them.\<close>

lemma dkg_gather_agree:
  assumes g: "each (dkg_gather_step S me sid) [] pcs = Ok points" "each (dkg_gather_step S me' sid) [] pcs' = Ok points'"
    and same: "set pcs = set pcs'" "inj_on pc_index (set pcs)"
  shows "points = points'"
proof (rule btree_ext)
  note a = dkg_gather_sound [OF g(1) btree_wf_Nil] and b = dkg_gather_sound [OF g(2) btree_wf_Nil]
  show "btree_wf points" "btree_wf points'" using a b by blast+
  fix k
  have at: "btree_get q k = Some P \<longleftrightarrow> (\<exists>pc\<in>set xs. pc_index pc = k \<and> P = dlog_point (pc_proof pc))"
    if "each (dkg_gather_step S i sid) [] xs = Ok q" "set xs = set pcs" for q xs P i
  proof -
    note s = dkg_gather_sound [OF that(1) btree_wf_Nil]
    have some: "btree_get q k = Some P' \<Longrightarrow> \<exists>pc\<in>set xs. pc_index pc = k \<and> P' = dlog_point (pc_proof pc)" for P'
      using s by (auto simp: btree_get_def)
    moreover have "btree_get q k = Some (dlog_point (pc_proof pc))" if "pc \<in> set xs" "pc_index pc = k" for pc
    proof -
      have "k \<in> pc_index ` set xs" using that by blast
      then have "btree_contains q k" using s by blast
      then obtain P' where P': "btree_get q k = Some P'" unfolding btree_contains_iff by blast
      then obtain pc' where "pc' \<in> set xs" "pc_index pc' = k" "P' = dlog_point (pc_proof pc')" using some by blast
      then show ?thesis using P' that \<open>set xs = set pcs\<close> inj_onD [OF same(2)] by metis
    qed
    ultimately show ?thesis by blast
  qed
  show "btree_get points k = btree_get points' k"
    using at [OF g(1) refl] at [OF g(2) same(1) [symmetric]] same(1) by (metis not_Some_eq)
qed

lemma dkg_step5_agree:
  fixes S :: "('f::field, 'g::ab_group_add) suite"
  assumes S: "suite_ok S" and p: "valid_parameters p" "unat (share_count p) < 255"
    and ok: "dkg_step5 S oc p me sid pcs = Ok (key, points)" "dkg_step5 S oc' p me' sid pcs' = Ok (key', points')"
    and same: "set pcs = set pcs'" "inj_on pc_index (set pcs)"
  shows "key = key' \<and> points = points'"
proof -
  note i = dkg_step5_eq_Ok_iff [OF suite_okD(3) [OF S] p]
  have pts: "points = points'" using dkg_gather_agree [OF _ _ same] ok unfolding i by blast
  have "unat (1 :: u8) + unat (threshold p) \<le> unat (share_count p) + 1" using p(1) by (simp add: valid_parameters_def word_le_nat_alt)
  then have first: "key = (\<Sum>j\<in>set (u8_range 1 (1 + threshold p)). smul S (point_at points j) (lagrange_zero (u8_range 1 (1 + threshold p)) j))"
    if "dkg_step5 S oc p me sid pcs = Ok (key, points)" for oc me pcs key points
    using conjunct2 [OF that [unfolded i]] by (drule_tac spec [of _ 1]) simp
  show ?thesis using first [OF ok(1)] first [OF ok(2)] pts by simp
qed

lemma dkg_chain_code_agree:
  assumes "dkg_chain_code S me n b2 b3 = Ok cc" "dkg_chain_code S me' n b2' b3' = Ok cc'"
    and same: "\<And>k. k \<in> set (all_parties n) \<Longrightarrow> btree_get b2 k = btree_get b2' k \<and> btree_get b3 k = btree_get b3' k"
  shows "cc = cc'"
proof -
  have "each (dkg_chain_code_step S me b2 b3) s xs = Ok c \<Longrightarrow> each (dkg_chain_code_step S me' b2' b3') s xs = Ok c' \<Longrightarrow> c = c'"
    if "set xs \<subseteq> set (u8_range_incl 1 n)" for s xs c c'
    using that
  proof (induction xs arbitrary: s)
    case (Cons x xs)
    have "PartyIndex x \<in> set (all_parties n)" using Cons.prems(3) by (simp add: all_parties_def)
    note gets = same [OF this]
    obtain t t' where t: "dkg_chain_code_step S me b2 b3 s x = Ok t" "each (dkg_chain_code_step S me b2 b3) t xs = Ok c"
      and t': "dkg_chain_code_step S me' b2' b3' s x = Ok t'" "each (dkg_chain_code_step S me' b2' b3') t' xs = Ok c'"
      using Cons.prems(1,2) by (auto simp: outcome_simps)
    have "party_index_unwrap x = Ok a \<Longrightarrow> a = PartyIndex x" for a
      by (auto simp: party_index_unwrap_def party_index_new_def split: if_splits)
    then have "t = t'" using t(1) t'(1) gets
      by (fastforce simp: dkg_chain_code_step_def message_from_def outcome_simps split: if_splits)
    then show ?case using Cons.IH t(2) t'(2) Cons.prems(3) by simp
  qed simp
  then show ?thesis using assms(1,2) unfolding dkg_chain_code_def by blast
qed

text \<open>
  C8: agreement. Two parties of one session that saw the same proofs, at most one under each index, and
  the same chain-code broadcasts, and whose phase 4 succeeds, end with the same public key
  package, key, chain code and address, whatever all others sent them privately.
\<close>

theorem dkg_agreement:
  fixes S :: "('f::field, 'g::ab_group_add) suite"
  assumes "suite_ok S" and "valid_parameters prm" "unat (share_count prm) < 255"
    and ok: "dkg_phase4 S oc \<lparr>sd_parameters = prm, sd_party_index = i, sd_session_id = sid\<rparr> pp pcs zk z2 z3 mk mr b2 b3 address_fn = Ok (p, pkg)"
      "dkg_phase4 S oc \<lparr>sd_parameters = prm, sd_party_index = j, sd_session_id = sid\<rparr> pp' pcs' zk' z2' z3' mk' mr' b2' b3' address_fn = Ok (p', pkg')"
    and "set pcs = set pcs'" "inj_on pc_index (set pcs)"
    and "\<And>k. k \<in> set (all_parties (share_count prm)) \<Longrightarrow> btree_get b2 k = btree_get b2' k \<and> btree_get b3 k = btree_get b3' k"
  shows "pkg = pkg' \<and> pk p = pk p' \<and> chain_code (derivation_data p) = chain_code (derivation_data p') \<and> address p = address p'"
proof (rule dkg_phase4_Ok [OF ok(1)], rule dkg_phase4_Ok [OF ok(2)], goal_cases)
  case (1 key points zs rs ss cc key' points' zs' rs' ss' cc')
  then have "key = key' \<and> points = points'" using dkg_step5_agree [OF assms(1-3)] assms(6,7) by simp
  moreover have "dkg_chain_code S i (share_count prm) b2 b3 = Ok cc" "dkg_chain_code S j (share_count prm) b2' b3' = Ok cc'"
    using 1 by simp_all
  then have "cc = cc'" by (rule dkg_chain_code_agree) (rule assms(8))
  ultimately show ?case using 1 by simp
qed

section \<open>The own entry\<close>

text \<open>The last entries count: those of one polynomial replace whatever came before.\<close>

lemma dkg_gather_overrides:
  assumes "each (dkg_gather_step S me sid) m0 pcs = Ok m" and "btree_wf m0"
    and "\<forall>pc\<in>set pcs. dlog_point (pc_proof pc) = f (pc_index pc)" and "k \<in> pc_index ` set pcs \<or> btree_get m0 k = Some (f k)"
  shows "btree_get m k = Some (f k)"
  using assms
proof (induction pcs arbitrary: m0)
  case (Cons pc pcs)
  let ?m = "btree_insert (pc_index pc) (dlog_point (pc_proof pc)) m0"
  have rest: "each (dkg_gather_step S me sid) ?m pcs = Ok m"
    using Cons.prems(1) by (auto simp: dkg_gather_step_eq_Ok_iff outcome_simps)
  have get: "btree_get ?m k = (if k = pc_index pc then Some (f k) else btree_get m0 k)"
    using Cons.prems(2,3) by (simp add: btree_get_insert)
  show ?case by (rule Cons.IH [OF rest btree_wf_insert [OF Cons.prems(2)]]) (use Cons.prems(3,4) get in auto)
qed simp

lemma dkg_step5_overridden:
  fixes S :: "('f::field, 'g::ab_group_add) suite"
  assumes S: "suite_ok S" and prm: "valid_parameters prm" "unat (share_count prm) < 255" and F: "length F = unat (threshold prm)"
    and ok: "dkg_step5 S oc prm me sid pcs = Ok (key, points)"
    and others: "\<forall>pc\<in>set forged. pc_index pc \<noteq> me \<longrightarrow> decommit_verify S (pc_proof pc) (pc_commitment pc) sid"
    and pts: "\<forall>pc\<in>set forged. dlog_point (pc_proof pc) = smul S (generator S) (share_of F (pc_index pc))"
    and all: "set (all_parties (share_count prm)) \<subseteq> pc_index ` set forged"
  shows "\<exists>points'. dkg_step5 S oc prm me sid (pcs @ forged) = Ok (smul S (generator S) (secret_of F), points') \<and>
     (\<forall>k\<in>set (all_parties (share_count prm)). btree_get points' k = Some (smul S (generator S) (share_of F k)))"
proof -
  let ?cs = "map (smul S (generator S)) F" and ?f = "\<lambda>k. smul S (generator S) (share_of F k)"
  note curve = suite_okD(1) [OF S]
  have g0: "each (dkg_gather_step S me sid) [] pcs = Ok points"
    using ok unfolding dkg_step5_eq_Ok_iff [OF suite_okD(3) [OF S] prm] by blast
  have wf: "btree_wf points" using dkg_gather_sound [OF g0 btree_wf_Nil] by blast
  obtain points' where g1: "each (dkg_gather_step S me sid) points forged = Ok points'" using dkg_gather_total others by blast
  then have g: "each (dkg_gather_step S me sid) [] (pcs @ forged) = Ok points'" by (simp add: each_append g0)
  have get: "btree_get points' k = Some (?f k)" if "k \<in> set (all_parties (share_count prm))" for k
    by (rule dkg_gather_overrides [OF g1 wf pts]) (use all that in blast)
  have "btree_get points' (PartyIndex j) = Some (horner (smul S) ?cs (scalar_of_u8 j))"
    if "1 \<le> unat j" "unat j \<le> unat (share_count prm)" for j
    using get [of "PartyIndex j"] that by (simp add: set_all_parties share_of_def horner_exponent [OF curve])
  from dkg_step5_from_points [OF S prm _ g this] F have "dkg_step5 S oc prm me sid (pcs @ forged) = Ok (horner (smul S) ?cs 0, points')" by simp
  then show ?thesis using get by (simp add: secret_of_def horner_exponent [OF curve])
qed

text \<open>
  C15: nothing ties the key to the party's own share. Whenever phase 4 of key generation succeeds, it also succeeds if
  further entries are appended to the proofs that lie on any polynomial in the exponent: their proofs are verified, but for an
  entry under the party's own index no proof is asked for, and it replaces the party's own. The
  key is then that of the polynomial of the entries, and the party's verifying share a point of it, while
  the share it keeps is the one it had.
\<close>

theorem own_point_unchecked:
  fixes S :: "('f::field, 'g::ab_group_add) suite"
  assumes S: "suite_ok S" and prm: "valid_parameters prm" "unat (share_count prm) < 255"
    and ok: "dkg_phase4 S oc \<lparr>sd_parameters = prm, sd_party_index = me, sd_session_id = sid\<rparr> pp pcs zk z2 z3 mk mr b2 b3 address_fn = Ok (p, pkg)"
    and F: "length F = unat (threshold prm)" "secret_of F \<noteq> 0" "secret_of F \<noteq> 1"
    and forged: "\<forall>pc\<in>set forged. pc_index pc \<noteq> me \<longrightarrow> decommit_verify S (pc_proof pc) (pc_commitment pc) sid"
      "\<forall>pc\<in>set forged. dlog_point (pc_proof pc) = smul S (generator S) (share_of F (pc_index pc))"
      "set (all_parties (share_count prm)) \<subseteq> pc_index ` set forged"
    and me: "me \<in> set (all_parties (share_count prm))"
  shows "\<exists>p' pkg'. dkg_phase4 S oc \<lparr>sd_parameters = prm, sd_party_index = me, sd_session_id = sid\<rparr> pp (pcs @ forged) zk z2 z3 mk mr b2 b3 address_fn =
       Ok (p', pkg') \<and> pk p' = smul S (generator S) (secret_of F) \<and> poly_point p' = pp \<and> poly_point p' = poly_point p \<and>
     verifying_share pkg' me = Some (smul S (generator S) (share_of F me))"
proof (rule dkg_phase4_Ok [OF ok], goal_cases)
  case (1 key points zs rs ss cc)
  note curve = suite_okD(1) [OF S]
  have own: "dkg_step5 S oc prm me sid pcs = Ok (key, points)" using 1(1) by simp
  obtain points' where s: "dkg_step5 S oc prm me sid (pcs @ forged) = Ok (smul S (generator S) (secret_of F), points')"
      "btree_get points' me = Some (smul S (generator S) (share_of F me))"
    using dkg_step5_overridden [OF S prm F(1) own forged] me by blast
  have "smul S (generator S) (secret_of F) \<noteq> 0" using F(2) curve by (auto simp: smul_eq_zero_iff curve_ok_def)
  moreover have "smul S (generator S) (secret_of F) \<noteq> generator S"
    using F(3) smul_generator_inject [OF curve, of "secret_of F" 1] smul_one [OF curve, of "generator S"] by simp
  ultimately show ?case using 1 s
    by (simp add: dkg_phase4_def Let_def public_key_package_new_def verifying_share_def)
qed

end
