(* ===== verification/WitnessesAgreement.thy ===== *)
theory WitnessesAgreement
  imports WitnessesProtocols Agreement
begin

text \<open>
  Instances of the properties of agreement: the run of key generation of two parties.
\<close>

lemma pair_valid: "valid_parameters two_of_two" "unat (share_count two_of_two) < 255"
  by (simp_all add: valid_parameters_def two_of_two_def)

lemma pair_members: "PartyIndex 1 \<in> set two_all" "PartyIndex 2 \<in> set two_all"
  by (simp_all add: two_of_two_def two_parties)

theorem dkg_agreement_witness:
  "\<exists>pp pp' pcs zk zk' z2 z2' z3 z3' mk mk' mr mr' b2 b3 p p' pkg pkg'.
     dkg_phase4 flat_suite True \<lparr>sd_parameters = two_of_two, sd_party_index = PartyIndex 1, sd_session_id = [1]\<rparr> pp pcs zk z2 z3 mk mr b2 b3
       (\<lambda>_. '''') = Ok (p, pkg) \<and>
     dkg_phase4 flat_suite True \<lparr>sd_parameters = two_of_two, sd_party_index = PartyIndex 2, sd_session_id = [1]\<rparr> pp' pcs zk' z2' z3' mk' mr' b2 b3
       (\<lambda>_. '''') = Ok (p', pkg') \<and> pkg = pkg' \<and> pk p = pk p'"
proof -
  obtain out2 out3 where r: "dkg_rounds flat_suite True two_of_two [1] (\<lambda>_. gf_rng) out2 out3" and f: "pair_formed out2 out3"
    using pair_run by blast
  let ?pcs = "map (\<lambda>j. proof_out (out2 j)) two_all"
  let ?b2 = "map (\<lambda>j. (j, chain2_out (out2 j))) two_all" and ?b3 = "map (\<lambda>j. (j, chain3_out (out3 j))) two_all"
  have ix: "pc_index (proof_out (out2 j)) = j" if "j \<in> set two_all" for j
    using dkg_rounds_sent [OF r that] by (auto simp: dkg_sent_def proof_sent_def)
  then have inj: "inj_on pc_index (set ?pcs)" by (auto simp: inj_on_def)
  from f obtain pty pkg where ok: "\<And>i. i \<in> set two_all \<Longrightarrow>
      dkg_phase4 flat_suite True \<lparr>sd_parameters = two_of_two, sd_party_index = i, sd_session_id = [1]\<rparr> (share_out (out2 i))
        ?pcs (zero_kept (out3 i)) (addressed_to z2_parties two_all (\<lambda>j. seeds2_out (out2 j)) i)
        (addressed_to z3_parties two_all (\<lambda>j. seeds3_out (out3 j)) i) (mul_kept (out3 i))
        (addressed_to tm_parties two_all (\<lambda>j. mul_out (out3 j)) i) ?b2 ?b3 (\<lambda>_. '''') = Ok (pty i, pkg i)"
    unfolding pair_formed_def by blast
  note agree = dkg_agreement [OF flat_suite_ok pair_valid ok [OF pair_members(1)] ok [OF pair_members(2)] refl inj]
  have "pkg (PartyIndex 1) = pkg (PartyIndex 2) \<and> pk (pty (PartyIndex 1)) = pk (pty (PartyIndex 2))"
    using agree by simp
  with ok [OF pair_members(1)] ok [OF pair_members(2)] show ?thesis by blast
qed

theorem own_point_unchecked_witness:
  "\<exists>data pp pcs zk z2 z3 mk mr b2 b3 p pkg.
     dkg_phase4 flat_suite True data pp pcs zk z2 z3 mk mr b2 b3 (\<lambda>_. '''') = Ok (p, pkg) \<and>
     pk p = (3 :: gf) \<and> verifying_share pkg (sd_party_index data) = Some 8"
proof -
  obtain out2 out3 where r: "dkg_rounds flat_suite True two_of_two [1] (\<lambda>_. gf_rng) out2 out3" and f: "pair_formed out2 out3"
    using pair_run by blast
  obtain pp pcs zk z2 z3 mk mr b2 b3 p pkg where ok:
    "dkg_phase4 flat_suite True \<lparr>sd_parameters = two_of_two, sd_party_index = PartyIndex 1, sd_session_id = [1]\<rparr> pp pcs zk z2 z3 mk mr b2 b3
       (\<lambda>_. '''') = Ok (p, pkg)" using f pair_members(1) unfolding pair_formed_def by blast
  obtain pf1 r1 where pf1: "dlog_prove flat_suite 8 [1] gf_rng = Ok (pf1, r1)" "distinct (rand_commitments pf1)"
    using flat_dlog_prove [OF rng_cycle_gf_rng] by blast
  obtain pf2 r2 where pf2: "dlog_prove flat_suite 13 [1] gf_rng = Ok (pf2, r2)" "distinct (rand_commitments pf2)"
    using flat_dlog_prove [OF rng_cycle_gf_rng] by blast
  have pt: "dlog_point pf1 = 8" "dlog_point pf2 = 13"
    using dlog_complete(2) [OF flat_suite_ok pf1] dlog_complete(2) [OF flat_suite_ok pf2] by simp_all
  let ?forged = "[\<lparr>pc_index = PartyIndex 1, pc_proof = pf1, pc_commitment = []\<rparr>,
     \<lparr>pc_index = PartyIndex 2, pc_proof = pf2, pc_commitment = dlog_commitment flat_suite pf2 [1]\<rparr>]"
  have F: "length [3, 5 :: gf] = unat (threshold two_of_two)" "secret_of [3, 5 :: gf] \<noteq> 0" "secret_of [3, 5 :: gf] \<noteq> 1"
    using of_nat_gf_inject [of 3 0] of_nat_gf_inject [of 3 1] by (simp_all add: two_of_two_def secret_of_def)
  have others: "\<forall>pc\<in>set ?forged. pc_index pc \<noteq> PartyIndex 1 \<longrightarrow> decommit_verify flat_suite (pc_proof pc) (pc_commitment pc) [1]"
    using dlog_complete(1) [OF flat_suite_ok pf2] by (simp add: decommit_verify_def)
  have pts: "\<forall>pc\<in>set ?forged. dlog_point (pc_proof pc) = smul flat_suite (generator flat_suite) (share_of [3, 5] (pc_index pc))"
    by (simp add: pt share_of_def scalar_of_u8_def)
  have all: "set two_all \<subseteq> pc_index ` set ?forged" by (simp add: two_of_two_def two_parties)
  from own_point_unchecked [OF flat_suite_ok pair_valid ok F others pts all pair_members(1)] obtain p' pkg' where
    "dkg_phase4 flat_suite True \<lparr>sd_parameters = two_of_two, sd_party_index = PartyIndex 1, sd_session_id = [1]\<rparr> pp (pcs @ ?forged) zk z2 z3 mk mr b2 b3
       (\<lambda>_. '''') = Ok (p', pkg')" "pk p' = smul flat_suite (generator flat_suite) (secret_of [3, 5])"
    "verifying_share pkg' (PartyIndex 1) = Some (smul flat_suite (generator flat_suite) (share_of [3, 5] (PartyIndex 1)))" by blast
  moreover have "smul flat_suite (generator flat_suite) (secret_of [3, 5]) = (3 :: gf)"
    "smul flat_suite (generator flat_suite) (share_of [3, 5] (PartyIndex 1)) = (8 :: gf)"
    by (simp_all add: secret_of_def share_of_def scalar_of_u8_def)
  ultimately show ?thesis by (metis session_data.select_convs(2))
qed

end
