(* ===== verification/Display.thy ===== *)
theory Display
  imports Derivation Messages
begin

text \<open>
  The texts of the errors: the \<open>Display\<close> implementations of \<open>protocols.rs\<close>, \<open>utilities/proofs.rs\<close>
  and \<open>protocols/messages.rs\<close>, and \<open>Abort::description\<close>, which a caller logs. Shown here: the texts
  of two aborts agree only if their reasons do, the reason with a free text apart, so that a
  log identifies what happened and with whom.
\<close>

section \<open>Numbers\<close>

text \<open>\<open>{}\<close> of an unsigned integer is \<open>show_nat\<close>; \<open>{:#04x}\<close> of a byte pads it to four characters with the prefix.\<close>

definition hex_digit :: "nat \<Rightarrow> char" where
  "hex_digit d = char_of (if d < 10 then 48 + d else 87 + d)"

definition show_hex_byte :: "u8 \<Rightarrow> string" where
  "show_hex_byte b = ''0x'' @ [hex_digit (unat b div 16), hex_digit (unat b mod 16)]"

section \<open>The texts\<close>

definition display_invalid_party_index :: "invalid_party_index \<Rightarrow> string" where
  "display_invalid_party_index _ = ''party index must be > 0''"

definition display_invalid_parameters :: "invalid_parameters \<Rightarrow> string" where
  "display_invalid_parameters _ = ''parameters must satisfy 1 < threshold <= share_count''"

definition display_proof_search_exhausted :: "proof_search_exhausted \<Rightarrow> string" where
  "display_proof_search_exhausted _ =
     ''Fischlin proof-of-work search exhausted without finding all required hash collisions''"

definition display_party_index :: "party_index \<Rightarrow> string" where
  "display_party_index i = show_nat (unat (as_u8 i))"

fun display_abort_reason :: "abort_reason \<Rightarrow> string" where
  "display_abort_reason (InvalidPartyIndexAbort i) =
     ''party index '' @ display_party_index i @ '' is out of valid range''"
| "display_abort_reason (WrongCounterpartyCount expected got) =
     ''wrong counterparty count: expected '' @ show_nat expected @ '', got '' @ show_nat got"
| "display_abort_reason (DuplicateCounterparty i) = ''duplicate counterparty: '' @ display_party_index i"
| "display_abort_reason SelfInCounterparties = ''own index in counterparty list''"
| "display_abort_reason (MissingMulState c) =
     ''missing multiplication state for party '' @ display_party_index c"
| "display_abort_reason (MisroutedMessage expected_receiver actual_receiver) =
     ''message addressed to '' @ display_party_index actual_receiver @ '', expected ''
       @ display_party_index expected_receiver"
| "display_abort_reason (UnexpectedSender s) = ''unexpected sender: '' @ display_party_index s"
| "display_abort_reason (DuplicateSender s) = ''duplicate message from party '' @ display_party_index s"
| "display_abort_reason (WrongMessageCount expected got) =
     ''wrong message count: expected '' @ show_nat expected @ '', got '' @ show_nat got"
| "display_abort_reason (MissingMessageFromParty p) = ''missing message from party '' @ display_party_index p"
| "display_abort_reason (ProofVerificationFailed c) =
     ''proof verification failed for party '' @ display_party_index c"
| "display_abort_reason (CommitmentMismatch c) = ''commitment mismatch for party '' @ display_party_index c"
| "display_abort_reason PolynomialInconsistency = ''polynomial inconsistency''"
| "display_abort_reason (TrivialInstancePoint c) =
     ''trivial instance point from party '' @ display_party_index c"
| "display_abort_reason TrivialPublicKey = ''trivial public key''"
| "display_abort_reason TrivialKeyShare = ''trivial key share''"
| "display_abort_reason (MissingCommittedPoint p) =
     ''missing committed point for party '' @ display_party_index p"
| "display_abort_reason (OtConsistencyCheckFailed c) =
     ''OT consistency check failed for party '' @ display_party_index c"
| "display_abort_reason (MultiplicationVerificationFailed c detail) =
     ''multiplication verification failed for party '' @ display_party_index c @ '': '' @ detail"
| "display_abort_reason (GammaUInconsistency c) = ''gamma-u inconsistency for party '' @ display_party_index c"
| "display_abort_reason SignatureVerificationFailed = ''signature verification failed''"
| "display_abort_reason ZeroDenominator = ''zero denominator in signature assembly''"
| "display_abort_reason LagrangeCoefficientFailed = ''failed to compute Lagrange coefficient''"
| "display_abort_reason InvalidXCoordinateHex = ''invalid x-coordinate hex''"
| "display_abort_reason (ZeroShareDecommitFailed c) =
     ''zero-share decommitment failed for party '' @ display_party_index c"
| "display_abort_reason (ChainCodeCommitmentFailed p) =
     ''chain code commitment failed for party '' @ display_party_index p"
| "display_abort_reason (PhaseCalledOutOfOrder phase) = phase"
| "display_abort_reason (InvalidHex detail) = ''invalid hex: '' @ detail"

definition description :: "abort \<Rightarrow> string" where
  "description a = display_abort_reason (reason a)"

fun display_message_error :: "message_error \<Rightarrow> string" where
  "display_message_error (Serialization s) = ''serialization error: '' @ s"
| "display_message_error (Deserialization s) = ''deserialization error: '' @ s"
| "display_message_error (TagMismatch expected tag) =
     ''tag mismatch: expected '' @ show_hex_byte expected @ '', found '' @ show_hex_byte tag"
| "display_message_error (NotFound s) = ''message not found for sender '' @ show_nat (unat s)"
| "display_message_error (InvalidFrame s) = ''invalid frame: '' @ s"

section \<open>The texts identify the reasons\<close>

lemma show_nat_inj [simp]: "show_nat m = show_nat n \<longleftrightarrow> m = n"
  by (metis show_nat_spec)

lemma display_party_index_inj [simp]: "display_party_index i = display_party_index j \<longleftrightarrow> i = j"
  by (auto simp: display_party_index_def party_index.expand word_unat_eq_iff)

text \<open>A number followed by something else than a digit is read back uniquely.\<close>

lemma digits_append_eq:
  assumes "list_all is_digit xs" and "list_all is_digit ys" and "\<not> is_digit u"
  shows "xs @ u # us = ys @ u # vs \<longleftrightarrow> xs = ys \<and> us = vs"
  using assms(1,2)
proof (induction xs arbitrary: ys)
  case Nil
  then show ?case using assms(3) by (cases ys) auto
next
  case (Cons x xs)
  then show ?case using assms(3) by (cases ys) auto
qed

lemma show_nat_append [simp]:
  "\<not> is_digit u \<Longrightarrow> show_nat m @ u # us = show_nat n @ u # vs \<longleftrightarrow> m = n \<and> us = vs"
  by (simp add: digits_append_eq show_nat_spec)

lemma display_party_index_append [simp]:
  "\<not> is_digit u \<Longrightarrow> display_party_index i @ u # us = display_party_index j @ u # vs \<longleftrightarrow> i = j \<and> us = vs"
  by (auto simp: display_party_index_def party_index.expand word_unat_eq_iff)

lemma not_digit_punctuation [simp]:
  "\<not> is_digit (CHR '','')" "\<not> is_digit (CHR '':'')" "\<not> is_digit (CHR '' '')"
  by (simp_all add: is_digit_def)

definition free_text :: "abort_reason \<Rightarrow> bool" where
  "free_text r = (case r of PhaseCalledOutOfOrder _ \<Rightarrow> True | _ \<Rightarrow> False)"

lemma display_abort_reason_inj:
  assumes "display_abort_reason r = display_abort_reason r'" and "\<not> free_text r" and "\<not> free_text r'"
  shows "r = r'"
  using assms by (cases r; cases r') (simp_all add: free_text_def)

theorem description_identifies:
  assumes "description a = description b" and "\<not> free_text (reason a)" and "\<not> free_text (reason b)"
  shows "reason a = reason b"
  using display_abort_reason_inj assms by (simp add: description_def)

text \<open>The errors of the message layer have different texts, too.\<close>

lemma of_char_hex_digit: "d < 16 \<Longrightarrow> (of_char (hex_digit d) :: nat) = (if d < 10 then 48 + d else 87 + d)"
  by (simp add: hex_digit_def of_char_of)

lemma hex_digit_inj: "m < 16 \<Longrightarrow> n < 16 \<Longrightarrow> hex_digit m = hex_digit n \<Longrightarrow> m = n"
proof -
  assume lt: "m < 16" "n < 16" and "hex_digit m = hex_digit n"
  then have "(if m < 10 then 48 + m else 87 + m) = (if n < 10 then 48 + n else 87 + n)"
    by (metis of_char_hex_digit)
  with lt show "m = n" by (simp split: if_splits)
qed

lemma show_hex_byte_inj [simp]: "show_hex_byte a = show_hex_byte b \<longleftrightarrow> a = b"
proof
  have less: "unat x div 16 < 16" for x :: u8 using unat_u8_bound [of x] by (simp add: div_less_iff_less_mult)
  assume "show_hex_byte a = show_hex_byte b"
  then have "unat a div 16 = unat b div 16" "unat a mod 16 = unat b mod 16"
    by (auto simp: show_hex_byte_def less intro: hex_digit_inj)
  then have "unat a = unat b" by (metis div_mult_mod_eq)
  then show "a = b" by (simp add: word_unat_eq_iff)
qed simp

lemma length_show_hex_byte: "length (show_hex_byte b) = 4"
  by (simp add: show_hex_byte_def)

lemma show_hex_byte_append [simp]:
  "show_hex_byte a @ xs = show_hex_byte b @ ys \<longleftrightarrow> a = b \<and> xs = ys"
  using show_hex_byte_inj [of a b] by (subst append_eq_append_conv) (simp_all add: length_show_hex_byte)

theorem display_message_error_inj:
  assumes "display_message_error e = display_message_error e'"
  shows "e = e'"
  using assms by (cases e; cases e') (simp_all add: word_unat_eq_iff)

end
