(* ===== verification/Randomness.thy ===== *)
theory Randomness
  imports Suite
begin

text \<open>
  Where the random numbers come from (\<open>utilities/rng.rs\<close>): the generator of the operating system,
  or, in a test build with the feature \<open>insecure-rng\<close>, children of a seeded generator that each
  thread keeps. Shown here: outside such a build no sequence of calls returns a seeded
  generator, whatever was called before; inside one, the calls of a thread are reproducible.
\<close>

section \<open>State and operations\<close>

text \<open>The compile-time switches \<open>cfg(test)\<close> and \<open>feature = "insecure-rng"\<close>.\<close>

record build =
  cfg_test :: bool
  feature_insecure_rng :: bool

text \<open>
  The \<open>rand\<close> crate is a parameter: the thread's generator, and \<open>StdRng\<close>'s \<open>seed_from_u64\<close> and
  \<open>from_rng\<close>, which draws the child's seed from the parent and so advances it.
\<close>

record ('t, 's) rand_crate =
  rand_rng :: 't
  seed_from_u64 :: "64 word \<Rightarrow> 's"
  from_rng :: "'s \<Rightarrow> 's \<times> 's"

datatype ('t, 's) generator_kind = ThreadRng 't | StdRng 's

definition DEFAULT_SEED :: "64 word" where "DEFAULT_SEED = 42"

text \<open>The \<open>thread_local\<close> cell \<open>RNG\<close> is \<open>None\<close> until the thread first reads it.\<close>

definition get_rng_seeded :: "('t, 's) rand_crate \<Rightarrow> 's option \<Rightarrow> ('t, 's) generator_kind \<times> 's option" where
  "get_rng_seeded R cell =
     (let parent = (case cell of None \<Rightarrow> seed_from_u64 R DEFAULT_SEED | Some p \<Rightarrow> p);
          (child, parent') = from_rng R parent
      in (StdRng child, Some parent'))"

definition get_rng :: "build \<Rightarrow> ('t, 's) rand_crate \<Rightarrow> 's option \<Rightarrow> ('t, 's) generator_kind \<times> 's option" where
  "get_rng b R cell =
     (if cfg_test b \<and> feature_insecure_rng b then get_rng_seeded R cell
      else (ThreadRng (rand_rng R), cell))"

text \<open>The generators that \<open>n\<close> calls of one thread return, and its cell afterwards.\<close>

fun get_rngs :: "build \<Rightarrow> ('t, 's) rand_crate \<Rightarrow> nat \<Rightarrow> 's option \<Rightarrow> ('t, 's) generator_kind list \<times> 's option" where
  "get_rngs b R 0 cell = ([], cell)"
| "get_rngs b R (Suc n) cell =
     (let (g, cell') = get_rng b R cell; (gs, cell'') = get_rngs b R n cell' in (g # gs, cell''))"

section \<open>What the calls return\<close>

theorem get_rngs_secure:
  assumes "\<not> (cfg_test b \<and> feature_insecure_rng b)"
  shows "get_rngs b R n cell = (replicate n (ThreadRng (rand_rng R)), cell)"
proof (induction n)
  case 0
  then show ?case by simp
next
  case (Suc n)
  have "get_rng b R cell = (ThreadRng (rand_rng R), cell)" using assms by (auto simp: get_rng_def)
  then show ?case by (simp add: Suc.IH)
qed

text \<open>In a test build the \<open>i\<close>-th child comes from the seed by \<open>i\<close> advances, in every thread.\<close>

definition advance :: "('t, 's) rand_crate \<Rightarrow> 's \<Rightarrow> 's" where
  "advance R parent = snd (from_rng R parent)"

definition nth_child :: "('t, 's) rand_crate \<Rightarrow> nat \<Rightarrow> 's \<Rightarrow> 's" where
  "nth_child R i parent = fst (from_rng R ((advance R ^^ i) parent))"

lemma get_rngs_from:
  fixes R :: "('t, 's) rand_crate"
  assumes "cfg_test b" and "feature_insecure_rng b"
  shows "get_rngs b R n (Some p) =
     (map (\<lambda>i. StdRng (nth_child R i p)) [0..<n], Some ((advance R ^^ n) p))"
proof (induction n arbitrary: p)
  case 0
  then show ?case by simp
next
  case (Suc n)
  let ?p' = "advance R p"
  have first: "get_rng b R (Some p) = (StdRng (nth_child R 0 p), Some ?p')"
    by (simp add: get_rng_def get_rng_seeded_def assms split_def Let_def nth_child_def advance_def)
  have child: "nth_child R i ?p' = nth_child R (Suc i) p" for i
    by (simp add: nth_child_def funpow_swap1 [of "advance R"])
  have "[0..<Suc n] = 0 # map Suc [0..<n]" by (simp add: upt_conv_Cons map_Suc_upt del: upt_Suc)
  then have "map (\<lambda>i. StdRng (nth_child R i p)) [0..<Suc n] =
     (StdRng :: 's \<Rightarrow> ('t, 's) generator_kind) (nth_child R 0 p) # map (\<lambda>i. StdRng (nth_child R i ?p')) [0..<n]"
    by (simp add: child comp_def del: upt_Suc)
  then show ?case by (simp add: first Suc.IH funpow_swap1 [of "advance R"] del: upt_Suc)
qed

theorem get_rngs_reproducible:
  assumes "cfg_test b" and "feature_insecure_rng b" and "n \<noteq> 0"
  shows "fst (get_rngs b R n None) = map (\<lambda>i. StdRng (nth_child R i (seed_from_u64 R 42))) [0..<n]"
proof -
  have "get_rngs b R n None = get_rngs b R n (Some (seed_from_u64 R 42))"
    using \<open>n \<noteq> 0\<close> by (cases n) (simp_all add: get_rng_def get_rng_seeded_def assms(1,2) DEFAULT_SEED_def)
  then show ?thesis by (simp add: get_rngs_from [OF assms(1,2)])
qed

end
