(* ===== verification/Wiping.thy ===== *)
theory Wiping
  imports Signing
begin

text \<open>
  Wiping a party (\<open>Zeroize\<close> and \<open>Drop\<close> of \<open>Party\<close> in \<open>protocols.rs\<close>, with the derived
  implementations of the types it contains). A wiped vector or string is empty, a wiped number
  0, a wiped array all zeros, a wiped scalar the default scalar 0. Shown here: what is left of a
  party depends on its public data alone, and it refuses to sign.
\<close>

section \<open>Operations\<close>

definition zeroize_array :: "bytes \<Rightarrow> bytes" where
  "zeroize_array b = map (\<lambda>_. 0) b"

definition seed_pair_zeroize :: "seed_pair \<Rightarrow> seed_pair" where
  "seed_pair_zeroize sp =
     \<lparr>lowest_index = False, index_counterparty = PartyIndex 0, seed = zeroize_array (seed sp)\<rparr>"

text \<open>A vector is wiped element by element and then emptied.\<close>

definition vec_zeroize :: "('a \<Rightarrow> 'a) \<Rightarrow> 'a list \<Rightarrow> 'a list" where
  "vec_zeroize wipe xs = take 0 (map wipe xs)"

definition zero_share_zeroize :: "zero_share \<Rightarrow> zero_share" where
  "zero_share_zeroize z = \<lparr>seeds = vec_zeroize seed_pair_zeroize (seeds z)\<rparr>"

definition ote_sender_zeroize :: "ote_sender \<Rightarrow> ote_sender" where
  "ote_sender_zeroize s =
     \<lparr>ote_correlation = vec_zeroize (\<lambda>_. False) (ote_correlation s), ote_seeds = vec_zeroize zeroize_array (ote_seeds s)\<rparr>"

definition ote_receiver_zeroize :: "ote_receiver \<Rightarrow> ote_receiver" where
  "ote_receiver_zeroize w =
     \<lparr>seeds0 = vec_zeroize zeroize_array (seeds0 w), seeds1 = vec_zeroize zeroize_array (seeds1 w)\<rparr>"

definition mul_sender_zeroize :: "'f::zero mul_sender \<Rightarrow> 'f mul_sender" where
  "mul_sender_zeroize s =
     \<lparr>sender_gadget = vec_zeroize (\<lambda>_. 0) (sender_gadget s), mul_ote_sender = ote_sender_zeroize (mul_ote_sender s)\<rparr>"

definition mul_receiver_zeroize :: "'f::zero mul_receiver \<Rightarrow> 'f mul_receiver" where
  "mul_receiver_zeroize w =
     \<lparr>receiver_gadget = vec_zeroize (\<lambda>_. 0) (receiver_gadget w), mul_ote_receiver = ote_receiver_zeroize (mul_ote_receiver w)\<rparr>"

definition deriv_data_zeroize :: "('f::zero, 'g) deriv_data \<Rightarrow> ('f, 'g) deriv_data" where
  "deriv_data_zeroize d =
     d\<lparr>depth := 0, child_number := 0, parent_fingerprint := zeroize_array (parent_fingerprint d),
       dd_poly_point := 0, chain_code := zeroize_array (chain_code d)\<rparr>"

text \<open>The values of a map are wiped in place, then the map is cleared.\<close>

definition wipe_values :: "('v \<Rightarrow> 'v) \<Rightarrow> ('k, 'v) btree_map \<Rightarrow> ('k, 'v) btree_map" where
  "wipe_values wipe m = map (\<lambda>(k, v). (k, wipe v)) m"

definition btree_clear :: "('k, 'v) btree_map \<Rightarrow> ('k, 'v) btree_map" where
  "btree_clear m = []"

definition party_zeroize :: "('f::zero, 'g) party \<Rightarrow> ('f, 'g) party" where
  "party_zeroize p =
     p\<lparr>party_session_id := vec_zeroize (\<lambda>_. 0) (party_session_id p),
       poly_point := 0,
       zero_share_of := zero_share_zeroize (zero_share_of p),
       mul_senders := btree_clear (wipe_values mul_sender_zeroize (mul_senders p)),
       mul_receivers := btree_clear (wipe_values mul_receiver_zeroize (mul_receivers p)),
       derivation_data := deriv_data_zeroize (derivation_data p),
       address := vec_zeroize (\<lambda>_. char_of (0::nat)) (address p)\<rparr>"

section \<open>What is left\<close>

lemma vec_zeroize_Nil [simp]: "vec_zeroize wipe xs = []"
  by (simp add: vec_zeroize_def)

lemma btree_clear_Nil [simp]: "btree_clear m = []"
  by (simp add: btree_clear_def)

lemma zeroize_array_eq: "zeroize_array b = replicate (length b) 0"
  by (simp add: zeroize_array_def map_replicate_const)

text \<open>The arrays of a party's derivation data have their lengths by their types.\<close>

definition arrays_ok :: "('f, 'g) party \<Rightarrow> bool" where
  "arrays_ok p \<longleftrightarrow> length (parent_fingerprint (derivation_data p)) = 4 \<and> length (chain_code (derivation_data p)) = 32"

definition public_part :: "('f, 'g) party \<Rightarrow> parameters \<times> party_index \<times> 'g \<times> 'g" where
  "public_part p = (party_parameters p, party_index_of p, pk p, dd_pk (derivation_data p))"

theorem party_zeroize_public:
  assumes "arrays_ok p" and "arrays_ok q" and "public_part p = public_part q"
  shows "party_zeroize p = party_zeroize q"
  using assms
  by (simp add: party_zeroize_def arrays_ok_def public_part_def zero_share_zeroize_def deriv_data_zeroize_def
      zeroize_array_eq)

lemma party_zeroize_idem: "party_zeroize (party_zeroize p) = party_zeroize p"
  by (simp add: party_zeroize_def zero_share_zeroize_def deriv_data_zeroize_def zeroize_array_eq)

lemma party_zeroize_simps [simp]:
  "mul_senders (party_zeroize p) = []" "mul_receivers (party_zeroize p) = []"
  "party_parameters (party_zeroize p) = party_parameters p" "party_index_of (party_zeroize p) = party_index_of p"
  by (simp_all add: party_zeroize_def)

text \<open>It cannot sign with anyone: the check of the first counterparty fails.\<close>

lemma wiped_check_step: "\<exists>a. sign_check_step (party_zeroize p) seen c = Err a"
  by (simp add: sign_check_step_def Let_def btree_contains_def)

theorem wiped_party_cannot_sign:
  assumes "2 \<le> threshold (party_parameters p)"
  shows "\<exists>a. sign_phase1 S oc (party_zeroize p) d r = Err a"
proof -
  have "1 \<le> threshold (party_parameters p)" using assms by unat_arith
  then have sub: "u8_sub oc (threshold (party_parameters p)) 1 = (Ok (threshold (party_parameters p) - 1) :: (abort, u8) outcome)"
    by (simp add: u8_sub_exact word_le_nat_alt)
  have pos: "unat (threshold (party_parameters p) - 1) \<noteq> 0" using assms by unat_arith
  have "\<exists>a. each (sign_check_step (party_zeroize p)) [] (c # cs) = Err a" for c cs
    using wiped_check_step [of p "[]" c] by auto
  then have "\<exists>a. each (sign_check_step (party_zeroize p)) [] (counterparties d) = Err a"
    if "length (counterparties d) = unat (threshold (party_parameters p) - 1)"
    using that pos by (cases "counterparties d") auto
  then show ?thesis by (auto simp: sign_phase1_def Let_def sub)
qed

end
