(* ===== verification/PrgCodec.thy ===== *)
theory PrgCodec
  imports OTExtension
begin

text \<open>
  How a vector of generator outputs travels (\<open>serialize_vec_prg\<close> and \<open>deserialize_vec_prg\<close> of
  \<open>utilities/ot/extension.rs\<close>): one byte string, cut again into pieces of 78 bytes. It is the
  encoding of the field \<open>u\<close> of the receiver's message and of the seeds the receiver of a multiplication keeps.
  Shown here: decoding inverts encoding, and it accepts exactly the byte strings that are encodings.
\<close>

section \<open>Operations\<close>

definition PRG_DATA_SIZE :: nat where "PRG_DATA_SIZE = 78"

text \<open>The serializer and what the deserializer has read are the format's, so arguments.\<close>

definition serialize_vec_prg :: "(bytes \<Rightarrow> ('e, 'o) outcome) \<Rightarrow> bytes list \<Rightarrow> ('e, 'o) outcome" where
  "serialize_vec_prg serializer rows = serializer (concat rows)"

text \<open>\<open>chunks\<close>: pieces of the given size, the last one with what remains.\<close>

function chunks :: "nat \<Rightarrow> 'a list \<Rightarrow> 'a list list" where
  "chunks n xs = (if xs = [] \<or> n = 0 then [] else take n xs # chunks n (drop n xs))"
  by pat_completeness auto

termination
  by (relation "measure (\<lambda>(n, xs). length xs)") auto

declare chunks.simps [simp del]

definition deserialize_vec_prg :: "(string \<Rightarrow> 'e) \<Rightarrow> ('e, bytes) outcome \<Rightarrow> ('e, bytes list) outcome" where
  "deserialize_vec_prg custom deserialized =
     and_then deserialized (\<lambda>concatenated.
     collect_try (\<lambda>chunk. if length chunk = PRG_DATA_SIZE then Ok chunk
                         else Err (custom ''could not convert slice to array''))
       (chunks PRG_DATA_SIZE concatenated))"

section \<open>Round trip and errors\<close>

lemma chunks_simps:
  "chunks n [] = []"
  "xs \<noteq> [] \<Longrightarrow> 0 < n \<Longrightarrow> chunks n xs = take n xs # chunks n (drop n xs)"
  by (subst chunks.simps, simp)+

lemma concat_chunks: "0 < n \<Longrightarrow> concat (chunks n xs) = xs"
proof (induction n xs rule: chunks.induct)
  case (1 n xs)
  then show ?case by (cases "xs = []") (simp_all add: chunks_simps)
qed

lemma chunks_concat:
  assumes "\<forall>row\<in>set rows. length row = n" and "0 < n"
  shows "chunks n (concat rows) = rows"
  using assms
proof (induction rows)
  case Nil
  then show ?case by (simp add: chunks_simps)
next
  case (Cons row rows)
  then have "row @ concat rows \<noteq> []" and "length row = n" by auto
  with Cons show ?case by (simp add: chunks_simps)
qed

lemma chunks_exact:
  "0 < n \<Longrightarrow> (\<forall>c\<in>set (chunks n xs). length c = n) \<longleftrightarrow> n dvd length xs"
proof (induction n xs rule: chunks.induct)
  case (1 n xs)
  consider "xs = []" | "xs \<noteq> []" "length xs < n" | "xs \<noteq> []" "n \<le> length xs" by linarith
  then show ?case
  proof cases
    case 1
    then show ?thesis by (simp add: chunks_simps)
  next
    case 2
    then show ?thesis using "1.prems" by (auto simp: chunks_simps dest: dvd_imp_le)
  next
    case 3
    then show ?thesis using 1 by (simp add: chunks_simps dvd_minus_self)
  qed
qed

lemma collect_exact:
  "collect_try (\<lambda>c. if P c then Ok c else Err e) cs = (if \<forall>c\<in>set cs. P c then Ok cs else Err e)"
  by (induction cs) auto

lemma deserialize_vec_prg_eq:
  "deserialize_vec_prg custom (Ok bs) =
     (if 78 dvd length bs then Ok (chunks 78 bs) else Err (custom ''could not convert slice to array''))"
  by (simp add: deserialize_vec_prg_def collect_exact PRG_DATA_SIZE_def chunks_exact)

theorem vec_prg_round_trip:
  assumes "\<forall>row\<in>set rows. length row = 78" and "serialize_vec_prg Ok rows = Ok bs"
  shows "deserialize_vec_prg custom (Ok bs) = Ok rows"
proof -
  have "bs = concat rows" using assms(2) by (simp add: serialize_vec_prg_def)
  moreover have "78 dvd length (concat rows)" using assms(1) by (induction rows) auto
  ultimately show ?thesis using chunks_concat [OF assms(1)] by (simp add: deserialize_vec_prg_eq)
qed

theorem vec_prg_canonical:
  assumes "deserialize_vec_prg custom (Ok bs) = Ok rows"
  shows "serialize_vec_prg Ok rows = Ok bs" and "\<forall>row\<in>set rows. length row = 78" and "78 * length rows = length bs"
proof -
  have d: "78 dvd length bs" and rows: "rows = chunks 78 bs"
    using assms by (simp_all add: deserialize_vec_prg_eq split: if_splits)
  show bs: "serialize_vec_prg Ok rows = Ok bs" by (simp add: serialize_vec_prg_def rows concat_chunks)
  show lens: "\<forall>row\<in>set rows. length row = 78" using d by (simp add: rows chunks_exact)
  have "length (concat rows) = 78 * length rows" using lens by (induction rows) auto
  then show "78 * length rows = length bs" using bs by (simp add: serialize_vec_prg_def)
qed

text \<open>A message of the wrong number of rows decodes, and the sender's dimension check refuses it.\<close>

theorem vec_prg_rows_checked:
  assumes "deserialize_vec_prg custom (Ok bs) = Ok (ote_u data)" and "length bs \<noteq> 78 * KAPPA"
  shows "\<exists>e. ote_sender_run S s sid width corrs data = Err e"
proof -
  have "length (ote_u data) \<noteq> KAPPA" using vec_prg_canonical(3) [OF assms(1)] assms(2) by auto
  then show ?thesis by (auto simp: ote_sender_run_def)
qed

end
