(* ===== verification/Spec2Isabelle.thy ===== *)
theory Spec2Isabelle
  imports Prelude BTreeMap Suite Protocols Hashes ZeroShares Proofs BaseOT FieldMul OTExtension
    Multiplication Lagrange Party Derivation Dkg Group Rounds Signing SigningHonest DkgHonest
    Concrete ConcreteRuns Witnesses ProtocolRuns WitnessesProtocols
    Sessions DkgSession Signature SignSession Messages ReKey WitnessesSessions Refresh RefreshHonest
    WitnessesRefresh Lifecycle MissingProofs WitnessesLifecycle Addresses WitnessesAddresses
    Secrecy Wire WitnessesWire Agreement WitnessesAgreement
    Display Randomness Wiping PrgCodec
begin

text \<open>
  Threshold ECDSA after DKLs23: a model of the crate \<open>dkls23-core\<close> (and of the address schemes of
  \<open>dkls23-secp256k1\<close> and \<open>dkls23-secp256r1\<close>), with the theorems that make it correct.

  \<^bold>\<open>The program.\<close> A group of \<open>n\<close> parties shares an ECDSA key so that any \<open>t\<close> of them can sign
  and fewer cannot. Key generation (four phases) or a trusted dealer (re-keying) makes the parties;
  afterwards they sign (four phases), derive BIP-32 children without talking, and refresh their shares
  (two variants, four phases each). The library does not send messages: every phase is a function from what the party
  kept and received to what it keeps and sends, and the caller delivers. Underneath lie two-party multiplication
  on correlated OT extension on endemic base OT, the pairwise zero shares, Fischlin's transform of
  Schnorr proofs, and domain-separated hashing.

  \<^bold>\<open>Conventions.\<close> A call is a value of \<^typ>\<open>('e, 'a) outcome\<close>: \<open>Ok\<close>, \<open>Err\<close>, \<open>Panic\<close> (unwrap, index out of
  range, checked overflow) or \<open>Diverge\<close> (a rejection sampling that never ends). Structs are records, enums are
  datatypes, machine integers are words; a Boolean parameter \<open>oc\<close> says whether the build checks arithmetic overflow
  (Rust's debug profile does, its release profile wraps), and theorems hold for both unless they fix it. A
  \<open>BTreeMap\<close> is an association list ordered by key. A loop with early returns is \<open>each\<close>,
  \<open>collect_try\<close> or \<open>collect_st\<close> of \<open>Prelude\<close>. A mutable session is a record, and each of its methods returns the session afterwards.

  \<^bold>\<open>Parameters.\<close> Third-party code is not defined here. \<open>suite\<close> (theory \<open>Suite\<close>) holds the curve's operations, the
  encodings, SHA-256, HMAC-SHA-512, RIPEMD-160 and hexadecimal coding, and \<open>suite_ok\<close> what the code relies on:
  the group laws, injective and canonical encodings, fixed lengths, and an order above 255. No theorem assumes
  that a hash is collision-free or random; where security rests on that, the theorem exhibits the collision or the two transcripts instead.
  \<open>rng\<close> is a record of endless tapes of scalars, bytes and bits, read from the front. \<open>message_type\<close> holds bincode's
  serialisation of one type, \<open>chain_env\<close> the hash functions and encoders of the address crates, \<open>hex_error\<close> the text
  of the hex crate's error, \<open>address_fn\<close> is the code's own function argument. \<open>Concrete\<close> instantiates the suite with a
  prime field of 257 elements, so that no hypothesis is empty.

  \<^bold>\<open>Theories and the files under src/dkls23-core/src they model.\<close>
  \<^item> \<open>Prelude\<close>, \<open>BTreeMap\<close>: outcomes, loops, integers, byte strings; the standard library's map, with
    the contract \<open>ordered_map\<close>.
  \<^item> \<open>Suite\<close>: \<open>curve.rs\<close>. \<open>Protocols\<close>, \<open>Party\<close>: \<open>protocols.rs\<close> (indices, parameters, aborts, message
    headers, the filing of messages by sender; parties and public key packages).
  \<^item> \<open>Hashes\<close>: \<open>utilities/hashes.rs\<close>, \<open>oracle_tags.rs\<close>, \<open>commits.rs\<close>; contract \<open>commitment_scheme\<close>.
  \<^item> \<open>ZeroShares\<close>: \<open>utilities/zero_shares.rs\<close>; contract \<open>zero_sharing\<close>: the shares of any subgroup add up to zero.
  \<^item> \<open>Proofs\<close>: \<open>utilities/proofs.rs\<close>: Schnorr, Fischlin, Chaum-Pedersen, the OR-composition; completeness
    and special soundness.
  \<^item> \<open>BaseOT\<close>: \<open>utilities/ot.rs\<close>, \<open>utilities/ot/base.rs\<close>; contract \<open>oblivious_transfer\<close>.
  \<^item> \<open>FieldMul\<close>, \<open>OTExtension\<close>: \<open>utilities/ot/extension.rs\<close>: the limb-wise multiplication in the field with
    \<open>2 ^ 208\<close> elements against the carry-less product, the transposition, the protocol; contract \<open>correlated_ot\<close>.
  \<^item> \<open>Multiplication\<close>: \<open>utilities/multiplication.rs\<close>; contract \<open>two_party_multiplication\<close>.
  \<^item> \<open>Lagrange\<close>, \<open>Group\<close>: the abstract specification. \<open>secret_sharing\<close> is what shares of a polynomial
    promise; \<open>group_ok\<close> says that parties form a group: shares of one polynomial, its key, agreeing zero-share seeds, paired
    multiplication states.
  \<^item> \<open>Dkg\<close>, \<open>DkgHonest\<close>: \<open>protocols/dkg.rs\<close>: every step and phase; what an accepting phase 4 has checked,
    and that an honest run makes a group. \<open>Agreement\<close>: two parties that saw the same broadcasts accept with the
    same key, shares and chain code, whoever sent them; and the one broadcast entry that is never checked. \<open>Rounds\<close>: the loops and the delivery that the protocols share.
  \<^item> \<open>DkgSession\<close>, \<open>SignSession\<close>, \<open>Sessions\<close>: \<open>protocols/dkg_session.rs\<close>, \<open>sign_session.rs\<close>; contract \<open>one_shot_phases\<close>: in every sequence
    of calls the phases succeed in order and at most once. \<open>Signature\<close>: \<open>protocols/signature.rs\<close>.
  \<^item> \<open>Signing\<close>, \<open>SigningHonest\<close>: \<open>protocols/signing.rs\<close>: soundness of phases 3 and 4 against arbitrary messages,
    whom an abort may blame, refinement of the ECDSA verification equation, and that an honest quorum gets one valid signature.
  \<^item> \<open>Derivation\<close>: \<open>protocols/derivation.rs\<close>. \<open>ReKey\<close>: \<open>protocols/re_key.rs\<close>. \<open>Refresh\<close>,
    \<open>RefreshHonest\<close>: \<open>protocols/refresh.rs\<close>. \<open>Messages\<close>: \<open>protocols/messages.rs\<close>. \<open>Wire\<close>: the message types
    with their tags (modules \<open>message_tags\<close>), and key generation over frames.
  \<^item> \<open>Secrecy\<close>: the other half of the claim above. Fragments and shares of fewer than \<open>t\<close> parties, also of before and
    after a refresh together, are consistent with every secret, each in exactly one way.
  \<^item> \<open>Lifecycle\<close>: the components together. \<open>group_life\<close> and \<open>party_life\<close> are the lives a group of honest parties, and
    a party among arbitrary others, can have; by induction, the one can always sign and the other is always complete.
    \<open>MissingProofs\<close>: a flaw of the setup that shows across base OT, key generation, signing and refresh.
  \<^item> \<open>Addresses\<close>: \<open>src/lib.rs\<close> of both curve crates.
  \<^item> \<open>Display\<close>: the texts of aborts and message errors, which identify their reasons. \<open>Wiping\<close>: \<open>Zeroize\<close> of a party; what
    is left depends on its public data alone. \<open>PrgCodec\<close>: the serialisation of generator outputs in \<open>utilities/ot/extension.rs\<close>.
    \<open>Randomness\<close>: \<open>utilities/rng.rs\<close>; only a test build with the feature \<open>insecure-rng\<close> ever returns a seeded generator.
  \<^item> \<open>Concrete\<close>, \<open>ConcreteRuns\<close>, \<open>ProtocolRuns\<close>, \<open>Witnesses\<close> and the other theories named so: runs on concrete data at which every property
    with hypotheses is applied. \<open>flat_suite\<close> has a constant hash, so that proofs are found at the first try.

  \<^bold>\<open>Honest runs and arbitrary messages.\<close> The theorems named \<open>..._correct\<close> take everyone's own phases as run and the messages
  delivered in any order, and show that the rest succeeds with the right result; they exclude the negligible events on which the code
  aborts (a share or key that is 0 or 1, repeated commitments of the Fischlin proof, ...) as named hypotheses. The
  theorems named \<open>..._sound\<close>, and those on sessions, aborts and lives of a party, assume nothing of the messages.

  \<^bold>\<open>Loops and bounds.\<close> Recursion is structural nearly everywhere. The searches of the Fischlin prover are bounded by 65535 tries in the code, and
  recurse on the number left. The generators of the OT extension are \<open>while\<close> loops of three rounds, unfolded in the proofs. The search in a message stream
  terminates by the bytes left. Only the sampling of nonzero scalars may run forever: \<open>random_nonzero\<close> is a
  partial function, it ends on every source that shows a nonzero scalar again and again (\<open>rng_live\<close>), and \<open>dlog_prove_ends\<close> lifts
  this to the prover. The number of parties is a byte; theorems on key generation ask for fewer than 255, and
  \<open>dkg_255_parties_never_finish\<close> shows why.

  \<^bold>\<open>Not modelled.\<close> The curve arithmetic, hash functions, generators, encoders and serialisation formats of third-party
  crates; serde attributes and the \<open>serde_bytes\<close> format; derived \<open>Debug\<close> output; that wiped memory is really
  overwritten, as wiping is modelled by the values it leaves, and wiping for the types of a phase's messages, whose values nobody reads
  afterwards; and the tests. Computational security (indistinguishability, simulation) and timing are out of reach of a functional model.
\<close>

end
